(* ===== verification/Prelude.thy ===== *)
theory Prelude
  imports "HOL-Library.Word" "HOL-Library.Multiset"
begin

unbundle bit_operations_syntax

text \<open>
  Shared vocabulary of the development: the machine types of the C and C++ sources, the
  collections of simplification facts the component theories fill, and generic lemmas on
  words and lists that more than one component uses.
\<close>

section \<open>Machine types\<close>

type_synonym u8 = "8 word"
type_synonym u16 = "16 word"
type_synonym u32 = "32 word"
type_synonym u64 = "64 word"

type_synonym bytes = "u8 list"

named_theorems mask_simps \<open>closed forms of the masks an identifier parser computes\<close>

section \<open>Words\<close>

lemma push_bit_one_minus_one [mask_simps]:
  "push_bit n 1 - 1 = (mask n :: 'a::len word)"
  by (simp add: mask_eq_exp_minus_1)

lemma bit_mask_shift:
  "bit (push_bit k (mask n) :: 'a::len word) i \<longleftrightarrow> i < LENGTH('a) \<and> k \<le> i \<and> i < k + n"
  by (auto simp: bit_simps)

lemma bit_beyond_value:
  fixes w :: "'a::len word"
  assumes "uint w < 2 ^ n" and "n \<le> i"
  shows "\<not> bit w i"
proof -
  have "take_bit n w = w"
  proof (rule word_eq_iff_unsigned [THEN iffD2])
    show "uint (take_bit n w) = uint w"
      using assms(1) by (simp add: unsigned_take_bit_eq take_bit_int_eq_self)
  qed
  then have "bit w i = bit (take_bit n w) i" by simp
  then show ?thesis using assms(2) by (simp add: bit_take_bit_iff)
qed

lemma bit_of_int_beyond:
  assumes "0 \<le> x" and "x < 2 ^ n" and "n \<le> i"
  shows "\<not> bit (word_of_int x :: 'a::len word) i"
proof -
  have "take_bit n x = x" using assms by (simp add: take_bit_int_eq_self)
  then have "bit x i \<longleftrightarrow> bit (take_bit n x) i" by simp
  then have "\<not> bit x i" using assms(3) by (simp add: bit_take_bit_iff)
  then show ?thesis by (simp add: bit_simps)
qed

section \<open>Lists\<close>

lemma take_Suc_snoc_nth: "i < length xs \<Longrightarrow> take (Suc i) xs = take i xs @ [xs ! i]"
  by (rule take_Suc_conv_app_nth)

lemma nth_append_exact [simp]: "(xs @ y # ys) ! length xs = y"
  by simp

section \<open>Results with an error\<close>

text \<open>The next step of a computation that may stop with an error.\<close>

definition and_then :: "'e + 'a \<Rightarrow> ('a \<Rightarrow> 'e + 'b) \<Rightarrow> 'e + 'b" where
  "and_then r f = (case r of Inl e \<Rightarrow> Inl e | Inr x \<Rightarrow> f x)"

lemma and_then_simps [simp]: "and_then (Inl e) f = Inl e" "and_then (Inr x) f = f x"
  by (simp_all add: and_then_def)

lemma and_then_Inr: "and_then r f = Inr y \<longleftrightarrow> (\<exists>x. r = Inr x \<and> f x = Inr y)"
  by (cases r) simp_all

lemma and_then_cong [fundef_cong]:
  "r = r' \<Longrightarrow> (\<And>x. r' = Inr x \<Longrightarrow> f x = g x) \<Longrightarrow> and_then r f = and_then r' g"
  by (cases r') simp_all

definition demand :: "'e \<Rightarrow> 'a option \<Rightarrow> 'e + 'a" where
  "demand e x = (case x of None \<Rightarrow> Inl e | Some y \<Rightarrow> Inr y)"

lemma demand_simps [simp]: "demand e (Some x) = Inr x" "demand e None = Inl e"
  by (simp_all add: demand_def)

lemma demand_Inr: "demand e x = Inr y \<longleftrightarrow> x = Some y"
  by (cases x) simp_all

text \<open>The error of one component as an error of the one that calls it.\<close>

definition lift_error :: "('e \<Rightarrow> 'f) \<Rightarrow> 'e + 'a \<Rightarrow> 'f + 'a" where
  "lift_error h r = (case r of Inl e \<Rightarrow> Inl (h e) | Inr x \<Rightarrow> Inr x)"

lemma lift_error_simps [simp]: "lift_error h (Inl e) = Inl (h e)" "lift_error h (Inr x) = Inr x"
  by (simp_all add: lift_error_def)

lemma lift_error_Inr: "lift_error h r = Inr y \<longleftrightarrow> r = Inr y"
  by (cases r) simp_all

section \<open>Multisets without repetition\<close>

definition once :: "'a multiset \<Rightarrow> bool" where
  "once M \<longleftrightarrow> (\<forall>x. count M x \<le> 1)"

lemma once_mset: "once (mset xs) \<longleftrightarrow> distinct xs"
proof (induction xs)
  case (Cons x xs)
  have "once (add_mset x M) \<longleftrightarrow> x \<notin># M \<and> once M" for M :: "'a multiset"
    by (force simp: once_def not_in_iff le_Suc_eq)
  then show ?case using Cons.IH by simp
qed (simp add: once_def)

lemma once_add_mset [simp]: "once (add_mset x M) \<longleftrightarrow> x \<notin># M \<and> once M"
  by (force simp: once_def not_in_iff le_Suc_eq)

end
