(* ===== verification/Bitset.thy ===== *)
theory Bitset
  imports Prelude
begin

text \<open>
  The bit arrays of \<^verbatim>\<open>vegito/include/util/bitset.h\<close>: a bit index addresses bit
  \<^verbatim>\<open>i & 7\<close> of byte \<^verbatim>\<open>i >> 3\<close> of an array of \<^verbatim>\<open>uint8_t\<close>. They
  hold the null bitmaps of edge properties and of property pages. The C code does not check the
  index; the lemmas ask for an index inside the array.
\<close>

definition BYTE_SIZE :: "nat \<Rightarrow> nat" where
  "BYTE_SIZE n = drop_bit 3 (n + 7)"

definition BYTE_INDEX :: "nat \<Rightarrow> nat" where
  "BYTE_INDEX i = drop_bit 3 i"

definition BIT_OFFSET :: "nat \<Rightarrow> nat" where
  "BIT_OFFSET i = i AND 7"

definition get_bit :: "bytes \<Rightarrow> nat \<Rightarrow> bool" where
  "get_bit data idx \<longleftrightarrow> data ! BYTE_INDEX idx AND push_bit (BIT_OFFSET idx) 1 \<noteq> 0"

definition set_bit_arr :: "bytes \<Rightarrow> nat \<Rightarrow> bytes" where
  "set_bit_arr data idx = data[BYTE_INDEX idx := data ! BYTE_INDEX idx OR push_bit (BIT_OFFSET idx) 1]"

definition reset_bit :: "bytes \<Rightarrow> nat \<Rightarrow> bytes" where
  "reset_bit data idx =
     data[BYTE_INDEX idx := data ! BYTE_INDEX idx AND NOT (push_bit (BIT_OFFSET idx) 1)]"

section \<open>Index arithmetic\<close>

lemma BYTE_SIZE_eq: "BYTE_SIZE n = (n + 7) div 8"
  by (simp add: BYTE_SIZE_def drop_bit_eq_div)

lemma BYTE_INDEX_eq: "BYTE_INDEX i = i div 8"
  by (simp add: BYTE_INDEX_def drop_bit_eq_div)

lemma BIT_OFFSET_eq: "BIT_OFFSET i = i mod 8"
proof -
  have "i AND 7 = take_bit 3 i"
    by (simp add: take_bit_eq_mask mask_eq_exp_minus_1 eval_nat_numeral)
  then show ?thesis by (simp add: BIT_OFFSET_def take_bit_eq_mod)
qed

lemma BYTE_INDEX_bound: "i < n \<Longrightarrow> BYTE_INDEX i < BYTE_SIZE n"
  unfolding BYTE_INDEX_eq BYTE_SIZE_eq by (simp add: less_mult_imp_div_less div_le_mono)

lemma BYTE_INDEX_bound_length: "i < 8 * length data \<Longrightarrow> BYTE_INDEX i < length data"
  by (simp add: BYTE_INDEX_eq less_mult_imp_div_less mult.commute)

lemma index_offset_inj:
  "BYTE_INDEX i = BYTE_INDEX j \<Longrightarrow> BIT_OFFSET i = BIT_OFFSET j \<Longrightarrow> i = j"
  unfolding BYTE_INDEX_eq BIT_OFFSET_eq by (metis div_mult_mod_eq)

lemma get_bit_iff_bit: "get_bit data i \<longleftrightarrow> bit (data ! BYTE_INDEX i) (BIT_OFFSET i)"
proof -
  have "(w AND push_bit n 1 \<noteq> 0) = bit w n" for w :: u8 and n
    by (auto simp: and_exp_eq_0_iff_not_bit)
  then show ?thesis by (simp add: get_bit_def)
qed

lemma length_set_bit_arr [simp]: "length (set_bit_arr data i) = length data"
  by (simp add: set_bit_arr_def)

lemma length_reset_bit [simp]: "length (reset_bit data i) = length data"
  by (simp add: reset_bit_def)

section \<open>The contract of a bit array\<close>

text \<open>
  What the users of the bitmaps (edge properties, property pages) rely on. The laws are stated
  for an index inside the array; the derived lemmas say what a sequence of writes leaves behind.
\<close>

locale bit_array =
  fixes get :: "'a \<Rightarrow> nat \<Rightarrow> bool"
    and put :: "'a \<Rightarrow> nat \<Rightarrow> 'a"
    and reset :: "'a \<Rightarrow> nat \<Rightarrow> 'a"
    and size_of :: "'a \<Rightarrow> nat"
  assumes get_put: "i < size_of a \<Longrightarrow> get (put a i) j = (j = i \<or> get a j)"
    and get_reset: "i < size_of a \<Longrightarrow> get (reset a i) j = (j \<noteq> i \<and> get a j)"
    and size_put: "size_of (put a i) = size_of a"
    and size_reset: "size_of (reset a i) = size_of a"
begin

definition assign :: "'a \<Rightarrow> nat \<Rightarrow> bool \<Rightarrow> 'a" where
  "assign a i b = (if b then put a i else reset a i)"

lemma get_assign: "i < size_of a \<Longrightarrow> get (assign a i b) j = (if j = i then b else get a j)"
  by (simp add: assign_def get_put get_reset)

lemma size_assign: "size_of (assign a i b) = size_of a"
  by (simp add: assign_def size_put size_reset)

primrec assign_list :: "'a \<Rightarrow> nat \<Rightarrow> bool list \<Rightarrow> 'a" where
  "assign_list a i [] = a"
| "assign_list a i (b # bs) = assign_list (assign a i b) (Suc i) bs"

lemma size_assign_list: "size_of (assign_list a i bs) = size_of a"
  by (induction bs arbitrary: a i) (simp_all add: size_assign)

lemma get_assign_list:
  "i + length bs \<le> size_of a \<Longrightarrow>
   get (assign_list a i bs) j = (if i \<le> j \<and> j < i + length bs then bs ! (j - i) else get a j)"
proof (induction bs arbitrary: a i)
  case Nil
  then show ?case by auto
next
  case (Cons b bs)
  have "i < size_of a" using Cons.prems by simp
  moreover have "get (assign_list (assign a i b) (Suc i) bs) j =
      (if Suc i \<le> j \<and> j < Suc i + length bs then bs ! (j - Suc i) else get (assign a i b) j)"
    by (rule Cons.IH) (use Cons.prems in \<open>simp add: size_assign\<close>)
  ultimately show ?case
    by (cases "j = i") (auto simp: get_assign nth_Cons' le_eq_less_or_eq)
qed

end

lemma get_set_bit_arr:
  assumes "i < 8 * length data"
  shows "get_bit (set_bit_arr data i) j = (j = i \<or> get_bit data j)"
proof (cases "BYTE_INDEX j = BYTE_INDEX i")
  case True
  have "BYTE_INDEX i < length data" using assms by (rule BYTE_INDEX_bound_length)
  moreover have "BIT_OFFSET i < 8" and "BIT_OFFSET j < 8" by (simp_all add: BIT_OFFSET_eq)
  moreover have "BIT_OFFSET j = BIT_OFFSET i \<longleftrightarrow> j = i"
    using True index_offset_inj by auto
  ultimately show ?thesis
    using True by (auto simp: get_bit_iff_bit set_bit_arr_def bit_simps)
next
  case False
  then have "j \<noteq> i" by auto
  with False show ?thesis by (simp add: get_bit_iff_bit set_bit_arr_def)
qed

lemma get_reset_bit:
  assumes "i < 8 * length data"
  shows "get_bit (reset_bit data i) j = (j \<noteq> i \<and> get_bit data j)"
proof (cases "BYTE_INDEX j = BYTE_INDEX i")
  case True
  have "BYTE_INDEX i < length data" using assms by (rule BYTE_INDEX_bound_length)
  moreover have "BIT_OFFSET i < 8" and "BIT_OFFSET j < 8" by (simp_all add: BIT_OFFSET_eq)
  moreover have "BIT_OFFSET j = BIT_OFFSET i \<longleftrightarrow> j = i"
    using True index_offset_inj by auto
  ultimately show ?thesis
    using True by (auto simp: get_bit_iff_bit reset_bit_def bit_simps)
next
  case False
  then have "j \<noteq> i" by auto
  with False show ?thesis by (simp add: get_bit_iff_bit reset_bit_def)
qed

interpretation bitmap: bit_array get_bit set_bit_arr reset_bit "\<lambda>data. 8 * length data"
  by unfold_locales (simp_all add: get_set_bit_arr get_reset_bit)

end
