(* ===== verification/Id_Parser.thy ===== *)
theory Id_Parser
  imports Prelude
begin

text \<open>
  \<^verbatim>\<open>vegito/include/fragment/id_parser.h\<close>: the packing of a vertex identifier into one
  64-bit word. From bit 0 upward the word holds the fragment (partition) number, the offset of the
  vertex inside its label, and seven bits of vertex label; bit 63 stays clear for the deletion
  markers of the vertex tables and edge lists. \<^verbatim>\<open>ID_TYPE\<close> is \<^verbatim>\<open>uint64_t\<close>;
  C++ \<^verbatim>\<open>int\<close> and \<^verbatim>\<open>int64_t\<close> arguments are HOL integers that the casts
  truncate.
\<close>

section \<open>The parser\<close>

definition MAX_VLABELS :: int where
  "MAX_VLABELS = 128"

text \<open>The counting loop \<^verbatim>\<open>while (max) { ++width; max >>= 1; }\<close> on the non-negative \<open>max\<close>.\<close>

fun bitwidth_loop :: "nat \<Rightarrow> nat \<Rightarrow> nat" where
  "bitwidth_loop m width = (if m = 0 then width else bitwidth_loop (m div 2) (Suc width))"

declare bitwidth_loop.simps [simp del]

definition num_to_bitwidth :: "int \<Rightarrow> nat" where
  "num_to_bitwidth num = (if num \<le> 2 then 1 else bitwidth_loop (nat (num - 1)) 0)"

record id_parser =
  offset_offset :: nat
  label_id_offset :: nat
  fid_mask :: u64
  lid_mask :: u64
  label_id_mask :: u64
  offset_mask :: u64
  offset_width :: nat

text \<open>
  \<open>Init\<close>: the assertion on the number of labels is the \<open>None\<close> branch. The fragment count is
  a \<^verbatim>\<open>uint64_t\<close> passed to an \<^verbatim>\<open>int\<close> parameter.
\<close>

definition Init :: "u64 \<Rightarrow> int \<Rightarrow> id_parser option" where
  "Init fnum label_num =
     (if label_num \<le> MAX_VLABELS then
        let fid_width = num_to_bitwidth (sint (ucast fnum :: u32));
            label_width = num_to_bitwidth MAX_VLABELS;
            o_width = 64 - fid_width - label_width - 1;
            l_off = 64 - label_width - 1
        in Some \<lparr>offset_offset = fid_width,
                 label_id_offset = l_off,
                 fid_mask = push_bit fid_width 1 - 1,
                 lid_mask = push_bit fid_width (push_bit (64 - fid_width - 1) 1 - 1),
                 label_id_mask = push_bit l_off (push_bit label_width 1 - 1),
                 offset_mask = push_bit fid_width (push_bit o_width 1 - 1),
                 offset_width = o_width\<rparr>
      else None)"

definition GetFid :: "id_parser \<Rightarrow> u64 \<Rightarrow> u64" where
  "GetFid p v = v AND fid_mask p"

definition GetLabelId :: "id_parser \<Rightarrow> u64 \<Rightarrow> int" where
  "GetLabelId p v = sint (ucast (drop_bit (label_id_offset p) (v AND label_id_mask p)) :: u32)"

definition GetOffset :: "id_parser \<Rightarrow> u64 \<Rightarrow> int" where
  "GetOffset p v = sint (drop_bit (offset_offset p) (v AND offset_mask p))"

definition GetLid :: "id_parser \<Rightarrow> u64 \<Rightarrow> u64" where
  "GetLid p v = v AND lid_mask p"

definition GenerateId :: "id_parser \<Rightarrow> u64 \<Rightarrow> int \<Rightarrow> int \<Rightarrow> u64" where
  "GenerateId p fid label offset =
     (fid AND fid_mask p) OR
     (push_bit (offset_offset p) (word_of_int offset) AND offset_mask p) OR
     (push_bit (label_id_offset p) (word_of_int label) AND label_id_mask p)"

definition GenerateDeletedId :: "int \<Rightarrow> u64" where
  "GenerateDeletedId offset =
     (let vid = word_of_int offset; m = push_bit (64 - 1) 1 in vid OR m)"

definition GenerateOuterId :: "id_parser \<Rightarrow> u64 \<Rightarrow> int \<Rightarrow> int \<Rightarrow> u64" where
  "GenerateOuterId p fid label offset =
     (let outer_max = push_bit (offset_width p) 1 - 1;
          outer_offset = outer_max - word_of_int offset
      in (fid AND fid_mask p) OR
         (push_bit (offset_offset p) outer_offset AND offset_mask p) OR
         (push_bit (label_id_offset p) (word_of_int label) AND label_id_mask p))"

definition GetOffsetWidth :: "id_parser \<Rightarrow> nat" where
  "GetOffsetWidth p = offset_width p"

section \<open>The width computation\<close>

lemma bitwidth_loop_bounds:
  "n < 2 ^ (bitwidth_loop n w - w) \<and> w \<le> bitwidth_loop n w \<and>
   (0 < n \<longrightarrow> 2 ^ (bitwidth_loop n w - Suc w) \<le> n \<and> Suc w \<le> bitwidth_loop n w)"
proof (induction n w rule: bitwidth_loop.induct)
  case (1 n w)
  show ?case
  proof (cases "n = 0")
    case True
    then show ?thesis by (simp add: bitwidth_loop.simps)
  next
    case False
    let ?r = "bitwidth_loop (n div 2) (Suc w)"
    have r: "bitwidth_loop n w = ?r" using False by (simp add: bitwidth_loop.simps [of n w])
    from 1 False have up: "n div 2 < 2 ^ (?r - Suc w)" and le: "Suc w \<le> ?r"
      and lo: "0 < n div 2 \<Longrightarrow> 2 ^ (?r - Suc (Suc w)) \<le> n div 2 \<and> Suc (Suc w) \<le> ?r"
      by simp_all
    have "n < 2 * 2 ^ (?r - Suc w)" using up by linarith
    also have "\<dots> = 2 ^ (?r - w)" using le by (metis Suc_diff_Suc Suc_le_lessD power_Suc)
    finally have A: "n < 2 ^ (?r - w)" .
    have B: "2 ^ (?r - Suc w) \<le> n"
    proof (cases "n div 2 = 0")
      case True
      then have "?r = Suc w" by (simp add: bitwidth_loop.simps)
      then show ?thesis using False by simp
    next
      case nz: False
      then have "2 ^ (?r - Suc (Suc w)) \<le> n div 2" and s: "Suc (Suc w) \<le> ?r" using lo by auto
      then have "2 * 2 ^ (?r - Suc (Suc w)) \<le> n" by linarith
      also have "2 * 2 ^ (?r - Suc (Suc w)) = 2 ^ (?r - Suc w)"
        using s by (metis Suc_diff_Suc Suc_le_lessD power_Suc)
      finally show ?thesis .
    qed
    show ?thesis using A B le False r by simp
  qed
qed

lemma num_to_bitwidth_pos: "0 < num_to_bitwidth num"
proof (cases "num \<le> 2")
  case False
  then show ?thesis using bitwidth_loop_bounds [of "nat (num - 1)" 0] by (simp add: num_to_bitwidth_def)
qed (simp add: num_to_bitwidth_def)

lemma num_to_bitwidth_covers: "num \<le> 2 ^ num_to_bitwidth num"
proof (cases "num \<le> 2")
  case True
  then show ?thesis by (simp add: num_to_bitwidth_def)
next
  case False
  let ?w = "num_to_bitwidth num"
  have "nat (num - 1) < 2 ^ ?w"
    using bitwidth_loop_bounds [of "nat (num - 1)" 0] False by (simp add: num_to_bitwidth_def)
  then have "int (nat (num - 1)) < int (2 ^ ?w)" by (simp only: of_nat_less_iff)
  then show ?thesis using False by simp
qed

lemma num_to_bitwidth_least:
  assumes "2 < num"
  shows "2 ^ (num_to_bitwidth num - 1) < num"
proof -
  let ?w = "num_to_bitwidth num"
  have "2 ^ (?w - 1) \<le> nat (num - 1)"
    using bitwidth_loop_bounds [of "nat (num - 1)" 0] assms by (simp add: num_to_bitwidth_def)
  then have "int (2 ^ (?w - 1)) \<le> int (nat (num - 1))" by (simp only: of_nat_le_iff)
  then show ?thesis using assms by simp
qed

lemma num_to_bitwidth_le_31:
  assumes "num < 2 ^ 31"
  shows "num_to_bitwidth num \<le> 31"
proof (cases "num \<le> 2")
  case False
  then have "(2::int) ^ (num_to_bitwidth num - 1) < 2 ^ 31"
    using num_to_bitwidth_least [of num] assms by linarith
  then have "num_to_bitwidth num - 1 < 31"
    by (rule power_less_imp_less_exp [rotated]) simp
  then show ?thesis by simp
qed (simp add: num_to_bitwidth_def)

lemma label_width_eq: "num_to_bitwidth MAX_VLABELS = 7"
  by (simp add: num_to_bitwidth_def MAX_VLABELS_def bitwidth_loop.simps)

section \<open>The layout of an initialised parser\<close>

definition fid_width_of :: "u64 \<Rightarrow> nat" where
  "fid_width_of fnum = num_to_bitwidth (sint (ucast fnum :: u32))"

lemma fid_width_bounds: "0 < fid_width_of fnum \<and> fid_width_of fnum \<le> 31"
proof -
  have "sint (ucast fnum :: u32) < 2 ^ 31"
    using sint_lt [of "ucast fnum :: u32"] by simp
  then show ?thesis
    by (simp add: fid_width_of_def num_to_bitwidth_pos num_to_bitwidth_le_31)
qed

text \<open>
  The closed form of \<open>Init\<close>: every mask is a run of ones, and the three runs tile bits 0 to 62.
\<close>

lemma Init_layout:
  "Init fnum n =
     (if n \<le> 128 then
        Some \<lparr>offset_offset = fid_width_of fnum, label_id_offset = 56,
              fid_mask = mask (fid_width_of fnum),
              lid_mask = push_bit (fid_width_of fnum) (mask (63 - fid_width_of fnum)),
              label_id_mask = push_bit 56 (mask 7),
              offset_mask = push_bit (fid_width_of fnum) (mask (56 - fid_width_of fnum)),
              offset_width = 56 - fid_width_of fnum\<rparr>
      else None)"
  unfolding Init_def label_width_eq
  by (simp add: MAX_VLABELS_def Let_def fid_width_of_def mask_simps diff_diff_eq add.commute
      del: push_bit_of_1)

definition layout :: "id_parser \<Rightarrow> nat \<Rightarrow> bool" where
  "layout p w \<longleftrightarrow> 0 < w \<and> w \<le> 31 \<and>
     p = \<lparr>offset_offset = w, label_id_offset = 56, fid_mask = mask w,
          lid_mask = push_bit w (mask (63 - w)), label_id_mask = push_bit 56 (mask 7),
          offset_mask = push_bit w (mask (56 - w)), offset_width = 56 - w\<rparr>"

lemma Init_imp_layout: "Init fnum n = Some p \<Longrightarrow> layout p (fid_width_of fnum)"
  using fid_width_bounds [of fnum] by (auto simp: Init_layout layout_def split: if_splits)

lemma Init_total: "n \<le> 128 \<Longrightarrow> \<exists>p. Init fnum n = Some p"
  by (simp add: Init_layout)

lemma layout_fields:
  assumes "layout p w"
  shows "offset_offset p = w" "label_id_offset p = 56" "fid_mask p = mask w"
    "lid_mask p = push_bit w (mask (63 - w))" "label_id_mask p = push_bit 56 (mask 7)"
    "offset_mask p = push_bit w (mask (56 - w))" "offset_width p = 56 - w" "0 < w" "w \<le> 31"
  using assms by (auto simp: layout_def)

text \<open>The arguments an identifier is generated from fit their fields.\<close>

definition fits :: "nat \<Rightarrow> u64 \<Rightarrow> int \<Rightarrow> int \<Rightarrow> bool" where
  "fits w fid label offset \<longleftrightarrow>
     uint fid < 2 ^ w \<and> 0 \<le> label \<and> label < 128 \<and> 0 \<le> offset \<and> offset < 2 ^ (56 - w)"

lemma bit_GenerateId:
  assumes "layout p w" and "fits w fid label offset"
  shows "bit (GenerateId p fid label offset) i \<longleftrightarrow>
    (if i < w then bit fid i
     else if i < 56 then bit offset (i - w)
     else if i < 63 then bit label (i - 56) else False)"
  using assms layout_fields [OF assms(1)]
  by (auto simp: GenerateId_def bit_simps)

lemma sint_word_of_int_small:
  assumes "0 \<le> x" and "x < 2 ^ (LENGTH('a::len) - Suc 0)"
  shows "sint (word_of_int x :: 'a word) = x"
  using assms by (simp add: signed_of_int signed_take_bit_int_eq_self)

lemma offset_word:
  assumes "layout p w" and "fits w fid label offset"
  shows "drop_bit w (GenerateId p fid label offset AND push_bit w (mask (56 - w))) =
    (word_of_int offset :: u64)"
proof (rule bit_word_eqI)
  fix i :: nat
  assume i: "i < LENGTH(64)"
  have w: "0 < w" "w \<le> 31" using layout_fields [OF assms(1)] by simp_all
  show "bit (drop_bit w (GenerateId p fid label offset AND push_bit w (mask (56 - w)))) i =
    bit (word_of_int offset :: u64) i"
  proof (cases "i < 56 - w")
    case True
    then show ?thesis
      using w i by (auto simp: bit_simps bit_GenerateId [OF assms])
  next
    case False
    then have "\<not> bit (word_of_int offset :: u64) i"
      using assms(2) by (intro bit_of_int_beyond [where n = "56 - w"]) (simp_all add: fits_def)
    with False show ?thesis using w by (auto simp: bit_simps)
  qed
qed

lemma label_word:
  assumes "layout p w" and "fits w fid label offset"
  shows "(ucast (drop_bit 56 (GenerateId p fid label offset AND push_bit 56 (mask 7))) :: u32) =
    word_of_int label"
proof (rule bit_word_eqI)
  fix i :: nat
  assume i: "i < LENGTH(32)"
  have w: "0 < w" "w \<le> 31" using layout_fields [OF assms(1)] by simp_all
  show "bit (ucast (drop_bit 56 (GenerateId p fid label offset AND push_bit 56 (mask 7))) :: u32) i =
    bit (word_of_int label :: u32) i"
  proof (cases "i < 7")
    case True
    then show ?thesis
      using w i by (auto simp: bit_simps bit_GenerateId [OF assms])
  next
    case False
    then have "\<not> bit (word_of_int label :: u32) i"
      using assms(2) by (intro bit_of_int_beyond [where n = 7]) (simp_all add: fits_def)
    with False show ?thesis using w by (auto simp: bit_simps)
  qed
qed

section \<open>Round trips\<close>

lemma GetFid_GenerateId:
  assumes "layout p w" and "fits w fid label offset"
  shows "GetFid p (GenerateId p fid label offset) = fid"
proof (rule bit_word_eqI)
  fix i :: nat
  assume "i < LENGTH(64)"
  have "w \<le> i \<Longrightarrow> \<not> bit fid i"
    using assms(2) bit_beyond_value [of fid w i] by (auto simp: fits_def)
  then show "bit (GetFid p (GenerateId p fid label offset)) i = bit fid i"
    using \<open>i < LENGTH(64)\<close>
    by (cases "i < w")
      (auto simp: GetFid_def layout_fields [OF assms(1)] bit_simps bit_GenerateId [OF assms])
qed

lemma GetOffset_GenerateId:
  assumes "layout p w" and "fits w fid label offset"
  shows "GetOffset p (GenerateId p fid label offset) = offset"
proof -
  have "offset < 2 ^ 63"
  proof -
    have "(2::int) ^ (56 - w) \<le> 2 ^ 63" by (rule power_increasing) simp_all
    then show ?thesis using assms(2) by (simp add: fits_def)
  qed
  then show ?thesis
    using assms(2)
    by (simp add: GetOffset_def layout_fields [OF assms(1)] offset_word [OF assms] fits_def
        sint_word_of_int_small del: drop_bit_and)
qed

lemma GetLabelId_GenerateId:
  assumes "layout p w" and "fits w fid label offset"
  shows "GetLabelId p (GenerateId p fid label offset) = label"
  using assms(2)
  by (simp add: GetLabelId_def layout_fields [OF assms(1)] label_word [OF assms] fits_def
      sint_word_of_int_small del: drop_bit_and)

lemma GenerateId_high_bit_clear:
  assumes "layout p w" and "fits w fid label offset"
  shows "\<not> bit (GenerateId p fid label offset) 63"
  using layout_fields [OF assms(1)] by (simp add: bit_GenerateId [OF assms])

lemma GetLid_GenerateId:
  assumes "layout p w" and "fits w fid label offset"
  shows "GetLid p (GenerateId p fid label offset) = GenerateId p 0 label offset"
proof (rule bit_word_eqI)
  fix i :: nat
  assume "i < LENGTH(64)"
  have z: "fits w 0 label offset" using assms(2) by (simp add: fits_def)
  have "\<not> bit (GenerateId p fid label offset) 63" by (rule GenerateId_high_bit_clear [OF assms])
  then show "bit (GetLid p (GenerateId p fid label offset)) i = bit (GenerateId p 0 label offset) i"
    using layout_fields [OF assms(1)] \<open>i < LENGTH(64)\<close>
    by (auto simp: GetLid_def bit_simps bit_GenerateId [OF assms] bit_GenerateId [OF assms(1) z])
qed

section \<open>Outer identifiers\<close>

text \<open>
  Outer vertices (those of other fragments) are numbered downwards from the greatest offset. The
  two spellings of the code agree: \<open>GenerateOuterId\<close>, and \<open>GenerateId\<close> at
  \<^verbatim>\<open>max_outer_id_offset - ov\<close>.
\<close>

definition max_outer_offset :: "id_parser \<Rightarrow> int" where
  "max_outer_offset p = 2 ^ GetOffsetWidth p - 1"

lemma outer_max_word: "push_bit n 1 - 1 = (word_of_int (2 ^ n - 1) :: 'a::len word)"
  by (simp add: push_bit_eq_mult)

lemma GenerateOuterId_eq:
  "GenerateOuterId p fid label offset = GenerateId p fid label (max_outer_offset p - offset)"
  by (simp add: GenerateOuterId_def GenerateId_def max_outer_offset_def GetOffsetWidth_def
      outer_max_word Let_def)

section \<open>The contract of an identifier codec\<close>

text \<open>
  What the converter and the graph store rely on: the three fields come back, and identifiers of
  different fields differ. \<open>ok\<close> says that the fields fit under the parser's configuration.
\<close>

locale id_codec =
  fixes gen :: "'p \<Rightarrow> 'f \<Rightarrow> 'l \<Rightarrow> 'o \<Rightarrow> 'id"
    and fid_of :: "'p \<Rightarrow> 'id \<Rightarrow> 'f"
    and label_of :: "'p \<Rightarrow> 'id \<Rightarrow> 'l"
    and offset_of :: "'p \<Rightarrow> 'id \<Rightarrow> 'o"
    and ok :: "'p \<Rightarrow> 'f \<Rightarrow> 'l \<Rightarrow> 'o \<Rightarrow> bool"
  assumes fid_of_gen: "ok p f l off \<Longrightarrow> fid_of p (gen p f l off) = f"
    and label_of_gen: "ok p f l off \<Longrightarrow> label_of p (gen p f l off) = l"
    and offset_of_gen: "ok p f l off \<Longrightarrow> offset_of p (gen p f l off) = off"
begin

lemma gen_inject:
  assumes "ok p f l off" and "ok p f' l' off'"
  shows "gen p f l off = gen p f' l' off' \<longleftrightarrow> f = f' \<and> l = l' \<and> off = off'"
  using fid_of_gen [OF assms(1)] label_of_gen [OF assms(1)] offset_of_gen [OF assms(1)]
    fid_of_gen [OF assms(2)] label_of_gen [OF assms(2)] offset_of_gen [OF assms(2)] by metis

lemma gen_inj_on: "(\<And>x. x \<in> A \<Longrightarrow> ok p f l x) \<Longrightarrow> inj_on (gen p f l) A"
  by (rule inj_onI) (simp add: gen_inject)

end

definition id_ok :: "id_parser \<Rightarrow> u64 \<Rightarrow> int \<Rightarrow> int \<Rightarrow> bool" where
  "id_ok p fid label offset \<longleftrightarrow>
     layout p (offset_offset p) \<and> fits (offset_offset p) fid label offset"

lemma id_ok_layout: "layout p w \<Longrightarrow> id_ok p fid label offset \<longleftrightarrow> fits w fid label offset"
  by (auto simp: id_ok_def layout_fields)

interpretation idp: id_codec GenerateId GetFid GetLabelId GetOffset id_ok
  by unfold_locales
    (auto simp: id_ok_def intro: GetFid_GenerateId GetLabelId_GenerateId GetOffset_GenerateId)

section \<open>Properties\<close>

text \<open>
C25: After \<open>Init\<close> for any fragment count and at most 128 labels, an identifier generated from a
fragment number, label and offset that fit their fields returns exactly those three from
\<open>GetFid\<close>, \<open>GetLabelId\<close> and \<open>GetOffset\<close>.
\<close>

theorem id_roundtrip:
  assumes "Init fnum n = Some p"
    and "fits (fid_width_of fnum) fid label offset"
  shows "GetFid p (GenerateId p fid label offset) = fid \<and>
    GetLabelId p (GenerateId p fid label offset) = label \<and>
    GetOffset p (GenerateId p fid label offset) = offset"
proof -
  have "layout p (fid_width_of fnum)" using assms(1) by (rule Init_imp_layout)
  with assms(2) have "id_ok p fid label offset" by (simp add: id_ok_layout)
  then show ?thesis by (simp add: idp.fid_of_gen idp.label_of_gen idp.offset_of_gen)
qed

lemma id_roundtrip_witness:
  "\<exists>p. Init 4 3 = Some p \<and> GetFid p (GenerateId p 2 1 10) = 2 \<and>
    GetLabelId p (GenerateId p 2 1 10) = 1 \<and> GetOffset p (GenerateId p 2 1 10) = 10"
proof -
  obtain p where p: "Init 4 3 = Some p" using Init_total [of 3 4] by auto
  have "fid_width_of 4 = 2"
    by (simp add: fid_width_of_def num_to_bitwidth_def bitwidth_loop.simps)
  then have "fits (fid_width_of 4) 2 1 10" by (simp add: fits_def)
  from id_roundtrip [OF p this] p show ?thesis by blast
qed

end
