(* ===== verification/Markers.thy ===== *)
theory Markers
  imports Prelude
begin

text \<open>
  Deletion markers. Vertex tables and edge lists are append-only arrays of 64-bit words: a
  deletion appends a word whose bit 63 is set and whose low 63 bits hold the position of the
  deleted word. Readers visit the array from its newest word to its oldest (or, for outer
  vertices, the mirror image) and keep the positions of the markers they have met in a
  \<^verbatim>\<open>std::priority_queue\<close>. The same loop body occurs in
  \<^verbatim>\<open>interfaces/fragment/iterator.h\<close> (vertex and edge iterators) and in
  \<^verbatim>\<open>vegito/src/graph/graph_ops/del_vertex.cc\<close>.
\<close>

section \<open>Marker words\<close>

definition delete_flag :: "u64 \<Rightarrow> u64" where
  "delete_flag v = drop_bit (8 * 8 - 1) v"

definition delete_offset_mask :: u64 where
  "delete_offset_mask = push_bit (8 * 8 - 1) 1 - 1"

definition delete_offset :: "u64 \<Rightarrow> nat" where
  "delete_offset v = unat (v AND delete_offset_mask)"

text \<open>\<^verbatim>\<open>del_loc | mask\<close>, the word a deletion appends.\<close>

definition mark :: "nat \<Rightarrow> u64" where
  "mark loc = of_nat loc OR push_bit (8 * 8 - 1) 1"

definition is_marker :: "u64 \<Rightarrow> bool" where
  "is_marker v \<longleftrightarrow> delete_flag v = 1"

lemma delete_flag_eq: "delete_flag v = (if bit v 63 then 1 else 0)"
proof (rule bit_word_eqI)
  fix i :: nat
  assume "i < LENGTH(64)"
  then show "bit (delete_flag v) i = bit (if bit v 63 then 1 else 0 :: u64) i"
    by (cases "i = 0") (auto simp: delete_flag_def bit_simps dest: bit_imp_le_length)
qed

lemma is_marker_iff_bit: "is_marker v \<longleftrightarrow> bit v 63"
  by (simp add: is_marker_def delete_flag_eq)

lemma delete_flag_cases: "delete_flag v = 0 \<longleftrightarrow> \<not> is_marker v"
  by (simp add: is_marker_def delete_flag_eq)

lemma delete_flag_one: "delete_flag v = 1 \<longleftrightarrow> is_marker v"
  by (simp add: is_marker_def)

lemma bit_mark: "bit (mark loc) i \<longleftrightarrow> bit (of_nat loc :: u64) i \<or> i = 63"
proof -
  have "push_bit (8 * 8 - 1) 1 = (push_bit 63 1 :: u64)" by simp
  then have "mark loc = of_nat loc OR push_bit 63 1" by (simp only: mark_def)
  then show ?thesis by (auto simp: bit_simps simp del: push_bit_of_1)
qed

lemma delete_offset_mask_eq: "delete_offset_mask = mask 63"
  by (simp add: delete_offset_mask_def mask_eq_exp_minus_1)

lemma is_marker_mark [simp]: "is_marker (mark loc)"
  by (simp add: is_marker_iff_bit bit_mark)

lemma delete_offset_mark:
  assumes "loc < 2 ^ 63"
  shows "delete_offset (mark loc) = loc"
proof -
  have "mark loc AND delete_offset_mask = (of_nat loc :: u64)"
  proof (rule bit_word_eqI)
    fix i :: nat
    assume i: "i < LENGTH(64)"
    have "\<not> bit (of_nat loc :: u64) 63"
      using assms bit_of_int_beyond [of "int loc" 63 63] by simp
    moreover have "i < 63 \<or> i = 63" using i by auto
    ultimately show "bit (mark loc AND delete_offset_mask) i = bit (of_nat loc :: u64) i"
      unfolding delete_offset_mask_eq by (auto simp: bit_and_iff bit_mark bit_mask_iff)
  qed
  then show ?thesis using assms by (simp add: delete_offset_def unat_of_nat)
qed

section \<open>Priority queues\<close>

text \<open>
  \<^verbatim>\<open>std::priority_queue\<close> as its users see it: the bag of its elements, and a top that
  no other element beats under \<open>better\<close>.
\<close>

locale prio_queue =
  fixes better :: "nat \<Rightarrow> nat \<Rightarrow> bool"
    and push :: "nat \<Rightarrow> 'q \<Rightarrow> 'q"
    and peek :: "'q \<Rightarrow> nat"
    and pop :: "'q \<Rightarrow> 'q"
    and is_empty :: "'q \<Rightarrow> bool"
    and none :: 'q
    and bag :: "'q \<Rightarrow> nat multiset"
    and inv :: "'q \<Rightarrow> bool"
  assumes better_irrefl: "\<not> better x x"
    and inv_none: "inv none"
    and bag_none: "bag none = {#}"
    and inv_push: "inv q \<Longrightarrow> inv (push x q)"
    and bag_push: "inv q \<Longrightarrow> bag (push x q) = add_mset x (bag q)"
    and is_empty_iff: "inv q \<Longrightarrow> is_empty q \<longleftrightarrow> bag q = {#}"
    and top_in: "inv q \<Longrightarrow> bag q \<noteq> {#} \<Longrightarrow> peek q \<in># bag q"
    and top_best: "inv q \<Longrightarrow> y \<in># bag q \<Longrightarrow> \<not> better y (peek q)"
    and inv_pop: "inv q \<Longrightarrow> bag q \<noteq> {#} \<Longrightarrow> inv (pop q)"
    and bag_pop: "inv q \<Longrightarrow> bag q \<noteq> {#} \<Longrightarrow> bag (pop q) = bag q - {#peek q#}"

text \<open>
  The queues of the code: \<^verbatim>\<open>std::priority_queue<size_t>\<close> (greatest on top) as a list
  in descending order, and the one with \<^verbatim>\<open>std::greater\<close> (least on top) as a list in
  ascending order.
\<close>

type_synonym prio = "nat list"

primrec max_push :: "nat \<Rightarrow> prio \<Rightarrow> prio" where
  "max_push x [] = [x]"
| "max_push x (y # ys) = (if y \<le> x then x # y # ys else y # max_push x ys)"

primrec min_push :: "nat \<Rightarrow> prio \<Rightarrow> prio" where
  "min_push x [] = [x]"
| "min_push x (y # ys) = (if x \<le> y then x # y # ys else y # min_push x ys)"

lemma mset_max_push: "mset (max_push x q) = add_mset x (mset q)"
  by (induction q) auto

lemma mset_min_push: "mset (min_push x q) = add_mset x (mset q)"
  by (induction q) auto

lemma set_max_push: "set (max_push x q) = insert x (set q)"
  by (induction q) auto

lemma set_min_push: "set (min_push x q) = insert x (set q)"
  by (induction q) auto

lemma sorted_max_push: "sorted_wrt (\<ge>) q \<Longrightarrow> sorted_wrt (\<ge>) (max_push x q)"
  by (induction q) (auto simp: set_max_push)

lemma sorted_min_push: "sorted_wrt (\<le>) q \<Longrightarrow> sorted_wrt (\<le>) (min_push x q)"
  by (induction q) (auto simp: set_min_push)

interpretation max_queue: prio_queue "\<lambda>x y. y < x" max_push hd tl "\<lambda>q. q = []" "[]" mset "sorted_wrt (\<ge>)"
proof unfold_locales
  fix q :: prio and y
  assume "sorted_wrt (\<ge>) q" and "y \<in># mset q"
  then show "\<not> hd q < y" by (cases q) auto
next
  fix q :: prio
  assume "sorted_wrt (\<ge>) q" and "mset q \<noteq> {#}"
  then show "sorted_wrt (\<ge>) (tl q)" and "mset (tl q) = mset q - {#hd q#}" by (cases q; auto)+
qed (auto simp: sorted_max_push mset_max_push)

interpretation min_queue: prio_queue "\<lambda>x y. x < y" min_push hd tl "\<lambda>q. q = []" "[]" mset "sorted_wrt (\<le>)"
proof unfold_locales
  fix q :: prio and y
  assume "sorted_wrt (\<le>) q" and "y \<in># mset q"
  then show "\<not> y < hd q" by (cases q) auto
next
  fix q :: prio
  assume "sorted_wrt (\<le>) q" and "mset q \<noteq> {#}"
  then show "sorted_wrt (\<le>) (tl q)" and "mset (tl q) = mset q - {#hd q#}" by (cases q; auto)+
qed (auto simp: sorted_min_push mset_min_push)

section \<open>The scan of a marked array\<close>

text \<open>
  The loop body shared by the readers, over the \<open>(position, word)\<close> pairs in the order they are
  visited: a marker is pushed; a plain word is skipped when its position is on top of the queue
  (which is then popped), and kept otherwise. The queue operations are arguments: edge lists and
  inner vertices use the max queue, outer vertices the min queue.
\<close>

primrec scan ::
  "(nat \<Rightarrow> 'q \<Rightarrow> 'q) \<Rightarrow> ('q \<Rightarrow> nat) \<Rightarrow> ('q \<Rightarrow> 'q) \<Rightarrow> ('q \<Rightarrow> bool) \<Rightarrow>
   'q \<Rightarrow> (nat \<times> u64) list \<Rightarrow> (nat \<times> u64) list" where
  "scan push peek pop is_empty q [] = []"
| "scan push peek pop is_empty q (e # es) =
     (if is_marker (snd e) then scan push peek pop is_empty (push (delete_offset (snd e)) q) es
      else if is_empty q then e # scan push peek pop is_empty q es
      else if peek q \<noteq> fst e then e # scan push peek pop is_empty q es
      else scan push peek pop is_empty (pop q) es)"

definition targets :: "(nat \<times> u64) list \<Rightarrow> nat list" where
  "targets es = map (delete_offset \<circ> snd) (filter (is_marker \<circ> snd) es)"

lemma targets_simps [simp]:
  "targets [] = []"
  "targets (e # es) = (if is_marker (snd e) then delete_offset (snd e) # targets es else targets es)"
  by (simp_all add: targets_def)

lemma targets_append: "targets (xs @ ys) = targets xs @ targets ys"
  by (simp add: targets_def)

text \<open>
  A visiting order in which every marker names a plain word that is still to come.
\<close>

primrec wf_visit :: "(nat \<Rightarrow> nat \<Rightarrow> bool) \<Rightarrow> (nat \<times> u64) list \<Rightarrow> bool" where
  "wf_visit b [] \<longleftrightarrow> True"
| "wf_visit b (e # es) \<longleftrightarrow>
     (\<forall>e' \<in> set es. b (fst e) (fst e')) \<and>
     (is_marker (snd e) \<longrightarrow> (\<exists>u. (delete_offset (snd e), u) \<in> set es \<and> \<not> is_marker u)) \<and>
     wf_visit b es"

lemma wf_visit_targets:
  "wf_visit b es \<Longrightarrow> t \<in> set (targets es) \<Longrightarrow> \<exists>u. (t, u) \<in> set es \<and> \<not> is_marker u"
  by (induction es) (auto split: if_splits)

definition alive :: "nat set \<Rightarrow> nat \<times> u64 \<Rightarrow> bool" where
  "alive dead e \<longleftrightarrow> \<not> is_marker (snd e) \<and> fst e \<notin> dead"

context prio_queue
begin

lemma scan_pending:
  assumes "inv q" and "wf_visit better es" and "once (bag q + mset (targets es))"
    and "\<And>t. t \<in># bag q \<Longrightarrow> \<exists>u. (t, u) \<in> set es \<and> \<not> is_marker u"
  shows "scan push peek pop is_empty q es =
    filter (alive (set_mset (bag q) \<union> set (targets es))) es"
  using assms
proof (induction es arbitrary: q)
  case Nil
  then show ?case by simp
next
  case (Cons e es)
  obtain p v where e: "e = (p, v)" by (cases e)
  have later: "\<And>t u. (t, u) \<in> set es \<Longrightarrow> better p t \<and> t \<noteq> p"
    using Cons.prems(2) e better_irrefl by fastforce
  have here: "p \<notin> fst ` set es"
  proof
    assume "p \<in> fst ` set es"
    then obtain u where "(p, u) \<in> set es" by auto
    then show False using later by blast
  qed
  have wf: "wf_visit better es" using Cons.prems(2) by simp
  have p_target: "p \<notin> set (targets es)"
    using wf_visit_targets [OF wf] later by blast
  show ?case
  proof (cases "is_marker v")
    case True
    let ?q = "push (delete_offset v) q"
    have "scan push peek pop is_empty ?q es =
        filter (alive (set_mset (bag ?q) \<union> set (targets es))) es"
    proof (rule Cons.IH)
      fix t
      assume "t \<in># bag ?q"
      then have "t = delete_offset v \<or> t \<in># bag q" using Cons.prems(1) by (simp add: bag_push)
      then show "\<exists>u. (t, u) \<in> set es \<and> \<not> is_marker u"
        using Cons.prems(2,4) e True by auto
    qed (use Cons.prems e True wf in \<open>auto simp: inv_push bag_push\<close>)
    then show ?thesis
      using Cons.prems(1) e True by (simp add: bag_push alive_def [of _ "(p, v)"])
  next
    case plain: False
    show ?thesis
    proof (cases "bag q = {#}")
      case True
      then have "scan push peek pop is_empty q es = filter (alive (set (targets es))) es"
        using Cons.IH [of q] Cons.prems wf plain e by simp
      then show ?thesis
        using True plain e p_target Cons.prems(1) by (simp add: is_empty_iff alive_def [of _ "(p, v)"])
    next
      case False
      have nonempty: "\<not> is_empty q" using False Cons.prems(1) by (simp add: is_empty_iff)
      have topin: "peek q \<in># bag q" using Cons.prems(1) False by (rule top_in)
      show ?thesis
      proof (cases "peek q = p")
        case True
        have bagpop: "bag (pop q) = bag q - {#p#}"
          using Cons.prems(1) False True by (simp add: bag_pop)
        have split: "bag q = add_mset p (bag (pop q))"
          using topin True bagpop by simp
        have gone: "p \<notin># bag (pop q)"
          using Cons.prems(3) split by auto
        have "scan push peek pop is_empty (pop q) es =
            filter (alive (set_mset (bag (pop q)) \<union> set (targets es))) es"
        proof (rule Cons.IH)
          fix t
          assume t: "t \<in># bag (pop q)"
          then have "t \<noteq> p" and "t \<in># bag q" using gone split by auto
          then show "\<exists>u. (t, u) \<in> set es \<and> \<not> is_marker u"
            using Cons.prems(4) [of t] e by auto
        qed (use Cons.prems False wf split plain e in \<open>auto simp: inv_pop\<close>)
        moreover have "filter (alive (set_mset (bag (pop q)) \<union> set (targets es))) es =
            filter (alive (insert p (set_mset (bag (pop q)) \<union> set (targets es)))) es"
          by (rule filter_cong [OF refl]) (use here in \<open>force simp: alive_def\<close>)
        ultimately show ?thesis
          using plain nonempty e True split by (simp add: alive_def [of _ "(p, v)"])
      next
        case other: False
        have p_pending: "p \<notin># bag q"
        proof
          assume "p \<in># bag q"
          then have "\<not> better p (peek q)" using Cons.prems(1) by (simp add: top_best)
          moreover have "better p (peek q)"
            using Cons.prems(4) [OF topin] other later e by auto
          ultimately show False by contradiction
        qed
        have "scan push peek pop is_empty q es =
            filter (alive (set_mset (bag q) \<union> set (targets es))) es"
        proof (rule Cons.IH)
          fix t
          assume "t \<in># bag q"
          then show "\<exists>u. (t, u) \<in> set es \<and> \<not> is_marker u"
            using Cons.prems(4) [of t] p_pending e by auto
        qed (use Cons.prems wf plain e in auto)
        then show ?thesis
          using plain nonempty e other p_pending p_target by (simp add: alive_def [of _ "(p, v)"])
      qed
    qed
  qed
qed

lemma scan_alive:
  assumes "wf_visit better es" and "distinct (targets es)"
  shows "scan push peek pop is_empty none es = filter (alive (set (targets es))) es"
  using scan_pending [of none es] assms
  by (simp add: inv_none bag_none once_mset)

end

section \<open>Logs\<close>

text \<open>
  An append-only array oldest first, with the deletions it records. \<open>live\<close> is the abstract
  content: the positions that hold a plain word no marker names.
\<close>

definition dead :: "u64 list \<Rightarrow> nat list" where
  "dead log = map delete_offset (filter is_marker log)"

definition marker_ok :: "u64 list \<Rightarrow> nat \<Rightarrow> bool" where
  "marker_ok log k \<longleftrightarrow> (is_marker (log ! k) \<longrightarrow>
     delete_offset (log ! k) < k \<and> \<not> is_marker (log ! delete_offset (log ! k)))"

definition wf_log :: "u64 list \<Rightarrow> bool" where
  "wf_log log \<longleftrightarrow> (\<forall>k < length log. marker_ok log k) \<and> distinct (dead log)"

definition live :: "u64 list \<Rightarrow> (nat \<times> u64) list" where
  "live log = filter (alive (set (dead log))) (enumerate 0 log)"

definition newest_first :: "u64 list \<Rightarrow> (nat \<times> u64) list" where
  "newest_first log = rev (enumerate 0 log)"

lemma dead_append: "dead (xs @ ys) = dead xs @ dead ys"
  by (simp add: dead_def)

lemma dead_snoc [simp]: "dead (log @ [v]) = dead log @ (if is_marker v then [delete_offset v] else [])"
  by (simp add: dead_def)

lemma dead_Nil [simp]: "dead [] = []"
  by (simp add: dead_def)

lemma newest_first_snoc [simp]: "newest_first (log @ [v]) = (length log, v) # newest_first log"
  by (simp add: newest_first_def enumerate_append_eq)

lemma newest_first_Nil [simp]: "newest_first [] = []"
  by (simp add: newest_first_def)

lemma in_newest_first: "(p, v) \<in> set (newest_first log) \<longleftrightarrow> p < length log \<and> log ! p = v"
  by (auto simp: newest_first_def in_set_enumerate_eq)

lemma wf_log_Nil [simp]: "wf_log []"
  by (simp add: wf_log_def)

lemma wf_log_snoc:
  "wf_log (log @ [v]) \<longleftrightarrow> wf_log log \<and>
     (is_marker v \<longrightarrow> delete_offset v < length log \<and> \<not> is_marker (log ! delete_offset v) \<and>
        delete_offset v \<notin> set (dead log))"
proof -
  have "marker_ok (log @ [v]) k = marker_ok log k" if "k < length log" for k
    using that by (auto simp: marker_ok_def nth_append)
  moreover have "marker_ok (log @ [v]) (length log) \<longleftrightarrow>
      (is_marker v \<longrightarrow> delete_offset v < length log \<and> \<not> is_marker (log ! delete_offset v))"
    by (auto simp: marker_ok_def nth_append)
  ultimately show ?thesis by (auto simp: wf_log_def less_Suc_eq)
qed

lemma wf_log_take: "wf_log log \<Longrightarrow> wf_log (take n log)"
proof (induction log rule: rev_induct)
  case (snoc v log)
  then show ?case by (cases "n \<le> length log") (auto simp: wf_log_snoc)
qed simp

lemma targets_newest_first: "targets (newest_first log) = rev (dead log)"
  by (induction log rule: rev_induct) auto

lemma wf_visit_newest_first: "wf_log log \<Longrightarrow> wf_visit (\<lambda>x y. y < x) (newest_first log)"
proof (induction log rule: rev_induct)
  case (snoc v log)
  then show ?case by (auto simp: wf_log_snoc in_newest_first)
qed simp

lemma scan_newest_first:
  assumes "wf_log log"
  shows "scan max_push hd tl (\<lambda>q. q = []) [] (newest_first log) = rev (live log)"
proof -
  have "distinct (targets (newest_first log))"
    using assms by (simp add: targets_newest_first wf_log_def)
  with max_queue.scan_alive [OF wf_visit_newest_first [OF assms]] show ?thesis
    by (simp add: targets_newest_first live_def rev_filter flip: newest_first_def)
qed

text \<open>Appending to a log: a plain word becomes live, a marker kills exactly the word it names.\<close>

lemma live_snoc_plain:
  "wf_log log \<Longrightarrow> \<not> is_marker v \<Longrightarrow> live (log @ [v]) = live log @ [(length log, v)]"
proof -
  assume wf: "wf_log log" and plain: "\<not> is_marker v"
  have "length log \<notin> set (dead log)"
  proof
    assume "length log \<in> set (dead log)"
    then obtain k where "k < length log" "is_marker (log ! k)" "delete_offset (log ! k) = length log"
      by (auto simp: dead_def in_set_conv_nth filter_set)
    then show False using wf by (auto simp: wf_log_def marker_ok_def)
  qed
  then show ?thesis using plain by (simp add: live_def enumerate_append_eq alive_def)
qed

lemma live_snoc_mark:
  assumes "is_marker v"
  shows "live (log @ [v]) = filter (\<lambda>e. fst e \<noteq> delete_offset v) (live log)"
  using assms
  by (auto simp: live_def enumerate_append_eq alive_def intro!: filter_cong)

end
