(* ===== verification/Vertex_Table.thy ===== *)
theory Vertex_Table
  imports Id_Parser Markers
begin

text \<open>
  The vertex table of one label. The writer side is \<^verbatim>\<open>GraphStore::VTable\<close> with
  \<^verbatim>\<open>add_inner\<close>, \<^verbatim>\<open>delete_inner\<close>, \<^verbatim>\<open>add_outer\<close> and
  \<^verbatim>\<open>delete_outer\<close> (\<^verbatim>\<open>vegito/src/graph/graph_store.h\<close>); the published
  boundaries are \<^verbatim>\<open>VTableMeta\<close> (\<^verbatim>\<open>vegito/include/fragment/shared_storage.h\<close>);
  the reader side is \<^verbatim>\<open>VertexIterator\<close>
  (\<^verbatim>\<open>interfaces/fragment/iterator.h\<close>) as \<^verbatim>\<open>GartFragment\<close> creates it.

  One array serves both kinds of vertices: inner vertices grow upwards from index 0, outer vertices
  grow downwards from the end. \<open>None\<close> is a failed assertion or an access outside the array.
\<close>

section \<open>The writer\<close>

record vtable =
  tbl :: "u64 list"
  vsize :: nat
  max_inner :: nat
  min_outer :: nat
  max_inner_location :: nat
  min_outer_location :: nat

text \<open>The initialisation in \<^verbatim>\<open>GraphStore::add_vgraph\<close>; the blob is a parameter.\<close>

definition new_vtable :: "u64 list \<Rightarrow> vtable" where
  "new_vtable blob =
     \<lparr>tbl = blob, vsize = length blob, max_inner = 0, min_outer = length blob,
      max_inner_location = 0, min_outer_location = length blob\<rparr>"

definition store_at :: "u64 list \<Rightarrow> nat \<Rightarrow> u64 \<Rightarrow> u64 list option" where
  "store_at xs i v = (if i < length xs then Some (xs[i := v]) else None)"

definition add_inner :: "u64 \<Rightarrow> vtable \<Rightarrow> vtable option" where
  "add_inner lid vt =
     (if max_inner_location vt = min_outer_location vt then None
      else case store_at (tbl vt) (max_inner_location vt) lid of
        None \<Rightarrow> None
      | Some t \<Rightarrow> Some (vt\<lparr>tbl := t, max_inner_location := max_inner_location vt + 1,
                            max_inner := max_inner vt + 1\<rparr>))"

text \<open>The searches of the deletions: the index found, no index, or an access outside the array.\<close>

datatype search = Found nat | Absent | Wild

function find_inner :: "id_parser \<Rightarrow> u64 list \<Rightarrow> u64 \<Rightarrow> nat \<Rightarrow> nat \<Rightarrow> search" where
  "find_inner p t off n i =
     (if n \<le> i then Absent
      else if length t \<le> i then Wild
      else if delete_flag (t ! i) = 1 then find_inner p t off n (i + 1)
      else if word_of_int (GetOffset p (t ! i)) = off then Found i
      else find_inner p t off n (i + 1))"
  by pat_completeness auto
termination by (relation "measure (\<lambda>(p, t, off, n, i). n - i)") auto

declare find_inner.simps [simp del]

definition delete_inner :: "id_parser \<Rightarrow> u64 \<Rightarrow> vtable \<Rightarrow> vtable option" where
  "delete_inner p off vt =
     (case find_inner p (tbl vt) off (max_inner_location vt) 0 of
        Wild \<Rightarrow> None
      | Absent \<Rightarrow> Some vt
      | Found i \<Rightarrow>
          (case store_at (tbl vt) (max_inner_location vt) (mark i) of
             None \<Rightarrow> None
           | Some t \<Rightarrow> Some (vt\<lparr>tbl := t, max_inner_location := max_inner_location vt + 1\<rparr>)))"

definition add_outer :: "u64 \<Rightarrow> vtable \<Rightarrow> vtable option" where
  "add_outer lid vt =
     (if max_inner_location vt = min_outer_location vt then None
      else if min_outer_location vt = 0 then None
      else case store_at (tbl vt) (min_outer_location vt - 1) lid of
        None \<Rightarrow> None
      | Some t \<Rightarrow> Some (vt\<lparr>tbl := t, min_outer := min_outer vt - 1,
                            min_outer_location := min_outer_location vt - 1\<rparr>))"

text \<open>
  The loop of \<^verbatim>\<open>delete_outer\<close> counts an unsigned index down while it is at least
  \<^verbatim>\<open>min_outer_location\<close>; below index 0 it wraps around and reads outside the array.
\<close>

fun find_outer :: "u64 list \<Rightarrow> u64 \<Rightarrow> nat \<Rightarrow> nat \<Rightarrow> search" where
  "find_outer t lid lo i =
     (if i < lo then Absent
      else if length t \<le> i then Wild
      else if delete_flag (t ! i) \<noteq> 1 \<and> t ! i = lid then Found i
      else if i = 0 then Wild
      else find_outer t lid lo (i - 1))"

declare find_outer.simps [simp del]

definition delete_outer :: "u64 \<Rightarrow> vtable \<Rightarrow> vtable option" where
  "delete_outer lid vt =
     (if vsize vt = 0 then None
      else case find_outer (tbl vt) lid (min_outer_location vt) (vsize vt - 1) of
        Wild \<Rightarrow> None
      | Absent \<Rightarrow> Some vt
      | Found i \<Rightarrow>
          (if min_outer_location vt = 0 then None
           else case store_at (tbl vt) (min_outer_location vt - 1) (mark i) of
             None \<Rightarrow> None
           | Some t \<Rightarrow> Some (vt\<lparr>tbl := t, min_outer_location := min_outer_location vt - 1\<rparr>)))"

section \<open>The published boundaries\<close>

record vtable_meta =
  meta_max :: nat
  meta_max_inner :: nat
  meta_min_outer :: nat
  meta_max_inner_location :: nat
  meta_min_outer_location :: nat

definition VTableMeta :: "nat \<Rightarrow> vtable_meta" where
  "VTableMeta n =
     \<lparr>meta_max = n, meta_max_inner = 0, meta_min_outer = n,
      meta_max_inner_location = 0, meta_min_outer_location = n\<rparr>"

definition set_boundary :: "nat \<Rightarrow> nat \<Rightarrow> vtable_meta \<Rightarrow> vtable_meta" where
  "set_boundary num_inner num_outer m =
     m\<lparr>meta_max_inner := 0 + num_inner, meta_min_outer := meta_max m - num_outer\<rparr>"

definition set_loc :: "nat \<Rightarrow> nat \<Rightarrow> vtable_meta \<Rightarrow> vtable_meta" where
  "set_loc inner_loc outer_loc m =
     m\<lparr>meta_max_inner_location := inner_loc, meta_min_outer_location := meta_max m - outer_loc\<rparr>"

section \<open>The reader\<close>

text \<open>
  What a fragment keeps of a vertex table: the mapped array (\<open>None\<close> for a null pointer), the
  two offsets and the length of the array. Pointers into the table are indices; they may be one
  before the first element.
\<close>

record vertex_view =
  view_table :: "u64 list option"
  inner_offset :: int
  outer_offset :: int
  table_len :: nat

definition view_of :: "vtable_meta \<Rightarrow> u64 list \<Rightarrow> vertex_view" where
  "view_of m t =
     \<lparr>view_table = Some t, inner_offset = int (meta_max_inner_location m) - 1,
      outer_offset = int (meta_min_outer_location m), table_len = length t\<rparr>"

record vertex_iter =
  vi_table :: "u64 list"
  addrs :: "(int \<times> int) list"
  high_to_low_flags :: "bool list"
  cur :: int
  end_at :: int
  loc :: nat
  high_to_low_flag :: bool
  inner_delete_offset :: prio
  outer_delete_offset :: prio

text \<open>The two directions of the search loop; each returns the cursor and the pending deletions.\<close>

function find_down :: "u64 list \<Rightarrow> int \<Rightarrow> int \<Rightarrow> prio \<Rightarrow> (int \<times> prio) option" where
  "find_down t c e q =
     (if c = e then Some (c, q)
      else if c < 0 \<or> int (length t) \<le> c then None
      else let v = t ! nat c in
        if delete_flag v = 1 then find_down t (c - 1) e (max_push (delete_offset v) q)
        else if q = [] then Some (c, q)
        else if nat c \<noteq> hd q then Some (c, q)
        else find_down t (c - 1) e (tl q))"
  by pat_completeness auto
termination by (relation "measure (\<lambda>(t, c, e, q). nat (c + 1))") auto

function find_up :: "u64 list \<Rightarrow> int \<Rightarrow> int \<Rightarrow> prio \<Rightarrow> (int \<times> prio) option" where
  "find_up t c e q =
     (if c = e then Some (c, q)
      else if c < 0 \<or> int (length t) \<le> c then None
      else let v = t ! nat c in
        if delete_flag v = 1 then find_up t (c + 1) e (min_push (delete_offset v) q)
        else if q = [] then Some (c, q)
        else if nat c \<noteq> hd q then Some (c, q)
        else find_up t (c + 1) e (tl q))"
  by pat_completeness auto
termination by (relation "measure (\<lambda>(t, c, e, q). nat (int (length t) - c))") auto

declare find_down.simps [simp del] find_up.simps [simp del]

definition find_next_valid_cursor :: "vertex_iter \<Rightarrow> vertex_iter option" where
  "find_next_valid_cursor it =
     (if \<not> high_to_low_flag it then
        (case find_up (vi_table it) (cur it) (end_at it) (outer_delete_offset it) of
           None \<Rightarrow> None
         | Some (c, q) \<Rightarrow> Some (it\<lparr>cur := c, outer_delete_offset := q\<rparr>))
      else
        (case find_down (vi_table it) (cur it) (end_at it) (inner_delete_offset it) of
           None \<Rightarrow> None
         | Some (c, q) \<Rightarrow> Some (it\<lparr>cur := c, inner_delete_offset := q\<rparr>)))"

definition VertexIterator ::
  "(int \<times> int) list \<Rightarrow> bool list \<Rightarrow> u64 list \<Rightarrow> vertex_iter option" where
  "VertexIterator as fs t =
     find_next_valid_cursor
       \<lparr>vi_table = t, addrs = as, high_to_low_flags = fs, cur = fst (as ! 0), end_at = snd (as ! 0),
        loc = 0, high_to_low_flag = fs ! 0, inner_delete_offset = [], outer_delete_offset = []\<rparr>"

definition switch_next_range :: "vertex_iter \<Rightarrow> (bool \<times> vertex_iter) option" where
  "switch_next_range it =
     (if \<not> (loc it = 0 \<and> length (addrs it) = 2) then Some (False, it)
      else
        let l = loc it + 1 in
        case find_next_valid_cursor
            (it\<lparr>loc := l, cur := fst (addrs it ! l), end_at := snd (addrs it ! l),
                high_to_low_flag := high_to_low_flags it ! l\<rparr>) of
          None \<Rightarrow> None
        | Some it' \<Rightarrow> Some (cur it' \<noteq> end_at it', it'))"

definition valid :: "vertex_iter \<Rightarrow> (bool \<times> vertex_iter) option" where
  "valid it = (if cur it = end_at it then switch_next_range it else Some (True, it))"

definition next_vertex :: "vertex_iter \<Rightarrow> vertex_iter option" where
  "next_vertex it =
     (if \<not> high_to_low_flag it then find_next_valid_cursor (it\<lparr>cur := cur it + 1\<rparr>)
      else find_next_valid_cursor (it\<lparr>cur := cur it - 1\<rparr>))"

definition vertex :: "vertex_iter \<Rightarrow> u64 option" where
  "vertex it =
     (if 0 \<le> cur it \<and> cur it < int (length (vi_table it)) then Some (vi_table it ! nat (cur it))
      else None)"

definition inner_range :: "vertex_view \<Rightarrow> int \<times> int" where
  "inner_range vw = (case view_table vw of None \<Rightarrow> (0, 0) | Some _ \<Rightarrow> (inner_offset vw, -1))"

definition outer_range :: "vertex_view \<Rightarrow> int \<times> int" where
  "outer_range vw =
     (case view_table vw of None \<Rightarrow> (0, 0) | Some _ \<Rightarrow> (outer_offset vw, int (table_len vw)))"

definition view_words :: "vertex_view \<Rightarrow> u64 list" where
  "view_words vw = (case view_table vw of None \<Rightarrow> [] | Some t \<Rightarrow> t)"

definition Vertices :: "vertex_view \<Rightarrow> vertex_iter option" where
  "Vertices vw = VertexIterator [inner_range vw, outer_range vw] [True, False] (view_words vw)"

definition InnerVertices :: "vertex_view \<Rightarrow> vertex_iter option" where
  "InnerVertices vw = VertexIterator [inner_range vw] [True] (view_words vw)"

definition OuterVertices :: "vertex_view \<Rightarrow> vertex_iter option" where
  "OuterVertices vw = VertexIterator [outer_range vw] [False] (view_words vw)"

text \<open>The client's loop \<^verbatim>\<open>while (it.valid()) { ... it.vertex() ...; it.next(); }\<close>.\<close>

partial_function (option) visit_vertices :: "vertex_iter \<Rightarrow> u64 list option" where
  [code]: "visit_vertices it =
     Option.bind (valid it) (\<lambda>(ok, it1).
       if \<not> ok then Some []
       else Option.bind (vertex it1) (\<lambda>v.
         Option.bind (next_vertex it1) (\<lambda>it2.
           Option.bind (visit_vertices it2) (\<lambda>vs. Some (v # vs)))))"

section \<open>Regions\<close>

text \<open>
  Both regions list their words newest first. In this order a writer puts a word in front, a reader
  visits from front to back, and a marker names a word behind it.
\<close>

definition inner_visit :: "u64 list \<Rightarrow> nat \<Rightarrow> (nat \<times> u64) list" where
  "inner_visit t n = map (\<lambda>i. (i, t ! i)) (rev [0..<n])"

definition outer_visit :: "u64 list \<Rightarrow> nat \<Rightarrow> (nat \<times> u64) list" where
  "outer_visit t lo = map (\<lambda>i. (i, t ! i)) [lo..<length t]"

definition visit_ok :: "(nat \<Rightarrow> nat \<Rightarrow> bool) \<Rightarrow> (nat \<times> u64) list \<Rightarrow> bool" where
  "visit_ok b es \<longleftrightarrow> wf_visit b es \<and> distinct (targets es)"

definition live_of :: "(nat \<times> u64) list \<Rightarrow> (nat \<times> u64) list" where
  "live_of es = filter (alive (set (targets es))) es"

definition vtable_ok :: "vtable \<Rightarrow> bool" where
  "vtable_ok vt \<longleftrightarrow>
     vsize vt = length (tbl vt) \<and> length (tbl vt) < 2 ^ 63 \<and>
     max_inner_location vt \<le> min_outer_location vt \<and> min_outer_location vt \<le> vsize vt \<and>
     visit_ok (\<lambda>x y. y < x) (inner_visit (tbl vt) (max_inner_location vt)) \<and>
     visit_ok (\<lambda>x y. x < y) (outer_visit (tbl vt) (min_outer_location vt))"

text \<open>The abstract content of a table: its live inner and outer vertices, newest first.\<close>

definition inner_vertices :: "vtable \<Rightarrow> (nat \<times> u64) list" where
  "inner_vertices vt = live_of (inner_visit (tbl vt) (max_inner_location vt))"

definition outer_vertices :: "vtable \<Rightarrow> (nat \<times> u64) list" where
  "outer_vertices vt = live_of (outer_visit (tbl vt) (min_outer_location vt))"

lemma inner_visit_Suc [simp]: "inner_visit t (Suc n) = (n, t ! n) # inner_visit t n"
  by (simp add: inner_visit_def)

lemma inner_visit_0 [simp]: "inner_visit t 0 = []"
  by (simp add: inner_visit_def)

lemma outer_visit_step: "lo < length t \<Longrightarrow> outer_visit t lo = (lo, t ! lo) # outer_visit t (Suc lo)"
  by (simp add: outer_visit_def upt_conv_Cons)

lemma outer_visit_end [simp]: "length t \<le> lo \<Longrightarrow> outer_visit t lo = []"
  by (simp add: outer_visit_def)

lemma in_inner_visit: "(p, v) \<in> set (inner_visit t n) \<longleftrightarrow> p < n \<and> v = t ! p"
  by (auto simp: inner_visit_def)

lemma in_outer_visit: "(p, v) \<in> set (outer_visit t lo) \<longleftrightarrow> lo \<le> p \<and> p < length t \<and> v = t ! p"
  by (auto simp: outer_visit_def)

lemma inner_visit_update: "n \<le> i \<Longrightarrow> inner_visit (t[i := v]) n = inner_visit t n"
  by (auto simp: inner_visit_def)

lemma outer_visit_update: "i < lo \<Longrightarrow> outer_visit (t[i := v]) lo = outer_visit t lo"
  by (auto simp: outer_visit_def)

lemma visit_ok_Cons:
  "visit_ok b ((p, v) # es) \<longleftrightarrow> visit_ok b es \<and> (\<forall>e \<in> set es. b p (fst e)) \<and>
     (is_marker v \<longrightarrow> delete_offset v \<notin> set (targets es) \<and>
        (\<exists>u. (delete_offset v, u) \<in> set es \<and> \<not> is_marker u))"
  by (auto simp: visit_ok_def)

lemma live_of_plain:
  assumes "visit_ok b ((p, v) # es)" and "\<not> b p p" and "\<not> is_marker v"
  shows "live_of ((p, v) # es) = (p, v) # live_of es"
proof -
  have "p \<notin> set (targets es)"
    using assms wf_visit_targets [of b es p] by (force simp: visit_ok_def)
  then show ?thesis using assms(3) by (simp add: live_of_def alive_def)
qed

lemma live_of_mark:
  "is_marker v \<Longrightarrow> live_of ((p, v) # es) = filter (\<lambda>e. fst e \<noteq> delete_offset v) (live_of es)"
  by (auto simp: live_of_def alive_def intro!: filter_cong)

section \<open>The searches\<close>

lemma find_inner_Found:
  "find_inner p t off n i = Found k \<Longrightarrow>
     i \<le> k \<and> k < n \<and> k < length t \<and> \<not> is_marker (t ! k) \<and> word_of_int (GetOffset p (t ! k)) = off"
  by (induction p t off n i rule: find_inner.induct)
    (subst (asm) (2) find_inner.simps, auto simp: is_marker_def Let_def split: if_splits)

lemma find_inner_not_Wild: "n \<le> length t \<Longrightarrow> find_inner p t off n i \<noteq> Wild"
  by (induction p t off n i rule: find_inner.induct) (subst find_inner.simps, simp)

lemma find_inner_Absent:
  "find_inner p t off n i = Absent \<Longrightarrow> i \<le> k \<Longrightarrow> k < n \<Longrightarrow>
     is_marker (t ! k) \<or> word_of_int (GetOffset p (t ! k)) \<noteq> off"
proof (induction p t off n i rule: find_inner.induct)
  case (1 p t off n i)
  then show ?case
    by (cases "k = i") (auto simp: find_inner.simps [of p t off n i] is_marker_def split: if_splits)
qed

lemma find_outer_Found:
  "find_outer t lid lo i = Found k \<Longrightarrow> lo \<le> k \<and> k \<le> i \<and> k < length t \<and> \<not> is_marker (t ! k) \<and> t ! k = lid"
proof (induction t lid lo i rule: find_outer.induct)
  case (1 t lid lo i)
  then show ?case
    by (auto simp: find_outer.simps [of t lid lo i] is_marker_def split: if_splits)
qed

lemma find_outer_not_Wild: "0 < lo \<Longrightarrow> i < length t \<Longrightarrow> find_outer t lid lo i \<noteq> Wild"
  by (induction t lid lo i rule: find_outer.induct) (subst find_outer.simps, simp)

section \<open>The writer keeps the table well formed\<close>

definition room :: "vtable \<Rightarrow> bool" where
  "room vt \<longleftrightarrow> max_inner_location vt < min_outer_location vt"

lemma region_bounds:
  assumes "vtable_ok vt" and "room vt"
  shows "max_inner_location vt < length (tbl vt)" "min_outer_location vt \<le> length (tbl vt)"
    "0 < min_outer_location vt" "min_outer_location vt - 1 < length (tbl vt)"
    "max_inner_location vt \<le> min_outer_location vt - 1" "vsize vt = length (tbl vt)"
    "0 < length (tbl vt)" "length (tbl vt) < 2 ^ 63"
  using assms by (auto simp: vtable_ok_def room_def)

text \<open>What each kind of write does to the two regions.\<close>

lemma write_inner:
  assumes "vtable_ok vt" and "room vt"
  shows "inner_visit ((tbl vt)[max_inner_location vt := v]) (Suc (max_inner_location vt)) =
      (max_inner_location vt, v) # inner_visit (tbl vt) (max_inner_location vt)"
    and "outer_visit ((tbl vt)[max_inner_location vt := v]) (min_outer_location vt) =
      outer_visit (tbl vt) (min_outer_location vt)"
  using assms region_bounds [OF assms]
  by (simp_all add: inner_visit_update outer_visit_update room_def)

lemma write_outer:
  assumes "vtable_ok vt" and "room vt"
  shows "outer_visit ((tbl vt)[min_outer_location vt - 1 := v]) (min_outer_location vt - 1) =
      (min_outer_location vt - 1, v) # outer_visit (tbl vt) (min_outer_location vt)"
    and "inner_visit ((tbl vt)[min_outer_location vt - 1 := v]) (max_inner_location vt) =
      inner_visit (tbl vt) (max_inner_location vt)"
  using assms region_bounds [OF assms]
  by (simp_all add: outer_visit_step inner_visit_update outer_visit_update)

lemma ok_write_inner:
  assumes "vtable_ok vt" and "room vt"
    and "visit_ok (\<lambda>x y. y < x)
      ((max_inner_location vt, v) # inner_visit (tbl vt) (max_inner_location vt))"
  shows "vtable_ok (vt\<lparr>tbl := (tbl vt)[max_inner_location vt := v],
    max_inner_location := max_inner_location vt + 1, max_inner := k\<rparr>)"
  using assms region_bounds [OF assms(1,2)] write_inner [OF assms(1,2), of v]
  by (simp add: vtable_ok_def room_def)

lemma ok_write_outer:
  assumes "vtable_ok vt" and "room vt"
    and "visit_ok (\<lambda>x y. x < y)
      ((min_outer_location vt - 1, v) # outer_visit (tbl vt) (min_outer_location vt))"
  shows "vtable_ok (vt\<lparr>tbl := (tbl vt)[min_outer_location vt - 1 := v],
    min_outer := k, min_outer_location := min_outer_location vt - 1\<rparr>)"
  using assms region_bounds [OF assms(1,2)] write_outer [OF assms(1,2), of v]
  by (simp add: vtable_ok_def room_def)

section \<open>Histories of a table\<close>

datatype vop = AddInner u64 | DeleteInner u64 | AddOuter u64 | DeleteOuter u64

primrec apply_vop :: "id_parser \<Rightarrow> vop \<Rightarrow> vtable \<Rightarrow> vtable option" where
  "apply_vop p (AddInner lid) vt = add_inner lid vt"
| "apply_vop p (DeleteInner off) vt = delete_inner p off vt"
| "apply_vop p (AddOuter lid) vt = add_outer lid vt"
| "apply_vop p (DeleteOuter lid) vt = delete_outer lid vt"

definition has_offset :: "id_parser \<Rightarrow> u64 \<Rightarrow> u64 \<Rightarrow> bool" where
  "has_offset p off v \<longleftrightarrow> word_of_int (GetOffset p v) = off"

text \<open>
  The clients' obligations: there is room, an added word is an identifier, and a deleted vertex
  occurs once in its region and has not been deleted before.
\<close>

definition only_live :: "(u64 \<Rightarrow> bool) \<Rightarrow> (nat \<times> u64) list \<Rightarrow> bool" where
  "only_live P es \<longleftrightarrow>
     (case filter (\<lambda>e. \<not> is_marker (snd e) \<and> P (snd e)) es of
        [e] \<Rightarrow> fst e \<notin> set (targets es)
      | _ \<Rightarrow> False)"

primrec vop_ok :: "id_parser \<Rightarrow> vtable \<Rightarrow> vop \<Rightarrow> bool" where
  "vop_ok p vt (AddInner lid) \<longleftrightarrow> room vt \<and> \<not> is_marker lid"
| "vop_ok p vt (DeleteInner off) \<longleftrightarrow> room vt \<and>
     only_live (has_offset p off) (inner_visit (tbl vt) (max_inner_location vt))"
| "vop_ok p vt (AddOuter lid) \<longleftrightarrow> room vt \<and> \<not> is_marker lid"
| "vop_ok p vt (DeleteOuter lid) \<longleftrightarrow> room vt \<and>
     only_live (\<lambda>v. v = lid) (outer_visit (tbl vt) (min_outer_location vt))"

lemma only_live_unique:
  assumes "only_live P es" and "(k, v) \<in> set es" and "\<not> is_marker v" and "P v"
    and fn: "\<And>x. x \<in> set es \<Longrightarrow> fst x = k \<Longrightarrow> snd x = v"
  shows "k \<notin> set (targets es)"
    and "filter (\<lambda>e. fst e \<noteq> k) (live_of es) = filter (\<lambda>e. \<not> P (snd e)) (live_of es)"
proof -
  obtain e where e: "filter (\<lambda>e. \<not> is_marker (snd e) \<and> P (snd e)) es = [e]"
    and live: "fst e \<notin> set (targets es)"
    using assms(1) by (auto simp: only_live_def split: list.splits)
  have uniq: "x \<in> set es \<Longrightarrow> \<not> is_marker (snd x) \<Longrightarrow> P (snd x) \<Longrightarrow> x = e" for x
  proof -
    assume "x \<in> set es" "\<not> is_marker (snd x)" "P (snd x)"
    then have "x \<in> set (filter (\<lambda>e. \<not> is_marker (snd e) \<and> P (snd e)) es)" by simp
    then show "x = e" by (simp add: e)
  qed
  have kv: "(k, v) = e" using assms by (intro uniq) simp_all
  with live show "k \<notin> set (targets es)" by auto
  show "filter (\<lambda>e. fst e \<noteq> k) (live_of es) = filter (\<lambda>e. \<not> P (snd e)) (live_of es)"
  proof (rule filter_cong [OF refl])
    fix x
    assume "x \<in> set (live_of es)"
    then have "x \<in> set es" and "\<not> is_marker (snd x)" by (simp_all add: live_of_def alive_def)
    then show "fst x \<noteq> k \<longleftrightarrow> \<not> P (snd x)"
      using uniq [of x] kv fn [of x] assms(4) by auto
  qed
qed

lemma only_live_nonempty: "only_live P es \<Longrightarrow> \<exists>k v. (k, v) \<in> set es \<and> \<not> is_marker v \<and> P v"
proof -
  assume "only_live P es"
  then obtain e where "filter (\<lambda>e. \<not> is_marker (snd e) \<and> P (snd e)) es = [e]"
    by (auto simp: only_live_def split: list.splits)
  then have "set (filter (\<lambda>e. \<not> is_marker (snd e) \<and> P (snd e)) es) = {e}" by simp
  then have "e \<in> set es \<and> \<not> is_marker (snd e) \<and> P (snd e)"
    by (simp only: set_filter) blast
  then show ?thesis by (cases e) auto
qed

lemma visit_ok_mark:
  assumes "visit_ok b es" and "\<And>e. e \<in> set es \<Longrightarrow> b p (fst e)" and "(k, u) \<in> set es"
    and "\<not> is_marker u" and "k \<notin> set (targets es)" and "delete_offset (mark k) = k"
  shows "visit_ok b ((p, mark k) # es)"
  unfolding visit_ok_Cons using assms by auto

lemma add_inner_effect:
  assumes "vtable_ok vt" and "room vt" and "\<not> is_marker lid"
  shows "\<exists>vt'. add_inner lid vt = Some vt' \<and> vtable_ok vt' \<and>
    inner_vertices vt' = (max_inner_location vt, lid) # inner_vertices vt \<and>
    outer_vertices vt' = outer_vertices vt"
proof -
  let ?n = "max_inner_location vt" and ?t = "tbl vt"
  have ok: "visit_ok (\<lambda>x y. y < x) ((?n, lid) # inner_visit ?t ?n)"
    using assms by (auto simp: visit_ok_Cons vtable_ok_def in_inner_visit)
  have run: "add_inner lid vt =
      Some (vt\<lparr>tbl := ?t[?n := lid], max_inner_location := ?n + 1, max_inner := max_inner vt + 1\<rparr>)"
    using assms region_bounds [OF assms(1,2)] by (simp add: add_inner_def store_at_def room_def)
  show ?thesis
    using ok_write_inner [OF assms(1,2) ok, of "max_inner vt + 1"] write_inner [OF assms(1,2), of lid]
      live_of_plain [OF ok _ assms(3)]
    by (simp add: run inner_vertices_def outer_vertices_def)
qed

lemma add_outer_effect:
  assumes "vtable_ok vt" and "room vt" and "\<not> is_marker lid"
  shows "\<exists>vt'. add_outer lid vt = Some vt' \<and> vtable_ok vt' \<and>
    outer_vertices vt' = (min_outer_location vt - 1, lid) # outer_vertices vt \<and>
    inner_vertices vt' = inner_vertices vt"
proof -
  let ?n = "min_outer_location vt" and ?t = "tbl vt"
  note rb = region_bounds [OF assms(1,2)]
  have ok: "visit_ok (\<lambda>x y. x < y) ((?n - 1, lid) # outer_visit ?t ?n)"
    using assms rb by (auto simp: visit_ok_Cons vtable_ok_def in_outer_visit)
  have run: "add_outer lid vt =
      Some (vt\<lparr>tbl := ?t[?n - 1 := lid], min_outer := min_outer vt - 1, min_outer_location := ?n - 1\<rparr>)"
    using assms rb by (simp add: add_outer_def store_at_def room_def)
  show ?thesis
    using ok_write_outer [OF assms(1,2) ok, of "min_outer vt - 1"] write_outer [OF assms(1,2), of lid]
      live_of_plain [OF ok _ assms(3)]
    by (simp add: run inner_vertices_def outer_vertices_def)
qed

lemma delete_inner_found:
  assumes "vtable_ok vt" and "vop_ok p vt (DeleteInner off)"
  obtains k where "find_inner p (tbl vt) off (max_inner_location vt) 0 = Found k"
proof -
  let ?n = "max_inner_location vt" and ?t = "tbl vt" and ?P = "has_offset p off"
  have room: "room vt" and live: "only_live ?P (inner_visit ?t ?n)" using assms(2) by simp_all
  note rb = region_bounds [OF assms(1) room]
  obtain k0 v0 where "(k0, v0) \<in> set (inner_visit ?t ?n)" "\<not> is_marker v0" "?P v0"
    using only_live_nonempty [OF live] by blast
  then have "find_inner p ?t off ?n 0 \<noteq> Absent"
    using find_inner_Absent [of p ?t off ?n 0 k0] by (auto simp: in_inner_visit has_offset_def)
  then show ?thesis
    using that find_inner_not_Wild [of ?n ?t p off 0] rb by (cases "find_inner p ?t off ?n 0") auto
qed

lemma delete_inner_effect:
  assumes "vtable_ok vt" and "vop_ok p vt (DeleteInner off)"
  shows "\<exists>vt'. delete_inner p off vt = Some vt' \<and> vtable_ok vt' \<and>
    inner_vertices vt' = filter (\<lambda>e. \<not> has_offset p off (snd e)) (inner_vertices vt) \<and>
    outer_vertices vt' = outer_vertices vt"
proof -
  let ?n = "max_inner_location vt" and ?t = "tbl vt" and ?P = "has_offset p off"
  have room: "room vt" and live: "only_live ?P (inner_visit ?t ?n)" using assms(2) by simp_all
  note rb = region_bounds [OF assms(1) room]
  obtain k where k: "find_inner p ?t off ?n 0 = Found k" by (rule delete_inner_found [OF assms])
  have hit: "k < ?n" "\<not> is_marker (?t ! k)" "?P (?t ! k)"
    using find_inner_Found [OF k] by (simp_all add: has_offset_def)
  have mem: "(k, ?t ! k) \<in> set (inner_visit ?t ?n)" using hit by (simp add: in_inner_visit)
  have fn: "\<And>x. x \<in> set (inner_visit ?t ?n) \<Longrightarrow> fst x = k \<Longrightarrow> snd x = ?t ! k"
    by (auto simp: inner_visit_def)
  have off: "delete_offset (mark k) = k" using hit rb by (intro delete_offset_mark) simp
  have ok: "visit_ok (\<lambda>x y. y < x) ((?n, mark k) # inner_visit ?t ?n)"
  proof (rule visit_ok_mark [OF _ _ mem hit(2) only_live_unique(1) [OF live mem hit(2,3) fn] off])
    show "visit_ok (\<lambda>x y. y < x) (inner_visit ?t ?n)"
      using assms(1) by (simp add: vtable_ok_def)
  qed (use rb in \<open>auto simp: inner_visit_def\<close>)
  have run: "delete_inner p off vt = Some (vt\<lparr>tbl := ?t[?n := mark k], max_inner_location := ?n + 1\<rparr>)"
    using rb by (simp add: delete_inner_def k store_at_def)
  show ?thesis
    using ok_write_inner [OF assms(1) room ok, of "max_inner vt"] write_inner [OF assms(1) room, of "mark k"]
      only_live_unique(2) [OF live mem hit(2,3) fn] live_of_mark [of "mark k" ?n "inner_visit ?t ?n"]
    by (simp add: run inner_vertices_def outer_vertices_def off)
qed

lemma find_outer_Absent:
  "find_outer t lid lo i = Absent \<Longrightarrow> lo \<le> k \<Longrightarrow> k \<le> i \<Longrightarrow> is_marker (t ! k) \<or> t ! k \<noteq> lid"
proof (induction t lid lo i rule: find_outer.induct)
  case (1 t lid lo i)
  then show ?case
    by (cases "k = i") (auto simp: find_outer.simps [of t lid lo i] is_marker_def split: if_splits)
qed

lemma delete_outer_found:
  assumes "vtable_ok vt" and "vop_ok p vt (DeleteOuter lid)"
  obtains k where "find_outer (tbl vt) lid (min_outer_location vt) (vsize vt - 1) = Found k"
proof -
  let ?n = "min_outer_location vt" and ?t = "tbl vt"
  have room: "room vt" and live: "only_live (\<lambda>v. v = lid) (outer_visit ?t ?n)"
    using assms(2) by simp_all
  note rb = region_bounds [OF assms(1) room]
  obtain k0 v0 where k0: "(k0, v0) \<in> set (outer_visit ?t ?n)" "\<not> is_marker v0" "v0 = lid"
    using only_live_nonempty [OF live] by blast
  then have "k0 \<le> vsize vt - 1" using rb(6,7) unfolding in_outer_visit by linarith
  then have "find_outer ?t lid ?n (vsize vt - 1) \<noteq> Absent"
    using find_outer_Absent [of ?t lid ?n "vsize vt - 1" k0] k0 by (auto simp: in_outer_visit)
  then show ?thesis
    using that find_outer_not_Wild [of ?n "vsize vt - 1" ?t lid] rb
    by (cases "find_outer ?t lid ?n (vsize vt - 1)") auto
qed

lemma delete_outer_effect:
  assumes "vtable_ok vt" and "vop_ok p vt (DeleteOuter lid)"
  shows "\<exists>vt'. delete_outer lid vt = Some vt' \<and> vtable_ok vt' \<and>
    outer_vertices vt' = filter (\<lambda>e. snd e \<noteq> lid) (outer_vertices vt) \<and>
    inner_vertices vt' = inner_vertices vt"
proof -
  let ?n = "min_outer_location vt" and ?t = "tbl vt"
  have room: "room vt" and live: "only_live (\<lambda>v. v = lid) (outer_visit ?t ?n)"
    using assms(2) by simp_all
  note rb = region_bounds [OF assms(1) room]
  obtain k where k: "find_outer ?t lid ?n (vsize vt - 1) = Found k" by (rule delete_outer_found [OF assms])
  have hit: "?n \<le> k" "k < length ?t" "\<not> is_marker (?t ! k)" "?t ! k = lid"
    using find_outer_Found [OF k] by blast+
  have mem: "(k, ?t ! k) \<in> set (outer_visit ?t ?n)" using hit by (simp add: in_outer_visit)
  have fn: "\<And>x. x \<in> set (outer_visit ?t ?n) \<Longrightarrow> fst x = k \<Longrightarrow> snd x = ?t ! k"
    by (auto simp: outer_visit_def)
  have off: "delete_offset (mark k) = k" using hit rb by (intro delete_offset_mark) simp
  have ok: "visit_ok (\<lambda>x y. x < y) ((?n - 1, mark k) # outer_visit ?t ?n)"
  proof (rule visit_ok_mark [OF _ _ mem hit(3) only_live_unique(1) [OF live mem hit(3,4) fn] off])
    show "visit_ok (\<lambda>x y. x < y) (outer_visit ?t ?n)"
      using assms(1) by (simp add: vtable_ok_def)
  qed (use rb in \<open>auto simp: outer_visit_def\<close>)
  have run: "delete_outer lid vt =
      Some (vt\<lparr>tbl := ?t[?n - 1 := mark k], min_outer_location := ?n - 1\<rparr>)"
    using rb k by (simp add: delete_outer_def store_at_def)
  show ?thesis
    using ok_write_outer [OF assms(1) room ok, of "min_outer vt"] write_outer [OF assms(1) room, of "mark k"]
      only_live_unique(2) [OF live mem hit(3,4) fn] live_of_mark [of "mark k" "?n - 1" "outer_visit ?t ?n"]
    by (simp add: run inner_vertices_def outer_vertices_def off)
qed

section \<open>The reader visits the live words\<close>

abbreviation scan_max :: "prio \<Rightarrow> (nat \<times> u64) list \<Rightarrow> (nat \<times> u64) list" where
  "scan_max \<equiv> scan max_push hd tl (\<lambda>q. q = [])"

abbreviation scan_min :: "prio \<Rightarrow> (nat \<times> u64) list \<Rightarrow> (nat \<times> u64) list" where
  "scan_min \<equiv> scan min_push hd tl (\<lambda>q. q = [])"

lemma find_down_cases:
  assumes "n \<le> length t"
  obtains (stop) q' where "find_down t (int n - 1) (-1) q = Some (-1, q')"
      and "scan_max q (inner_visit t n) = []"
  | (hit) m q' where "find_down t (int n - 1) (-1) q = Some (int m, q')" and "m < n"
      and "scan_max q (inner_visit t n) = (m, t ! m) # scan_max q' (inner_visit t m)"
  using assms
proof (induction n arbitrary: q thesis)
  case 0
  then show ?case by (simp add: find_down.simps)
next
  case (Suc n)
  have n: "n \<le> length t" "n < length t" using Suc.prems(3) by simp_all
  note unfold = find_down.simps [of t "int n" "-1" q]
  show ?case
  proof (cases "is_marker (t ! n) \<or> (q \<noteq> [] \<and> hd q = n)")
    case False
    then have "find_down t (int (Suc n) - 1) (-1) q = Some (int n, q)"
      using n by (auto simp: unfold is_marker_def)
    then show ?thesis using False by (intro Suc.prems(2) [of n q]) auto
  next
    case True
    define q1 where "q1 = (if is_marker (t ! n) then max_push (delete_offset (t ! n)) q else tl q)"
    have run: "find_down t (int (Suc n) - 1) (-1) q = find_down t (int n - 1) (-1) q1"
      using n True by (auto simp: unfold is_marker_def q1_def Let_def)
    have scan: "scan_max q (inner_visit t (Suc n)) = scan_max q1 (inner_visit t n)"
      using True by (auto simp: q1_def)
    show ?thesis
    proof (rule Suc.IH [of q1])
      fix q'
      assume "find_down t (int n - 1) (-1) q1 = Some (-1, q')" and "scan_max q1 (inner_visit t n) = []"
      then show ?thesis by (intro Suc.prems(1) [of q']) (simp_all only: run scan)
    next
      fix m q'
      assume "find_down t (int n - 1) (-1) q1 = Some (int m, q')" and "m < n"
        and "scan_max q1 (inner_visit t n) = (m, t ! m) # scan_max q' (inner_visit t m)"
      then show ?thesis by (intro Suc.prems(2) [of m q']) (simp_all only: run scan less_SucI)
    qed (rule n)
  qed
qed

lemma find_up_cases:
  assumes "lo \<le> length t"
  obtains (stop) q' where "find_up t (int lo) (int (length t)) q = Some (int (length t), q')"
      and "scan_min q (outer_visit t lo) = []"
  | (hit) m q' where "find_up t (int lo) (int (length t)) q = Some (int m, q')" and "lo \<le> m"
      and "m < length t" and "scan_min q (outer_visit t lo) = (m, t ! m) # scan_min q' (outer_visit t (Suc m))"
  using assms
proof (induction "length t - lo" arbitrary: lo q thesis)
  case 0
  then show ?case by (simp add: find_up.simps)
next
  case (Suc d)
  have n: "lo < length t" "Suc lo \<le> length t" "d = length t - Suc lo" using Suc.hyps(2) by simp_all
  note unfold = find_up.simps [of t "int lo" "int (length t)" q]
  note step = outer_visit_step [OF n(1)]
  show ?case
  proof (cases "is_marker (t ! lo) \<or> (q \<noteq> [] \<and> hd q = lo)")
    case False
    then have "find_up t (int lo) (int (length t)) q = Some (int lo, q)"
      using n by (auto simp: unfold is_marker_def)
    then show ?thesis using False n by (intro Suc.prems(2) [of lo q]) (auto simp: step)
  next
    case True
    define q1 where "q1 = (if is_marker (t ! lo) then min_push (delete_offset (t ! lo)) q else tl q)"
    have run: "find_up t (int lo) (int (length t)) q = find_up t (int (Suc lo)) (int (length t)) q1"
      using n True by (auto simp: unfold is_marker_def q1_def Let_def add.commute)
    have scan: "scan_min q (outer_visit t lo) = scan_min q1 (outer_visit t (Suc lo))"
      using True by (auto simp: q1_def step)
    show ?thesis
    proof (rule Suc.hyps(1) [of "Suc lo" q1])
      fix q'
      assume "find_up t (int (Suc lo)) (int (length t)) q1 = Some (int (length t), q')"
        and "scan_min q1 (outer_visit t (Suc lo)) = []"
      then show ?thesis by (intro Suc.prems(1) [of q']) (simp_all only: run scan)
    next
      fix m q'
      assume "find_up t (int (Suc lo)) (int (length t)) q1 = Some (int m, q')" and "Suc lo \<le> m"
        and "m < length t"
        and "scan_min q1 (outer_visit t (Suc lo)) = (m, t ! m) # scan_min q' (outer_visit t (Suc m))"
      then show ?thesis by (intro Suc.prems(2) [of m q']) (simp_all only: run scan Suc_leD)
    qed (use n in simp_all)
  qed
qed

lemma visit_stop:
  assumes "cur it = end_at it" and "\<not> (loc it = 0 \<and> length (addrs it) = 2)"
  shows "visit_vertices it = Some []"
  by (subst visit_vertices.simps) (simp add: valid_def switch_next_range_def assms)

lemma visit_hit:
  assumes "cur it = int m" and "m < length (vi_table it)" and "int m \<noteq> end_at it"
  shows "visit_vertices it =
    Option.bind (Option.bind (next_vertex it) visit_vertices) (\<lambda>vs. Some (vi_table it ! m # vs))"
  by (subst visit_vertices.simps) (simp add: valid_def vertex_def assms Option.bind_assoc)

text \<open>An ascending range, the last of its iterator.\<close>

lemma visit_up:
  assumes "\<not> high_to_low_flag it" and "\<not> (loc it = 0 \<and> length (addrs it) = 2)"
    and "cur it = int lo" and "end_at it = int (length (vi_table it))" and "lo \<le> length (vi_table it)"
  shows "Option.bind (find_next_valid_cursor it) visit_vertices =
    Some (map snd (scan_min (outer_delete_offset it) (outer_visit (vi_table it) lo)))"
  using assms
proof (induction "length (vi_table it) - lo" arbitrary: lo it rule: less_induct)
  case less
  let ?t = "vi_table it" and ?q = "outer_delete_offset it"
  show ?case
  proof (rule find_up_cases [OF less.prems(5), of ?q])
    fix q'
    assume "find_up ?t (int lo) (int (length ?t)) ?q = Some (int (length ?t), q')"
      and "scan_min ?q (outer_visit ?t lo) = []"
    then show ?thesis
      using less.prems by (simp add: find_next_valid_cursor_def visit_stop)
  next
    fix m q'
    assume run: "find_up ?t (int lo) (int (length ?t)) ?q = Some (int m, q')"
      and m: "lo \<le> m" "m < length ?t"
      and scan: "scan_min ?q (outer_visit ?t lo) = (m, ?t ! m) # scan_min q' (outer_visit ?t (Suc m))"
    let ?it = "it\<lparr>cur := int m, outer_delete_offset := q'\<rparr>"
    let ?nx = "it\<lparr>outer_delete_offset := q', cur := int (Suc m)\<rparr>"
    have found: "find_next_valid_cursor it = Some ?it"
      using less.prems run by (simp add: find_next_valid_cursor_def)
    have step: "next_vertex ?it = find_next_valid_cursor ?nx"
      using less.prems by (simp add: next_vertex_def add.commute)
    have "Option.bind (find_next_valid_cursor ?nx) visit_vertices =
        Some (map snd (scan_min q' (outer_visit ?t (Suc m))))"
      using less.hyps [of ?nx "Suc m"] less.prems m by simp
    then show ?thesis
      using less.prems m by (simp add: found visit_hit [of ?it m] step scan)
  qed
qed

text \<open>A descending range, followed by what the iterator does when it ends.\<close>

lemma visit_down:
  assumes "high_to_low_flag it" and "cur it = int n - 1" and "end_at it = -1"
    and "n \<le> length (vi_table it)"
    and "\<And>q. visit_vertices (it\<lparr>cur := -1, inner_delete_offset := q\<rparr>) = Some rest"
  shows "Option.bind (find_next_valid_cursor it) visit_vertices =
    Some (map snd (scan_max (inner_delete_offset it) (inner_visit (vi_table it) n)) @ rest)"
  using assms
proof (induction n arbitrary: it rule: less_induct)
  case (less n)
  let ?t = "vi_table it" and ?q = "inner_delete_offset it"
  show ?case
  proof (rule find_down_cases [OF less.prems(4), of ?q])
    fix q'
    assume "find_down ?t (int n - 1) (-1) ?q = Some (-1, q')"
      and "scan_max ?q (inner_visit ?t n) = []"
    then show ?thesis
      using less.prems by (simp add: find_next_valid_cursor_def)
  next
    fix m q'
    assume run: "find_down ?t (int n - 1) (-1) ?q = Some (int m, q')" and m: "m < n"
      and scan: "scan_max ?q (inner_visit ?t n) = (m, ?t ! m) # scan_max q' (inner_visit ?t m)"
    let ?it = "it\<lparr>cur := int m, inner_delete_offset := q'\<rparr>"
    let ?nx = "it\<lparr>inner_delete_offset := q', cur := int m - 1\<rparr>"
    have found: "find_next_valid_cursor it = Some ?it"
      using less.prems run by (simp add: find_next_valid_cursor_def)
    have step: "next_vertex ?it = find_next_valid_cursor ?nx"
      using less.prems by (simp add: next_vertex_def)
    have "Option.bind (find_next_valid_cursor ?nx) visit_vertices =
        Some (map snd (scan_max q' (inner_visit ?t m)) @ rest)"
      using less.IH [of m ?nx] less.prems m by simp
    then show ?thesis
      using less.prems m by (simp add: found visit_hit [of ?it m] step scan)
  qed
qed

lemma visit_switch:
  assumes "cur it = end_at it" and "loc it = 0" and "addrs it = [a, b]"
  shows "visit_vertices it =
    Option.bind (find_next_valid_cursor
      (it\<lparr>loc := 1, cur := fst b, end_at := snd b, high_to_low_flag := high_to_low_flags it ! 1\<rparr>))
      visit_vertices"
proof -
  let ?it = "it\<lparr>loc := 1, cur := fst b, end_at := snd b, high_to_low_flag := high_to_low_flags it ! 1\<rparr>"
  show ?thesis
  proof (cases "find_next_valid_cursor ?it")
    case None
    then show ?thesis
      by (subst visit_vertices.simps) (simp add: valid_def switch_next_range_def assms)
  next
    case (Some it')
    have loc: "loc it' = 1"
      using Some by (auto simp: find_next_valid_cursor_def split: if_splits option.splits prod.splits)
    have "valid it = Some (cur it' \<noteq> end_at it', it')"
      using Some assms by (simp add: valid_def switch_next_range_def)
    then have "visit_vertices it = visit_vertices it'"
      using loc
      by (simp add: visit_vertices.simps [of it] visit_vertices.simps [of it'] valid_def [of it']
          switch_next_range_def)
    then show ?thesis by (simp only: Some Option.bind.simps)
  qed
qed

section \<open>What the fragment's iterators return\<close>

text \<open>The view a fragment gets when the writer publishes its current locations.\<close>

definition publish :: "vtable \<Rightarrow> vtable_meta" where
  "publish vt = set_loc (max_inner_location vt) (vsize vt - min_outer_location vt)
     (set_boundary (max_inner vt) (vsize vt - min_outer vt) (VTableMeta (vsize vt)))"

lemma publish_locations:
  assumes "vtable_ok vt"
  shows "meta_max_inner_location (publish vt) = max_inner_location vt"
    and "meta_min_outer_location (publish vt) = min_outer_location vt"
  using assms by (simp_all add: publish_def set_loc_def set_boundary_def VTableMeta_def vtable_ok_def)

text \<open>A view with the locations \<open>n\<close> and \<open>lo\<close> over the words \<open>t\<close>.\<close>

definition view_at :: "vertex_view \<Rightarrow> u64 list \<Rightarrow> nat \<Rightarrow> nat \<Rightarrow> bool" where
  "view_at vw t n lo \<longleftrightarrow>
     view_table vw = Some t \<and> inner_offset vw = int n - 1 \<and> outer_offset vw = int lo \<and>
     table_len vw = length t \<and> n \<le> length t \<and> lo \<le> length t"

lemma InnerVertices_visits:
  assumes "view_at vw t n lo"
  shows "Option.bind (InnerVertices vw) visit_vertices = Some (map snd (scan_max [] (inner_visit t n)))"
  using assms visit_down [of "\<lparr>vi_table = t, addrs = [(int n - 1, -1)], high_to_low_flags = [True],
      cur = int n - 1, end_at = -1, loc = 0, high_to_low_flag = True, inner_delete_offset = [],
      outer_delete_offset = []\<rparr>" n "[]"]
  by (simp add: InnerVertices_def VertexIterator_def inner_range_def view_words_def view_at_def visit_stop)

lemma OuterVertices_visits:
  assumes "view_at vw t n lo"
  shows "Option.bind (OuterVertices vw) visit_vertices = Some (map snd (scan_min [] (outer_visit t lo)))"
  using assms visit_up [of "\<lparr>vi_table = t, addrs = [(int lo, int (length t))], high_to_low_flags = [False],
      cur = int lo, end_at = int (length t), loc = 0, high_to_low_flag = False, inner_delete_offset = [],
      outer_delete_offset = []\<rparr>" lo]
  by (simp add: OuterVertices_def VertexIterator_def outer_range_def view_words_def view_at_def)

lemma Vertices_visits:
  assumes "view_at vw t n lo"
  shows "Option.bind (Vertices vw) visit_vertices =
    Some (map snd (scan_max [] (inner_visit t n)) @ map snd (scan_min [] (outer_visit t lo)))"
proof -
  let ?as = "[(int n - 1, -1), (int lo, int (length t))]"
  let ?it = "\<lparr>vi_table = t, addrs = ?as, high_to_low_flags = [True, False],
      cur = int n - 1, end_at = -1, loc = 0, high_to_low_flag = True, inner_delete_offset = [],
      outer_delete_offset = []\<rparr>"
  have rest: "visit_vertices (?it\<lparr>cur := -1, inner_delete_offset := q\<rparr>) =
      Some (map snd (scan_min [] (outer_visit t lo)))" for q
    using assms visit_up [of "\<lparr>vi_table = t, addrs = ?as, high_to_low_flags = [True, False],
      cur = int lo, end_at = int (length t), loc = 1, high_to_low_flag = False, inner_delete_offset = q,
      outer_delete_offset = []\<rparr>" lo]
    by (subst visit_switch [where a = "(int n - 1, -1)" and b = "(int lo, int (length t))"])
      (simp_all add: view_at_def)
  show ?thesis
    using assms visit_down [of ?it n, OF _ _ _ _ rest]
    by (simp add: Vertices_def VertexIterator_def inner_range_def outer_range_def view_words_def
        view_at_def)
qed

lemma scan_regions:
  assumes "vtable_ok vt"
  shows "scan_max [] (inner_visit (tbl vt) (max_inner_location vt)) = inner_vertices vt"
    and "scan_min [] (outer_visit (tbl vt) (min_outer_location vt)) = outer_vertices vt"
  using assms max_queue.scan_alive [of "inner_visit (tbl vt) (max_inner_location vt)"]
    min_queue.scan_alive [of "outer_visit (tbl vt) (min_outer_location vt)"]
  by (simp_all add: vtable_ok_def visit_ok_def live_of_def inner_vertices_def outer_vertices_def)

section \<open>The abstract table and its histories\<close>

text \<open>The abstract state: the live inner and outer identifiers, newest first.\<close>

type_synonym vertex_lists = "u64 list \<times> u64 list"

definition contents :: "vtable \<Rightarrow> vertex_lists" where
  "contents vt = (map snd (inner_vertices vt), map snd (outer_vertices vt))"

primrec spec_vop :: "id_parser \<Rightarrow> vop \<Rightarrow> vertex_lists \<Rightarrow> vertex_lists" where
  "spec_vop p (AddInner lid) s = (lid # fst s, snd s)"
| "spec_vop p (DeleteInner off) s = (filter (\<lambda>v. \<not> has_offset p off v) (fst s), snd s)"
| "spec_vop p (AddOuter lid) s = (fst s, lid # snd s)"
| "spec_vop p (DeleteOuter lid) s = (fst s, filter (\<lambda>v. v \<noteq> lid) (snd s))"

text \<open>A history whose operations all meet their obligations.\<close>

fun run_vops :: "id_parser \<Rightarrow> vop list \<Rightarrow> vtable \<Rightarrow> vtable option" where
  "run_vops p [] vt = Some vt"
| "run_vops p (op # ops) vt =
     (if vop_ok p vt op then Option.bind (apply_vop p op vt) (run_vops p ops) else None)"

lemma apply_vop_effect:
  assumes "vtable_ok vt" and "vop_ok p vt op"
  shows "\<exists>vt'. apply_vop p op vt = Some vt' \<and> vtable_ok vt' \<and> contents vt' = spec_vop p op (contents vt)"
proof (cases op)
  case (AddInner lid)
  then show ?thesis using add_inner_effect [OF assms(1), of lid] assms(2) by (auto simp: contents_def)
next
  case (DeleteInner off)
  then show ?thesis
    using delete_inner_effect [OF assms(1), of p off] assms(2)
    by (auto simp: contents_def filter_map comp_def simp del: vop_ok.simps)
next
  case (AddOuter lid)
  then show ?thesis using add_outer_effect [OF assms(1), of lid] assms(2) by (auto simp: contents_def)
next
  case (DeleteOuter lid)
  then show ?thesis
    using delete_outer_effect [OF assms(1), of p lid] assms(2)
    by (auto simp: contents_def filter_map comp_def simp del: vop_ok.simps)
qed

lemma run_vops_ok:
  "vtable_ok vt \<Longrightarrow> run_vops p ops vt = Some vt' \<Longrightarrow>
     vtable_ok vt' \<and> contents vt' = fold (spec_vop p) ops (contents vt)"
proof (induction ops arbitrary: vt)
  case (Cons op ops)
  then obtain vt1 where "apply_vop p op vt = Some vt1" "vop_ok p vt op" "run_vops p ops vt1 = Some vt'"
    by (auto split: if_splits simp: bind_eq_Some_conv)
  with apply_vop_effect [OF Cons.prems(1), of p op] Cons.IH [of vt1] show ?case by auto
qed simp

text \<open>No operation touches a word that was published.\<close>

definition extends :: "vtable \<Rightarrow> vtable \<Rightarrow> bool" where
  "extends vt vt' \<longleftrightarrow>
     length (tbl vt') = length (tbl vt) \<and> max_inner_location vt \<le> max_inner_location vt' \<and>
     min_outer_location vt' \<le> min_outer_location vt \<and>
     (\<forall>i < max_inner_location vt. tbl vt' ! i = tbl vt ! i) \<and>
     (\<forall>i \<ge> min_outer_location vt. tbl vt' ! i = tbl vt ! i)"

lemma extends_refl: "extends vt vt"
  by (simp add: extends_def)

lemma extends_trans: "extends a b \<Longrightarrow> extends b c \<Longrightarrow> extends a c"
  by (auto simp: extends_def)

lemma apply_vop_extends:
  assumes "vop_ok p vt op" and "apply_vop p op vt = Some vt'"
  shows "extends vt vt'"
  using assms
  by (cases op)
    (auto simp: extends_def room_def add_inner_def add_outer_def delete_inner_def delete_outer_def
      store_at_def split: if_splits search.splits)

lemma run_vops_extends: "run_vops p ops vt = Some vt' \<Longrightarrow> extends vt vt'"
  by (induction ops arbitrary: vt)
    (auto simp: extends_refl bind_eq_Some_conv split: if_splits
      intro: extends_trans apply_vop_extends)

lemma extends_visits:
  assumes "extends vt vt'" and "vtable_ok vt"
  shows "inner_visit (tbl vt') (max_inner_location vt) = inner_visit (tbl vt) (max_inner_location vt)"
    and "outer_visit (tbl vt') (min_outer_location vt) = outer_visit (tbl vt) (min_outer_location vt)"
  using assms by (auto simp: extends_def inner_visit_def outer_visit_def)

lemma published_view:
  assumes "extends vt vt'" and "vtable_ok vt"
  shows "view_at (view_of (publish vt) (tbl vt')) (tbl vt') (max_inner_location vt) (min_outer_location vt)"
  using assms by (auto simp: view_at_def view_of_def publish_locations extends_def vtable_ok_def)

lemma new_vtable_ok: "length blob < 2 ^ 63 \<Longrightarrow> vtable_ok (new_vtable blob)"
  by (simp add: vtable_ok_def new_vtable_def visit_ok_def)

lemma contents_new: "contents (new_vtable blob) = ([], [])"
  by (simp add: contents_def new_vtable_def inner_vertices_def outer_vertices_def live_of_def)

section \<open>Properties\<close>

text \<open>A small history the witnesses run: two fragments, one label, eight words.\<close>

definition demo_ops :: "vop list" where
  "demo_ops = [AddInner 2, AddInner 4, AddOuter 9, DeleteInner 1, AddOuter 11, DeleteOuter 9]"

definition demo_parser :: id_parser where
  "demo_parser = the (Init 2 1)"

lemma vtable_demo_run:
  "map_option contents (run_vops demo_parser demo_ops (new_vtable (replicate 8 0))) = Some ([4], [11])"
  by code_simp

text \<open>
C6: A history of additions and deletions that starts from the table \<open>add_vgraph\<close> creates keeps
the table well formed, and its live inner and outer vertices are exactly those of the abstract
table after the same history.
\<close>

theorem vtable_refines:
  assumes "length blob < 2 ^ 63" and "run_vops p ops (new_vtable blob) = Some vt"
  shows "vtable_ok vt \<and> contents vt = fold (spec_vop p) ops ([], [])"
  using run_vops_ok [OF new_vtable_ok [OF assms(1)] assms(2)] by (simp add: contents_new)

lemma vtable_refines_witness:
  "\<exists>vt. run_vops demo_parser demo_ops (new_vtable (replicate 8 0)) = Some vt \<and> vtable_ok vt \<and>
    contents vt = ([4], [11])"
proof -
  obtain vt where vt: "run_vops demo_parser demo_ops (new_vtable (replicate 8 0)) = Some vt"
    and "contents vt = ([4], [11])"
    using vtable_demo_run by auto
  with vtable_refines [OF _ vt] show ?thesis by auto
qed

text \<open>
C26: An operation whose obligations hold never fails: it writes inside the array and returns the
table that holds the abstract operation's result.
\<close>

theorem vtable_progress:
  assumes "vtable_ok vt" and "vop_ok p vt op"
  shows "\<exists>vt'. apply_vop p op vt = Some vt' \<and> vtable_ok vt' \<and> contents vt' = spec_vop p op (contents vt)"
  using assms by (rule apply_vop_effect)

lemma vtable_progress_witness:
  "\<exists>vt'. apply_vop demo_parser (AddInner 6) (new_vtable [0, 0]) = Some vt' \<and> vtable_ok vt' \<and>
    contents vt' = ([6], [])"
proof -
  have "vop_ok demo_parser (new_vtable [0, 0]) (AddInner 6)"
    by (simp add: room_def new_vtable_def is_marker_iff_bit)
  from vtable_progress [OF new_vtable_ok this] show ?thesis by (simp add: contents_new)
qed

text \<open>
C7: A fragment that opened a published table reads, through \<open>Vertices\<close>, exactly the
identifiers that were live at publication, inner before outer and newest first, whatever
operations the writer has applied to the shared array since; the iteration ends and never leaves
the array.
\<close>

theorem vertex_snapshot:
  assumes "vtable_ok vt" and "run_vops p ops vt = Some vt'"
  shows "Option.bind (Vertices (view_of (publish vt) (tbl vt'))) visit_vertices =
    Some (fst (contents vt) @ snd (contents vt))"
  using assms(1) run_vops_extends [OF assms(2)]
  by (simp add: Vertices_visits [OF published_view] extends_visits scan_regions contents_def)

lemma vertex_snapshot_witness:
  "\<exists>vt'. run_vops demo_parser demo_ops (new_vtable (replicate 8 0)) = Some vt' \<and>
    Option.bind (Vertices (view_of (publish (new_vtable (replicate 8 0))) (tbl vt'))) visit_vertices =
      Some []"
proof -
  obtain vt' where vt': "run_vops demo_parser demo_ops (new_vtable (replicate 8 0)) = Some vt'"
    using vtable_demo_run by auto
  from vertex_snapshot [OF new_vtable_ok this] vt' show ?thesis by (simp add: contents_new)
qed

text \<open>
\<open>InnerVertices\<close> and \<open>OuterVertices\<close> of a published table return the two halves of that
result.
\<close>

theorem vertex_halves:
  assumes "vtable_ok vt" and "run_vops p ops vt = Some vt'"
  shows "Option.bind (InnerVertices (view_of (publish vt) (tbl vt'))) visit_vertices =
      Some (fst (contents vt)) \<and>
    Option.bind (OuterVertices (view_of (publish vt) (tbl vt'))) visit_vertices =
      Some (snd (contents vt))"
  using assms(1) run_vops_extends [OF assms(2)]
  by (simp add: InnerVertices_visits [OF published_view] OuterVertices_visits [OF published_view]
      extends_visits scan_regions contents_def)

lemma vertex_halves_witness:
  "\<exists>vt. run_vops demo_parser demo_ops (new_vtable (replicate 8 0)) = Some vt \<and>
    Option.bind (InnerVertices (view_of (publish vt) (tbl vt))) visit_vertices = Some [4] \<and>
    Option.bind (OuterVertices (view_of (publish vt) (tbl vt))) visit_vertices = Some [11]"
proof -
  obtain vt where vt: "run_vops demo_parser demo_ops (new_vtable (replicate 8 0)) = Some vt"
    and c: "contents vt = ([4], [11])"
    using vtable_demo_run by auto
  have "vtable_ok vt" using run_vops_ok [OF new_vtable_ok vt] by simp
  from vertex_halves [OF this, of demo_parser "[]" vt] vt c show ?thesis by simp
qed

text \<open>
C29: The deletion of an inner vertex has no capacity check: on a full table it writes its marker
over the newest word of the outer region, whatever that word is.
\<close>

theorem delete_inner_overwrites_outer:
  assumes "max_inner_location vt = min_outer_location vt" and "min_outer_location vt < length (tbl vt)"
    and "find_inner p (tbl vt) off (max_inner_location vt) 0 = Found i"
  shows "\<exists>vt'. delete_inner p off vt = Some vt' \<and> is_marker (tbl vt' ! min_outer_location vt') \<and>
    min_outer_location vt' = min_outer_location vt"
  using assms by (simp add: delete_inner_def store_at_def)

lemma delete_inner_overwrites_outer_witness:
  "\<exists>vt vt'. run_vops demo_parser [AddInner 2, AddOuter 9] (new_vtable [0, 0]) = Some vt \<and>
    snd (contents vt) = [9] \<and> delete_inner demo_parser 1 vt = Some vt' \<and>
    is_marker (tbl vt' ! min_outer_location vt')"
proof -
  have "map_option (\<lambda>vt. (max_inner_location vt, min_outer_location vt, length (tbl vt), contents vt,
      find_inner demo_parser (tbl vt) 1 (max_inner_location vt) 0))
      (run_vops demo_parser [AddInner 2, AddOuter 9] (new_vtable [0, 0])) =
    Some (1, 1, 2, ([2], [9]), Found 0)"
    by code_simp
  then obtain vt where vt: "run_vops demo_parser [AddInner 2, AddOuter 9] (new_vtable [0, 0]) = Some vt"
    and f: "max_inner_location vt = 1" "min_outer_location vt = 1" "length (tbl vt) = 2"
      "contents vt = ([2], [9])" "find_inner demo_parser (tbl vt) 1 (max_inner_location vt) 0 = Found 0"
    by auto
  obtain vt' where "delete_inner demo_parser 1 vt = Some vt'" "is_marker (tbl vt' ! min_outer_location vt')"
    using delete_inner_overwrites_outer [of vt demo_parser 1 0] f by auto
  with vt f show ?thesis by auto
qed

end
