(* ===== verification/Blocks.thy ===== *)
theory Blocks
  imports Prelude
begin

text \<open>
  The blocks of the edge store, \<^verbatim>\<open>vegito/include/seggraph/blocks.hpp\<close> and
  \<^verbatim>\<open>utils.hpp\<close>. A block is a record of its header fields with its entries in the order
  they were appended; the code lays entry \<open>k\<close> out at \<open>k + 1\<close> entries below the end of the
  block. Sizes and addresses are unbounded naturals (the addresses of one 64-bit blob); address 0
  is the null pointer.
\<close>

section \<open>Sizes\<close>

definition VERTEX_PER_SEG :: nat where
  "VERTEX_PER_SEG = 4096"

text \<open>\<^verbatim>\<open>sizeof\<close> of the headers and entries, as the static assertions of the file fix them.\<close>

definition segment_header_size :: nat where
  "segment_header_size = 24 + 2 * 8 * VERTEX_PER_SEG"

definition edge_block_header_size :: nat where
  "edge_block_header_size = 24"

definition edge_entry_size :: nat where
  "edge_entry_size = 8"

definition epoch_block_header_size :: nat where
  "epoch_block_header_size = 32"

definition epoch_entry_size :: nat where
  "epoch_entry_size = 16"

definition edge_label_block_header_size :: nat where
  "edge_label_block_header_size = 32"

definition edge_label_entry_size :: nat where
  "edge_label_entry_size = 24"

lemmas size_defs = VERTEX_PER_SEG_def segment_header_size_def edge_block_header_size_def
  edge_entry_size_def epoch_block_header_size_def epoch_entry_size_def
  edge_label_block_header_size_def edge_label_entry_size_def

definition get_block_size :: "nat \<Rightarrow> nat" where
  "get_block_size order = 2 ^ order"

text \<open>\<^verbatim>\<open>size_to_order\<close>: one extra order when the size is not a power of two.\<close>

fun halvings :: "nat \<Rightarrow> nat \<Rightarrow> nat" where
  "halvings order sz = (if 1 < sz then halvings (order + 1) (sz div 2) else order)"

declare halvings.simps [simp del]

definition size_to_order :: "nat \<Rightarrow> nat" where
  "size_to_order sz = halvings (of_bool ((of_nat sz AND (of_nat sz - 1) :: u64) \<noteq> 0)) sz"

section \<open>Edge blocks\<close>

datatype dir_t = EOUT | EIN

record edge_block =
  eb_order :: nat
  eb_entries :: "u64 list"
  prev_num_entries :: nat
  prev_pointer :: nat

definition get_num_entries :: "edge_block \<Rightarrow> nat" where
  "get_num_entries b = length (eb_entries b)"

definition get_vegito_block_size :: "edge_block \<Rightarrow> nat" where
  "get_vegito_block_size b = edge_block_header_size + get_block_size (eb_order b) * edge_entry_size"

definition has_space :: "edge_block \<Rightarrow> bool" where
  "has_space b \<longleftrightarrow>
     \<not> edge_block_header_size + (get_num_entries b + 1) * edge_entry_size > get_vegito_block_size b"

text \<open>\<open>append\<close> returns a null pointer and changes nothing when the block is full.\<close>

definition append_edge :: "u64 \<Rightarrow> edge_block \<Rightarrow> edge_block" where
  "append_edge entry b = (if \<not> has_space b then b else b\<lparr>eb_entries := eb_entries b @ [entry]\<rparr>)"

definition fill_edge_block :: "nat \<Rightarrow> nat \<Rightarrow> nat \<Rightarrow> edge_block" where
  "fill_edge_block order prev prev_num =
     \<lparr>eb_order = order, eb_entries = [], prev_num_entries = prev_num, prev_pointer = prev\<rparr>"

section \<open>Epoch tables\<close>

record epoch_block =
  ep_order :: nat
  ep_entries :: "(int \<times> nat) list"
  latest_epoch :: int
  ep_prev_pointer :: nat

definition epoch_has_space :: "epoch_block \<Rightarrow> bool" where
  "epoch_has_space t \<longleftrightarrow>
     \<not> epoch_block_header_size + (length (ep_entries t) + 1) * epoch_entry_size
         > get_block_size (ep_order t)"

definition append_epoch :: "int \<times> nat \<Rightarrow> epoch_block \<Rightarrow> epoch_block" where
  "append_epoch entry t =
     (if \<not> epoch_has_space t then t else t\<lparr>ep_entries := ep_entries t @ [entry]\<rparr>)"

definition fill_epoch_block :: "nat \<Rightarrow> nat \<Rightarrow> int \<Rightarrow> epoch_block" where
  "fill_epoch_block order prev init_epoch =
     \<lparr>ep_order = order, ep_entries = [], latest_epoch = init_epoch, ep_prev_pointer = prev\<rparr>"

section \<open>Edge label blocks\<close>

record edge_label_entry =
  entry_label :: nat
  pointer_out :: nat
  pointer_in :: nat

definition get_pointer :: "edge_label_entry \<Rightarrow> dir_t \<Rightarrow> nat" where
  "get_pointer e dir = (case dir of EOUT \<Rightarrow> pointer_out e | EIN \<Rightarrow> pointer_in e)"

definition set_pointer :: "nat \<Rightarrow> dir_t \<Rightarrow> edge_label_entry \<Rightarrow> edge_label_entry" where
  "set_pointer p dir e = (case dir of EOUT \<Rightarrow> e\<lparr>pointer_out := p\<rparr> | EIN \<Rightarrow> e\<lparr>pointer_in := p\<rparr>)"

definition new_label_entry :: "nat \<Rightarrow> edge_label_entry" where
  "new_label_entry label = \<lparr>entry_label = label, pointer_out = 0, pointer_in = 0\<rparr>"

record label_block =
  lb_order :: nat
  lb_entries :: "edge_label_entry list"
  lb_prev_pointer :: nat

definition label_has_space :: "label_block \<Rightarrow> bool" where
  "label_has_space b \<longleftrightarrow>
     \<not> edge_label_block_header_size + (length (lb_entries b) + 1) * edge_label_entry_size
         > get_block_size (lb_order b)"

definition append_label :: "edge_label_entry \<Rightarrow> label_block \<Rightarrow> label_block" where
  "append_label e b = (if \<not> label_has_space b then b else b\<lparr>lb_entries := lb_entries b @ [e]\<rparr>)"

definition fill_label_block :: "nat \<Rightarrow> nat \<Rightarrow> label_block" where
  "fill_label_block order prev = \<lparr>lb_order = order, lb_entries = [], lb_prev_pointer = prev\<rparr>"

section \<open>Segments\<close>

text \<open>
  A segment holds the edge blocks of \<^verbatim>\<open>VERTEX_PER_SEG\<close> vertices: the blocks grow upwards
  behind the header, one slot of 8 bytes per edge entry and three per block header; the property
  of the entry in slot \<open>s\<close> lies \<open>s + 1\<close> property sizes below the end. \<open>sg_blocks\<close> gives the
  block at an address of the blob inside this segment, \<open>sg_bytes\<close> the byte at an offset from its
  start.
\<close>

record segment =
  sg_order :: nat
  segment_id :: nat
  sg_head :: nat
  allocated_edge_num :: nat
  region_ptrs :: "nat \<Rightarrow> nat"
  epoch_tables :: "nat \<Rightarrow> nat"
  sg_blocks :: "nat \<Rightarrow> edge_block option"
  sg_bytes :: "nat \<Rightarrow> u8"

definition fill_segment :: "nat \<Rightarrow> nat \<Rightarrow> nat \<Rightarrow> segment" where
  "fill_segment head order segid =
     \<lparr>sg_order = order, segment_id = segid, sg_head = head, allocated_edge_num = 0,
      region_ptrs = (\<lambda>i. 0), epoch_tables = (\<lambda>i. 0), sg_blocks = (\<lambda>a. None), sg_bytes = (\<lambda>i. 0)\<rparr>"

text \<open>
  \<open>alloc\<close> reserves the slots before it checks the limit, and returns the null pointer when they
  do not fit.
\<close>

definition required_slots :: "nat \<Rightarrow> nat" where
  "required_slots edge_num_order =
     edge_block_header_size div edge_entry_size + get_block_size edge_num_order"

definition alloc_slots :: "nat \<Rightarrow> nat \<Rightarrow> segment \<Rightarrow> nat \<times> segment" where
  "alloc_slots edge_num_order edge_prop_size sg =
     (let ret = allocated_edge_num sg;
          req = required_slots edge_num_order;
          sg' = sg\<lparr>allocated_edge_num := ret + req\<rparr>
      in if segment_header_size + (ret + req) * (edge_entry_size + edge_prop_size)
             > get_block_size (sg_order sg)
         then (0, sg')
         else (sg_head sg + segment_header_size + ret * edge_entry_size, sg'))"

definition get_allocated_edge_num :: "segment \<Rightarrow> nat \<Rightarrow> nat" where
  "get_allocated_edge_num sg edge_block_ptr =
     (edge_block_ptr - (sg_head sg + segment_header_size)) div edge_entry_size"

definition property_start :: "segment \<Rightarrow> nat \<Rightarrow> nat \<Rightarrow> nat" where
  "property_start sg offset edge_prop_size =
     get_block_size (sg_order sg) - (offset + 1) * edge_prop_size"

definition get_property :: "segment \<Rightarrow> nat \<Rightarrow> nat \<Rightarrow> bytes" where
  "get_property sg offset edge_prop_size =
     map (\<lambda>j. sg_bytes sg (property_start sg offset edge_prop_size + j)) [0..<edge_prop_size]"

definition append_property :: "nat \<Rightarrow> bytes \<Rightarrow> nat \<Rightarrow> segment \<Rightarrow> segment" where
  "append_property offset v edge_prop_size sg =
     (let st = property_start sg offset edge_prop_size
      in sg\<lparr>sg_bytes := (\<lambda>i. if st \<le> i \<and> i < st + edge_prop_size then v ! (i - st) else sg_bytes sg i)\<rparr>)"

definition set_region_ptr :: "nat \<Rightarrow> nat \<Rightarrow> segment \<Rightarrow> segment" where
  "set_region_ptr idx p sg = sg\<lparr>region_ptrs := (region_ptrs sg)(idx := p)\<rparr>"

definition set_epoch_table :: "nat \<Rightarrow> nat \<Rightarrow> segment \<Rightarrow> segment" where
  "set_epoch_table idx p sg = sg\<lparr>epoch_tables := (epoch_tables sg)(idx := p)\<rparr>"

definition put_block :: "nat \<Rightarrow> edge_block \<Rightarrow> segment \<Rightarrow> segment" where
  "put_block a b sg = sg\<lparr>sg_blocks := (sg_blocks sg)(a := Some b)\<rparr>"

section \<open>Facts about orders and space\<close>

lemma halvings_bounds:
  "sz < 2 ^ (Suc (halvings k sz - k)) \<and> k \<le> halvings k sz \<and>
   (0 < sz \<longrightarrow> 2 ^ (halvings k sz - k) \<le> sz)"
proof (induction k sz rule: halvings.induct)
  case (1 k sz)
  show ?case
  proof (cases "1 < sz")
    case False
    then show ?thesis by (simp add: halvings.simps [of k sz])
  next
    case True
    let ?r = "halvings (k + 1) (sz div 2)"
    have r: "halvings k sz = ?r" using True by (simp add: halvings.simps [of k sz])
    have IH: "sz div 2 < 2 ^ Suc (?r - (k + 1))" "k + 1 \<le> ?r" "2 ^ (?r - (k + 1)) \<le> sz div 2"
      using 1 True by auto
    have e: "Suc (?r - (k + 1)) = ?r - k" using IH(2) by simp
    have up: "sz < 2 * 2 ^ Suc (?r - (k + 1))" using IH(1) by linarith
    have lo: "2 * 2 ^ (?r - (k + 1)) \<le> sz" using IH(3) by linarith
    show ?thesis
      using up lo IH(2) unfolding r e [symmetric] by (simp flip: e)
  qed
qed

lemma bit_top_nat:
  fixes n :: nat
  assumes "2 ^ r \<le> n" and "n < 2 ^ Suc r"
  shows "bit n r"
proof -
  have "n div 2 ^ r = 1" using assms by (intro div_nat_eqI) simp_all
  then show ?thesis by (simp add: bit_iff_odd)
qed

lemma power_of_two_test:
  assumes "2 ^ r \<le> n" and "n < 2 ^ Suc r" and "r < 64"
  shows "(of_nat n AND (of_nat n - 1) :: u64) = 0 \<longleftrightarrow> n = 2 ^ r"
proof (cases "n = 2 ^ r")
  case True
  have "of_nat n AND (of_nat n - 1) = (push_bit r 1 AND (push_bit r 1 - 1) :: u64)"
    by (simp add: True push_bit_eq_mult)
  also have "\<dots> = 0"
    unfolding push_bit_one_minus_one by (rule bit_word_eqI) (auto simp: bit_simps simp del: push_bit_of_1)
  finally show ?thesis using True by simp
next
  case False
  then have more: "2 ^ r \<le> n - 1" "n - 1 < 2 ^ Suc r" using assms by simp_all
  have pred: "of_nat n - 1 = (of_nat (n - 1) :: u64)" using more by (simp add: of_nat_diff)
  have "bit (of_nat n AND (of_nat n - 1) :: u64) r"
    using bit_top_nat [OF assms(1,2)] bit_top_nat [OF more] assms(3)
    unfolding pred by (simp add: bit_simps del: of_nat_diff)
  then show ?thesis using False by (metis bit_0_eq bot_apply bot_bool_def)
qed

lemma size_to_order_covers:
  assumes "n < 2 ^ 63"
  shows "n \<le> 2 ^ size_to_order n" and "0 < n \<Longrightarrow> 2 ^ size_to_order n < 2 * n"
proof -
  let ?t = "(of_nat n AND (of_nat n - 1) :: u64) \<noteq> 0"
  let ?r = "halvings 0 n"
  have shift: "halvings k n = k + ?r" for k
  proof -
    have "halvings (j + k) m = k + halvings j m" for j m
    proof (induction j m rule: halvings.induct)
      case (1 j m)
      show ?case
      proof (cases "1 < m")
        case True
        have "halvings (j + k) m = halvings (j + 1 + k) (m div 2)"
          using True by (simp only: halvings.simps [of "j + k" m] if_True add.assoc add.commute [of k 1])
        also have "\<dots> = k + halvings (j + 1) (m div 2)" by (rule 1 [OF True])
        also have "halvings (j + 1) (m div 2) = halvings j m"
          using True by (simp only: halvings.simps [of j m] if_True)
        finally show ?thesis .
      next
        case False
        then show ?thesis by (simp add: halvings.simps [of "j + k" m] halvings.simps [of j m])
      qed
    qed
    from this [of 0 n] show ?thesis by simp
  qed
  have so: "size_to_order n = of_bool ?t + ?r" unfolding size_to_order_def by (rule shift)
  have b: "n < 2 ^ Suc ?r" "0 < n \<Longrightarrow> 2 ^ ?r \<le> n" using halvings_bounds [of n 0] by simp_all
  have r: "?r < 64" if "0 < n"
  proof -
    have "(2::nat) ^ ?r < 2 ^ 63" using b(2) [OF that] assms by simp
    then have "?r < 63" by (rule power_less_imp_less_exp [rotated]) simp
    then show ?thesis by simp
  qed
  have t: "?t \<longleftrightarrow> n \<noteq> 2 ^ ?r" if "0 < n"
    using power_of_two_test [OF b(2) [OF that] b(1) r [OF that]] by simp
  show "n \<le> 2 ^ size_to_order n"
    using b t by (cases "n = 0") (auto simp: so)
  show "2 ^ size_to_order n < 2 * n" if "0 < n"
    using b that t by (auto simp: so)
qed

end
