(* ===== verification/Block_Manager.thy ===== *)
theory Block_Manager
  imports Prelude
begin

text \<open>
  \<^verbatim>\<open>vegito/include/seggraph/block_manager.hpp\<close>: the allocator of the edge store's blob.
  Blocks have power-of-two sizes; a freed block goes to the free list of its order and only an
  empty list makes the blob grow. Address 0 is the null pointer: the constructor allocates the
  block at 0 for itself. The thread-local and the shared free lists are two fields, for one thread.
\<close>

section \<open>The allocator\<close>

definition MAX_ORDER :: nat where
  "MAX_ORDER = 64"

definition LARGE_BLOCK_THRESHOLD :: nat where
  "LARGE_BLOCK_THRESHOLD = 20"

definition FILE_TRUNC_SIZE :: nat where
  "FILE_TRUNC_SIZE = 2 ^ 30"

definition NULLPOINTER :: nat where
  "NULLPOINTER = 0"

record block_manager =
  capacity :: nat
  used_size :: nat
  file_size :: nat
  enough :: bool
  free_blocks :: "nat \<Rightarrow> nat list"
  large_free_blocks :: "nat \<Rightarrow> nat list"

text \<open>\<open>pop\<close> takes the back of the list of the order, \<open>push\<close> appends to it.\<close>

definition pop_block :: "nat \<Rightarrow> (nat \<Rightarrow> nat list) \<Rightarrow> nat \<times> (nat \<Rightarrow> nat list)" where
  "pop_block order fb =
     (if fb order \<noteq> [] then (last (fb order), fb(order := butlast (fb order)))
      else (NULLPOINTER, fb))"

definition push_block :: "nat \<Rightarrow> nat \<Rightarrow> (nat \<Rightarrow> nat list) \<Rightarrow> (nat \<Rightarrow> nat list)" where
  "push_block order p fb = fb(order := fb order @ [p])"

definition getUsedMemory :: "block_manager \<Rightarrow> nat" where
  "getUsedMemory bm =
     foldl (\<lambda>ret i. ret - length (large_free_blocks bm i) * 2 ^ i)
       (foldl (\<lambda>ret i. ret - length (free_blocks bm i) * 2 ^ i) (used_size bm)
         [0..<LARGE_BLOCK_THRESHOLD])
       [LARGE_BLOCK_THRESHOLD..<LARGE_BLOCK_THRESHOLD + 20]"

definition pop_free :: "nat \<Rightarrow> block_manager \<Rightarrow> nat \<times> block_manager" where
  "pop_free order bm =
     (if order < LARGE_BLOCK_THRESHOLD then
        (let (p, fb) = pop_block order (free_blocks bm) in (p, bm\<lparr>free_blocks := fb\<rparr>))
      else
        (let (p, fb) = pop_block order (large_free_blocks bm) in (p, bm\<lparr>large_free_blocks := fb\<rparr>)))"

definition alloc :: "nat \<Rightarrow> block_manager \<Rightarrow> nat \<times> block_manager" where
  "alloc order bm =
     (let (p, bm1) = pop_free order bm in
      if p \<noteq> NULLPOINTER then (p, bm1)
      else
        let block_size = 2 ^ order;
            pointer = used_size bm1;
            bm2 = bm1\<lparr>used_size := pointer + block_size\<rparr>
        in if getUsedMemory bm2 > capacity bm2 then (NULLPOINTER, bm2\<lparr>enough := True\<rparr>)
           else if pointer + block_size \<ge> file_size bm2 then
             (pointer, bm2\<lparr>file_size :=
                ((pointer + block_size) div FILE_TRUNC_SIZE + 1) * FILE_TRUNC_SIZE\<rparr>)
           else (pointer, bm2))"

definition free :: "nat \<Rightarrow> nat \<Rightarrow> block_manager \<Rightarrow> block_manager" where
  "free block order bm =
     (if order < LARGE_BLOCK_THRESHOLD then
        bm\<lparr>free_blocks := push_block order block (free_blocks bm)\<rparr>
      else bm\<lparr>large_free_blocks := push_block order block (large_free_blocks bm)\<rparr>)"

text \<open>The constructor.\<close>

definition new_block_manager :: "nat \<Rightarrow> block_manager" where
  "new_block_manager cap =
     snd (alloc LARGE_BLOCK_THRESHOLD
       \<lparr>capacity = cap, used_size = 0, file_size = FILE_TRUNC_SIZE, enough = False,
        free_blocks = (\<lambda>k. []), large_free_blocks = (\<lambda>k. [])\<rparr>)"

section \<open>Well-formed allocators\<close>

text \<open>A block is an address and an order.\<close>

type_synonym block = "nat \<times> nat"

definition apart :: "block \<Rightarrow> block \<Rightarrow> bool" where
  "apart x y \<longleftrightarrow> fst x + 2 ^ snd x \<le> fst y \<or> fst y + 2 ^ snd y \<le> fst x"

definition all_apart :: "block set \<Rightarrow> bool" where
  "all_apart B \<longleftrightarrow> (\<forall>x \<in> B. \<forall>y \<in> B. x \<noteq> y \<longrightarrow> apart x y)"

definition free_list :: "block_manager \<Rightarrow> nat \<Rightarrow> nat list" where
  "free_list bm order =
     (if order < LARGE_BLOCK_THRESHOLD then free_blocks bm order else large_free_blocks bm order)"

definition frees :: "block_manager \<Rightarrow> block set" where
  "frees bm = {(p, order). p \<in> set (free_list bm order)}"

definition lists_distinct :: "block_manager \<Rightarrow> bool" where
  "lists_distinct bm \<longleftrightarrow> (\<forall>order. distinct (free_list bm order))"

definition bm_ok :: "block_manager \<Rightarrow> block set \<Rightarrow> bool" where
  "bm_ok bm live \<longleftrightarrow>
     (\<forall>x \<in> live \<union> frees bm. fst x + 2 ^ snd x \<le> used_size bm) \<and>
     all_apart (insert (0, LARGE_BLOCK_THRESHOLD) (live \<union> frees bm)) \<and>
     live \<inter> frees bm = {} \<and> lists_distinct bm \<and>
     (0, LARGE_BLOCK_THRESHOLD) \<notin> live \<union> frees bm \<and> 2 ^ LARGE_BLOCK_THRESHOLD \<le> used_size bm"

section \<open>The contract of an allocator\<close>

locale allocator =
  fixes get :: "nat \<Rightarrow> 'm \<Rightarrow> nat \<times> 'm"
    and release :: "nat \<Rightarrow> nat \<Rightarrow> 'm \<Rightarrow> 'm"
    and ok :: "'m \<Rightarrow> block set \<Rightarrow> bool"
  assumes get_ok: "ok m live \<Longrightarrow> get order m = (p, m') \<Longrightarrow> p \<noteq> 0 \<Longrightarrow>
      ok m' (insert (p, order) live) \<and> (p, order) \<notin> live"
    and get_null: "ok m live \<Longrightarrow> get order m = (0, m') \<Longrightarrow> ok m' live"
    and release_ok: "ok m live \<Longrightarrow> (p, order) \<in> live \<Longrightarrow> ok (release p order m) (live - {(p, order)})"
    and live_apart: "ok m live \<Longrightarrow> x \<in> live \<Longrightarrow> y \<in> live \<Longrightarrow> x \<noteq> y \<Longrightarrow> apart x y"
    and live_not_null: "ok m live \<Longrightarrow> (0, order) \<notin> live"
begin

lemma get_apart:
  assumes "ok m live" and "get order m = (p, m')" and "p \<noteq> 0" and "x \<in> live"
  shows "apart (p, order) x"
proof -
  have "ok m' (insert (p, order) live)" and "(p, order) \<notin> live" using get_ok assms by blast+
  then show ?thesis using assms(4) live_apart [of m' "insert (p, order) live" "(p, order)" x] by auto
qed

lemma get_fresh:
  assumes "ok m live" and "get order m = (p, m')" and "p \<noteq> 0"
  shows "p \<notin> fst ` live"
proof
  assume "p \<in> fst ` live"
  then obtain o' where "(p, o') \<in> live" by auto
  with get_apart [OF assms] show False by (fastforce simp: apart_def)
qed

end

section \<open>The block manager is an allocator\<close>

lemma all_apart_subset: "all_apart B \<Longrightarrow> A \<subseteq> B \<Longrightarrow> all_apart A"
  unfolding all_apart_def by blast

lemma all_apart_insert:
  "all_apart B \<Longrightarrow> (\<And>y. y \<in> B \<Longrightarrow> y \<noteq> x \<Longrightarrow> apart x y) \<Longrightarrow> all_apart (insert x B)"
  by (fastforce simp: all_apart_def apart_def)

lemma all_apartD: "all_apart B \<Longrightarrow> x \<in> B \<Longrightarrow> y \<in> B \<Longrightarrow> x \<noteq> y \<Longrightarrow> apart x y"
  by (simp add: all_apart_def)

lemma free_not_null:
  assumes "bm_ok bm live" and "(p, order) \<in> live \<union> frees bm"
  shows "2 ^ LARGE_BLOCK_THRESHOLD \<le> p"
proof -
  have "(0, LARGE_BLOCK_THRESHOLD) \<notin> live \<union> frees bm" using assms(1) unfolding bm_ok_def by blast
  then have "(p, order) \<noteq> (0, LARGE_BLOCK_THRESHOLD)" using assms(2) by metis
  moreover have "all_apart (insert (0, LARGE_BLOCK_THRESHOLD) (live \<union> frees bm))"
    using assms(1) unfolding bm_ok_def by simp
  ultimately have "apart (0, LARGE_BLOCK_THRESHOLD) (p, order)"
    using assms(2) by (intro all_apartD) auto
  then show ?thesis by (auto simp: apart_def)
qed

lemma pop_free_Some:
  assumes "free_list bm order \<noteq> []"
  obtains bm' where "pop_free order bm = (last (free_list bm order), bm')"
    and "used_size bm' = used_size bm"
    and "\<And>k. free_list bm' k = (if k = order then butlast (free_list bm order) else free_list bm k)"
  using assms
  by (cases "order < LARGE_BLOCK_THRESHOLD")
    (auto simp: pop_free_def pop_block_def free_list_def)

lemma pop_free_None: "free_list bm order = [] \<Longrightarrow> pop_free order bm = (NULLPOINTER, bm)"
  by (auto simp: pop_free_def pop_block_def free_list_def split: if_splits)

lemma frees_butlast:
  assumes "lists_distinct bm" and "free_list bm order \<noteq> []"
    and "\<And>k. free_list bm' k = (if k = order then butlast (free_list bm order) else free_list bm k)"
  shows "frees bm' = frees bm - {(last (free_list bm order), order)}" and "lists_distinct bm'"
    and "(last (free_list bm order), order) \<in> frees bm"
proof -
  let ?l = "free_list bm order"
  have d: "distinct ?l" using assms(1) by (simp add: lists_distinct_def)
  have split: "?l = butlast ?l @ [last ?l]" using assms(2) by simp
  have "distinct (butlast ?l @ [last ?l])" using d split by metis
  then have notin: "last ?l \<notin> set (butlast ?l)" by simp
  have "set ?l = insert (last ?l) (set (butlast ?l))"
    by (subst split) simp
  with notin have "set (butlast ?l) = set ?l - {last ?l}" by blast
  then show "frees bm' = frees bm - {(last ?l, order)}"
    by (auto simp: frees_def assms(3) split: if_splits)
  show "lists_distinct bm'" using assms(1,3) d by (auto simp: lists_distinct_def distinct_butlast)
  show "(last ?l, order) \<in> frees bm" using assms(2) by (simp add: frees_def)
qed

lemma alloc_cases:
  assumes "bm_ok bm live" and "alloc order bm = (p, bm')"
  obtains (reuse) "p \<noteq> 0" and "(p, order) \<in> frees bm" and "frees bm' = frees bm - {(p, order)}"
      and "used_size bm' = used_size bm" and "lists_distinct bm'"
  | (grow) "p = used_size bm" and "frees bm' = frees bm" and "used_size bm' = used_size bm + 2 ^ order"
      and "lists_distinct bm'"
  | (full) "p = 0" and "frees bm' = frees bm" and "used_size bm' = used_size bm + 2 ^ order"
      and "lists_distinct bm'"
proof (cases "free_list bm order = []")
  case False
  have ld: "lists_distinct bm" using assms(1) by (simp add: bm_ok_def)
  obtain bm1 where pop: "pop_free order bm = (last (free_list bm order), bm1)"
    and u: "used_size bm1 = used_size bm"
    and l: "\<And>k. free_list bm1 k = (if k = order then butlast (free_list bm order) else free_list bm k)"
    using pop_free_Some [OF False] by metis
  note fb = frees_butlast [OF ld False l]
  have "last (free_list bm order) \<noteq> 0"
    using free_not_null [OF assms(1), of "last (free_list bm order)" order] fb(3)
    by (auto simp: LARGE_BLOCK_THRESHOLD_def)
  then have "p = last (free_list bm order)" "bm' = bm1" "p \<noteq> 0"
    using assms(2) pop by (auto simp: alloc_def NULLPOINTER_def)
  then show thesis using reuse fb u by auto
next
  case True
  have fl: "free_list (bm\<lparr>used_size := u\<rparr>) = free_list bm"
    "free_list (bm\<lparr>used_size := u, enough := e\<rparr>) = free_list bm"
    "free_list (bm\<lparr>used_size := u, file_size := f\<rparr>) = free_list bm" for u e f
    by (auto simp: free_list_def)
  show thesis
    using assms True grow full
    by (auto simp: alloc_def pop_free_None NULLPOINTER_def Let_def frees_def lists_distinct_def fl
        bm_ok_def split: if_splits)
qed

lemma alloc_ok:
  assumes ok: "bm_ok bm live" and run: "alloc order bm = (p, bm')" and p: "p \<noteq> 0"
  shows "bm_ok bm' (insert (p, order) live) \<and> (p, order) \<notin> live"
  using ok run
proof (cases rule: alloc_cases)
  case reuse
  have "(p, order) \<notin> live" using ok reuse by (auto simp: bm_ok_def)
  moreover have "insert (p, order) live \<union> frees bm' = live \<union> frees bm" using reuse by auto
  ultimately show ?thesis using ok reuse unfolding bm_ok_def by auto
next
  case grow
  have parts: "all_apart (insert (0, LARGE_BLOCK_THRESHOLD) (live \<union> frees bm))"
    "live \<inter> frees bm = {}" "(0, LARGE_BLOCK_THRESHOLD) \<notin> live \<union> frees bm"
    "2 ^ LARGE_BLOCK_THRESHOLD \<le> used_size bm"
    using ok by (simp_all add: bm_ok_def)
  have below: "\<forall>x \<in> insert (0, LARGE_BLOCK_THRESHOLD) (live \<union> frees bm). fst x + 2 ^ snd x \<le> used_size bm"
    using ok by (auto simp: bm_ok_def)
  have new: "(p, order) \<notin> live \<union> frees bm" using below grow by force
  have "all_apart (insert (p, order) (insert (0, LARGE_BLOCK_THRESHOLD) (live \<union> frees bm)))"
    by (rule all_apart_insert [OF parts(1)]) (use below grow in \<open>force simp: apart_def\<close>)
  moreover have "insert (p, order) (insert (0, LARGE_BLOCK_THRESHOLD) (live \<union> frees bm)) =
      insert (0, LARGE_BLOCK_THRESHOLD) (insert (p, order) live \<union> frees bm')"
    using grow by auto
  moreover have "(0, LARGE_BLOCK_THRESHOLD) \<noteq> (p, order)" using p by simp
  moreover have "\<forall>x \<in> insert (p, order) live \<union> frees bm'. fst x + 2 ^ snd x \<le> used_size bm'"
    using below grow by (auto intro: trans_le_add1)
  ultimately show ?thesis
    using parts grow new unfolding bm_ok_def by auto
next
  case full
  then show ?thesis using p by simp
qed

lemma alloc_null:
  assumes ok: "bm_ok bm live" and run: "alloc order bm = (0, bm')"
  shows "bm_ok bm' live"
  using ok run
proof (cases rule: alloc_cases)
  case full
  then show ?thesis using ok by (auto simp: bm_ok_def intro: trans_le_add1)
next
  case grow
  then show ?thesis using ok by (auto simp: bm_ok_def LARGE_BLOCK_THRESHOLD_def)
qed simp

lemma free_list_free:
  "free_list (free p order bm) k = (if k = order then free_list bm order @ [p] else free_list bm k)"
  by (auto simp: free_list_def free_def push_block_def)

lemma free_ok:
  assumes ok: "bm_ok bm live" and held: "(p, order) \<in> live"
  shows "bm_ok (free p order bm) (live - {(p, order)})"
proof -
  let ?bm = "free p order bm"
  have fr: "frees ?bm = insert (p, order) (frees bm)"
    by (auto simp: frees_def free_list_free split: if_splits)
  have notin: "(p, order) \<notin> frees bm" using ok held by (auto simp: bm_ok_def)
  have "lists_distinct ?bm"
    using ok notin by (auto simp: bm_ok_def lists_distinct_def free_list_free frees_def)
  moreover have "(live - {(p, order)}) \<union> frees ?bm = live \<union> frees bm" using held fr by auto
  moreover have "used_size ?bm = used_size bm" by (simp add: free_def)
  moreover have "(live - {(p, order)}) \<inter> frees ?bm = {}" using ok fr by (auto simp: bm_ok_def)
  ultimately show ?thesis using ok unfolding bm_ok_def by simp
qed

interpretation blocks: allocator alloc free bm_ok
proof unfold_locales
  fix m live x y
  assume "bm_ok m live" "x \<in> live" "y \<in> live" "x \<noteq> y"
  then show "apart x y" by (auto simp: bm_ok_def all_apart_def)
next
  fix m live order
  assume "bm_ok m live"
  then show "(0, order) \<notin> live"
    using free_not_null [of m live 0 order] by (auto simp: LARGE_BLOCK_THRESHOLD_def)
qed (auto intro: alloc_null free_ok dest: alloc_ok)

lemma new_block_manager_ok: "2 ^ 20 \<le> cap \<Longrightarrow> bm_ok (new_block_manager cap) {}"
proof -
  assume cap: "2 ^ 20 \<le> cap"
  have foldl_id: "foldl (\<lambda>ret i. ret - 0) (u::nat) xs = u" for u and xs :: "nat list"
    by (induction xs) auto
  have "getUsedMemory \<lparr>capacity = cap, used_size = u, file_size = f, enough = e,
      free_blocks = \<lambda>k. [], large_free_blocks = \<lambda>k. []\<rparr> = u" for u f e
    unfolding getUsedMemory_def using foldl_id by simp
  then have "new_block_manager cap = \<lparr>capacity = cap, used_size = 2 ^ 20, file_size = FILE_TRUNC_SIZE,
      enough = False, free_blocks = \<lambda>k. [], large_free_blocks = \<lambda>k. []\<rparr>"
    using cap by (simp add: new_block_manager_def alloc_def pop_free_def pop_block_def
        LARGE_BLOCK_THRESHOLD_def NULLPOINTER_def FILE_TRUNC_SIZE_def)
  then show ?thesis
    by (simp add: bm_ok_def frees_def free_list_def lists_distinct_def all_apart_def
        LARGE_BLOCK_THRESHOLD_def)
qed

section \<open>The order of a block is bounded by the capacity\<close>

lemma foldl_minus: "foldl (\<lambda>r i. r - f i) u xs = u - sum_list (map f xs)" for u :: nat
  by (induction xs arbitrary: u) simp_all

lemma getUsedMemory_eq:
  "getUsedMemory bm = used_size bm - (\<Sum>k < 40. length (free_list bm k) * 2 ^ k)"
proof -
  let ?f = "\<lambda>k. length (free_list bm k) * 2 ^ k"
  have lo: "map (\<lambda>i. length (free_blocks bm i) * 2 ^ i) [0..<20] = map ?f [0..<20]"
    by (rule map_cong [OF refl]) (simp add: free_list_def LARGE_BLOCK_THRESHOLD_def)
  have hi: "map (\<lambda>i. length (large_free_blocks bm i) * 2 ^ i) [20..<40] = map ?f [20..<40]"
  proof (rule map_cong [OF refl])
    fix k :: nat
    assume "k \<in> set [20..<40]"
    then have "\<not> k < 20" by (simp only: set_upt atLeastLessThan_iff not_less)
    then show "length (large_free_blocks bm k) * 2 ^ k = ?f k"
      by (simp only: free_list_def LARGE_BLOCK_THRESHOLD_def if_False)
  qed
  have "getUsedMemory bm = used_size bm - sum_list (map ?f [0..<20]) - sum_list (map ?f [20..<40])"
  proof -
    have n: "(20::nat) + 20 = 40" by simp
    show ?thesis unfolding getUsedMemory_def foldl_minus LARGE_BLOCK_THRESHOLD_def n lo hi ..
  qed
  also have "\<dots> = used_size bm - sum_list (map ?f ([0..<20] @ [20..<40]))"
    by (simp only: map_append sum_list_append diff_diff_left)
  also have "[0..<20] @ [20..<40] = [0::nat..<40]" using upt_add_eq_append [of 0 20 20] by simp
  also have "sum_list (map ?f [0..<40]) = (\<Sum>k < 40. ?f k)"
    by (simp add: sum_list_distinct_conv_sum_set atLeast0LessThan)
  finally show ?thesis .
qed

lemma free_total:
  assumes "bm_ok bm live"
  shows "(\<Sum>k < 40. length (free_list bm k) * 2 ^ k) \<le> used_size bm"
proof -
  let ?S = "\<lambda>x. {fst x ..< fst x + 2 ^ snd x} :: nat set"
  define F where "F k = (\<lambda>p. (p, k)) ` set (free_list bm k)" for k
  have sub: "F k \<subseteq> frees bm" for k by (auto simp: F_def frees_def)
  have ap: "?S x \<inter> ?S y = {}" if "x \<in> frees bm" "y \<in> frees bm" "x \<noteq> y" for x y
    using assms that all_apartD [of "insert (0, LARGE_BLOCK_THRESHOLD) (live \<union> frees bm)" x y]
    by (force simp: bm_ok_def apart_def)
  have "length (free_list bm k) * 2 ^ k = card (\<Union>x \<in> F k. ?S x)" for k
  proof -
    have d: "distinct (free_list bm k)" using assms by (simp add: bm_ok_def lists_distinct_def)
    have "card (\<Union>x \<in> F k. ?S x) = (\<Sum>x \<in> F k. card (?S x))"
    proof (rule card_UN_disjoint)
      show "\<forall>x \<in> F k. \<forall>y \<in> F k. x \<noteq> y \<longrightarrow> ?S x \<inter> ?S y = {}" using ap sub by blast
    qed (auto simp: F_def)
    also have "\<dots> = (\<Sum>x \<in> F k. 2 ^ k)" by (rule sum.cong) (auto simp: F_def)
    also have "\<dots> = length (free_list bm k) * 2 ^ k"
      using d by (simp add: F_def card_image inj_on_def distinct_card)
    finally show ?thesis by simp
  qed
  then have "(\<Sum>k < 40. length (free_list bm k) * 2 ^ k) = (\<Sum>k < 40. card (\<Union>x \<in> F k. ?S x))" by simp
  also have "\<dots> = card (\<Union>k < 40. \<Union>x \<in> F k. ?S x)"
  proof (rule card_UN_disjoint [symmetric])
    show "\<forall>i \<in> {..<40}. \<forall>j \<in> {..<40}. i \<noteq> j \<longrightarrow> (\<Union>x \<in> F i. ?S x) \<inter> (\<Union>x \<in> F j. ?S x) = {}"
    proof (intro ballI impI)
      fix i j :: nat
      assume "i \<noteq> j"
      have "?S x \<inter> ?S y = {}" if "x \<in> F i" "y \<in> F j" for x y
        by (rule ap) (use that sub \<open>i \<noteq> j\<close> in \<open>auto simp: F_def\<close>)
      then show "(\<Union>x \<in> F i. ?S x) \<inter> (\<Union>x \<in> F j. ?S x) = {}" by blast
    qed
  qed (auto simp: F_def)
  also have "\<dots> \<le> card {..<used_size bm}"
  proof (rule card_mono)
    have "fst x + 2 ^ snd x \<le> used_size bm" if "x \<in> frees bm" for x
      using assms that by (auto simp: bm_ok_def)
    then show "(\<Union>k < 40. \<Union>x \<in> F k. ?S x) \<subseteq> {..<used_size bm}"
      using sub by (force simp: subset_iff)
  qed simp
  finally show ?thesis by simp
qed

lemma alloc_order:
  assumes ok: "bm_ok bm live" and run: "alloc order bm = (p, bm')" and p: "p \<noteq> 0"
    and new: "(p, order) \<notin> frees bm"
  shows "2 ^ order \<le> capacity bm"
proof -
  have none: "free_list bm order = []"
  proof (rule ccontr)
    assume ne: "free_list bm order \<noteq> []"
    have "lists_distinct bm" using ok by (simp add: bm_ok_def)
    obtain bm1 where pop: "pop_free order bm = (last (free_list bm order), bm1)"
      using pop_free_Some [OF ne] by metis
    have mem: "(last (free_list bm order), order) \<in> frees bm" using ne by (simp add: frees_def)
    then have "last (free_list bm order) \<noteq> 0"
      using free_not_null [OF ok, of "last (free_list bm order)" order]
      by (auto simp: LARGE_BLOCK_THRESHOLD_def)
    then have "p = last (free_list bm order)" using run pop by (auto simp: alloc_def NULLPOINTER_def)
    then show False using mem new by simp
  qed
  let ?bm2 = "bm\<lparr>used_size := used_size bm + 2 ^ order\<rparr>"
  have "getUsedMemory ?bm2 \<le> capacity bm"
    using run p none by (auto simp: alloc_def pop_free_None NULLPOINTER_def Let_def split: if_splits)
  moreover have "free_list ?bm2 = free_list bm" by (auto simp: free_list_def)
  ultimately show ?thesis using free_total [OF ok] by (simp add: getUsedMemory_eq)
qed

lemma alloc_capacity: "alloc order bm = (p, bm') \<Longrightarrow> capacity bm' = capacity bm"
  by (auto simp: alloc_def Let_def pop_free_def pop_block_def split: if_splits prod.splits)

text \<open>No block of order 62 or more, in a blob of less than \<open>2 ^ 62\<close> bytes.\<close>

definition orders_ok :: "block_manager \<Rightarrow> block set \<Rightarrow> bool" where
  "orders_ok bm live \<longleftrightarrow> capacity bm < 2 ^ 62 \<and> (\<forall>x \<in> live \<union> frees bm. snd x < 62)"

lemma alloc_orders:
  assumes "bm_ok bm live" and "orders_ok bm live" and "alloc order bm = (p, bm')"
  shows "p \<noteq> 0 \<Longrightarrow> order < 62 \<and> orders_ok bm' (insert (p, order) live)"
    and "p = 0 \<Longrightarrow> orders_ok bm' live"
proof -
  have fr: "frees bm' \<subseteq> frees bm" using assms(1,3) by (cases rule: alloc_cases) auto
  have cap: "capacity bm' = capacity bm" by (rule alloc_capacity [OF assms(3)])
  show "p = 0 \<Longrightarrow> orders_ok bm' live" using assms(2) fr cap by (auto simp: orders_ok_def)
  assume p: "p \<noteq> 0"
  have "order < 62"
  proof (cases "(p, order) \<in> frees bm")
    case True
    then show ?thesis using assms(2) by (force simp: orders_ok_def)
  next
    case False
    have "(2::nat) ^ order < 2 ^ 62"
      using alloc_order [OF assms(1,3) p False] assms(2) by (simp add: orders_ok_def)
    then show ?thesis by (rule power_less_imp_less_exp [rotated]) simp
  qed
  then show "order < 62 \<and> orders_ok bm' (insert (p, order) live)"
    using assms(2) fr cap by (auto simp: orders_ok_def)
qed

section \<open>Histories of requests\<close>

text \<open>
  A client that keeps the blocks it was given and releases only those; a request that fails leaves
  what it holds as it is.
\<close>

datatype request = Get nat | Release nat nat

fun serve :: "request list \<Rightarrow> block_manager \<times> block set \<Rightarrow> block_manager \<times> block set" where
  "serve [] s = s"
| "serve (Get order # rs) (bm, live) =
     (let (p, bm') = alloc order bm in
      serve rs (bm', if p = NULLPOINTER then live else insert (p, order) live))"
| "serve (Release p order # rs) (bm, live) =
     (if (p, order) \<in> live then serve rs (free p order bm, live - {(p, order)})
      else serve rs (bm, live))"

lemma serve_ok: "bm_ok bm live \<Longrightarrow> serve rs (bm, live) = (bm', live') \<Longrightarrow> bm_ok bm' live'"
proof (induction rs "(bm, live)" arbitrary: bm live rule: serve.induct)
  case 1
  then show ?case by simp
next
  case (2 order rs bm live)
  obtain p bm1 where run: "alloc order bm = (p, bm1)" by fastforce
  show ?case
  proof (cases "p = 0")
    case True
    then show ?thesis
      using 2 run blocks.get_null [OF 2(2)] by (auto simp: NULLPOINTER_def)
  next
    case False
    then show ?thesis
      using 2 run blocks.get_ok [OF 2(2) run False] by (auto simp: NULLPOINTER_def)
  qed
next
  case (3 p order rs bm live)
  then show ?case by (auto split: if_splits intro: blocks.release_ok)
qed

section \<open>Properties\<close>


lemma demo_serve:
  "snd (serve [Get 5, Get 21, Release (2 ^ 20) 5, Get 5, Get 6] (new_block_manager (2 ^ 23), {})) =
    {(2 ^ 20, 5), (2 ^ 20 + 2 ^ 5, 21), (2 ^ 20 + 2 ^ 5 + 2 ^ 21, 6)}"
  by (simp add: new_block_manager_def alloc_def free_def pop_free_def pop_block_def push_block_def
      LARGE_BLOCK_THRESHOLD_def NULLPOINTER_def FILE_TRUNC_SIZE_def getUsedMemory_def upt_rec
      insert_commute)


text \<open>
The manager hands out blocks beyond its capacity: it compares the capacity with the memory in
use, free blocks not counted, but a block that no free list has comes from the end of the blob. In
a blob of 4 MB, after two blocks of 1 MB were released, a block of 2 MB is placed at offset 4 MB.
\<close>

theorem alloc_past_capacity:
  "case serve [Get 20, Get 20, Get 20, Release 1048576 20, Release 2097152 20, Get 21]
      (new_block_manager 4194304, {}) of
     (bm, live) \<Rightarrow> capacity bm = 4194304 \<and> (4194304, 21) \<in> live"
  by (simp add: new_block_manager_def alloc_def pop_free_def pop_block_def Let_def LARGE_BLOCK_THRESHOLD_def
      NULLPOINTER_def getUsedMemory_def free_def push_block_def FILE_TRUNC_SIZE_def upt_rec)

end
