(* ===== verification/Seg_Writer.thy ===== *)
theory Seg_Writer
  imports Blocks Block_Manager
begin

text \<open>
  The edge store of one vertex label: \<^verbatim>\<open>SegGraph\<close>
  (\<^verbatim>\<open>vegito/include/seggraph/segment_graph.hpp\<close>) and the operations of
  \<^verbatim>\<open>EpochGraphWriter\<close> (\<^verbatim>\<open>vegito/src/seggraph/epoch_graph_writer.cpp\<close>).
  The blob is a heap of typed blocks: each address the block manager returned holds a segment, an
  epoch table or an edge label block; edge blocks live inside their segment. One writer runs at a
  time, so the locks have no effect on the state. The errors are the exception of
  \<^verbatim>\<open>check_vertex_id\<close>; an early return after a failed allocation, which leaves the locks
  held (\<open>Out_of_memory\<close>); the use of a failed allocation that is not checked (\<open>Null_block\<close>);
  and any access outside the structure (\<open>Fault\<close>).
\<close>

section \<open>State\<close>

datatype seg_error = Invalid_argument | Out_of_memory | Null_block | Fault

record seg_graph =
  vertex_count :: nat
  seg_count :: nat
  edge_label_ptrs :: "nat list"
  manager :: block_manager
  segments :: "nat \<Rightarrow> segment option"
  epoch_blocks :: "nat \<Rightarrow> epoch_block option"
  label_blocks :: "nat \<Rightarrow> label_block option"
  segments_to_recycle :: "(nat \<times> nat \<times> int) list"
  edge_is_undirected :: "bool list"
  deleted_inner :: nat
  deleted_outer :: nat

definition INIT_SEGMENT_ORDER :: nat where
  "INIT_SEGMENT_ORDER = 20"

definition COPY_THRESHOLD_ORDER :: nat where
  "COPY_THRESHOLD_ORDER = 3"

definition DEFAULT_INIT_ORDER :: nat where
  "DEFAULT_INIT_ORDER = 1"

definition LAG_EPOCH_NUMBER :: int where
  "LAG_EPOCH_NUMBER = 2"

definition get_vertex_seg_id :: "nat \<Rightarrow> nat" where
  "get_vertex_seg_id v = v div VERTEX_PER_SEG"

definition get_vertex_seg_idx :: "nat \<Rightarrow> nat" where
  "get_vertex_seg_idx v = v mod VERTEX_PER_SEG"

definition is_edge_undirected :: "seg_graph \<Rightarrow> nat \<Rightarrow> bool" where
  "is_edge_undirected g label =
     (if label \<ge> length (edge_is_undirected g) then False else edge_is_undirected g ! label)"

definition add_deleted_inner_num :: "nat \<Rightarrow> seg_graph \<Rightarrow> seg_graph" where
  "add_deleted_inner_num num g = g\<lparr>deleted_inner := deleted_inner g + num\<rparr>"

definition add_deleted_outer_num :: "nat \<Rightarrow> seg_graph \<Rightarrow> seg_graph" where
  "add_deleted_outer_num num g = g\<lparr>deleted_outer := deleted_outer g + num\<rparr>"

text \<open>
  The constructor: the label pointers are an array of one entry per segment of the vertex capacity.
\<close>

definition new_seg_graph :: "nat \<Rightarrow> nat \<Rightarrow> bool list \<Rightarrow> seg_graph" where
  "new_seg_graph max_block_size max_vertex_id undirected =
     \<lparr>vertex_count = 0, seg_count = 0,
      edge_label_ptrs = replicate (max_vertex_id div VERTEX_PER_SEG) NULLPOINTER,
      manager = new_block_manager max_block_size, segments = (\<lambda>a. None),
      epoch_blocks = (\<lambda>a. None), label_blocks = (\<lambda>a. None), segments_to_recycle = [],
      edge_is_undirected = undirected, deleted_inner = 0, deleted_outer = 0\<rparr>"

section \<open>Vertices and segments\<close>

text \<open>
  \<open>new_vertex\<close>: the first vertex of a segment clears the label pointer of the segment after it.
  The id is checked against the counter that was just incremented, so the check always passes.
\<close>

definition new_vertex :: "seg_graph \<Rightarrow> seg_error + nat \<times> seg_graph" where
  "new_vertex g =
     (let v = vertex_count g; g1 = g\<lparr>vertex_count := v + 1\<rparr> in
      if v \<ge> vertex_count g1 then Inl Invalid_argument
      else if get_vertex_seg_id v \<ge> seg_count g1 then
        let s = seg_count g1; g2 = g1\<lparr>seg_count := s + 1\<rparr> in
        if length (edge_label_ptrs g2) \<le> s + 1 then Inl Fault
        else Inr (v, g2\<lparr>edge_label_ptrs := (edge_label_ptrs g2)[s + 1 := NULLPOINTER]\<rparr>)
      else Inr (v, g1))"

definition find_label :: "nat \<Rightarrow> edge_label_entry list \<Rightarrow> edge_label_entry option" where
  "find_label label es = find (\<lambda>e. entry_label e = label) es"

definition locate_segment :: "seg_graph \<Rightarrow> nat \<Rightarrow> nat \<Rightarrow> dir_t \<Rightarrow> seg_error + nat" where
  "locate_segment g segid label dir =
     (if length (edge_label_ptrs g) \<le> segid then Inl Fault
      else if edge_label_ptrs g ! segid = NULLPOINTER then Inr NULLPOINTER
      else case label_blocks g (edge_label_ptrs g ! segid) of
        None \<Rightarrow> Inl Fault
      | Some b \<Rightarrow>
          (case find_label label (lb_entries b) of
             None \<Rightarrow> Inr NULLPOINTER
           | Some e \<Rightarrow> Inr (get_pointer e dir)))"

text \<open>An undirected label keeps one segment for both directions.\<close>

definition point_entry :: "bool \<Rightarrow> nat \<Rightarrow> dir_t \<Rightarrow> edge_label_entry \<Rightarrow> edge_label_entry" where
  "point_entry undirected p dir e =
     (if undirected then set_pointer p EIN (set_pointer p EOUT e) else set_pointer p dir e)"

primrec update_entry :: "nat \<Rightarrow> (edge_label_entry \<Rightarrow> edge_label_entry) \<Rightarrow>
    edge_label_entry list \<Rightarrow> edge_label_entry list" where
  "update_entry label f [] = []"
| "update_entry label f (e # es) =
     (if entry_label e = label then f e # es else e # update_entry label f es)"

definition update_edge_label_block ::
  "nat \<Rightarrow> nat \<Rightarrow> dir_t \<Rightarrow> nat \<Rightarrow> seg_graph \<Rightarrow> seg_error + seg_graph" where
  "update_edge_label_block segid label dir seg_pointer g =
     (if length (edge_label_ptrs g) \<le> segid then Inl Fault
      else
        let pointer = edge_label_ptrs g ! segid;
            old = (if pointer = NULLPOINTER then None else label_blocks g pointer);
            entry = point_entry (is_edge_undirected g label) seg_pointer dir (new_label_entry label)
        in if pointer \<noteq> NULLPOINTER \<and> old = None then Inl Fault
        else case old of
          Some b \<Rightarrow>
            if find_label label (lb_entries b) \<noteq> None then
              Inr (g\<lparr>label_blocks := (label_blocks g)(pointer := Some (b\<lparr>lb_entries :=
                update_entry label (point_entry (is_edge_undirected g label) seg_pointer dir)
                  (lb_entries b)\<rparr>))\<rparr>)
            else if label_has_space b then
              Inr (g\<lparr>label_blocks := (label_blocks g)(pointer := Some (append_label entry b))\<rparr>)
            else
              let order = size_to_order (edge_label_block_header_size +
                    (1 + length (lb_entries b)) * edge_label_entry_size);
                  (np, m) = alloc order (manager g)
              in if np = NULLPOINTER then Inl Null_block
                 else Inr (g\<lparr>manager := m,
                   label_blocks := (label_blocks g)(np := Some (append_label entry
                     (foldl (\<lambda>nb e. append_label e nb) (fill_label_block order pointer) (lb_entries b)))),
                   edge_label_ptrs := (edge_label_ptrs g)[segid := np]\<rparr>)
        | None \<Rightarrow>
            let order = size_to_order (edge_label_block_header_size + 1 * edge_label_entry_size);
                (np, m) = alloc order (manager g)
            in if np = NULLPOINTER then Inl Null_block
               else Inr (g\<lparr>manager := m,
                 label_blocks := (label_blocks g)(np := Some (append_label entry
                   (fill_label_block order pointer))),
                 edge_label_ptrs := (edge_label_ptrs g)[segid := np]\<rparr>))"

text \<open>\<^verbatim>\<open>while ((1 << order) < sizeof(VegitoSegmentHeader) * 10) order++;\<close>\<close>

function first_order :: "nat \<Rightarrow> nat" where
  "first_order order = (if 2 ^ order < segment_header_size * 10 then first_order (order + 1) else order)"
  by pat_completeness auto
termination
proof (relation "measure (\<lambda>order. segment_header_size * 10 - order)", simp)
  fix order :: nat
  assume "2 ^ order < segment_header_size * 10"
  moreover have "order < 2 ^ order" by (rule less_exp)
  ultimately have "order < segment_header_size * 10" by linarith
  then show "(order + 1, order) \<in> measure (\<lambda>order. segment_header_size * 10 - order)" by simp
qed

declare first_order.simps [simp del]

text \<open>The segment of a label and direction, created when it does not exist yet.\<close>

definition ensure_segment :: "nat \<Rightarrow> nat \<Rightarrow> dir_t \<Rightarrow> seg_graph \<Rightarrow> seg_error + nat \<times> seg_graph" where
  "ensure_segment segid label dir g =
     (case locate_segment g segid label dir of
        Inl e \<Rightarrow> Inl e
      | Inr p \<Rightarrow>
          if p \<noteq> NULLPOINTER then Inr (p, g)
          else
            let order = first_order INIT_SEGMENT_ORDER; (np, m) = alloc order (manager g)
            in if np = NULLPOINTER then Inl Out_of_memory
               else
                 (case update_edge_label_block segid label dir np
                     (g\<lparr>manager := m, segments := (segments g)(np := Some (fill_segment np order segid))\<rparr>) of
                    Inl e \<Rightarrow> Inl e
                  | Inr g' \<Rightarrow> Inr (np, g')))"

section \<open>Edge blocks\<close>

text \<open>Following a block pointer: the null pointer is no block, a dangling one is a fault.\<close>

definition convert_block :: "segment \<Rightarrow> nat \<Rightarrow> seg_error + edge_block option" where
  "convert_block sg p =
     (if p = NULLPOINTER then Inr None
      else case sg_blocks sg p of None \<Rightarrow> Inl Fault | Some b \<Rightarrow> Inr (Some b))"

text \<open>
  The copying loops: entry \<open>i\<close> of the old block goes to the end of the new one and takes its
  property along. \<open>src\<close> gives the segment that holds the old block, from the one being written.
\<close>

primrec copy_entries ::
  "(segment \<Rightarrow> segment) \<Rightarrow> nat \<Rightarrow> nat \<Rightarrow> nat \<Rightarrow> nat \<Rightarrow> u64 list \<Rightarrow> segment \<Rightarrow> seg_error + segment" where
  "copy_entries src old_p new_p prop_size i [] sg = Inr sg"
| "copy_entries src old_p new_p prop_size i (e # es) sg =
     (case sg_blocks sg new_p of
        None \<Rightarrow> Inl Fault
      | Some nb \<Rightarrow>
          let nb' = append_edge e nb;
              sg1 = put_block new_p nb' sg;
              old_off = get_allocated_edge_num (src sg1) old_p + i;
              new_off = get_allocated_edge_num sg1 new_p + get_num_entries nb' - 1;
              sg2 = (if prop_size > 0
                then append_property new_off (get_property (src sg1) old_off prop_size) prop_size sg1
                else sg1)
          in copy_entries src old_p new_p prop_size (i + 1) es sg2)"

text \<open>The blocks of a region, newest first; following a cycle does not return.\<close>

partial_function (option) collect_blocks :: "segment \<Rightarrow> nat \<Rightarrow> (nat \<times> edge_block) list option" where
  [code]: "collect_blocks sg p =
     (if p = NULLPOINTER then Some []
      else Option.bind (sg_blocks sg p) (\<lambda>b.
        Option.bind (collect_blocks sg (prev_pointer b)) (\<lambda>bs. Some ((p, b) # bs))))"

primrec merge_blocks :: "segment \<Rightarrow> nat \<Rightarrow> nat \<Rightarrow> (nat \<times> edge_block) list \<Rightarrow> segment \<Rightarrow> seg_error + segment" where
  "merge_blocks old_seg new_p prop_size [] sg = Inr sg"
| "merge_blocks old_seg new_p prop_size (pb # bs) sg =
     (case copy_entries (\<lambda>_. old_seg) (fst pb) new_p prop_size 0 (eb_entries (snd pb)) sg of
        Inl e \<Rightarrow> Inl e
      | Inr sg' \<Rightarrow> merge_blocks old_seg new_p prop_size bs sg')"

text \<open>
  One round of \<open>merge_segment\<close>: region \<open>i\<close> is compacted into one block. \<open>segidx\<close> is the vertex
  the writer adds an edge to (\<open>None\<close> for the call with no vertex); its block gets one entry of slack.
\<close>

definition merge_region ::
  "segment \<Rightarrow> nat option \<Rightarrow> nat \<Rightarrow> nat \<Rightarrow> segment \<Rightarrow> seg_error + segment" where
  "merge_region old_seg segidx prop_size i new_seg =
     (case collect_blocks old_seg (region_ptrs old_seg i) of
        None \<Rightarrow> Inl Fault
      | Some bs \<Rightarrow>
          let n = sum_list (map (get_num_entries \<circ> snd) bs) in
          if n = 0 \<and> segidx \<noteq> Some i then Inr new_seg
          else
            let order = size_to_order (if segidx = Some i then n + 1 else n);
                (p, sg) = alloc_slots order prop_size new_seg;
                sg = set_epoch_table i (epoch_tables old_seg i) (set_region_ptr i p sg)
            in if p = NULLPOINTER then Inl Fault
               else merge_blocks old_seg p prop_size (rev bs) (put_block p (fill_edge_block order 0 0) sg))"

primrec merge_regions ::
  "segment \<Rightarrow> nat option \<Rightarrow> nat \<Rightarrow> nat list \<Rightarrow> segment \<Rightarrow> seg_error + segment" where
  "merge_regions old_seg segidx prop_size [] new_seg = Inr new_seg"
| "merge_regions old_seg segidx prop_size (i # is) new_seg =
     (case merge_region old_seg segidx prop_size i new_seg of
        Inl e \<Rightarrow> Inl e
      | Inr sg \<Rightarrow> merge_regions old_seg segidx prop_size is sg)"

definition merge_segment :: "segment \<Rightarrow> nat option \<Rightarrow> nat \<Rightarrow> segment \<Rightarrow> seg_error + segment" where
  "merge_segment old_seg segidx prop_size new_seg =
     merge_regions old_seg segidx prop_size [0..<VERTEX_PER_SEG] new_seg"

text \<open>
  A full segment moves into a new one of twice its size; the old one is recycled later.
\<close>

definition replace_segment ::
  "int \<Rightarrow> nat \<Rightarrow> nat \<Rightarrow> nat \<Rightarrow> dir_t \<Rightarrow> nat \<Rightarrow> segment \<Rightarrow> nat \<Rightarrow> seg_graph \<Rightarrow> seg_error + nat \<times> seg_graph" where
  "replace_segment epoch segid segidx label dir p sg prop_size g =
     (let order = sg_order sg + 1; (np, m) = alloc order (manager g) in
      if np = NULLPOINTER then Inl Out_of_memory
      else
        (case merge_segment sg (Some segidx) prop_size (fill_segment np order segid) of
           Inl e \<Rightarrow> Inl e
         | Inr new_seg \<Rightarrow>
             (case update_edge_label_block segid label dir np
                 (g\<lparr>manager := m, segments := (segments g)(np := Some new_seg),
                    segments_to_recycle := segments_to_recycle g @ [(p, sg_order sg, epoch)]\<rparr>) of
                Inl e \<Rightarrow> Inl e
              | Inr g' \<Rightarrow> Inr (np, g'))))"

text \<open>
  A new block for a region inside its segment: small blocks are copied into it, larger ones are
  chained behind it.
\<close>

definition extend_region ::
  "nat \<Rightarrow> nat \<Rightarrow> edge_block option \<Rightarrow> nat \<Rightarrow> nat \<Rightarrow> nat \<Rightarrow> segment \<Rightarrow> seg_error + segment" where
  "extend_region segidx old_p old order new_p prop_size sg =
     (case (if order \<ge> COPY_THRESHOLD_ORDER then
              Inr (put_block new_p
                (fill_edge_block order old_p
                  (case old of None \<Rightarrow> 0 | Some b \<Rightarrow> prev_num_entries b + get_num_entries b)) sg)
            else
              let sg1 = put_block new_p (fill_edge_block order 0 0) sg in
              (case old of
                 None \<Rightarrow> Inr sg1
               | Some b \<Rightarrow> copy_entries (\<lambda>s. s) old_p new_p prop_size 0 (eb_entries b) sg1)) of
        Inl e \<Rightarrow> Inl e
      | Inr sg2 \<Rightarrow> Inr (set_region_ptr segidx new_p sg2))"

definition ensure_block ::
  "int \<Rightarrow> nat \<Rightarrow> nat \<Rightarrow> nat \<Rightarrow> dir_t \<Rightarrow> nat \<Rightarrow> nat \<Rightarrow> seg_graph \<Rightarrow> seg_error + nat \<times> seg_graph" where
  "ensure_block epoch segid segidx label dir p prop_size g =
     (case segments g p of
        None \<Rightarrow> Inl Fault
      | Some sg \<Rightarrow>
          (case convert_block sg (region_ptrs sg segidx) of
             Inl e \<Rightarrow> Inl e
           | Inr eb \<Rightarrow>
               if (case eb of None \<Rightarrow> False | Some b \<Rightarrow> has_space b) then Inr (p, g)
               else
                 let order = (case eb of None \<Rightarrow> DEFAULT_INIT_ORDER | Some b \<Rightarrow> eb_order b + 1);
                     (new_p, sg1) = alloc_slots order prop_size sg;
                     g1 = g\<lparr>segments := (segments g)(p := Some sg1)\<rparr>
                 in if new_p = NULLPOINTER
                    then replace_segment epoch segid segidx label dir p sg1 prop_size g1
                    else (case extend_region segidx (region_ptrs sg segidx) eb order new_p prop_size sg1 of
                        Inl e \<Rightarrow> Inl e
                      | Inr sg2 \<Rightarrow> Inr (p, g1\<lparr>segments := (segments g1)(p := Some sg2)\<rparr>))))"

section \<open>Epoch tables\<close>

text \<open>The epoch table of a vertex, created with one entry when it does not exist yet.\<close>

definition ensure_epoch_table :: "int \<Rightarrow> nat \<Rightarrow> nat \<Rightarrow> seg_graph \<Rightarrow> seg_error + nat \<times> seg_graph" where
  "ensure_epoch_table epoch segidx p g =
     (case segments g p of
        None \<Rightarrow> Inl Fault
      | Some sg \<Rightarrow>
          if epoch_tables sg segidx \<noteq> NULLPOINTER then Inr (epoch_tables sg segidx, g)
          else
            let order = size_to_order (epoch_block_header_size + epoch_entry_size);
                (np, m) = alloc order (manager g)
            in if np = NULLPOINTER then Inl Out_of_memory
               else Inr (np, g\<lparr>manager := m,
                 epoch_blocks := (epoch_blocks g)(np :=
                   Some (append_epoch (epoch, 0) (fill_epoch_block order 0 epoch))),
                 segments := (segments g)(p := Some (set_epoch_table segidx np sg))\<rparr>))"

text \<open>A new epoch records how many edges there were before it; a full table is copied first.\<close>

definition advance_epoch :: "int \<Rightarrow> nat \<Rightarrow> nat \<Rightarrow> nat \<Rightarrow> nat \<Rightarrow> seg_graph \<Rightarrow> seg_error + seg_graph" where
  "advance_epoch epoch segidx p tp num_edges g =
     (case (segments g p, epoch_blocks g tp) of
        (Some sg, Some t) \<Rightarrow>
          if epoch > latest_epoch t then
            (if \<not> epoch_has_space t then
               let order = ep_order t + 1; (np, m) = alloc order (manager g) in
               if np = NULLPOINTER then Inl Out_of_memory
               else
                 let nt = foldl (\<lambda>nt e. append_epoch e nt)
                       (fill_epoch_block order tp (latest_epoch t)) (ep_entries t);
                     nt' = append_epoch (epoch, num_edges) (nt\<lparr>latest_epoch := epoch\<rparr>)
                 in Inr (g\<lparr>manager := m, epoch_blocks := (epoch_blocks g)(np := Some nt'),
                      segments := (segments g)(p := Some (set_epoch_table segidx np sg))\<rparr>)
             else Inr (g\<lparr>epoch_blocks := (epoch_blocks g)(tp :=
                    Some (append_epoch (epoch, num_edges) (t\<lparr>latest_epoch := epoch\<rparr>)))\<rparr>))
          else Inr g
      | _ \<Rightarrow> Inl Fault)"

section \<open>Adding an edge\<close>

text \<open>The entry and its property, in the block the earlier steps made room in.\<close>

definition insert_edge :: "nat \<Rightarrow> nat \<Rightarrow> u64 \<Rightarrow> bytes \<Rightarrow> segment \<Rightarrow> seg_error + segment" where
  "insert_edge segidx ptr dst data sg =
     (case sg_blocks sg ptr of
        None \<Rightarrow> Inl Fault
      | Some b \<Rightarrow>
          let off = get_allocated_edge_num sg ptr + get_num_entries b;
              sg1 = put_block ptr (append_edge dst b) sg
          in Inr (if length data > 0 then append_property off data (length data) sg1 else sg1))"

definition put_edge ::
  "int \<Rightarrow> nat \<Rightarrow> nat \<Rightarrow> dir_t \<Rightarrow> u64 \<Rightarrow> bytes \<Rightarrow> seg_graph \<Rightarrow> seg_error + seg_graph" where
  "put_edge epoch src label dir dst data g =
     (if src \<ge> vertex_count g then Inl Invalid_argument
      else
        let segid = get_vertex_seg_id src; segidx = get_vertex_seg_idx src; prop_size = length data in
        (case ensure_segment segid label dir g of
           Inl e \<Rightarrow> Inl e
         | Inr (p0, g1) \<Rightarrow>
        (case ensure_block epoch segid segidx label dir p0 prop_size g1 of
           Inl e \<Rightarrow> Inl e
         | Inr (p, g2) \<Rightarrow>
        (case segments g2 p of
           None \<Rightarrow> Inl Fault
         | Some sg2 \<Rightarrow>
        (case convert_block sg2 (region_ptrs sg2 segidx) of
           Inl e \<Rightarrow> Inl e
         | Inr None \<Rightarrow> Inl Fault
         | Inr (Some b) \<Rightarrow>
        (case ensure_epoch_table epoch segidx p g2 of
           Inl e \<Rightarrow> Inl e
         | Inr (tp, g3) \<Rightarrow>
        (case advance_epoch epoch segidx p tp (prev_num_entries b + get_num_entries b) g3 of
           Inl e \<Rightarrow> Inl e
         | Inr g4 \<Rightarrow>
        (case segments g4 p of
           None \<Rightarrow> Inl Fault
         | Some sg4 \<Rightarrow>
        (case insert_edge segidx (region_ptrs sg2 segidx) dst data sg4 of
           Inl e \<Rightarrow> Inl e
         | Inr sg5 \<Rightarrow> Inr (g4\<lparr>segments := (segments g4)(p := Some sg5)\<rparr>))))))))))"

section \<open>Compaction and recycling\<close>

text \<open>
  \<open>merge_segments\<close> compacts every segment of a label into a new one of the same order. A failed
  allocation ends the loop.
\<close>

function merge_segments_from :: "nat \<Rightarrow> nat \<Rightarrow> dir_t \<Rightarrow> nat \<Rightarrow> nat \<Rightarrow> seg_graph \<Rightarrow> seg_error + seg_graph" where
  "merge_segments_from n label dir prop_size segid g =
     (if segid \<ge> n then Inr g
      else case locate_segment g segid label dir of
        Inl e \<Rightarrow> Inl e
      | Inr p \<Rightarrow>
          if p = NULLPOINTER then merge_segments_from n label dir prop_size (segid + 1) g
          else (case segments g p of
            None \<Rightarrow> Inl Fault
          | Some sg \<Rightarrow>
              let (np, m) = alloc (sg_order sg) (manager g) in
              if np = NULLPOINTER then Inr (g\<lparr>manager := m\<rparr>)
              else
                (case merge_segment sg None prop_size (fill_segment np (sg_order sg) segid) of
                   Inl e \<Rightarrow> Inl e
                 | Inr new_seg \<Rightarrow>
                     (case update_edge_label_block segid label dir np
                         (g\<lparr>manager := m, segments := (segments g)(np := Some new_seg)\<rparr>) of
                        Inl e \<Rightarrow> Inl e
                      | Inr g' \<Rightarrow> merge_segments_from n label dir prop_size (segid + 1) g'))))"
  by pat_completeness auto
termination by (relation "measure (\<lambda>(n, label, dir, prop_size, segid, g). n - segid)") auto

declare merge_segments_from.simps [simp del]

definition merge_segments :: "nat \<Rightarrow> dir_t \<Rightarrow> nat \<Rightarrow> seg_graph \<Rightarrow> seg_error + seg_graph" where
  "merge_segments label dir prop_size g =
     merge_segments_from (seg_count g) label dir prop_size 0 g"

text \<open>A replaced segment is freed once the writer is more than two epochs ahead of it.\<close>

definition recycle_segments :: "int \<Rightarrow> seg_graph \<Rightarrow> seg_graph" where
  "recycle_segments epoch_id g =
     (let old = filter (\<lambda>(p, order, epoch). epoch + LAG_EPOCH_NUMBER < epoch_id) (segments_to_recycle g);
          kept = filter (\<lambda>(p, order, epoch). \<not> epoch + LAG_EPOCH_NUMBER < epoch_id) (segments_to_recycle g)
      in g\<lparr>manager := foldl (\<lambda>m (p, order, epoch). free p order m) (manager g) old,
           segments_to_recycle := kept\<rparr>)"

end
