(* ===== verification/Seg_Regions.thy ===== *)
theory Seg_Regions
  imports Seg_Writer
begin

text \<open>
  What a segment holds: the chain of blocks of each vertex, the edges with their properties in
  insertion order, and the effect of the segment-level operations of \<open>Seg_Writer\<close> on them.
\<close>

section \<open>Slots and placement\<close>

definition base :: "segment \<Rightarrow> nat" where
  "base sg = sg_head sg + segment_header_size"

definition slot :: "segment \<Rightarrow> nat \<Rightarrow> nat" where
  "slot sg a = get_allocated_edge_num sg a"

definition span :: "segment \<Rightarrow> nat \<Rightarrow> edge_block \<Rightarrow> nat set" where
  "span sg a b = {slot sg a ..< slot sg a + required_slots (eb_order b)}"

definition placed :: "segment \<Rightarrow> nat \<Rightarrow> edge_block \<Rightarrow> bool" where
  "placed sg a b \<longleftrightarrow>
     a = base sg + slot sg a * 8 \<and> slot sg a + required_slots (eb_order b) \<le> allocated_edge_num sg \<and>
     length (eb_entries b) \<le> 2 ^ eb_order b \<and>
     (eb_order b < COPY_THRESHOLD_ORDER \<longrightarrow> prev_pointer b = 0)"

lemma slot_at_base: "slot sg (base sg + s * 8) = s"
  by (simp add: slot_def get_allocated_edge_num_def base_def edge_entry_size_def)

lemma base_pos: "0 < base sg + n"
  by (simp add: base_def size_defs)

lemma required_slots_eq: "required_slots k = 3 + 2 ^ k"
  by (simp add: required_slots_def size_defs get_block_size_def)

lemma has_space_iff: "has_space b \<longleftrightarrow> length (eb_entries b) < 2 ^ eb_order b"
  by (auto simp: has_space_def get_vegito_block_size_def get_num_entries_def get_block_size_def size_defs)

section \<open>Chains\<close>

definition chain_total :: "(nat \<times> edge_block) list \<Rightarrow> nat" where
  "chain_total bs = sum_list (map (get_num_entries \<circ> snd) bs)"

primrec chain :: "segment \<Rightarrow> nat \<Rightarrow> (nat \<times> edge_block) list \<Rightarrow> bool" where
  "chain sg p [] \<longleftrightarrow> p = 0"
| "chain sg p (ab # bs) \<longleftrightarrow>
     p = fst ab \<and> p \<noteq> 0 \<and> sg_blocks sg p = Some (snd ab) \<and>
     prev_num_entries (snd ab) = chain_total bs \<and> (bs \<noteq> [] \<longrightarrow> 0 < get_num_entries (snd (hd bs))) \<and>
     chain sg (prev_pointer (snd ab)) bs"

lemma total_simps [simp]: "chain_total [] = 0" "chain_total (ab # bs) = get_num_entries (snd ab) + chain_total bs"
  by (simp_all add: chain_total_def)

lemma collect_chain: "chain sg p bs \<Longrightarrow> collect_blocks sg p = Some bs"
proof (induction bs arbitrary: p)
  case Nil
  then show ?case by (subst collect_blocks.simps) (simp add: NULLPOINTER_def)
next
  case (Cons ab bs)
  then show ?case by (subst collect_blocks.simps) (cases ab, simp add: NULLPOINTER_def)
qed

lemma chain_cong:
  assumes "chain sg p bs" and "\<And>a. a \<in> fst ` set bs \<Longrightarrow> sg_blocks sg' a = sg_blocks sg a"
  shows "chain sg' p bs"
  using assms by (induction bs arbitrary: p) auto

lemma chain_member: "chain sg p bs \<Longrightarrow> (a, b) \<in> set bs \<Longrightarrow> sg_blocks sg a = Some b"
  by (induction bs arbitrary: p) auto

lemma chain_unique: "chain sg p bs \<Longrightarrow> chain sg p bs' \<Longrightarrow> bs = bs'"
  using collect_chain [of sg p bs] collect_chain [of sg p bs'] by simp

lemma chain_suffix: "chain sg p bs \<Longrightarrow> (a, b) \<in> set bs \<Longrightarrow> \<exists>cs. chain sg a cs \<and> length cs \<le> length bs"
proof (induction bs arbitrary: p)
  case (Cons ab bs)
  show ?case
  proof (cases "(a, b) = ab")
    case True
    then show ?thesis using Cons.prems(1) by (intro exI [of _ "ab # bs"]) auto
  next
    case False
    then show ?thesis using Cons by fastforce
  qed
qed simp

lemma chain_distinct: "chain sg p bs \<Longrightarrow> distinct (map fst bs)"
proof (induction bs arbitrary: p)
  case (Cons ab bs)
  have "fst ab \<notin> fst ` set bs"
  proof
    assume "fst ab \<in> fst ` set bs"
    then obtain b where "(fst ab, b) \<in> set bs" by auto
    then obtain cs where "chain sg (fst ab) cs" "length cs \<le> length bs"
      using chain_suffix Cons.prems by fastforce
    moreover have "chain sg (fst ab) (ab # bs)" using Cons.prems by (metis chain.simps(2))
    ultimately show False using chain_unique [of sg "fst ab" cs "ab # bs"] by auto
  qed
  then show ?case using Cons by auto
qed simp

definition region :: "segment \<Rightarrow> nat \<Rightarrow> (nat \<times> edge_block) list" where
  "region sg i = the (collect_blocks sg (region_ptrs sg i))"

lemma region_chain: "chain sg (region_ptrs sg i) bs \<Longrightarrow> region sg i = bs"
  by (simp add: region_def collect_chain)

section \<open>Contents\<close>

type_synonym edge = "u64 \<times> bytes"

definition block_content :: "segment \<Rightarrow> nat \<Rightarrow> nat \<times> edge_block \<Rightarrow> edge list" where
  "block_content sg prop_size ab =
     map (\<lambda>k. (eb_entries (snd ab) ! k, get_property sg (slot sg (fst ab) + k) prop_size))
       [0..<get_num_entries (snd ab)]"

definition chain_content :: "segment \<Rightarrow> nat \<Rightarrow> (nat \<times> edge_block) list \<Rightarrow> edge list" where
  "chain_content sg prop_size bs = concat (map (block_content sg prop_size) (rev bs))"

definition content :: "segment \<Rightarrow> nat \<Rightarrow> nat \<Rightarrow> edge list" where
  "content sg prop_size i = chain_content sg prop_size (region sg i)"

lemma chain_content_simps [simp]:
  "chain_content sg p [] = []"
  "chain_content sg p (ab # bs) = chain_content sg p bs @ block_content sg p ab"
  by (simp_all add: chain_content_def)

lemma length_chain_content: "length (chain_content sg p bs) = chain_total bs"
  by (induction bs) (simp_all add: block_content_def)

text \<open>
  Well-formed segments: the allocated slots fit, every block lies in its own range of slots, and
  the chains of different vertices share no block.
\<close>

definition spans_apart :: "segment \<Rightarrow> bool" where
  "spans_apart sg \<longleftrightarrow> (\<forall>a b a' b'. sg_blocks sg a = Some b \<longrightarrow> sg_blocks sg a' = Some b' \<longrightarrow> a \<noteq> a' \<longrightarrow>
     span sg a b \<inter> span sg a' b' = {})"

definition chains_ok :: "segment \<Rightarrow> bool" where
  "chains_ok sg \<longleftrightarrow>
     (\<forall>i < VERTEX_PER_SEG. chain sg (region_ptrs sg i) (region sg i)) \<and>
     (\<forall>i < VERTEX_PER_SEG. \<forall>j < VERTEX_PER_SEG. i \<noteq> j \<longrightarrow>
        fst ` set (region sg i) \<inter> fst ` set (region sg j) = {})"

definition seg_fits :: "nat \<Rightarrow> segment \<Rightarrow> bool" where
  "seg_fits prop_size sg \<longleftrightarrow>
     segment_header_size + allocated_edge_num sg * (8 + prop_size) \<le> 2 ^ sg_order sg"

definition seg_ok :: "nat \<Rightarrow> segment \<Rightarrow> bool" where
  "seg_ok prop_size sg \<longleftrightarrow>
     seg_fits prop_size sg \<and> (\<forall>a b. sg_blocks sg a = Some b \<longrightarrow> placed sg a b) \<and>
     spans_apart sg \<and> chains_ok sg"

lemma seg_okD:
  assumes "seg_ok p sg"
  shows "seg_fits p sg" "spans_apart sg" "chains_ok sg"
    "sg_blocks sg a = Some b \<Longrightarrow> placed sg a b"
    "i < VERTEX_PER_SEG \<Longrightarrow> chain sg (region_ptrs sg i) (region sg i)"
  using assms by (auto simp: seg_ok_def chains_ok_def)

section \<open>Properties in their slots\<close>

lemma slot_in_segment:
  assumes "seg_fits p sg" and "s < allocated_edge_num sg"
  shows "(s + 1) * p \<le> 2 ^ sg_order sg"
proof -
  have "(s + 1) * p \<le> allocated_edge_num sg * (8 + p)"
    using assms(2) by (intro mult_mono) simp_all
  then show ?thesis using assms(1) by (simp add: seg_fits_def)
qed

lemma property_starts_apart:
  assumes "seg_fits p sg" and "s < allocated_edge_num sg" and "s' < allocated_edge_num sg" and "s \<noteq> s'"
  shows "property_start sg s p + p \<le> property_start sg s' p \<or>
    property_start sg s' p + p \<le> property_start sg s p"
proof -
  have ends: "(s + 1) * p \<le> 2 ^ sg_order sg" "(s' + 1) * p \<le> 2 ^ sg_order sg"
    using slot_in_segment assms by blast+
  have step: "(x + 1) * p + p \<le> (y + 1) * p" if "x < y" for x y
  proof -
    have "(x + 1 + 1) * p \<le> (y + 1) * p" using that by (intro mult_right_mono) simp_all
    then show ?thesis by (simp add: add.commute)
  qed
  show ?thesis
  proof (cases "s < s'")
    case True
    from step [OF this] ends show ?thesis unfolding property_start_def get_block_size_def by linarith
  next
    case False
    then have "s' < s" using assms(4) by simp
    from step [OF this] ends show ?thesis unfolding property_start_def get_block_size_def by linarith
  qed
qed

lemma get_property_same_bytes:
  "sg_order sg' = sg_order sg \<Longrightarrow> sg_bytes sg' = sg_bytes sg \<Longrightarrow> get_property sg' s p = get_property sg s p"
  by (simp add: get_property_def property_start_def)

lemma get_property_0 [simp]: "get_property sg s 0 = []"
  by (simp add: get_property_def)

lemma get_append_same: "length v = p \<Longrightarrow> get_property (append_property s v p sg) s p = v"
  by (auto simp: get_property_def append_property_def property_start_def Let_def intro!: nth_equalityI)

lemma get_append_other:
  assumes "seg_fits p sg" and "s < allocated_edge_num sg" and "s' < allocated_edge_num sg" and "s \<noteq> s'"
  shows "get_property (append_property s v p sg) s' p = get_property sg s' p"
proof -
  have "property_start (append_property s v p sg) s' p = property_start sg s' p"
    by (simp add: property_start_def append_property_def Let_def)
  moreover have "sg_bytes (append_property s v p sg) (property_start sg s' p + j) =
      sg_bytes sg (property_start sg s' p + j)" if "j < p" for j
    using property_starts_apart [OF assms] that by (auto simp: append_property_def Let_def)
  ultimately show ?thesis by (auto simp: get_property_def)
qed

section \<open>Changing one block\<close>

text \<open>
  The frame of an operation on the block at \<open>a\<close>: everything else of the segment is as it was, and
  so are the properties in all slots outside the span of \<open>a\<close>.
\<close>

definition same_frame :: "nat \<Rightarrow> nat \<Rightarrow> segment \<Rightarrow> segment \<Rightarrow> bool" where
  "same_frame p a sg sg' \<longleftrightarrow>
     sg_order sg' = sg_order sg \<and> segment_id sg' = segment_id sg \<and> sg_head sg' = sg_head sg \<and>
     allocated_edge_num sg' = allocated_edge_num sg \<and> region_ptrs sg' = region_ptrs sg \<and>
     epoch_tables sg' = epoch_tables sg \<and> (\<forall>a'. a' \<noteq> a \<longrightarrow> sg_blocks sg' a' = sg_blocks sg a') \<and>
     (\<forall>b s. sg_blocks sg a = Some b \<longrightarrow> s < allocated_edge_num sg \<longrightarrow> s \<notin> span sg a b \<longrightarrow>
        get_property sg' s p = get_property sg s p)"

lemma same_frame_slot: "same_frame p a sg sg' \<Longrightarrow> slot sg' x = slot sg x"
  by (simp add: same_frame_def slot_def get_allocated_edge_num_def)

lemma same_frame_span: "same_frame p a sg sg' \<Longrightarrow> span sg' x b = span sg x b"
  by (simp add: span_def same_frame_slot)

lemma same_frame_fits: "same_frame p a sg sg' \<Longrightarrow> seg_fits p sg' \<longleftrightarrow> seg_fits p sg"
  by (simp add: same_frame_def seg_fits_def)

text \<open>Appending one entry with its property to a block.\<close>

definition push_entry :: "nat \<Rightarrow> nat \<Rightarrow> u64 \<Rightarrow> bytes \<Rightarrow> segment \<Rightarrow> segment" where
  "push_entry p a e v sg =
     (case sg_blocks sg a of
        None \<Rightarrow> sg
      | Some b \<Rightarrow>
          let sg1 = put_block a (append_edge e b) sg
          in if p > 0 then append_property (slot sg a + get_num_entries b) v p sg1 else sg1)"

lemma put_block_frame:
  "slot (put_block a b sg) x = slot sg x" "sg_order (put_block a b sg) = sg_order sg"
  "sg_bytes (put_block a b sg) = sg_bytes sg" "region_ptrs (put_block a b sg) = region_ptrs sg"
  "allocated_edge_num (put_block a b sg) = allocated_edge_num sg" "sg_head (put_block a b sg) = sg_head sg"
  "epoch_tables (put_block a b sg) = epoch_tables sg" "segment_id (put_block a b sg) = segment_id sg"
  "sg_blocks (put_block a b sg) = (sg_blocks sg)(a \<mapsto> b)"
  by (simp_all add: put_block_def slot_def get_allocated_edge_num_def)

lemma append_property_frame:
  "sg_order (append_property s v p sg) = sg_order sg"
  "segment_id (append_property s v p sg) = segment_id sg"
  "sg_head (append_property s v p sg) = sg_head sg"
  "allocated_edge_num (append_property s v p sg) = allocated_edge_num sg"
  "region_ptrs (append_property s v p sg) = region_ptrs sg"
  "epoch_tables (append_property s v p sg) = epoch_tables sg"
  "sg_blocks (append_property s v p sg) = sg_blocks sg"
  by (simp_all add: append_property_def Let_def)

definition has_room :: "edge_block \<Rightarrow> nat \<Rightarrow> bool" where
  "has_room b n \<longleftrightarrow> length (eb_entries b) + n \<le> 2 ^ eb_order b"

lemma slot_in_span: "k < 2 ^ eb_order b \<Longrightarrow> slot sg a + k \<in> span sg a b"
  by (simp add: span_def required_slots_eq)

lemma span_allocated: "placed sg a b \<Longrightarrow> s \<in> span sg a b \<Longrightarrow> s < allocated_edge_num sg"
  by (auto simp: placed_def span_def)

lemma push_entry_effect:
  fixes e :: u64
  assumes ok: "seg_ok p sg" and blk: "sg_blocks sg a = Some b" and room: "has_room b 1" and len: "length v = p"
  defines "sg' \<equiv> push_entry p a e v sg" and "b' \<equiv> b\<lparr>eb_entries := eb_entries b @ [e]\<rparr>"
  shows "same_frame p a sg sg'" and "sg_blocks sg' a = Some b'"
    and "block_content sg' p (a, b') = block_content sg p (a, b) @ [(e, v)]"
proof -
  let ?n = "get_num_entries b" and ?s = "slot sg a"
  have n: "?n < 2 ^ eb_order b" using room by (simp add: has_room_def get_num_entries_def)
  have app: "append_edge e b = b'"
    using room by (simp add: append_edge_def has_space_iff has_room_def b'_def)
  have placed: "placed sg a b" using seg_okD(4) [OF ok blk] .
  have mem: "?s + ?n \<in> span sg a b" by (rule slot_in_span [OF n])
  have bnd: "?s + ?n < allocated_edge_num sg" by (rule span_allocated [OF placed mem])
  let ?put = "put_block a b' sg"
  have fits: "seg_fits p ?put" using seg_okD(1) [OF ok] by (simp add: seg_fits_def put_block_frame)
  have sg': "sg' = (if p > 0 then append_property (?s + ?n) v p ?put else ?put)"
    by (simp add: sg'_def push_entry_def blk app)
  have put_prop: "get_property ?put s p = get_property sg s p" for s
    by (rule get_property_same_bytes) (simp_all add: put_block_frame)
  have other: "get_property sg' s p = get_property sg s p"
    if "s < allocated_edge_num sg" and "s \<noteq> ?s + ?n" for s
    using that bnd get_append_other [OF fits, of "?s + ?n" s v]
    by (auto simp: sg' put_prop put_block_frame)
  show frame: "same_frame p a sg sg'"
    unfolding same_frame_def
  proof (intro conjI allI impI)
    fix c s
    assume "sg_blocks sg a = Some c" and "s < allocated_edge_num sg" and "s \<notin> span sg a c"
    then show "get_property sg' s p = get_property sg s p" using blk mem by (intro other) auto
  qed (simp_all add: sg' put_block_frame append_property_frame)
  show "sg_blocks sg' a = Some b'" by (simp add: sg' put_block_frame append_property_frame)
  have here: "get_property sg' (?s + ?n) p = v"
    using len by (cases "p = 0") (simp_all add: sg' get_append_same)
  have old: "get_property sg' (?s + k) p = get_property sg (?s + k) p" if "k < ?n" for k
    using that bnd by (intro other) simp_all
  show "block_content sg' p (a, b') = block_content sg p (a, b) @ [(e, v)]"
    using here old
    by (auto simp: block_content_def get_num_entries_def b'_def same_frame_slot [OF frame] nth_append)
qed

lemma other_block_content:
  assumes ok: "seg_ok p sg" and frame: "same_frame p a sg sg'" and blk: "sg_blocks sg a = Some b"
    and other: "sg_blocks sg x = Some c" and "x \<noteq> a"
  shows "block_content sg' p (x, c) = block_content sg p (x, c)"
proof -
  have "get_property sg' (slot sg x + k) p = get_property sg (slot sg x + k) p"
    if "k < get_num_entries c" for k
  proof -
    have pl: "placed sg x c" by (rule seg_okD(4) [OF ok other])
    then have "k < 2 ^ eb_order c" using that by (simp add: placed_def get_num_entries_def)
    then have mem: "slot sg x + k \<in> span sg x c" by (rule slot_in_span)
    moreover have "span sg x c \<inter> span sg a b = {}"
      using seg_okD(2) [OF ok] other blk \<open>x \<noteq> a\<close> unfolding spans_apart_def by blast
    ultimately show ?thesis
      using frame blk span_allocated [OF pl mem] unfolding same_frame_def by blast
  qed
  then show ?thesis by (simp add: block_content_def same_frame_slot [OF frame])
qed

lemma chain_content_cong:
  assumes "chain sg ptr bs" and "\<And>x c. (x, c) \<in> set bs \<Longrightarrow> block_content sg' p (x, c) = block_content sg p (x, c)"
  shows "chain_content sg' p bs = chain_content sg p bs"
  using assms(2) by (auto simp: chain_content_def intro!: arg_cong [of _ _ concat])

lemma seg_ok_same_frame:
  assumes ok: "seg_ok p sg" and frame: "same_frame p a sg sg'" and blk: "sg_blocks sg a = Some b"
    and blk': "sg_blocks sg' a = Some b'" and "eb_order b' = eb_order b"
    and "prev_pointer b' = prev_pointer b"
    and "length (eb_entries b') \<le> 2 ^ eb_order b" and chains: "chains_ok sg'"
  shows "seg_ok p sg'"
proof -
  have sp: "span sg' x c = span sg x c" for x c by (rule same_frame_span [OF frame])
  have sl: "slot sg' x = slot sg x" for x by (rule same_frame_slot [OF frame])
  have al: "allocated_edge_num sg' = allocated_edge_num sg" and ba: "base sg' = base sg"
    using frame by (simp_all add: same_frame_def base_def)
  have other: "x \<noteq> a \<Longrightarrow> sg_blocks sg' x = sg_blocks sg x" for x
    using frame by (simp add: same_frame_def)
  have ab: "span sg a b' = span sg a b" by (simp add: span_def assms(5))
  have pl: "placed sg' x c" if "sg_blocks sg' x = Some c" for x c
  proof (cases "x = a")
    case True
    then show ?thesis
      using that blk' assms(5-7) seg_okD(4) [OF ok blk] by (simp add: placed_def al ba sl)
  next
    case False
    then show ?thesis
      using that other seg_okD(4) [OF ok, of x c] by (simp add: placed_def al ba sl)
  qed
  have "spans_apart sg'"
    unfolding spans_apart_def
  proof (intro allI impI)
    fix x c y d
    assume x: "sg_blocks sg' x = Some c" and y: "sg_blocks sg' y = Some d" and "x \<noteq> y"
    have "\<exists>c'. sg_blocks sg x = Some c' \<and> span sg x c' = span sg x c"
      using x other blk blk' ab by (cases "x = a") auto
    moreover have "\<exists>d'. sg_blocks sg y = Some d' \<and> span sg y d' = span sg y d"
      using y other blk blk' ab by (cases "y = a") auto
    ultimately show "span sg' x c \<inter> span sg' y d = {}"
      using seg_okD(2) [OF ok] \<open>x \<noteq> y\<close> unfolding spans_apart_def sp by metis
  qed
  then show ?thesis
    using pl chains seg_okD(1) [OF ok] same_frame_fits [OF frame] by (simp add: seg_ok_def)
qed

text \<open>The block is in no chain yet.\<close>

definition loose :: "segment \<Rightarrow> nat \<Rightarrow> bool" where
  "loose sg a \<longleftrightarrow> (\<forall>i < VERTEX_PER_SEG. a \<notin> fst ` set (region sg i))"

lemma region_frame:
  assumes "seg_ok p sg" and "same_frame p a sg sg'" and "i < VERTEX_PER_SEG"
    and "a \<notin> fst ` set (region sg i)"
  shows "region sg' i = region sg i"
proof (rule region_chain)
  have "region_ptrs sg' = region_ptrs sg" using assms(2) by (simp add: same_frame_def)
  moreover have "chain sg' (region_ptrs sg i) (region sg i)"
  proof (rule chain_cong [OF seg_okD(5) [OF assms(1,3)]])
    fix x
    assume "x \<in> fst ` set (region sg i)"
    then show "sg_blocks sg' x = sg_blocks sg x" using assms(2,4) by (auto simp: same_frame_def)
  qed
  ultimately show "chain sg' (region_ptrs sg' i) (region sg i)" by simp
qed

lemma content_frame:
  assumes "seg_ok p sg" and "same_frame p a sg sg'" and "sg_blocks sg a = Some b"
    and "i < VERTEX_PER_SEG" and "a \<notin> fst ` set (region sg i)"
  shows "content sg' p i = content sg p i"
proof -
  have ch: "chain sg (region_ptrs sg i) (region sg i)" by (rule seg_okD(5) [OF assms(1,4)])
  have "chain_content sg' p (region sg i) = chain_content sg p (region sg i)"
  proof (rule chain_content_cong [OF ch])
    fix x c
    assume m: "(x, c) \<in> set (region sg i)"
    then have "x \<noteq> a" using assms(5) by force
    then show "block_content sg' p (x, c) = block_content sg p (x, c)"
      using other_block_content [OF assms(1-3) chain_member [OF ch m]] by simp
  qed
  then show ?thesis by (simp add: content_def region_frame [OF assms(1,2,4,5)])
qed

lemma chains_ok_loose:
  assumes ok: "seg_ok p sg" and frame: "same_frame p a sg sg'" and "loose sg a"
  shows "chains_ok sg'"
proof -
  have r: "region sg' i = region sg i" if "i < VERTEX_PER_SEG" for i
    using region_frame [OF ok frame that] assms(3) that by (simp add: loose_def)
  have c: "chain sg' (region_ptrs sg' i) (region sg' i)" if i: "i < VERTEX_PER_SEG" for i
  proof -
    have "chain sg' (region_ptrs sg i) (region sg i)"
      using assms(3) i frame unfolding loose_def same_frame_def
      by (intro chain_cong [OF seg_okD(5) [OF ok i]]) metis
    then show ?thesis using frame r [OF i] by (simp add: same_frame_def)
  qed
  show ?thesis using seg_okD(3) [OF ok] c r unfolding chains_ok_def by simp
qed

lemma push_loose:
  fixes e :: u64
  assumes ok: "seg_ok p sg" and blk: "sg_blocks sg a = Some b" and room: "has_room b 1"
    and len: "length v = p" and "loose sg a"
  defines "sg' \<equiv> push_entry p a e v sg"
  shows "seg_ok p sg'" and "loose sg' a" and "i < VERTEX_PER_SEG \<Longrightarrow> content sg' p i = content sg p i"
    and "region_ptrs sg' = region_ptrs sg" and "i < VERTEX_PER_SEG \<Longrightarrow> region sg' i = region sg i"
proof -
  let ?b' = "b\<lparr>eb_entries := eb_entries b @ [e]\<rparr>"
  note eff = push_entry_effect [OF ok blk room len, of e, folded sg'_def]
  have notin: "i < VERTEX_PER_SEG \<Longrightarrow> a \<notin> fst ` set (region sg i)" for i
    using assms(5) by (simp add: loose_def)
  show "seg_ok p sg'"
    using room by (intro seg_ok_same_frame [OF ok eff(1) blk eff(2)] chains_ok_loose [OF ok eff(1) assms(5)])
      (simp_all add: has_room_def)
  show r: "i < VERTEX_PER_SEG \<Longrightarrow> region sg' i = region sg i" for i
    using region_frame [OF ok eff(1)] notin by simp
  show "loose sg' a" using assms(5) r by (simp add: loose_def)
  show "i < VERTEX_PER_SEG \<Longrightarrow> content sg' p i = content sg p i"
    using content_frame [OF ok eff(1) blk] notin by simp
  show "region_ptrs sg' = region_ptrs sg" using eff(1) by (simp add: same_frame_def)
qed

lemma push_head:
  fixes e :: u64
  assumes ok: "seg_ok p sg" and i: "i < VERTEX_PER_SEG" and hd: "region sg i = (a, b) # bs"
    and room: "has_room b 1" and len: "length v = p"
  defines "sg' \<equiv> push_entry p a e v sg" and "b' \<equiv> b\<lparr>eb_entries := eb_entries b @ [e]\<rparr>"
  shows "seg_ok p sg'" and "region sg' i = (a, b') # bs"
    and "content sg' p i = content sg p i @ [(e, v)]"
    and "j < VERTEX_PER_SEG \<Longrightarrow> j \<noteq> i \<Longrightarrow> content sg' p j = content sg p j"
    and "j < VERTEX_PER_SEG \<Longrightarrow> j \<noteq> i \<Longrightarrow> region sg' j = region sg j"
    and "region_ptrs sg' = region_ptrs sg"
proof -
  have ch: "chain sg (region_ptrs sg i) ((a, b) # bs)"
    using seg_okD(5) [OF ok i] by (simp only: hd)
  have blk: "sg_blocks sg a = Some b" using chain_member [OF ch, of a b] by simp
  note eff = push_entry_effect [OF ok blk room len, of e, folded sg'_def b'_def]
  have a_bs: "a \<notin> fst ` set bs" using chain_distinct [OF ch] by simp
  have a_j: "a \<notin> fst ` set (region sg j)" if "j < VERTEX_PER_SEG" "j \<noteq> i" for j
  proof -
    have "fst ` set (region sg i) \<inter> fst ` set (region sg j) = {}"
      using seg_okD(3) [OF ok] that i unfolding chains_ok_def by metis
    then show ?thesis using hd by auto
  qed
  have ptrs: "region_ptrs sg' = region_ptrs sg" using eff(1) by (simp add: same_frame_def)
  then show "region_ptrs sg' = region_ptrs sg" .
  have older: "chain sg (prev_pointer b) bs" and links: "region_ptrs sg i = a" "a \<noteq> 0"
    "prev_num_entries b = chain_total bs" "bs \<noteq> [] \<longrightarrow> 0 < get_num_entries (snd (List.hd bs))"
    using ch by auto
  have "chain sg' (prev_pointer b) bs"
  proof (rule chain_cong [OF older])
    fix x
    assume "x \<in> fst ` set bs"
    then have "x \<noteq> a" using a_bs by blast
    then show "sg_blocks sg' x = sg_blocks sg x" using eff(1) by (simp add: same_frame_def)
  qed
  then have ch': "chain sg' (region_ptrs sg' i) ((a, b') # bs)"
    using links eff(2) by (simp add: ptrs b'_def)
  then show reg_i: "region sg' i = (a, b') # bs" by (rule region_chain)
  show reg_j: "j < VERTEX_PER_SEG \<Longrightarrow> j \<noteq> i \<Longrightarrow> region sg' j = region sg j" for j
    using region_frame [OF ok eff(1)] a_j by simp
  have "chains_ok sg'"
    unfolding chains_ok_def
  proof (intro conjI allI impI)
    fix j
    assume "j < VERTEX_PER_SEG"
    show "chain sg' (region_ptrs sg' j) (region sg' j)"
    proof (cases "j = i")
      case True
      then show ?thesis using ch' by (simp only: reg_i)
    next
      case False
      have "chain sg' (region_ptrs sg j) (region sg j)"
        using a_j [OF \<open>j < _\<close> False] eff(1) unfolding same_frame_def
        by (intro chain_cong [OF seg_okD(5) [OF ok \<open>j < _\<close>]]) metis
      then show ?thesis using reg_j [OF \<open>j < _\<close> False] ptrs by simp
    qed
  next
    fix j k
    assume "j < VERTEX_PER_SEG" and "k < VERTEX_PER_SEG" and "j \<noteq> k"
    moreover have "fst ` set (region sg' j) = fst ` set (region sg j)" if "j < VERTEX_PER_SEG" for j
      using that reg_j reg_i hd by (cases "j = i") auto
    ultimately show "fst ` set (region sg' j) \<inter> fst ` set (region sg' k) = {}"
      using seg_okD(3) [OF ok] unfolding chains_ok_def by simp
  qed
  then show "seg_ok p sg'"
    using room by (intro seg_ok_same_frame [OF ok eff(1) blk eff(2)]) (simp_all add: b'_def has_room_def)
  have "chain_content sg' p bs = chain_content sg p bs"
  proof (rule chain_content_cong)
    show "chain sg (prev_pointer b) bs" by (rule older)
    fix x c
    assume m: "(x, c) \<in> set bs"
    then have "x \<noteq> a" using a_bs by force
    moreover have "sg_blocks sg x = Some c" using m by (intro chain_member [OF ch]) simp
    ultimately show "block_content sg' p (x, c) = block_content sg p (x, c)"
      using other_block_content [OF ok eff(1) blk] by simp
  qed
  then show "content sg' p i = content sg p i @ [(e, v)]"
    using eff(3) by (simp add: content_def reg_i hd)
  show "j < VERTEX_PER_SEG \<Longrightarrow> j \<noteq> i \<Longrightarrow> content sg' p j = content sg p j"
    using content_frame [OF ok eff(1) blk] a_j by simp
qed

section \<open>New blocks\<close>

text \<open>
  A block allocated in the segment and filled: it is loose, its span is new, and nothing else moves.
\<close>

lemma alloc_slots_ptr:
  assumes "alloc_slots order p sg = (ptr, sg1)" and "ptr \<noteq> 0"
  shows "ptr = base sg + allocated_edge_num sg * 8"
    and "sg1 = sg\<lparr>allocated_edge_num := allocated_edge_num sg + required_slots order\<rparr>"
    and "segment_header_size + (allocated_edge_num sg + required_slots order) * (8 + p) \<le> 2 ^ sg_order sg"
  using assms
  by (auto simp: alloc_slots_def Let_def base_def edge_entry_size_def get_block_size_def split: if_splits)

lemma new_block:
  assumes ok: "seg_ok p sg" and al: "alloc_slots order p sg = (ptr, sg1)" and nz: "ptr \<noteq> 0"
    and ord: "eb_order nb = order" and ent: "eb_entries nb = []"
    and unch: "order < COPY_THRESHOLD_ORDER \<longrightarrow> prev_pointer nb = 0"
  defines "sg' \<equiv> put_block ptr nb sg1"
  shows "seg_ok p sg'" and "loose sg' ptr" and "sg_blocks sg ptr = None"
    and "i < VERTEX_PER_SEG \<Longrightarrow> content sg' p i = content sg p i"
    and "i < VERTEX_PER_SEG \<Longrightarrow> region sg' i = region sg i"
    and "slot sg' ptr = allocated_edge_num sg"
    and "s < allocated_edge_num sg \<Longrightarrow> get_property sg' s p = get_property sg s p"
proof -
  let ?n = "allocated_edge_num sg"
  note ap = alloc_slots_ptr [OF al nz]
  have sl: "slot sg' x = slot sg x" for x
    by (simp add: sg'_def ap(2) put_block_frame slot_def get_allocated_edge_num_def)
  have ptr: "slot sg ptr = ?n" by (simp add: ap(1) slot_at_base)
  then show "slot sg' ptr = ?n" by (simp add: sl)
  have fresh: "x \<noteq> ptr" if "sg_blocks sg x = Some c" for x c
  proof
    assume "x = ptr"
    with seg_okD(4) [OF ok that] ptr show False by (simp add: placed_def required_slots_eq)
  qed
  then show none: "sg_blocks sg ptr = None" by (cases "sg_blocks sg ptr") auto
  have blocks: "sg_blocks sg' = (sg_blocks sg)(ptr \<mapsto> nb)"
    by (simp add: sg'_def ap(2) put_block_frame)
  have flds: "allocated_edge_num sg' = ?n + required_slots order" "base sg' = base sg"
    "region_ptrs sg' = region_ptrs sg" "sg_order sg' = sg_order sg" "sg_bytes sg' = sg_bytes sg"
    by (simp_all add: sg'_def ap(2) put_block_frame base_def)
  have gp: "get_property sg' s p = get_property sg s p" for s
    using flds by (intro get_property_same_bytes) simp_all
  then show "s < ?n \<Longrightarrow> get_property sg' s p = get_property sg s p" by simp
  have ch: "chain sg' (region_ptrs sg' i) (region sg i)" if "i < VERTEX_PER_SEG" for i
    using fresh chain_member [OF seg_okD(5) [OF ok that]] flds(3)
    by (force simp: blocks intro: chain_cong [OF seg_okD(5) [OF ok that]])
  then show reg: "i < VERTEX_PER_SEG \<Longrightarrow> region sg' i = region sg i" for i by (simp add: region_chain)
  show "i < VERTEX_PER_SEG \<Longrightarrow> content sg' p i = content sg p i"
    by (simp add: content_def reg chain_content_def block_content_def [abs_def] sl gp)
  have lo: "ptr \<notin> fst ` set (region sg i)" if "i < VERTEX_PER_SEG" for i
    using chain_member [OF seg_okD(5) [OF ok that]] none by force
  then show "loose sg' ptr" by (simp add: loose_def reg)
  have "chains_ok sg'"
    using ch reg seg_okD(3) [OF ok] by (simp add: chains_ok_def)
  moreover have "placed sg' x c" if "sg_blocks sg' x = Some c" for x c
  proof (cases "x = ptr")
    case True
    then show ?thesis using that ap(1) ord ent unch by (simp add: placed_def blocks flds sl slot_at_base)
  next
    case False
    then show ?thesis
      using that seg_okD(4) [OF ok, of x c] by (simp add: placed_def blocks flds sl)
  qed
  moreover have "spans_apart sg'"
    unfolding spans_apart_def
  proof (intro allI impI)
    fix x c y d
    assume x: "sg_blocks sg' x = Some c" and y: "sg_blocks sg' y = Some d" and "x \<noteq> y"
    have below: "\<forall>s \<in> span sg' z e. s < ?n" if "sg_blocks sg z = Some e" for z e
      using seg_okD(4) [OF ok that] by (auto simp: span_def sl placed_def)
    have above: "\<forall>s \<in> span sg' ptr nb. ?n \<le> s" by (simp add: span_def sl ptr)
    have old: "sg_blocks sg z = Some e" if "sg_blocks sg' z = Some e" "z \<noteq> ptr" for z e
      using that by (simp add: blocks)
    have isnb: "e = nb" if "sg_blocks sg' ptr = Some e" for e using that by (simp add: blocks)
    consider "x = ptr" | "y = ptr" | "x \<noteq> ptr" "y \<noteq> ptr" by blast
    then show "span sg' x c \<inter> span sg' y d = {}"
    proof cases
      case 1
      then have "c = nb" "sg_blocks sg y = Some d" using x y \<open>x \<noteq> y\<close> isnb old by auto
      then show ?thesis using below [of y d] above 1 by force
    next
      case 2
      then have "d = nb" "sg_blocks sg x = Some c" using x y \<open>x \<noteq> y\<close> isnb old by auto
      then show ?thesis using below [of x c] above 2 by force
    next
      case 3
      then have "span sg x c \<inter> span sg y d = {}"
        using x y \<open>x \<noteq> y\<close> old seg_okD(2) [OF ok] unfolding spans_apart_def by metis
      then show ?thesis by (simp add: span_def sl)
    qed
  qed
  moreover have "seg_fits p sg'" using ap(3) flds by (simp add: seg_fits_def)
  ultimately show "seg_ok p sg'" by (simp add: seg_ok_def)
qed

section \<open>Linking a chain to a vertex\<close>

lemma set_ptr_frame:
  "sg_blocks (set_region_ptr i ptr sg) = sg_blocks sg"
  "slot (set_region_ptr i ptr sg) x = slot sg x"
  "span (set_region_ptr i ptr sg) x b = span sg x b"
  "placed (set_region_ptr i ptr sg) x b = placed sg x b"
  "get_property (set_region_ptr i ptr sg) s p = get_property sg s p"
  "seg_fits p (set_region_ptr i ptr sg) = seg_fits p sg"
  "region_ptrs (set_region_ptr i ptr sg) = (region_ptrs sg)(i := ptr)"
  "epoch_tables (set_region_ptr i ptr sg) = epoch_tables sg"
  "allocated_edge_num (set_region_ptr i ptr sg) = allocated_edge_num sg"
  "sg_order (set_region_ptr i ptr sg) = sg_order sg"
  "sg_head (set_region_ptr i ptr sg) = sg_head sg"
  by (simp_all add: set_region_ptr_def slot_def span_def placed_def get_allocated_edge_num_def base_def
      get_property_def property_start_def seg_fits_def)

lemma chain_set_ptr: "chain (set_region_ptr i ptr sg) q bs = chain sg q bs"
  by (induction bs arbitrary: q) (simp_all add: set_ptr_frame)

lemma chain_content_same:
  "(\<And>x. slot sg' x = slot sg x) \<Longrightarrow> (\<And>s. get_property sg' s p = get_property sg s p) \<Longrightarrow>
     chain_content sg' p bs = chain_content sg p bs"
  by (simp add: chain_content_def block_content_def [abs_def])

lemma link_region:
  assumes ok: "seg_ok p sg" and i: "i < VERTEX_PER_SEG" and ch: "chain sg ptr bs"
    and ap: "\<forall>j < VERTEX_PER_SEG. j \<noteq> i \<longrightarrow> fst ` set bs \<inter> fst ` set (region sg j) = {}"
  defines "sg' \<equiv> set_region_ptr i ptr sg"
  shows "seg_ok p sg'" and "region sg' i = bs" and "content sg' p i = chain_content sg p bs"
    and "j < VERTEX_PER_SEG \<Longrightarrow> j \<noteq> i \<Longrightarrow> region sg' j = region sg j"
    and "j < VERTEX_PER_SEG \<Longrightarrow> j \<noteq> i \<Longrightarrow> content sg' p j = content sg p j"
proof -
  have ri: "region sg' i = bs" using ch by (intro region_chain) (simp add: sg'_def chain_set_ptr set_ptr_frame)
  then show "region sg' i = bs" .
  have rj: "region sg' j = region sg j" if "j < VERTEX_PER_SEG" "j \<noteq> i" for j
    using seg_okD(5) [OF ok that(1)] that(2)
    by (intro region_chain) (simp add: sg'_def chain_set_ptr set_ptr_frame)
  then show "j < VERTEX_PER_SEG \<Longrightarrow> j \<noteq> i \<Longrightarrow> region sg' j = region sg j" .
  have cc: "chain_content sg' p cs = chain_content sg p cs" for cs
    by (rule chain_content_same) (simp_all add: sg'_def set_ptr_frame)
  show "content sg' p i = chain_content sg p bs" by (simp add: content_def ri cc)
  show "j < VERTEX_PER_SEG \<Longrightarrow> j \<noteq> i \<Longrightarrow> content sg' p j = content sg p j"
    by (simp add: content_def rj cc)
  have "chains_ok sg'"
    unfolding chains_ok_def
  proof (intro conjI allI impI)
    fix j
    assume "j < VERTEX_PER_SEG"
    then show "chain sg' (region_ptrs sg' j) (region sg' j)"
      using ri rj [of j] ch seg_okD(5) [OF ok, of j]
      by (cases "j = i") (simp_all add: sg'_def chain_set_ptr set_ptr_frame)
  next
    fix j k
    assume "j < VERTEX_PER_SEG" and "k < VERTEX_PER_SEG" and "j \<noteq> k"
    then show "fst ` set (region sg' j) \<inter> fst ` set (region sg' k) = {}"
      using ri rj ap seg_okD(3) [OF ok]
      by (cases "j = i"; cases "k = i") (auto simp: chains_ok_def)
  qed
  then show "seg_ok p sg'"
    using ok by (simp add: seg_ok_def sg'_def set_ptr_frame spans_apart_def)
qed

lemma set_table_frame:
  "sg_blocks (set_epoch_table i t sg) = sg_blocks sg"
  "slot (set_epoch_table i t sg) x = slot sg x"
  "region_ptrs (set_epoch_table i t sg) = region_ptrs sg"
  "epoch_tables (set_epoch_table i t sg) = (epoch_tables sg)(i := t)"
  "allocated_edge_num (set_epoch_table i t sg) = allocated_edge_num sg"
  "sg_order (set_epoch_table i t sg) = sg_order sg"
  "sg_head (set_epoch_table i t sg) = sg_head sg"
  "get_property (set_epoch_table i t sg) s p = get_property sg s p"
  by (simp_all add: set_epoch_table_def slot_def get_allocated_edge_num_def get_property_def property_start_def)

lemma chain_set_table: "chain (set_epoch_table i t sg) q bs = chain sg q bs"
  by (induction bs arbitrary: q) (simp_all add: set_table_frame)

lemma set_table_ok:
  assumes ok: "seg_ok p sg"
  shows "seg_ok p (set_epoch_table i t sg)"
    and "j < VERTEX_PER_SEG \<Longrightarrow> region (set_epoch_table i t sg) j = region sg j"
    and "j < VERTEX_PER_SEG \<Longrightarrow> content (set_epoch_table i t sg) p j = content sg p j"
proof -
  let ?sg = "set_epoch_table i t sg"
  have r: "region ?sg j = region sg j" if "j < VERTEX_PER_SEG" for j
    using seg_okD(5) [OF ok that] by (intro region_chain) (simp add: chain_set_table set_table_frame)
  then show "j < VERTEX_PER_SEG \<Longrightarrow> region ?sg j = region sg j" .
  have cc: "chain_content ?sg p cs = chain_content sg p cs" for cs
    by (rule chain_content_same) (simp_all add: set_table_frame)
  show "j < VERTEX_PER_SEG \<Longrightarrow> content ?sg p j = content sg p j"
    by (simp add: content_def r cc)
  have "chains_ok ?sg"
    using seg_okD(3) [OF ok] by (simp add: chains_ok_def r chain_set_table set_table_frame)
  then show "seg_ok p ?sg"
    using ok by (simp add: seg_ok_def seg_fits_def placed_def spans_apart_def span_def base_def set_table_frame)
qed

section \<open>Copying entries\<close>

definition copied :: "segment \<Rightarrow> nat \<Rightarrow> nat \<Rightarrow> nat \<Rightarrow> u64 list \<Rightarrow> edge list" where
  "copied src_seg old_p p i es =
     map (\<lambda>k. (es ! k, get_property src_seg (slot src_seg old_p + i + k) p)) [0..<length es]"

lemma copied_Cons:
  "copied S old_p p i (e # es) = (e, get_property S (slot S old_p + i) p) # copied S old_p p (i + 1) es"
  by (simp add: copied_def upt_conv_Cons map_Suc_upt [symmetric] del: upt_Suc)

text \<open>What copying into a loose block leaves as it is.\<close>

definition copy_frame :: "nat \<Rightarrow> nat \<Rightarrow> segment \<Rightarrow> segment \<Rightarrow> bool" where
  "copy_frame p a sg sg' \<longleftrightarrow>
     seg_ok p sg' \<and> loose sg' a \<and> same_frame p a sg sg' \<and>
     (\<forall>j < VERTEX_PER_SEG. content sg' p j = content sg p j \<and> region sg' j = region sg j)"

lemma same_frame_trans:
  assumes "same_frame p a sg sg1" and "same_frame p a sg1 sg2" and "sg_blocks sg a = Some b"
    and "sg_blocks sg1 a = Some b1" and "eb_order b1 = eb_order b"
  shows "same_frame p a sg sg2"
proof -
  have "span sg1 a b1 = span sg a b"
    using assms(5) same_frame_span [OF assms(1)] by (simp add: span_def same_frame_slot [OF assms(1)])
  then show ?thesis using assms(1-4) by (auto simp: same_frame_def)
qed

lemma copy_step:
  assumes "sg_blocks sg a = Some b" and "has_room b 1"
  shows "copy_entries (\<lambda>_. S) old_p a p i (e # es) sg =
    copy_entries (\<lambda>_. S) old_p a p (i + 1) es
      (push_entry p a e (get_property S (slot S old_p + i) p) sg)"
proof -
  have "get_allocated_edge_num sg a + length (eb_entries b) = slot sg a + get_num_entries b"
    by (simp add: slot_def get_num_entries_def)
  moreover have "append_edge e b = b\<lparr>eb_entries := eb_entries b @ [e]\<rparr>"
    using assms(2) by (simp add: append_edge_def has_space_iff has_room_def)
  ultimately show ?thesis
    using assms(1)
    by (simp add: push_entry_def Let_def slot_def get_num_entries_def put_block_def
        get_allocated_edge_num_def)
qed

lemma copy_entries_loose:
  assumes "seg_ok p sg" and "sg_blocks sg a = Some b" and "has_room b (length es)" and "loose sg a"
  shows "\<exists>sg' b'. copy_entries (\<lambda>_. S) old_p a p i es sg = Inr sg' \<and> copy_frame p a sg sg' \<and>
    b' = b\<lparr>eb_entries := eb_entries b @ es\<rparr> \<and> sg_blocks sg' a = Some b' \<and>
    block_content sg' p (a, b') = block_content sg p (a, b) @ copied S old_p p i es"
  using assms
proof (induction es arbitrary: sg b i)
  case Nil
  then show ?case by (simp add: copy_frame_def same_frame_def copied_def)
next
  case (Cons e es)
  let ?v = "get_property S (slot S old_p + i) p"
  let ?b1 = "b\<lparr>eb_entries := eb_entries b @ [e]\<rparr>"
  let ?sg1 = "push_entry p a e ?v sg"
  have room: "has_room b 1" using Cons.prems(3) by (simp add: has_room_def)
  have len: "length ?v = p" by (simp add: get_property_def)
  note eff = push_entry_effect [OF Cons.prems(1,2) room len, where e = e]
  note psh = push_loose [OF Cons.prems(1,2) room len Cons.prems(4), where e = e]
  have "has_room ?b1 (length es)" using Cons.prems(3) by (simp add: has_room_def)
  from Cons.IH [OF psh(1) eff(2) this psh(2), of "i + 1"]
  obtain sg' where run: "copy_entries (\<lambda>_. S) old_p a p (i + 1) es ?sg1 = Inr sg'"
    and fr: "copy_frame p a ?sg1 sg'"
    and blk: "sg_blocks sg' a = Some (?b1\<lparr>eb_entries := eb_entries ?b1 @ es\<rparr>)"
    and cont: "block_content sg' p (a, ?b1\<lparr>eb_entries := eb_entries ?b1 @ es\<rparr>) =
      block_content ?sg1 p (a, ?b1) @ copied S old_p p (i + 1) es"
    by blast
  have "same_frame p a sg sg'"
    using fr by (intro same_frame_trans [OF eff(1) _ Cons.prems(2) eff(2)]) (simp_all add: copy_frame_def)
  then have "copy_frame p a sg sg'"
    using fr psh by (simp add: copy_frame_def)
  moreover have "copy_entries (\<lambda>_. S) old_p a p i (e # es) sg = Inr sg'"
    using run by (simp only: copy_step [OF Cons.prems(2) room])
  ultimately show ?case using blk cont eff(3) by (simp add: copied_Cons)
qed

text \<open>The copy inside one segment: the old block's properties do not change while it runs.\<close>

lemma copy_within:
  assumes "seg_ok p sg" and "sg_blocks sg a = Some b" and "has_room b (length es)" and "loose sg a"
    and "sg_blocks sg old_p = Some ob" and "old_p \<noteq> a" and "i + length es \<le> get_num_entries ob"
    and "\<And>k. k < get_num_entries ob \<Longrightarrow>
      get_property sg (slot sg old_p + k) p = get_property S (slot S old_p + k) p"
  shows "copy_entries (\<lambda>s. s) old_p a p i es sg = copy_entries (\<lambda>_. S) old_p a p i es sg"
  using assms
proof (induction es arbitrary: sg b i)
  case Nil
  then show ?case by simp
next
  case (Cons e es)
  let ?v = "get_property S (slot S old_p + i) p"
  let ?sg1 = "push_entry p a e ?v sg"
  have room: "has_room b 1" using Cons.prems(3) by (simp add: has_room_def)
  have len: "length ?v = p" by (simp add: get_property_def)
  note eff = push_entry_effect [OF Cons.prems(1,2) room len, where e = e]
  note psh = push_loose [OF Cons.prems(1,2) room len Cons.prems(4), where e = e]
  have app: "append_edge e b = b\<lparr>eb_entries := eb_entries b @ [e]\<rparr>"
    using room by (simp add: append_edge_def has_space_iff has_room_def)
  have old1: "sg_blocks ?sg1 old_p = Some ob"
    using eff(1) Cons.prems(5,6) by (simp add: same_frame_def)
  have kept: "get_property ?sg1 (slot ?sg1 old_p + k) p = get_property S (slot S old_p + k) p"
    if "k < get_num_entries ob" for k
  proof -
    have "block_content ?sg1 p (old_p, ob) = block_content sg p (old_p, ob)"
      by (rule other_block_content [OF Cons.prems(1) eff(1) Cons.prems(2,5,6)])
    then have "get_property ?sg1 (slot ?sg1 old_p + k) p = get_property sg (slot sg old_p + k) p"
      using that by (auto simp: block_content_def list_eq_iff_nth_eq)
    then show ?thesis using Cons.prems(8) [OF that] by simp
  qed
  have v: "get_property (put_block a (append_edge e b) sg) (get_allocated_edge_num (put_block a (append_edge e b) sg) old_p + i) p = ?v"
  proof -
    have "get_property (put_block a (append_edge e b) sg) s p = get_property sg s p" for s
      by (rule get_property_same_bytes) (simp_all add: put_block_frame)
    moreover have "get_allocated_edge_num (put_block a (append_edge e b) sg) old_p = slot sg old_p"
      by (metis put_block_frame(1) slot_def)
    ultimately show ?thesis using Cons.prems(7,8) by simp
  qed
  have "copy_entries (\<lambda>s. s) old_p a p i (e # es) sg = copy_entries (\<lambda>s. s) old_p a p (i + 1) es ?sg1"
  proof -
    have "get_allocated_edge_num (put_block a (append_edge e b) sg) a + get_num_entries (append_edge e b) - 1 =
        slot sg a + get_num_entries b"
      unfolding app using put_block_frame(1) by (simp add: slot_def get_num_entries_def)
    then show ?thesis using Cons.prems(2) v by (simp add: push_entry_def Let_def)
  qed
  also have "\<dots> = copy_entries (\<lambda>_. S) old_p a p (i + 1) es ?sg1"
    using Cons.prems(3,6,7) kept
    by (intro Cons.IH [OF psh(1) eff(2) _ psh(2) old1]) (simp_all add: has_room_def)
  finally show ?case by (simp only: copy_step [OF Cons.prems(2) room])
qed

section \<open>A new block for a vertex\<close>

lemma loose_apart: "loose sg a \<Longrightarrow> j < VERTEX_PER_SEG \<Longrightarrow> a \<notin> fst ` set (region sg j)"
  by (simp add: loose_def)

lemma copied_whole:
  "copied S a p 0 (eb_entries b) = block_content S p (a, b)"
  by (simp add: copied_def block_content_def get_num_entries_def)

text \<open>What \<open>extend_region\<close> establishes: the same contents, and room for one more entry.\<close>

definition extended :: "nat \<Rightarrow> nat \<Rightarrow> nat \<Rightarrow> segment \<Rightarrow> segment \<Rightarrow> bool" where
  "extended p i new_p sg sg' \<longleftrightarrow>
     seg_ok p sg' \<and> sg_order sg' = sg_order sg \<and> sg_head sg' = sg_head sg \<and>
     epoch_tables sg' = epoch_tables sg \<and>
     (\<forall>j < VERTEX_PER_SEG. content sg' p j = content sg p j) \<and>
     (\<forall>j < VERTEX_PER_SEG. j \<noteq> i \<longrightarrow> region_ptrs sg' j = region_ptrs sg j \<and> region sg' j = region sg j) \<and>
     region_ptrs sg' i = new_p \<and>
     (\<exists>nb bs. region sg' i = (new_p, nb) # bs \<and> has_room nb 1)"

lemma fill_fields [simp]:
  "eb_order (fill_edge_block order q n) = order" "eb_entries (fill_edge_block order q n) = []"
  "prev_pointer (fill_edge_block order q n) = q" "prev_num_entries (fill_edge_block order q n) = n"
  "get_num_entries (fill_edge_block order q n) = 0"
  by (simp_all add: fill_edge_block_def get_num_entries_def)

lemma extend_by_chain:
  assumes ok: "seg_ok p sg" and i: "i < VERTEX_PER_SEG" and al: "alloc_slots order p sg = (new_p, sg1)"
    and nz: "new_p \<noteq> 0" and large: "COPY_THRESHOLD_ORDER \<le> order"
    and prev: "n = chain_total (region sg i)"
    and full: "region sg i \<noteq> [] \<longrightarrow> 0 < get_num_entries (snd (hd (region sg i)))"
  shows "extended p i new_p sg
    (set_region_ptr i new_p (put_block new_p (fill_edge_block order (region_ptrs sg i) n) sg1))"
proof -
  let ?nb = "fill_edge_block order (region_ptrs sg i) n" and ?bs = "region sg i"
  let ?sg2 = "put_block new_p ?nb sg1"
  have "order < COPY_THRESHOLD_ORDER \<longrightarrow> prev_pointer ?nb = 0" using large by simp
  note nb = new_block [OF ok al nz fill_fields(1,2) this]
  have sg1: "sg1 = sg\<lparr>allocated_edge_num := allocated_edge_num sg + required_slots order\<rparr>"
    using alloc_slots_ptr [OF al nz] by simp
  have ch2: "chain ?sg2 (region_ptrs sg i) ?bs"
    using seg_okD(5) [OF nb(1) i] nb(5) [OF i] by (simp add: put_block_frame sg1)
  have ch: "chain ?sg2 new_p ((new_p, ?nb) # ?bs)"
    using ch2 nz prev full by (simp add: put_block_frame)
  have ap: "\<forall>j < VERTEX_PER_SEG. j \<noteq> i \<longrightarrow>
      fst ` set ((new_p, ?nb) # ?bs) \<inter> fst ` set (region ?sg2 j) = {}"
  proof (intro allI impI)
    fix j
    assume j: "j < VERTEX_PER_SEG" "j \<noteq> i"
    have "fst ` set (region ?sg2 i) \<inter> fst ` set (region ?sg2 j) = {}"
      using seg_okD(3) [OF nb(1)] j i unfolding chains_ok_def by metis
    then show "fst ` set ((new_p, ?nb) # ?bs) \<inter> fst ` set (region ?sg2 j) = {}"
      using loose_apart [OF nb(2) j(1)] nb(5) [OF i] by auto
  qed
  note lk = link_region [OF nb(1) i ch ap]
  have "chain_content ?sg2 p ((new_p, ?nb) # ?bs) = content ?sg2 p i"
    by (simp add: content_def nb(5) [OF i] block_content_def)
  then have "content (set_region_ptr i new_p ?sg2) p j = content sg p j" if "j < VERTEX_PER_SEG" for j
    using lk(3) lk(5) [OF that] nb(4) [OF that] by (cases "j = i") simp_all
  then show ?thesis
    using lk(1,2,4) nb(5) by (simp add: extended_def set_ptr_frame put_block_frame sg1 has_room_def)
qed

lemma extend_by_copy:
  assumes ok: "seg_ok p sg" and i: "i < VERTEX_PER_SEG" and al: "alloc_slots order p sg = (new_p, sg1)"
    and nz: "new_p \<noteq> 0" and small: "order < COPY_THRESHOLD_ORDER"
    and old: "region sg i = [] \<and> es = [] \<or>
      (\<exists>b. region sg i = [(old_p, b)] \<and> es = eb_entries b \<and> Suc (get_num_entries b) \<le> 2 ^ order)"
  shows "\<exists>sg2. copy_entries (\<lambda>s. s) old_p new_p p 0 es (put_block new_p (fill_edge_block order 0 0) sg1) =
      Inr sg2 \<and> extended p i new_p sg (set_region_ptr i new_p sg2)"
proof -
  let ?nb = "fill_edge_block order 0 0"
  let ?sg2 = "put_block new_p ?nb sg1"
  let ?nb' = "?nb\<lparr>eb_entries := eb_entries ?nb @ es\<rparr>"
  have "order < COPY_THRESHOLD_ORDER \<longrightarrow> prev_pointer ?nb = 0" by simp
  note nb = new_block [OF ok al nz fill_fields(1,2) this]
  have sg1: "sg1 = sg\<lparr>allocated_edge_num := allocated_edge_num sg + required_slots order\<rparr>"
    using alloc_slots_ptr [OF al nz] by simp
  have blk: "sg_blocks ?sg2 new_p = Some ?nb" by (simp add: put_block_frame)
  have room: "has_room ?nb (length es)"
    using old by (auto simp: has_room_def get_num_entries_def)
  obtain sg3 where run0: "copy_entries (\<lambda>_. ?sg2) old_p new_p p 0 es ?sg2 = Inr sg3"
    and fr: "copy_frame p new_p ?sg2 sg3" and blk3: "sg_blocks sg3 new_p = Some ?nb'"
    and cont: "block_content sg3 p (new_p, ?nb') =
      block_content ?sg2 p (new_p, ?nb) @ copied ?sg2 old_p p 0 es"
    using copy_entries_loose [OF nb(1) blk room nb(2), of ?sg2 old_p 0] by blast
  have run: "copy_entries (\<lambda>s. s) old_p new_p p 0 es ?sg2 = Inr sg3"
  proof (cases "es = []")
    case True
    then show ?thesis using run0 by simp
  next
    case False
    then obtain b where b: "region sg i = [(old_p, b)]" "es = eb_entries b" using old by auto
    then have "(old_p, b) \<in> set (region ?sg2 i)" using nb(5) [OF i] by simp
    then have ob: "sg_blocks ?sg2 old_p = Some b" by (rule chain_member [OF seg_okD(5) [OF nb(1) i]])
    have "old_p \<noteq> new_p" using loose_apart [OF nb(2) i] b nb(5) [OF i] by auto
    then show ?thesis
      using b run0 copy_within [OF nb(1) blk room nb(2) ob, of 0 ?sg2] by (simp add: get_num_entries_def)
  qed
  have three: "seg_ok p sg3" "loose sg3 new_p"
    "\<And>j. j < VERTEX_PER_SEG \<Longrightarrow> content sg3 p j = content ?sg2 p j \<and> region sg3 j = region ?sg2 j"
    using fr by (simp_all add: copy_frame_def)
  have flds: "region_ptrs sg3 = region_ptrs sg" "sg_order sg3 = sg_order sg" "sg_head sg3 = sg_head sg"
    "epoch_tables sg3 = epoch_tables sg"
    using fr by (simp_all add: copy_frame_def same_frame_def put_block_frame sg1)
  have ch: "chain sg3 new_p [(new_p, ?nb')]" using nz blk3 by simp
  have ap: "\<forall>j < VERTEX_PER_SEG. j \<noteq> i \<longrightarrow> fst ` set [(new_p, ?nb')] \<inter> fst ` set (region sg3 j) = {}"
    using loose_apart [OF three(2)] by simp
  note lk = link_region [OF three(1) i ch ap]
  have "copied ?sg2 old_p p 0 es = content sg p i"
  proof (cases "es = []")
    case True
    then show ?thesis
      using old by (auto simp: content_def copied_def block_content_def get_num_entries_def)
  next
    case False
    then obtain b where b: "region sg i = [(old_p, b)]" "es = eb_entries b" using old by auto
    have "content ?sg2 p i = block_content ?sg2 p (old_p, b)"
      by (simp add: content_def nb(5) [OF i] b(1))
    then show ?thesis using nb(4) [OF i] by (simp add: b(2) copied_whole)
  qed
  then have "content (set_region_ptr i new_p sg3) p j = content sg p j" if "j < VERTEX_PER_SEG" for j
    using lk(3) lk(5) [OF that] nb(4) [OF that] three(3) [OF that] cont
    by (cases "j = i") (simp_all add: block_content_def)
  moreover have "has_room ?nb' 1" using old by (auto simp: has_room_def get_num_entries_def)
  ultimately have "extended p i new_p sg (set_region_ptr i new_p sg3)"
    using lk(1,2,4) nb(5) three(3) by (simp add: extended_def set_ptr_frame flds)
  then show ?thesis using run by blast
qed

definition newest :: "segment \<Rightarrow> nat \<Rightarrow> edge_block option" where
  "newest sg i = (case region sg i of [] \<Rightarrow> None | ab # _ \<Rightarrow> Some (snd ab))"

lemma convert_newest:
  assumes "seg_ok p sg" and "i < VERTEX_PER_SEG"
  shows "convert_block sg (region_ptrs sg i) = Inr (newest sg i)"
proof (cases "region sg i")
  case Nil
  then show ?thesis
    using seg_okD(5) [OF assms] by (simp add: newest_def convert_block_def NULLPOINTER_def)
next
  case (Cons ab bs)
  have ch: "chain sg (region_ptrs sg i) (ab # bs)" using seg_okD(5) [OF assms] by (simp only: Cons)
  have "region_ptrs sg i \<noteq> 0" and "sg_blocks sg (region_ptrs sg i) = Some (snd ab)"
    using ch unfolding chain.simps by blast+
  then show ?thesis using Cons by (simp add: newest_def convert_block_def NULLPOINTER_def)
qed

lemma extend_region_ok:
  assumes ok: "seg_ok p sg" and i: "i < VERTEX_PER_SEG"
    and full: "case newest sg i of None \<Rightarrow> True | Some b \<Rightarrow> \<not> has_space b"
    and ord: "order = (case newest sg i of None \<Rightarrow> DEFAULT_INIT_ORDER | Some b \<Rightarrow> eb_order b + 1)"
    and al: "alloc_slots order p sg = (new_p, sg1)" and nz: "new_p \<noteq> 0"
  shows "\<exists>sg'. extend_region i (region_ptrs sg i) (newest sg i) order new_p p sg1 = Inr sg' \<and>
    extended p i new_p sg sg'"
proof (cases "region sg i")
  case Nil
  then have "order < COPY_THRESHOLD_ORDER" and "newest sg i = None"
    using ord by (simp_all add: newest_def DEFAULT_INIT_ORDER_def COPY_THRESHOLD_ORDER_def)
  then show ?thesis
    using extend_by_copy [OF ok i al nz, of "[]" 0] Nil by (simp add: extend_region_def Let_def)
next
  case (Cons ab bs)
  obtain a b where ab: "ab = (a, b)" by fastforce
  have ch: "chain sg (region_ptrs sg i) ((a, b) # bs)"
    using seg_okD(5) [OF ok i] by (simp only: Cons ab)
  have new: "newest sg i = Some b" using Cons ab by (simp add: newest_def)
  have pl: "placed sg a b" using seg_okD(4) [OF ok chain_member [OF ch, of a b]] by simp
  have len: "length (eb_entries b) = 2 ^ eb_order b"
    using full pl by (simp add: new has_space_iff placed_def)
  have order: "order = eb_order b + 1" using ord by (simp add: new)
  show ?thesis
  proof (cases "COPY_THRESHOLD_ORDER \<le> order")
    case True
    have "prev_num_entries b + get_num_entries b = chain_total (region sg i)"
      using ch Cons ab by simp
    moreover have "region sg i \<noteq> [] \<longrightarrow> 0 < get_num_entries (snd (hd (region sg i)))"
      using Cons ab len by (simp add: get_num_entries_def)
    ultimately show ?thesis
      using extend_by_chain [OF ok i al nz True] True by (simp add: extend_region_def new)
  next
    case False
    then have "prev_pointer b = 0" using pl order by (simp add: placed_def)
    then have "bs = []" using ch by (cases bs) auto
    moreover have "a = region_ptrs sg i" using ch by simp
    ultimately have "region sg i = [(region_ptrs sg i, b)]" using Cons ab by simp
    moreover have "Suc (get_num_entries b) \<le> 2 ^ order"
      by (simp add: get_num_entries_def len order)
    ultimately have "\<exists>sg2. copy_entries (\<lambda>s. s) (region_ptrs sg i) new_p p 0 (eb_entries b)
        (put_block new_p (fill_edge_block order 0 0) sg1) = Inr sg2 \<and>
      extended p i new_p sg (set_region_ptr i new_p sg2)"
      using False by (intro extend_by_copy [OF ok i al nz]) auto
    then show ?thesis using False by (auto simp: extend_region_def new)
  qed
qed

section \<open>Merging a region into another segment\<close>

definition relink :: "nat \<Rightarrow> nat \<Rightarrow> nat \<Rightarrow> segment \<Rightarrow> segment" where
  "relink i q t sg = set_epoch_table i t (set_region_ptr i q sg)"

lemma relink_commutes:
  "sg_blocks (relink i q t sg) = sg_blocks sg"
  "put_block a b (relink i q t sg) = relink i q t (put_block a b sg)"
  "append_property s v p (relink i q t sg) = relink i q t (append_property s v p sg)"
  "get_allocated_edge_num (relink i q t sg) x = get_allocated_edge_num sg x"
  by (simp_all add: relink_def set_epoch_table_def set_region_ptr_def put_block_def
      append_property_def property_start_def Let_def get_allocated_edge_num_def cong: if_cong)

lemma copy_relink:
  "copy_entries (\<lambda>_. S) old_p a p k es (relink i q t sg) =
    map_sum id (relink i q t) (copy_entries (\<lambda>_. S) old_p a p k es sg)"
proof (induction es arbitrary: sg k)
  case (Cons e es)
  then show ?case
    by (cases "p = 0"; cases "sg_blocks sg a") (simp_all add: relink_commutes Let_def)
qed simp

lemma merge_relink:
  "merge_blocks S a p bs (relink i q t sg) = map_sum id (relink i q t) (merge_blocks S a p bs sg)"
proof (induction bs arbitrary: sg)
  case (Cons b bs)
  then show ?case
    by (cases "copy_entries (\<lambda>_. S) (fst b) a p 0 (eb_entries (snd b)) sg") (simp_all add: copy_relink)
qed simp

lemma merge_blocks_loose:
  assumes "seg_ok p sg" and "sg_blocks sg a = Some b" and "has_room b (chain_total bs)" and "loose sg a"
  shows "\<exists>sg' b'. merge_blocks S a p bs sg = Inr sg' \<and> copy_frame p a sg sg' \<and>
    b' = b\<lparr>eb_entries := eb_entries b @ concat (map (eb_entries \<circ> snd) bs)\<rparr> \<and> sg_blocks sg' a = Some b' \<and>
    block_content sg' p (a, b') = block_content sg p (a, b) @ concat (map (block_content S p) bs)"
  using assms
proof (induction bs arbitrary: sg b)
  case Nil
  then show ?case by (simp add: copy_frame_def same_frame_def)
next
  case (Cons ab bs)
  let ?es = "eb_entries (snd ab)"
  have room: "has_room b (length ?es)" "has_room (b\<lparr>eb_entries := eb_entries b @ ?es\<rparr>) (chain_total bs)"
    using Cons.prems(3) by (simp_all add: has_room_def get_num_entries_def)
  obtain sg1 b1 where run1: "copy_entries (\<lambda>_. S) (fst ab) a p 0 ?es sg = Inr sg1"
    and fr1: "copy_frame p a sg sg1" and b1: "b1 = b\<lparr>eb_entries := eb_entries b @ ?es\<rparr>"
    and blk1: "sg_blocks sg1 a = Some b1"
    and c1: "block_content sg1 p (a, b1) = block_content sg p (a, b) @ copied S (fst ab) p 0 ?es"
    using copy_entries_loose [OF Cons.prems(1,2) room(1) Cons.prems(4)] by blast
  have "seg_ok p sg1" "loose sg1 a" using fr1 by (simp_all add: copy_frame_def)
  from Cons.IH [OF this(1) blk1 _ this(2)] room(2) b1
  obtain sg2 b2 where run2: "merge_blocks S a p bs sg1 = Inr sg2" and fr2: "copy_frame p a sg1 sg2"
    and b2: "b2 = b1\<lparr>eb_entries := eb_entries b1 @ concat (map (eb_entries \<circ> snd) bs)\<rparr>"
    and blk2: "sg_blocks sg2 a = Some b2"
    and c2: "block_content sg2 p (a, b2) = block_content sg1 p (a, b1) @ concat (map (block_content S p) bs)"
    by blast
  have "same_frame p a sg sg1" and "same_frame p a sg1 sg2" using fr1 fr2 by (simp_all add: copy_frame_def)
  then have "same_frame p a sg sg2"
    by (rule same_frame_trans [OF _ _ Cons.prems(2) blk1]) (simp add: b1)
  then have "copy_frame p a sg sg2" using fr1 fr2 by (simp add: copy_frame_def)
  moreover have "block_content S p ab = copied S (fst ab) p 0 ?es"
    by (cases ab) (simp add: copied_whole)
  then have "block_content sg2 p (a, b2) =
      block_content sg p (a, b) @ concat (map (block_content S p) (ab # bs))"
    unfolding c2 c1 by (simp only: list.map concat.simps append_assoc)
  moreover have "merge_blocks S a p (ab # bs) sg = Inr sg2" using run1 run2 by simp
  moreover have "b2 = b\<lparr>eb_entries := eb_entries b @ concat (map (eb_entries \<circ> snd) (ab # bs))\<rparr>"
    using b1 b2 by simp
  ultimately show ?case using blk2 by blast
qed

definition slack :: "nat option \<Rightarrow> nat \<Rightarrow> nat" where
  "slack segidx i = (if segidx = Some i then 1 else 0)"

definition skipped :: "segment \<Rightarrow> nat option \<Rightarrow> nat \<Rightarrow> bool" where
  "skipped S segidx i \<longleftrightarrow> chain_total (region S i) = 0 \<and> segidx \<noteq> Some i"

definition merged_order :: "segment \<Rightarrow> nat option \<Rightarrow> nat \<Rightarrow> nat" where
  "merged_order S segidx i = size_to_order (chain_total (region S i) + slack segidx i)"

definition need :: "segment \<Rightarrow> nat option \<Rightarrow> nat \<Rightarrow> nat" where
  "need S segidx i = (if skipped S segidx i then 0 else required_slots (merged_order S segidx i))"

text \<open>Region \<open>i\<close> of \<open>S\<close> has arrived in \<open>N\<close>; the region of \<open>N\<close> was empty before.\<close>

definition moved :: "segment \<Rightarrow> nat option \<Rightarrow> nat \<Rightarrow> segment \<Rightarrow> nat \<Rightarrow> bool" where
  "moved S segidx p N i \<longleftrightarrow> content N p i = content S p i \<and>
     (if skipped S segidx i then region_ptrs N i = 0 \<and> epoch_tables N i = 0
      else epoch_tables N i = epoch_tables S i \<and>
        (\<exists>q b. region N i = [(q, b)] \<and> has_room b (slack segidx i)))"

definition kept :: "nat \<Rightarrow> segment \<Rightarrow> segment \<Rightarrow> nat \<Rightarrow> bool" where
  "kept p N N' i \<longleftrightarrow> region_ptrs N' i = region_ptrs N i \<and> epoch_tables N' i = epoch_tables N i \<and>
     region N' i = region N i \<and> content N' p i = content N p i"

lemma region_null: "region_ptrs N i = 0 \<Longrightarrow> region N i = []"
  by (rule region_chain) simp

lemma merge_region_ok:
  assumes S: "seg_ok p S" and N: "seg_ok p N" and i: "i < VERTEX_PER_SEG"
    and empty: "region_ptrs N i = 0" "epoch_tables N i = 0"
    and small: "chain_total (region S i) + 1 < 2 ^ 63"
    and fit: "segment_header_size + (allocated_edge_num N + need S segidx i) * (8 + p) \<le> 2 ^ sg_order N"
  shows "\<exists>N'. merge_region S segidx p i N = Inr N' \<and> seg_ok p N' \<and> moved S segidx p N' i \<and>
    (\<forall>j < VERTEX_PER_SEG. j \<noteq> i \<longrightarrow> kept p N N' j) \<and>
    allocated_edge_num N' = allocated_edge_num N + need S segidx i \<and>
    sg_order N' = sg_order N \<and> sg_head N' = sg_head N"
proof -
  let ?bs = "region S i" and ?n = "chain_total (region S i)" and ?o = "merged_order S segidx i"
  have coll: "collect_blocks S (region_ptrs S i) = Some ?bs"
    by (rule collect_chain [OF seg_okD(5) [OF S i]])
  have content_S: "content S p i = concat (map (block_content S p) (rev ?bs))"
    by (simp add: content_def chain_content_def)
  show ?thesis
  proof (cases "skipped S segidx i")
    case True
    then have "?n = 0" by (simp add: skipped_def)
    then have "content S p i = []"
      using length_chain_content [of S p ?bs] by (simp add: content_def)
    then have "moved S segidx p N i"
      using True empty region_null [OF empty(1)] by (simp add: moved_def content_def)
    moreover have "merge_region S segidx p i N = Inr N"
      using True coll by (simp add: merge_region_def Let_def skipped_def chain_total_def)
    ultimately show ?thesis using N True by (simp add: kept_def need_def)
  next
    case False
    define q where "q = base N + allocated_edge_num N * 8"
    define N1 where "N1 = N\<lparr>allocated_edge_num := allocated_edge_num N + required_slots ?o\<rparr>"
    have nz: "q \<noteq> 0" using base_pos [of N "allocated_edge_num N * 8"] by (simp add: q_def)
    have al: "alloc_slots ?o p N = (q, N1)"
      using fit False by (simp add: alloc_slots_def Let_def q_def N1_def need_def base_def
          edge_entry_size_def get_block_size_def)
    let ?nb = "fill_edge_block ?o 0 0"
    have "?o < COPY_THRESHOLD_ORDER \<longrightarrow> prev_pointer ?nb = 0" by simp
    note nb = new_block [OF N al nz fill_fields(1,2) this]
    let ?N2 = "put_block q ?nb N1"
    have blk: "sg_blocks ?N2 q = Some ?nb" by (simp add: put_block_frame)
    have cap: "?n + slack segidx i \<le> 2 ^ ?o"
      using size_to_order_covers(1) [of "?n + slack segidx i"] small
      by (simp add: merged_order_def slack_def split: if_splits)
    have total_rev: "chain_total (rev ?bs) = ?n" by (simp add: chain_total_def rev_map [symmetric])
    have room: "has_room ?nb (chain_total (rev ?bs))" using cap by (simp add: has_room_def total_rev)
    obtain N3 b3 where run: "merge_blocks S q p (rev ?bs) ?N2 = Inr N3"
      and fr: "copy_frame p q ?N2 N3"
      and b3: "b3 = ?nb\<lparr>eb_entries := eb_entries ?nb @ concat (map (eb_entries \<circ> snd) (rev ?bs))\<rparr>"
      and blk3: "sg_blocks N3 q = Some b3"
      and c3: "block_content N3 p (q, b3) =
        block_content ?N2 p (q, ?nb) @ concat (map (block_content S p) (rev ?bs))"
      using merge_blocks_loose [OF nb(1) blk room nb(2)] by blast
    have ok3: "seg_ok p N3" and loose3: "loose N3 q" and same3: "same_frame p q ?N2 N3"
      using fr by (simp_all add: copy_frame_def)
    have ch: "chain N3 q [(q, b3)]" using nz blk3 b3 by simp
    have ap: "\<forall>j < VERTEX_PER_SEG. j \<noteq> i \<longrightarrow> fst ` set [(q, b3)] \<inter> fst ` set (region N3 j) = {}"
      using loose_apart [OF loose3] by simp
    note lk = link_region [OF ok3 i ch ap]
    let ?L = "set_region_ptr i q N3" and ?t = "epoch_tables S i"
    let ?N' = "relink i q ?t N3"
    note st = set_table_ok [OF lk(1), where i = i and t = "?t", folded relink_def]
    have flds: "region_ptrs N3 = region_ptrs N" "epoch_tables N3 = epoch_tables N"
      "allocated_edge_num N3 = allocated_edge_num N + required_slots ?o" "sg_order N3 = sg_order N"
      "sg_head N3 = sg_head N"
      using same3 by (simp_all add: same_frame_def put_block_frame N1_def)
    have eq: "merge_region S segidx p i N = Inr ?N'"
    proof -
      have "merge_region S segidx p i N =
          merge_blocks S q p (rev ?bs) (put_block q ?nb (relink i q ?t N1))"
      proof -
        have o: "size_to_order (if segidx = Some i then ?n + 1 else ?n) = ?o"
          by (simp add: merged_order_def slack_def)
        have go: "(?n = 0 \<and> segidx \<noteq> Some i) = False" using False by (simp add: skipped_def)
        show ?thesis
          unfolding merge_region_def coll option.case Let_def chain_total_def [symmetric] o al go
          using nz by (simp add: relink_def NULLPOINTER_def)
      qed
      then show ?thesis by (simp add: relink_commutes(2) merge_relink run)
    qed
    have "length (eb_entries b3) = ?n"
      by (simp add: b3 length_concat chain_total_def get_num_entries_def comp_def rev_map [symmetric])
    moreover have "eb_order b3 = ?o" by (simp add: b3)
    ultimately have "has_room b3 (slack segidx i)" using cap by (simp add: has_room_def)
    moreover have "content ?N' p i = content S p i"
      using st(3) [OF i] lk(3) c3 by (simp add: content_S block_content_def)
    ultimately have "moved S segidx p ?N' i"
      using False st(2) [OF i] lk(2) by (simp add: moved_def relink_def set_table_frame)
    moreover have "kept p N ?N' j" if "j < VERTEX_PER_SEG" "j \<noteq> i" for j
      using that lk(4) [OF that] lk(5) [OF that] st(2) [OF that(1)] st(3) [OF that(1)] flds
        nb(4) [OF that(1)] nb(5) [OF that(1)] fr
      by (simp add: kept_def relink_def set_table_frame set_ptr_frame copy_frame_def)
    moreover have "seg_ok p ?N'" by (rule st(1))
    ultimately show ?thesis
      using eq flds False by (simp add: need_def relink_def set_table_frame set_ptr_frame)
  qed
qed

lemma kept_trans: "kept p A B i \<Longrightarrow> kept p B C i \<Longrightarrow> kept p A C i"
  by (simp add: kept_def)

lemma moved_kept: "moved S segidx p A i \<Longrightarrow> kept p A B i \<Longrightarrow> moved S segidx p B i"
  by (simp add: moved_def kept_def)

lemma merge_regions_ok:
  assumes S: "seg_ok p S" and N: "seg_ok p N" and "distinct is" and "set is \<subseteq> {..<VERTEX_PER_SEG}"
    and "\<And>i. i \<in> set is \<Longrightarrow> region_ptrs N i = 0 \<and> epoch_tables N i = 0"
    and "\<And>i. i \<in> set is \<Longrightarrow> chain_total (region S i) + 1 < 2 ^ 63"
    and "segment_header_size + (allocated_edge_num N + sum_list (map (need S segidx) is)) * (8 + p)
      \<le> 2 ^ sg_order N"
  shows "\<exists>N'. merge_regions S segidx p is N = Inr N' \<and> seg_ok p N' \<and>
    (\<forall>i \<in> set is. moved S segidx p N' i) \<and>
    (\<forall>j < VERTEX_PER_SEG. j \<notin> set is \<longrightarrow> kept p N N' j) \<and>
    sg_order N' = sg_order N \<and> sg_head N' = sg_head N"
  using assms(2-)
proof (induction "is" arbitrary: N)
  case Nil
  then show ?case by (simp add: kept_def)
next
  case (Cons i "is")
  have i: "i < VERTEX_PER_SEG" "i \<notin> set is" using Cons.prems by auto
  have "segment_header_size + (allocated_edge_num N + need S segidx i) * (8 + p) \<le> 2 ^ sg_order N"
    by (rule order.trans [OF _ Cons.prems(6)]) (simp add: add_mult_distrib)
  then obtain N1 where run1: "merge_region S segidx p i N = Inr N1" and ok1: "seg_ok p N1"
    and m1: "moved S segidx p N1 i" and k1: "\<forall>j < VERTEX_PER_SEG. j \<noteq> i \<longrightarrow> kept p N N1 j"
    and a1: "allocated_edge_num N1 = allocated_edge_num N + need S segidx i"
    and f1: "sg_order N1 = sg_order N" "sg_head N1 = sg_head N"
    using merge_region_ok [OF S Cons.prems(1) i(1), of segidx] Cons.prems by auto
  have "\<exists>N'. merge_regions S segidx p is N1 = Inr N' \<and> seg_ok p N' \<and>
    (\<forall>i \<in> set is. moved S segidx p N' i) \<and>
    (\<forall>j < VERTEX_PER_SEG. j \<notin> set is \<longrightarrow> kept p N1 N' j) \<and>
    sg_order N' = sg_order N1 \<and> sg_head N' = sg_head N1"
  proof (rule Cons.IH [OF ok1])
    fix j
    assume j: "j \<in> set is"
    then have "j < VERTEX_PER_SEG" "j \<noteq> i" using Cons.prems(3) i by auto
    then show "region_ptrs N1 j = 0 \<and> epoch_tables N1 j = 0"
      using k1 Cons.prems(4) j by (simp add: kept_def)
  qed (use Cons.prems a1 f1 in \<open>auto simp: add.assoc\<close>)
  then obtain N2 where run2: "merge_regions S segidx p is N1 = Inr N2" and ok2: "seg_ok p N2"
    and m2: "\<forall>i \<in> set is. moved S segidx p N2 i"
    and k2: "\<forall>j < VERTEX_PER_SEG. j \<notin> set is \<longrightarrow> kept p N1 N2 j"
    and f2: "sg_order N2 = sg_order N1" "sg_head N2 = sg_head N1"
    by blast
  have "moved S segidx p N2 i" using m1 k2 i by (auto intro: moved_kept)
  moreover have "kept p N N2 j" if "j < VERTEX_PER_SEG" "j \<notin> set (i # is)" for j
    using that k1 k2 by (auto intro: kept_trans)
  ultimately show ?case using run1 run2 ok2 m2 f1 f2 by auto
qed

section \<open>A merged segment always fits\<close>

definition used :: "segment \<Rightarrow> nat \<Rightarrow> nat" where
  "used S i = sum_list (map (\<lambda>ab. required_slots (eb_order (snd ab))) (region S i))"

definition region_span :: "segment \<Rightarrow> nat \<Rightarrow> nat set" where
  "region_span S i = (\<Union>ab \<in> set (region S i). span S (fst ab) (snd ab))"

lemma region_blocks: "seg_ok p S \<Longrightarrow> i < VERTEX_PER_SEG \<Longrightarrow> ab \<in> set (region S i) \<Longrightarrow>
    sg_blocks S (fst ab) = Some (snd ab)"
  using chain_member [OF seg_okD(5), of p S i "fst ab" "snd ab"] by simp

lemma card_region_span:
  assumes "seg_ok p S" and "i < VERTEX_PER_SEG"
  shows "card (region_span S i) = used S i"
proof -
  let ?bs = "region S i"
  have d: "distinct (map fst ?bs)" by (rule chain_distinct [OF seg_okD(5) [OF assms]])
  have ap: "span S (fst x) (snd x) \<inter> span S (fst y) (snd y) = {}"
    if "x \<in> set ?bs" "y \<in> set ?bs" "x \<noteq> y" for x y
  proof -
    have "fst x \<noteq> fst y" using d that by (auto simp: distinct_map inj_on_def)
    then show ?thesis
      using seg_okD(2) [OF assms(1)] region_blocks [OF assms] that unfolding spans_apart_def by metis
  qed
  have "card (region_span S i) = (\<Sum>ab \<in> set ?bs. card (span S (fst ab) (snd ab)))"
    unfolding region_span_def by (rule card_UN_disjoint) (use ap in \<open>auto simp: span_def\<close>)
  also have "\<dots> = (\<Sum>ab \<in> set ?bs. required_slots (eb_order (snd ab)))" by (simp add: span_def)
  also have "\<dots> = used S i"
    using d by (simp add: used_def sum_list_distinct_conv_sum_set distinct_map)
  finally show ?thesis .
qed

lemma sum_used:
  assumes "seg_ok p S"
  shows "(\<Sum>i < VERTEX_PER_SEG. used S i) \<le> allocated_edge_num S"
proof -
  have ap: "region_span S i \<inter> region_span S j = {}"
    if "i < VERTEX_PER_SEG" "j < VERTEX_PER_SEG" "i \<noteq> j" for i j
  proof -
    have "fst ` set (region S i) \<inter> fst ` set (region S j) = {}"
      using seg_okD(3) [OF assms] that unfolding chains_ok_def by blast
    then have "span S (fst x) (snd x) \<inter> span S (fst y) (snd y) = {}"
      if "x \<in> set (region S i)" "y \<in> set (region S j)" for x y
      using seg_okD(2) [OF assms] region_blocks [OF assms] that \<open>i < _\<close> \<open>j < _\<close>
      unfolding spans_apart_def by (metis IntI empty_iff imageI)
    then show ?thesis unfolding region_span_def by blast
  qed
  have fin: "finite (region_span S i)" for i by (simp add: region_span_def span_def)
  have "(\<Sum>i < VERTEX_PER_SEG. used S i) = (\<Sum>i < VERTEX_PER_SEG. card (region_span S i))"
    using card_region_span [OF assms] by simp
  also have "\<dots> = card (\<Union>i < VERTEX_PER_SEG. region_span S i)"
    by (rule card_UN_disjoint [symmetric]) (use ap fin in auto)
  also have "\<dots> \<le> card {..<allocated_edge_num S}"
  proof (rule card_mono)
    show "(\<Union>i < VERTEX_PER_SEG. region_span S i) \<subseteq> {..<allocated_edge_num S}"
      using region_blocks [OF assms] seg_okD(4) [OF assms] span_allocated
      by (fastforce simp: region_span_def)
  qed simp
  finally show ?thesis by simp
qed

lemma sum_list_step:
  fixes f g :: "'a \<Rightarrow> nat"
  assumes "\<And>x. x \<in> set xs \<Longrightarrow> f x + 3 \<le> g x"
  shows "sum_list (map f xs) + 3 * length xs \<le> sum_list (map g xs)"
  using assms by (induction xs) (auto, fastforce)

lemma total_le_used:
  assumes "seg_ok p S" and "i < VERTEX_PER_SEG"
  shows "chain_total (region S i) + 3 * length (region S i) \<le> used S i"
proof -
  have "get_num_entries (snd ab) + 3 \<le> required_slots (eb_order (snd ab))" if "ab \<in> set (region S i)" for ab
    using seg_okD(4) [OF assms(1) region_blocks [OF assms that]]
    by (simp add: placed_def get_num_entries_def required_slots_eq)
  then show ?thesis
    unfolding chain_total_def used_def
    using sum_list_step [of "region S i" "get_num_entries \<circ> snd" "\<lambda>ab. required_slots (eb_order (snd ab))"]
    by simp
qed

lemma need_le:
  assumes "seg_ok p S" and "i < VERTEX_PER_SEG" and "chain_total (region S i) + 1 < 2 ^ 63"
  shows "need S segidx i \<le> 2 * used S i + 4 * slack segidx i"
proof (cases "skipped S segidx i")
  case True
  then show ?thesis by (simp add: need_def)
next
  case False
  let ?n = "chain_total (region S i)" and ?m = "chain_total (region S i) + slack segidx i"
  have m: "0 < ?m" "?m < 2 ^ 63" using False assms(3) by (auto simp: skipped_def slack_def)
  have "2 ^ merged_order S segidx i < 2 * ?m"
    using size_to_order_covers(2) [OF m(2,1)] by (simp add: merged_order_def)
  then have n: "need S segidx i \<le> 2 * ?n + 2 * slack segidx i + 2"
    using False by (simp add: need_def required_slots_eq)
  show ?thesis
  proof (cases "?n = 0")
    case True
    then have "slack segidx i = 1" using m by (simp add: slack_def split: if_splits)
    then show ?thesis using n True by simp
  next
    case nz: False
    then have "region S i \<noteq> []" by auto
    then have "1 \<le> length (region S i)" by (simp add: Suc_le_eq)
    then have "?n + 3 \<le> used S i" using total_le_used [OF assms(1,2)] by linarith
    then show ?thesis using n by (simp add: slack_def)
  qed
qed

text \<open>
  The bound on the property size that the code relies on: four edges with their properties are no
  larger than a segment header.
\<close>

definition MAX_PROP :: nat where
  "MAX_PROP = 16382"

lemma total_small:
  assumes "seg_ok p S" and "i < VERTEX_PER_SEG" and "sg_order S \<le> 62"
  shows "chain_total (region S i) + 1 < 2 ^ 63"
proof -
  have "used S i \<le> (\<Sum>i < VERTEX_PER_SEG. used S i)"
    using assms(2) by (intro member_le_sum) auto
  then have "chain_total (region S i) \<le> allocated_edge_num S"
    using total_le_used [OF assms(1,2)] sum_used [OF assms(1)] by linarith
  also have "\<dots> \<le> allocated_edge_num S * (8 + p)" by simp
  also have "\<dots> \<le> 2 ^ sg_order S" using seg_okD(1) [OF assms(1)] by (simp add: seg_fits_def)
  also have "\<dots> \<le> 2 ^ 62" using assms(3) by (intro power_increasing) simp_all
  finally show ?thesis by simp
qed

lemma needs_fit:
  assumes ok: "seg_ok p S" and "p \<le> MAX_PROP" and "sg_order S \<le> 62"
  shows "segment_header_size + sum_list (map (need S segidx) [0..<VERTEX_PER_SEG]) * (8 + p)
    \<le> 2 ^ (sg_order S + 1)"
proof -
  let ?A = "allocated_edge_num S"
  have "sum_list (map (need S segidx) [0..<VERTEX_PER_SEG]) = (\<Sum>i < VERTEX_PER_SEG. need S segidx i)"
    by (simp add: sum_list_distinct_conv_sum_set atLeast0LessThan)
  also have "\<dots> \<le> (\<Sum>i < VERTEX_PER_SEG. 2 * used S i + 4 * slack segidx i)"
    using need_le [OF ok _ total_small [OF ok _ assms(3)]] by (intro sum_mono) simp
  also have "\<dots> = 2 * (\<Sum>i < VERTEX_PER_SEG. used S i) + 4 * (\<Sum>i < VERTEX_PER_SEG. slack segidx i)"
    by (simp add: sum.distrib sum_distrib_left)
  also have "(\<Sum>i < VERTEX_PER_SEG. slack segidx i) \<le> 1"
    by (cases segidx) (simp_all add: slack_def)
  finally have "sum_list (map (need S segidx) [0..<VERTEX_PER_SEG]) \<le> 2 * ?A + 4"
    using sum_used [OF ok] by linarith
  then have "sum_list (map (need S segidx) [0..<VERTEX_PER_SEG]) * (8 + p) \<le> (2 * ?A + 4) * (8 + p)"
    by (rule mult_right_mono) simp
  also have "\<dots> = 2 * (?A * (8 + p)) + 4 * (8 + p)" by (simp add: add_mult_distrib)
  also have "4 * (8 + p) \<le> segment_header_size" using assms(2) by (simp add: MAX_PROP_def size_defs)
  finally have "segment_header_size + sum_list (map (need S segidx) [0..<VERTEX_PER_SEG]) * (8 + p)
      \<le> 2 * (segment_header_size + ?A * (8 + p))" by simp
  also have "\<dots> \<le> 2 * 2 ^ sg_order S" using seg_okD(1) [OF ok] by (simp add: seg_fits_def)
  finally show ?thesis by simp
qed

lemma fill_segment_fields [simp]:
  "region_ptrs (fill_segment np order segid) i = 0" "epoch_tables (fill_segment np order segid) i = 0"
  "allocated_edge_num (fill_segment np order segid) = 0" "sg_order (fill_segment np order segid) = order"
  "sg_head (fill_segment np order segid) = np" "sg_blocks (fill_segment np order segid) = (\<lambda>a. None)"
  by (simp_all add: fill_segment_def)

lemma fill_segment_ok:
  assumes "segment_header_size \<le> 2 ^ order"
  shows "seg_ok p (fill_segment np order segid)" and "content (fill_segment np order segid) p i = []"
  using assms region_null [of "fill_segment np order segid"]
  by (simp_all add: seg_ok_def seg_fits_def spans_apart_def chains_ok_def content_def)

lemma merge_segment_ok:
  assumes ok: "seg_ok p S" and "p \<le> MAX_PROP" and "sg_order S \<le> 62"
  shows "\<exists>N. merge_segment S segidx p (fill_segment np (sg_order S + 1) segid) = Inr N \<and> seg_ok p N \<and>
    (\<forall>i < VERTEX_PER_SEG. moved S segidx p N i) \<and> sg_order N = sg_order S + 1 \<and> sg_head N = np"
proof -
  let ?N = "fill_segment np (sg_order S + 1) segid"
  have "segment_header_size \<le> 2 ^ sg_order S" using seg_okD(1) [OF ok] by (simp add: seg_fits_def)
  also have "\<dots> \<le> 2 ^ (sg_order S + 1)" by simp
  finally have N: "seg_ok p ?N" by (rule fill_segment_ok)
  have "\<exists>N'. merge_regions S segidx p [0..<VERTEX_PER_SEG] ?N = Inr N' \<and> seg_ok p N' \<and>
    (\<forall>i \<in> set [0..<VERTEX_PER_SEG]. moved S segidx p N' i) \<and>
    (\<forall>j < VERTEX_PER_SEG. j \<notin> set [0..<VERTEX_PER_SEG] \<longrightarrow> kept p ?N N' j) \<and>
    sg_order N' = sg_order ?N \<and> sg_head N' = sg_head ?N"
    using needs_fit [OF assms] total_small [OF ok _ assms(3)] by (intro merge_regions_ok [OF ok N]) auto
  then show ?thesis by (auto simp: merge_segment_def)
qed

end
