(* ===== verification/Seg_Refine.thy ===== *)
theory Seg_Refine
  imports Seg_Regions
begin

text \<open>
  The edge store refines a log of edges per vertex, label and direction: \<open>put_edge\<close> appends one
  edge to exactly the logs it names, through every path of the code (new segment, new block, copied
  block, merged segment, new epoch table), and never leaves the structure.
\<close>

section \<open>Label blocks\<close>

abbreviation lp :: "seg_graph \<Rightarrow> nat \<Rightarrow> nat" where
  "lp g s \<equiv> edge_label_ptrs g ! s"

definition sp :: "seg_graph \<Rightarrow> nat \<Rightarrow> nat \<Rightarrow> dir_t \<Rightarrow> nat" where
  "sp g s l d = (case locate_segment g s l d of Inl _ \<Rightarrow> 0 | Inr p \<Rightarrow> p)"

definition label_block_ok :: "label_block \<Rightarrow> bool" where
  "label_block_ok b \<longleftrightarrow> 32 + length (lb_entries b) * 24 \<le> 2 ^ lb_order b"

definition labels_ok :: "seg_graph \<Rightarrow> block set \<Rightarrow> bool" where
  "labels_ok g live \<longleftrightarrow>
     (\<forall>s < length (edge_label_ptrs g). lp g s \<noteq> 0 \<longrightarrow>
        (\<exists>b. label_blocks g (lp g s) = Some b \<and> label_block_ok b \<and> (lp g s, lb_order b) \<in> live)) \<and>
     (\<forall>s < length (edge_label_ptrs g). \<forall>s' < length (edge_label_ptrs g).
        s \<noteq> s' \<longrightarrow> lp g s = lp g s' \<longrightarrow> lp g s = 0)"

lemma find_label_snoc:
  "find_label l (es @ [e]) =
    (case find_label l es of Some x \<Rightarrow> Some x | None \<Rightarrow> if entry_label e = l then Some e else None)"
  unfolding find_label_def by (induction es) auto

lemma find_label_update:
  assumes "\<And>e. entry_label (f e) = entry_label e"
  shows "find_label l' (update_entry l f es) =
    (if l' = l then map_option f (find_label l es) else find_label l' es)"
  unfolding find_label_def by (induction es) (auto simp: assms)

lemma find_label_entry: "find_label l es = Some e \<Longrightarrow> entry_label e = l"
  by (auto simp: find_label_def find_Some_iff)

lemma length_update_entry [simp]: "length (update_entry l f es) = length es"
  by (induction es) auto

lemma point_entry_label [simp]: "entry_label (point_entry u p d e) = entry_label e"
  by (auto simp: point_entry_def set_pointer_def split: dir_t.splits)

lemma point_entry_pointer:
  "get_pointer (point_entry u p d e) d' = (if u \<or> d' = d then p else get_pointer e d')"
  by (cases d; cases d') (auto simp: point_entry_def set_pointer_def get_pointer_def)

lemma label_has_space_iff: "label_has_space b \<longleftrightarrow> 32 + (length (lb_entries b) + 1) * 24 \<le> 2 ^ lb_order b"
  by (auto simp: label_has_space_def size_defs get_block_size_def)

lemma append_all_labels:
  "32 + (length (lb_entries nb) + length es) * 24 \<le> 2 ^ lb_order nb \<Longrightarrow>
     foldl (\<lambda>nb e. append_label e nb) nb es = nb\<lparr>lb_entries := lb_entries nb @ es\<rparr>"
proof (induction es arbitrary: nb)
  case (Cons e es)
  then have "append_label e nb = nb\<lparr>lb_entries := lb_entries nb @ [e]\<rparr>"
    by (simp add: append_label_def label_has_space_iff)
  then show ?case using Cons by simp
qed simp

text \<open>The pointer a label block holds for a label and direction.\<close>

definition block_sp :: "edge_label_entry list \<Rightarrow> nat \<Rightarrow> dir_t \<Rightarrow> nat" where
  "block_sp es l d = (case find_label l es of None \<Rightarrow> 0 | Some e \<Rightarrow> get_pointer e d)"

lemma new_label_entry_fields [simp]:
  "entry_label (new_label_entry l) = l" "get_pointer (new_label_entry l) d = 0"
  by (auto simp: new_label_entry_def get_pointer_def split: dir_t.splits)

lemma block_sp_update:
  assumes "find_label l es \<noteq> None"
  shows "block_sp (update_entry l (point_entry u p d) es) l' d' =
    (if l' = l \<and> (d' = d \<or> u) then p else block_sp es l' d')"
  using assms by (auto simp: block_sp_def find_label_update point_entry_pointer)

lemma block_sp_snoc:
  assumes "find_label l es = None"
  shows "block_sp (es @ [point_entry u p d (new_label_entry l)]) l' d' =
    (if l' = l \<and> (d' = d \<or> u) then p else block_sp es l' d')"
  using assms by (auto simp: block_sp_def find_label_snoc point_entry_pointer split: option.splits)

lemma locate_block:
  assumes "labels_ok g live" and "s < length (edge_label_ptrs g)"
  shows "locate_segment g s l d =
    Inr (if lp g s = 0 then 0 else block_sp (lb_entries (the (label_blocks g (lp g s)))) l d)"
  using assms
  by (auto simp: labels_ok_def locate_segment_def NULLPOINTER_def block_sp_def split: option.splits)

lemma sp_block:
  assumes "labels_ok g live" and "s < length (edge_label_ptrs g)"
  shows "sp g s l d = (if lp g s = 0 then 0 else block_sp (lb_entries (the (label_blocks g (lp g s)))) l d)"
  by (simp only: sp_def locate_block [OF assms] sum.case)

lemma locate_sp:
  "labels_ok g live \<Longrightarrow> s < length (edge_label_ptrs g) \<Longrightarrow> locate_segment g s l d = Inr (sp g s l d)"
  by (simp add: sp_def locate_block)

section \<open>Repointing a label\<close>

text \<open>What \<open>update_edge_label_block\<close> does to the pointers, and what it leaves as it is.\<close>

definition repointed :: "nat \<Rightarrow> nat \<Rightarrow> dir_t \<Rightarrow> nat \<Rightarrow> seg_graph \<Rightarrow> seg_graph \<Rightarrow> bool" where
  "repointed s l d p g g' \<longleftrightarrow>
     vertex_count g' = vertex_count g \<and> seg_count g' = seg_count g \<and>
     length (edge_label_ptrs g') = length (edge_label_ptrs g) \<and> segments g' = segments g \<and>
     epoch_blocks g' = epoch_blocks g \<and> edge_is_undirected g' = edge_is_undirected g \<and>
     (\<forall>s' < length (edge_label_ptrs g). \<forall>l' d'. sp g' s' l' d' =
        (if s' = s \<and> l' = l \<and> (d' = d \<or> is_edge_undirected g l) then p else sp g s' l' d'))"

text \<open>The block at one segment's pointer becomes \<open>b'\<close>, in place or at a fresh address.\<close>

lemma repoint_block:
  assumes lab: "labels_ok g live" and s: "s < length (edge_label_ptrs g)"
    and q: "q = lp g s \<or> q \<notin> fst ` live" and q0: "q \<noteq> 0" and ok: "label_block_ok b'"
    and live': "live \<subseteq> live'" "(q, lb_order b') \<in> live'"
    and g': "g' = g\<lparr>manager := m, label_blocks := (label_blocks g)(q \<mapsto> b'),
      edge_label_ptrs := (edge_label_ptrs g)[s := q]\<rparr>"
    and eff: "\<And>l' d'. block_sp (lb_entries b') l' d' =
      (if l' = l \<and> (d' = d \<or> is_edge_undirected g l) then p else sp g s l' d')"
  shows "labels_ok g' live' \<and> repointed s l d p g g'"
proof -
  let ?n = "length (edge_label_ptrs g)"
  have old: "lp g s' \<noteq> q" if "s' < ?n" "s' \<noteq> s" "lp g s' \<noteq> 0" for s'
  proof
    assume eq: "lp g s' = q"
    have "\<exists>b :: label_block. (lp g s', lb_order b) \<in> live" using lab that unfolding labels_ok_def by blast
    then have "q \<in> fst ` live" using eq by force
    then have "lp g s = lp g s'" using q eq by simp
    then show False using lab that s unfolding labels_ok_def by metis
  qed
  have ptr: "lp g' s' = (if s' = s then q else lp g s')" if "s' < ?n" for s'
    using that s by (simp add: g' nth_list_update)
  have blk: "label_blocks g' (lp g' s') = (if s' = s then Some b' else label_blocks g (lp g s'))"
    if "s' < ?n" "lp g' s' \<noteq> 0" for s'
    using that ptr [OF that(1)] old [OF that(1)] by (auto simp: g')
  have len: "length (edge_label_ptrs g') = ?n" by (simp add: g')
  have lab': "labels_ok g' live'"
    unfolding labels_ok_def len
  proof (intro conjI allI impI)
    fix s'
    assume s': "s' < ?n" "lp g' s' \<noteq> 0"
    show "\<exists>b. label_blocks g' (lp g' s') = Some b \<and> label_block_ok b \<and> (lp g' s', lb_order b) \<in> live'"
    proof (cases "s' = s")
      case True
      then show ?thesis using blk [OF s'] ptr [OF s'(1)] ok live'(2) by simp
    next
      case False
      then have "lp g s' \<noteq> 0" using s' ptr by simp
      then show ?thesis
        using lab s' False blk [OF s'] ptr [OF s'(1)] live'(1) unfolding labels_ok_def by force
    qed
  next
    fix s1 s2
    assume "s1 < ?n" "s2 < ?n" "s1 \<noteq> s2" "lp g' s1 = lp g' s2"
    then show "lp g' s1 = 0"
      using ptr [of s1] ptr [of s2] old [of s1] old [of s2] lab unfolding labels_ok_def
      by (cases "s1 = s"; cases "s2 = s") auto
  qed
  have "sp g' s' l' d' =
      (if s' = s \<and> l' = l \<and> (d' = d \<or> is_edge_undirected g l) then p else sp g s' l' d')"
    if s': "s' < ?n" for s' l' d'
  proof (cases "s' = s")
    case True
    then show ?thesis
      using sp_block [OF lab', of s' l' d'] s' len ptr [OF s'] blk [OF s'] q0 eff by auto
  next
    case False
    then show ?thesis
      using sp_block [OF lab', of s' l' d'] sp_block [OF lab s', of l' d'] s' len ptr [OF s'] blk [OF s']
      by simp
  qed
  then show ?thesis using lab' by (simp add: repointed_def g')
qed

lemma size_to_order_labels:
  assumes "n < 2 ^ 57"
  shows "32 + n * 24 \<le> (2::nat) ^ size_to_order (32 + n * 24)"
  using assms by (intro size_to_order_covers) simp

lemma update_edge_label_block_ok:
  assumes bm: "bm_ok (manager g) live" and ord: "orders_ok (manager g) live" and lab: "labels_ok g live"
    and s: "s < length (edge_label_ptrs g)"
  shows "update_edge_label_block s l d p g = Inl Null_block \<or>
    (\<exists>g' live'. update_edge_label_block s l d p g = Inr g' \<and> bm_ok (manager g') live' \<and>
       orders_ok (manager g') live' \<and> live \<subseteq> live' \<and> labels_ok g' live' \<and> repointed s l d p g g' \<and>
       segments_to_recycle g' = segments_to_recycle g \<and>
       (\<forall>s' < length (edge_label_ptrs g). lp g' s' = lp g s' \<or> lp g' s' \<notin> fst ` live))"
proof -
  let ?u = "is_edge_undirected g l"
  let ?e = "point_entry ?u p d (new_label_entry l)"
  let ?fresh = "\<lambda>q m b'. g\<lparr>manager := m, label_blocks := (label_blocks g)(q \<mapsto> b'),
    edge_label_ptrs := (edge_label_ptrs g)[s := q]\<rparr>"
  have fresh: "bm_ok m (insert (q, order) live) \<and> orders_ok m (insert (q, order) live) \<and>
      labels_ok (?fresh q m b') (insert (q, order) live) \<and> repointed s l d p g (?fresh q m b') \<and>
      (\<forall>s' < length (edge_label_ptrs g). lp (?fresh q m b') s' = lp g s' \<or> lp (?fresh q m b') s' \<notin> fst ` live)"
    if run: "alloc order (manager g) = (q, m)" and q: "q \<noteq> 0" and b': "label_block_ok b'" "lb_order b' = order"
      and eff: "\<And>l' d'. block_sp (lb_entries b') l' d' = (if l' = l \<and> (d' = d \<or> ?u) then p else sp g s l' d')"
    for order q m b'
  proof -
    have "q \<notin> fst ` live" by (rule blocks.get_fresh [OF bm run q])
    then show ?thesis
      using blocks.get_ok [OF bm run q] alloc_orders(1) [OF bm ord run q] b'
        repoint_block [OF lab s _ q b'(1) _ _ refl eff, of "insert (q, order) live" m]
        nth_list_update [OF s, where x = q]
      by auto
  qed
  show ?thesis
  proof (cases "lp g s = 0")
    case True
    let ?o = "size_to_order (edge_label_block_header_size + 1 * edge_label_entry_size)"
    let ?b = "append_label ?e (fill_label_block ?o (lp g s))"
    have cap: "32 + 1 * 24 \<le> (2::nat) ^ ?o" using size_to_order_labels [of 1] by (simp add: size_defs)
    then have b: "?b = (fill_label_block ?o (lp g s))\<lparr>lb_entries := [?e]\<rparr>"
      by (simp add: append_label_def label_has_space_iff fill_label_block_def)
    have eff: "block_sp (lb_entries ?b) l' d' = (if l' = l \<and> (d' = d \<or> ?u) then p else sp g s l' d')" for l' d'
    proof -
      have ents: "lb_entries ?b = [] @ [?e]" unfolding b by simp
      have "find_label l [] = None" by (simp add: find_label_def)
      then show ?thesis
        unfolding ents using block_sp_snoc [of l "[]" ?u p d l' d'] sp_block [OF lab s, of l' d'] True
        by (auto simp: find_label_def block_sp_def [of "[]"])
    qed
    obtain q m where run: "alloc ?o (manager g) = (q, m)" by fastforce
    show ?thesis
    proof (cases "q = 0")
      case True
      then show ?thesis
        using s run \<open>lp g s = 0\<close> by (simp add: update_edge_label_block_def NULLPOINTER_def Let_def)
    next
      case False
      have "label_block_ok ?b" "lb_order ?b = ?o"
        unfolding b label_block_ok_def using cap by (simp_all add: fill_label_block_def)
      from fresh [OF run False this eff]
      have "update_edge_label_block s l d p g = Inr (?fresh q m ?b) \<and> bm_ok m (insert (q, ?o) live) \<and>
          orders_ok m (insert (q, ?o) live) \<and>
          labels_ok (?fresh q m ?b) (insert (q, ?o) live) \<and> repointed s l d p g (?fresh q m ?b) \<and>
          (\<forall>s' < length (edge_label_ptrs g). lp (?fresh q m ?b) s' = lp g s' \<or> lp (?fresh q m ?b) s' \<notin> fst ` live)"
        using s run \<open>lp g s = 0\<close> False
        by (simp add: update_edge_label_block_def NULLPOINTER_def Let_def)
      then show ?thesis by (intro disjI2 exI [of _ "?fresh q m ?b"] exI [of _ "insert (q, ?o) live"]) auto
    qed
  next
    case nz: False
    then obtain b where b: "label_blocks g (lp g s) = Some b" "label_block_ok b" "(lp g s, lb_order b) \<in> live"
      using lab s unfolding labels_ok_def by blast
    have spb: "sp g s l' d' = block_sp (lb_entries b) l' d'" for l' d'
      using sp_block [OF lab s] nz b by simp
    have same: "g\<lparr>label_blocks := (label_blocks g)(lp g s \<mapsto> b')\<rparr> =
        g\<lparr>manager := manager g, label_blocks := (label_blocks g)(lp g s \<mapsto> b'),
          edge_label_ptrs := (edge_label_ptrs g)[s := lp g s]\<rparr>" for b'
      by simp
    have inplace: "labels_ok (g\<lparr>label_blocks := (label_blocks g)(lp g s \<mapsto> b')\<rparr>) live \<and>
        repointed s l d p g (g\<lparr>label_blocks := (label_blocks g)(lp g s \<mapsto> b')\<rparr>)"
      if "label_block_ok b'" "lb_order b' = lb_order b"
        "\<And>l' d'. block_sp (lb_entries b') l' d' = (if l' = l \<and> (d' = d \<or> ?u) then p else sp g s l' d')" for b'
      using that b nz by (intro repoint_block [OF lab s _ nz that(1) _ _ same that(3)]) auto
    show ?thesis
    proof (cases "find_label l (lb_entries b) = None")
      case False
      let ?b = "b\<lparr>lb_entries := update_entry l (point_entry ?u p d) (lb_entries b)\<rparr>"
      have "labels_ok (g\<lparr>label_blocks := (label_blocks g)(lp g s \<mapsto> ?b)\<rparr>) live \<and>
        repointed s l d p g (g\<lparr>label_blocks := (label_blocks g)(lp g s \<mapsto> ?b)\<rparr>)"
        using b False by (intro inplace) (auto simp: label_block_ok_def block_sp_update spb)
      then show ?thesis
        using s nz b False bm ord
        by (auto simp: update_edge_label_block_def NULLPOINTER_def Let_def)
    next
      case new: True
      have eff: "block_sp (lb_entries b @ [?e]) l' d' = (if l' = l \<and> (d' = d \<or> ?u) then p else sp g s l' d')" for l' d'
        by (subst block_sp_snoc [OF new]) (simp only: spb)
      show ?thesis
      proof (cases "label_has_space b")
        case True
        let ?b = "append_label ?e b"
        have "labels_ok (g\<lparr>label_blocks := (label_blocks g)(lp g s \<mapsto> ?b)\<rparr>) live \<and>
          repointed s l d p g (g\<lparr>label_blocks := (label_blocks g)(lp g s \<mapsto> ?b)\<rparr>)"
          using True eff by (intro inplace) (auto simp: append_label_def label_block_ok_def label_has_space_iff)
        then show ?thesis
          using s nz b new True bm ord
          by (auto simp: update_edge_label_block_def NULLPOINTER_def Let_def)
      next
        case False
        let ?n = "length (lb_entries b)"
        let ?o = "size_to_order (edge_label_block_header_size + (1 + ?n) * edge_label_entry_size)"
        let ?f = "fill_label_block ?o (lp g s)"
        let ?b = "append_label ?e (foldl (\<lambda>nb e. append_label e nb) ?f (lb_entries b))"
        have "lb_order b < 62" using ord b(3) by (force simp: orders_ok_def)
        then have "(2::nat) ^ lb_order b \<le> 2 ^ 61" by (intro power_increasing) simp_all
        then have "?n + 1 < 2 ^ 57" using b(2) by (simp add: label_block_ok_def)
        then have cap: "32 + (?n + 1) * 24 \<le> (2::nat) ^ ?o"
          using size_to_order_labels [of "?n + 1"] by (simp add: size_defs)
        have "foldl (\<lambda>nb e. append_label e nb) ?f (lb_entries b) = ?f\<lparr>lb_entries := lb_entries b\<rparr>"
          using cap append_all_labels [of ?f "lb_entries b"] by (simp add: fill_label_block_def)
        then have bb: "?b = ?f\<lparr>lb_entries := lb_entries b @ [?e]\<rparr>"
          using cap by (simp add: append_label_def label_has_space_iff fill_label_block_def)
        obtain q m where run: "alloc ?o (manager g) = (q, m)" by fastforce
        show ?thesis
        proof (cases "q = 0")
          case True
          then show ?thesis
            using s run nz b new False by (simp add: update_edge_label_block_def NULLPOINTER_def Let_def)
        next
          case q: False
          have "label_block_ok ?b" "lb_order ?b = ?o"
            unfolding bb label_block_ok_def using cap by (simp_all add: fill_label_block_def)
          moreover have "block_sp (lb_entries ?b) l' d' =
              (if l' = l \<and> (d' = d \<or> ?u) then p else sp g s l' d')" for l' d'
            unfolding bb using eff by simp
          ultimately have "update_edge_label_block s l d p g = Inr (?fresh q m ?b) \<and>
              bm_ok m (insert (q, ?o) live) \<and> orders_ok m (insert (q, ?o) live) \<and>
              labels_ok (?fresh q m ?b) (insert (q, ?o) live) \<and> repointed s l d p g (?fresh q m ?b) \<and>
              (\<forall>s' < length (edge_label_ptrs g). lp (?fresh q m ?b) s' = lp g s' \<or> lp (?fresh q m ?b) s' \<notin> fst ` live)"
            using fresh [OF run q] s run nz b new False q
            by (simp add: update_edge_label_block_def NULLPOINTER_def Let_def)
          then show ?thesis by (intro disjI2 exI [of _ "?fresh q m ?b"] exI [of _ "insert (q, ?o) live"]) auto
        qed
      qed
    qed
  qed
qed

section \<open>The log of a vertex\<close>

type_synonym log = "(int \<times> edge) list"
type_synonym logs = "nat \<Rightarrow> nat \<Rightarrow> dir_t \<Rightarrow> log"

text \<open>The epoch table of a log: every epoch with the number of edges before it.\<close>

definition starts :: "int list \<Rightarrow> (int \<times> nat) list" where
  "starts es = map (\<lambda>k. (es ! k, k)) (filter (\<lambda>k. k = 0 \<or> es ! (k - 1) \<noteq> es ! k) [0..<length es])"

lemma starts_Nil [simp]: "starts [] = []"
  by (simp add: starts_def)

lemma starts_snoc:
  "starts (es @ [e]) = (if es \<noteq> [] \<and> last es = e then starts es else starts es @ [(e, length es)])"
proof -
  have f: "filter (\<lambda>k. k = 0 \<or> (es @ [e]) ! (k - 1) \<noteq> (es @ [e]) ! k) [0..<length es] =
      filter (\<lambda>k. k = 0 \<or> es ! (k - 1) \<noteq> es ! k) [0..<length es]"
    by (rule filter_cong [OF refl]) (auto simp: nth_append)
  have m: "map (\<lambda>k. ((es @ [e]) ! k, k)) (filter P [0..<length es]) =
      map (\<lambda>k. (es ! k, k)) (filter P [0..<length es])" for P
    by (auto simp: nth_append)
  have "starts (es @ [e]) = starts es @ map (\<lambda>k. ((es @ [e]) ! k, k))
      (filter (\<lambda>k. k = 0 \<or> (es @ [e]) ! (k - 1) \<noteq> (es @ [e]) ! k) [length es])"
    by (simp only: starts_def length_append_singleton upt_Suc_append [OF le0] filter_append map_append f m)
  then show ?thesis
    by (cases "es = []") (auto simp: nth_append last_conv_nth)
qed

definition table_ok :: "epoch_block \<Rightarrow> int list \<Rightarrow> bool" where
  "table_ok t es \<longleftrightarrow> es \<noteq> [] \<and> sorted es \<and> ep_entries t = starts es \<and> latest_epoch t = last es \<and>
     32 + length (ep_entries t) * 16 \<le> 2 ^ ep_order t"

definition region_rel ::
  "(nat \<Rightarrow> epoch_block option) \<Rightarrow> nat \<Rightarrow> segment \<Rightarrow> nat \<Rightarrow> log \<Rightarrow> bool" where
  "region_rel E p sg i lg \<longleftrightarrow> content sg p i = map snd lg \<and>
     (if lg = [] then epoch_tables sg i = 0
      else epoch_tables sg i \<noteq> 0 \<and> (\<exists>t. E (epoch_tables sg i) = Some t \<and> table_ok t (map fst lg)))"

section \<open>The refinement relation\<close>

abbreviation num_segs :: "seg_graph \<Rightarrow> nat" where
  "num_segs g \<equiv> length (edge_label_ptrs g)"

abbreviation seg_at :: "seg_graph \<Rightarrow> nat \<Rightarrow> segment" where
  "seg_at g p \<equiv> the (segments g p)"

definition tbl :: "seg_graph \<Rightarrow> nat \<Rightarrow> nat \<Rightarrow> dir_t \<Rightarrow> nat \<Rightarrow> nat" where
  "tbl g s l d i = (if sp g s l d = 0 then 0 else epoch_tables (seg_at g (sp g s l d)) i)"

definition segs_ok :: "(nat \<Rightarrow> nat) \<Rightarrow> seg_graph \<Rightarrow> block set \<Rightarrow> bool" where
  "segs_ok P g live \<longleftrightarrow> (\<forall>s < num_segs g. \<forall>l d. sp g s l d \<noteq> 0 \<longrightarrow>
     (\<exists>sg. segments g (sp g s l d) = Some sg \<and> sg_head sg = sp g s l d \<and> seg_ok (P l) sg \<and>
       (sp g s l d, sg_order sg) \<in> live))"

definition ptrs_ok :: "seg_graph \<Rightarrow> bool" where
  "ptrs_ok g \<longleftrightarrow>
     (\<forall>s < num_segs g. \<forall>s' < num_segs g. \<forall>l l' d d'. sp g s l d \<noteq> 0 \<longrightarrow> sp g s l d = sp g s' l' d' \<longrightarrow>
        s = s' \<and> l = l' \<and> (d = d' \<or> is_edge_undirected g l)) \<and>
     (\<forall>s < num_segs g. \<forall>l d d'. is_edge_undirected g l \<longrightarrow> sp g s l d = sp g s l d')"

definition tables_ok :: "seg_graph \<Rightarrow> block set \<Rightarrow> bool" where
  "tables_ok g live \<longleftrightarrow>
     (\<forall>s < num_segs g. \<forall>l d. \<forall>i < VERTEX_PER_SEG. tbl g s l d i \<noteq> 0 \<longrightarrow>
        (\<exists>t. epoch_blocks g (tbl g s l d i) = Some t \<and> (tbl g s l d i, ep_order t) \<in> live)) \<and>
     (\<forall>s < num_segs g. \<forall>s' < num_segs g. \<forall>l l' d d'. \<forall>i < VERTEX_PER_SEG. \<forall>i' < VERTEX_PER_SEG.
        tbl g s l d i \<noteq> 0 \<longrightarrow> tbl g s l d i = tbl g s' l' d' i' \<longrightarrow>
        sp g s l d = sp g s' l' d' \<and> i = i')"

definition logs_ok :: "(nat \<Rightarrow> nat) \<Rightarrow> seg_graph \<Rightarrow> logs \<Rightarrow> bool" where
  "logs_ok P g lgs \<longleftrightarrow>
     (\<forall>s < num_segs g. \<forall>l d. \<forall>i < VERTEX_PER_SEG.
        if sp g s l d = 0 then lgs (s * VERTEX_PER_SEG + i) l d = []
        else region_rel (epoch_blocks g) (P l) (seg_at g (sp g s l d)) i (lgs (s * VERTEX_PER_SEG + i) l d))"

text \<open>
  What the blob's addresses are used for: no address serves two purposes, and the segments waiting to be
  recycled are held but no longer used.
\<close>

datatype role = Label | Segment | Table

definition role_of :: "seg_graph \<Rightarrow> nat \<Rightarrow> role \<Rightarrow> bool" where
  "role_of g a r \<longleftrightarrow> a \<noteq> 0 \<and>
     (case r of Label \<Rightarrow> \<exists>s < num_segs g. lp g s = a
      | Segment \<Rightarrow> \<exists>s < num_segs g. \<exists>l d. sp g s l d = a
      | Table \<Rightarrow> \<exists>s < num_segs g. \<exists>l d. \<exists>i < VERTEX_PER_SEG. tbl g s l d i = a)"

definition roles_ok :: "seg_graph \<Rightarrow> block set \<Rightarrow> bool" where
  "roles_ok g live \<longleftrightarrow> (\<forall>a r r'. role_of g a r \<longrightarrow> role_of g a r' \<longrightarrow> r = r') \<and>
     (\<forall>x \<in> set (segments_to_recycle g). (fst x, fst (snd x)) \<in> live \<and> (\<forall>r. \<not> role_of g (fst x) r)) \<and>
     distinct (map fst (segments_to_recycle g))"

definition graph_rel :: "(nat \<Rightarrow> nat) \<Rightarrow> seg_graph \<Rightarrow> logs \<Rightarrow> block set \<Rightarrow> bool" where
  "graph_rel P g lgs live \<longleftrightarrow>
     bm_ok (manager g) live \<and> orders_ok (manager g) live \<and> labels_ok g live \<and> segs_ok P g live \<and>
     ptrs_ok g \<and> tables_ok g live \<and> logs_ok P g lgs \<and> (\<forall>l. P l \<le> MAX_PROP) \<and> roles_ok g live \<and>
     (\<forall>v l d d'. is_edge_undirected g l \<longrightarrow> lgs v l d = lgs v l d')"

lemma graph_relD:
  assumes "graph_rel P g lgs live"
  shows "bm_ok (manager g) live" "orders_ok (manager g) live" "labels_ok g live" "segs_ok P g live"
    "ptrs_ok g" "tables_ok g live" "logs_ok P g lgs" "P l \<le> MAX_PROP"
    "is_edge_undirected g l \<Longrightarrow> lgs v l d = lgs v l d'" "roles_ok g live"
  using assms by (auto simp: graph_rel_def)

lemma segs_okD:
  assumes "segs_ok P g live" and "s < num_segs g" and "sp g s l d \<noteq> 0"
  shows "segments g (sp g s l d) = Some (seg_at g (sp g s l d))" "sg_head (seg_at g (sp g s l d)) = sp g s l d"
    "seg_ok (P l) (seg_at g (sp g s l d))" "(sp g s l d, sg_order (seg_at g (sp g s l d))) \<in> live"
  using assms(1) [unfolded segs_ok_def, rule_format, OF assms(2,3)] by auto

lemma ptrs_okD:
  assumes "ptrs_ok g"
  shows "s < num_segs g \<Longrightarrow> s' < num_segs g \<Longrightarrow> sp g s l d \<noteq> 0 \<Longrightarrow> sp g s l d = sp g s' l' d' \<Longrightarrow>
      s = s' \<and> l = l' \<and> (d = d' \<or> is_edge_undirected g l)"
    and "s < num_segs g \<Longrightarrow> is_edge_undirected g l \<Longrightarrow> sp g s l d = sp g s l d'"
  using assms unfolding ptrs_ok_def by blast+

lemma tables_okD:
  assumes "tables_ok g live"
  shows "s < num_segs g \<Longrightarrow> i < VERTEX_PER_SEG \<Longrightarrow> tbl g s l d i \<noteq> 0 \<Longrightarrow>
      \<exists>t. epoch_blocks g (tbl g s l d i) = Some t \<and> (tbl g s l d i, ep_order t) \<in> live"
    and "s < num_segs g \<Longrightarrow> s' < num_segs g \<Longrightarrow> i < VERTEX_PER_SEG \<Longrightarrow> i' < VERTEX_PER_SEG \<Longrightarrow>
      tbl g s l d i \<noteq> 0 \<Longrightarrow> tbl g s l d i = tbl g s' l' d' i' \<Longrightarrow> sp g s l d = sp g s' l' d' \<and> i = i'"
  using assms unfolding tables_ok_def by blast+

lemma logs_okD:
  assumes "logs_ok P g lgs" and "s < num_segs g" and "i < VERTEX_PER_SEG"
  shows "sp g s l d = 0 \<Longrightarrow> lgs (s * VERTEX_PER_SEG + i) l d = []"
    and "sp g s l d \<noteq> 0 \<Longrightarrow>
      region_rel (epoch_blocks g) (P l) (seg_at g (sp g s l d)) i (lgs (s * VERTEX_PER_SEG + i) l d)"
  using assms unfolding logs_ok_def by (auto split: if_splits)

lemma role_live:
  assumes "labels_ok g live" and "segs_ok P g live" and "tables_ok g live" and "role_of g a r"
  shows "a \<in> fst ` live"
proof (cases r)
  case Label
  then obtain s where "s < num_segs g" "lp g s = a" "a \<noteq> 0" using assms(4) by (auto simp: role_of_def)
  then show ?thesis using assms(1) unfolding labels_ok_def by (metis fst_conv image_eqI)
next
  case Segment
  then obtain s l d where "s < num_segs g" "sp g s l d = a" "a \<noteq> 0" using assms(4) by (auto simp: role_of_def)
  then show ?thesis using segs_okD(4) [OF assms(2), of s l d] by (metis fst_conv image_eqI)
next
  case Table
  then obtain s l d i where "s < num_segs g" "i < VERTEX_PER_SEG" "tbl g s l d i = a" "a \<noteq> 0"
    using assms(4) by (auto simp: role_of_def)
  then show ?thesis using tables_okD(1) [OF assms(3), of s i l d] by (metis fst_conv image_eqI)
qed

text \<open>
  A step after which every used address was used for the same before or is fresh keeps the roles; it may
  put a segment it has taken out of use on the list.
\<close>

lemma roles_step:
  assumes ok: "roles_ok g live" and old: "\<forall>a r. role_of g a r \<longrightarrow> a \<in> fst ` live" and sub: "live \<subseteq> live'"
    and step: "\<And>a r. role_of g' a r \<Longrightarrow> role_of g a r \<or> a \<notin> fst ` live \<and> r = f a"
    and rec: "segments_to_recycle g' = segments_to_recycle g \<or>
      (\<exists>p ord e. segments_to_recycle g' = segments_to_recycle g @ [(p, ord, e)] \<and> (p, ord) \<in> live \<and>
         role_of g p Segment \<and> \<not> role_of g' p Segment)"
  shows "roles_ok g' live'"
proof -
  have one: "r = r'" if "role_of g' a r" "role_of g' a r'" for a r r'
    using step [OF that(1)] step [OF that(2)] old ok that unfolding roles_ok_def by metis
  have unused: "\<not> role_of g' a r" if "a \<in> fst ` live" "\<And>r. \<not> role_of g a r" for a r
    using step [of a r] that by blast
  have held: "\<forall>x \<in> set (segments_to_recycle g). (fst x, fst (snd x)) \<in> live \<and> (\<forall>r. \<not> role_of g (fst x) r)"
    using ok unfolding roles_ok_def by blast
  then have kept: "\<forall>x \<in> set (segments_to_recycle g). (fst x, fst (snd x)) \<in> live' \<and> (\<forall>r. \<not> role_of g' (fst x) r)"
    using unused sub by (metis fst_conv image_eqI subsetD)
  have dist: "distinct (map fst (segments_to_recycle g))" using ok unfolding roles_ok_def by blast
  show ?thesis
    using rec
  proof
    assume "segments_to_recycle g' = segments_to_recycle g"
    then show ?thesis using one kept dist unfolding roles_ok_def by auto
  next
    assume "\<exists>p ord e. segments_to_recycle g' = segments_to_recycle g @ [(p, ord, e)] \<and> (p, ord) \<in> live \<and>
         role_of g p Segment \<and> \<not> role_of g' p Segment"
    then obtain p ord e where eq: "segments_to_recycle g' = segments_to_recycle g @ [(p, ord, e)]"
      and p: "(p, ord) \<in> live" "role_of g p Segment" "\<not> role_of g' p Segment" by blast
    have pl: "p \<in> fst ` live" using p(1) by force
    have "\<not> role_of g' p r" for r
      using step [of p r] p pl ok unfolding roles_ok_def by metis
    moreover have "p \<notin> fst ` set (segments_to_recycle g)" using held p(2) by auto
    ultimately show ?thesis
      using one kept dist p(1) sub unfolding roles_ok_def eq by auto
  qed
qed

section \<open>Rewriting one segment\<close>

lemma sp_cong:
  assumes "edge_label_ptrs g' = edge_label_ptrs g" and "label_blocks g' = label_blocks g"
  shows "sp g' s l d = sp g s l d"
  using assms by (simp add: sp_def locate_segment_def)

lemma labels_ok_cong:
  assumes "edge_label_ptrs g' = edge_label_ptrs g" and "label_blocks g' = label_blocks g" and "live \<subseteq> live'"
  shows "labels_ok g live \<Longrightarrow> labels_ok g' live'"
  using assms(3) unfolding labels_ok_def assms(1,2) by blast

text \<open>
  The segment at \<open>p\<close> and the epoch blocks change, for vertex \<open>i0\<close> of the segment; the tables of all
  other vertices stay, and the logs of \<open>i0\<close> may grow.
\<close>

lemma rewrite_segment:
  assumes R: "graph_rel P g lgs live" and s: "s < num_segs g" and p: "p = sp g s l d" "p \<noteq> 0"
    and g': "edge_label_ptrs g' = edge_label_ptrs g" "label_blocks g' = label_blocks g"
      "edge_is_undirected g' = edge_is_undirected g" "segments g' = (segments g)(p \<mapsto> sg')"
      "segments_to_recycle g' = segments_to_recycle g"
    and bm: "bm_ok (manager g') live'" "orders_ok (manager g') live'" "live \<subseteq> live'"
    and sg': "sg_head sg' = p" "seg_ok (P l) sg'" "sg_order sg' = sg_order (seg_at g p)"
    and E: "\<And>a. a \<in> fst ` live \<Longrightarrow> a \<noteq> tbl g s l d i0 \<Longrightarrow> epoch_blocks g' a = epoch_blocks g a"
    and T: "\<And>i. i < VERTEX_PER_SEG \<Longrightarrow> i \<noteq> i0 \<Longrightarrow> epoch_tables sg' i = tbl g s l d i"
      "epoch_tables sg' i0 = tbl g s l d i0 \<or> epoch_tables sg' i0 \<notin> fst ` live" "i0 < VERTEX_PER_SEG"
      "epoch_tables sg' i0 \<noteq> 0 \<Longrightarrow>
        \<exists>t. epoch_blocks g' (epoch_tables sg' i0) = Some t \<and> (epoch_tables sg' i0, ep_order t) \<in> live'"
    and L: "\<And>i. i < VERTEX_PER_SEG \<Longrightarrow> i \<noteq> i0 \<Longrightarrow> content sg' (P l) i = content (seg_at g p) (P l) i"
      "region_rel (epoch_blocks g') (P l) sg' i0 (lgs' (s * VERTEX_PER_SEG + i0) l d)"
    and same: "\<And>v l' d'. \<not> (v = s * VERTEX_PER_SEG + i0 \<and> l' = l \<and> (d' = d \<or> is_edge_undirected g l)) \<Longrightarrow>
      lgs' v l' d' = lgs v l' d'"
    and und: "\<And>v l d d'. is_edge_undirected g l \<Longrightarrow> lgs' v l d = lgs' v l d'"
  shows "graph_rel P g' lgs' live'"
proof -
  note RD = graph_relD [OF R]
  have n: "num_segs g' = num_segs g" by (simp add: g')
  have u: "is_edge_undirected g' x = is_edge_undirected g x" for x by (simp add: is_edge_undirected_def g')
  have sp: "sp g' s' l' d' = sp g s' l' d'" for s' l' d' by (rule sp_cong [OF g'(1,2)])
  have own: "s' = s \<and> l' = l \<and> (d' = d \<or> is_edge_undirected g l)"
    if "s' < num_segs g" "sp g s' l' d' = p" for s' l' d'
  proof -
    have "sp g s l d \<noteq> 0" and "sp g s l d = sp g s' l' d'" using p that(2) by simp_all
    from ptrs_okD(1) [OF RD(5) s that(1) this] show ?thesis by blast
  qed
  have segp: "segments g p = Some (seg_at g p)" "(p, sg_order (seg_at g p)) \<in> live"
    using segs_okD [OF RD(4) s] p by simp_all
  have tb: "tbl g' s' l' d' i =
      (if sp g s' l' d' = p then epoch_tables sg' i else tbl g s' l' d' i)" for s' l' d' i
    using p(2) by (simp add: tbl_def sp g')
  have tb0: "tbl g s' l' d' i = tbl g s l d i" if "sp g s' l' d' = p" for s' l' d' i
    using that p by (simp add: tbl_def)
  have tlive: "tbl g s' l' d' i \<in> fst ` live"
    if "s' < num_segs g" "i < VERTEX_PER_SEG" "tbl g s' l' d' i \<noteq> 0" for s' l' d' i
    using tables_okD(1) [OF RD(6) that] by force
  have E': "epoch_blocks g' (tbl g s' l' d' i) = epoch_blocks g (tbl g s' l' d' i)"
    if "s' < num_segs g" "i < VERTEX_PER_SEG" "tbl g s' l' d' i \<noteq> 0" "sp g s' l' d' \<noteq> p \<or> i \<noteq> i0" for s' l' d' i
  proof (rule E [OF tlive [OF that(1-3)]])
    show "tbl g s' l' d' i \<noteq> tbl g s l d i0"
    proof
      assume "tbl g s' l' d' i = tbl g s l d i0"
      from tables_okD(2) [OF RD(6) that(1) s that(2) T(3) that(3) this]
      show False using that(4) p(1) by simp
    qed
  qed
  have segs: "segs_ok P g' live'"
    unfolding segs_ok_def n sp
  proof (intro allI impI)
    fix s' l' d'
    assume a: "s' < num_segs g" "sp g s' l' d' \<noteq> 0"
    show "\<exists>sg. segments g' (sp g s' l' d') = Some sg \<and> sg_head sg = sp g s' l' d' \<and>
        seg_ok (P l') sg \<and> (sp g s' l' d', sg_order sg) \<in> live'"
    proof (cases "sp g s' l' d' = p")
      case True
      then show ?thesis using own [OF a(1) True] sg' segp bm(3) by (auto simp: g')
    next
      case False
      then show ?thesis using segs_okD [OF RD(4) a] bm(3) by (auto simp: g')
    qed
  qed
  have ptrs: "ptrs_ok g'" using RD(5) by (simp add: ptrs_ok_def n sp u)
  have tabs1: "\<exists>t. epoch_blocks g' (tbl g' s' l' d' i) = Some t \<and> (tbl g' s' l' d' i, ep_order t) \<in> live'"
    if a: "s' < num_segs g" "i < VERTEX_PER_SEG" "tbl g' s' l' d' i \<noteq> 0" for s' l' d' i
  proof (cases "sp g s' l' d' = p \<and> i = i0")
    case True
    then show ?thesis using T(4) a(3) tb by simp
  next
    case False
    then have t: "tbl g' s' l' d' i = tbl g s' l' d' i"
      using tb [of s' l' d' i] tb0 [of s' l' d' i] T(1) [OF a(2)] by auto
    then have nz: "tbl g s' l' d' i \<noteq> 0" using a(3) by simp
    have "sp g s' l' d' \<noteq> p \<or> i \<noteq> i0" using False by blast
    from tables_okD(1) [OF RD(6) a(1,2) nz] E' [OF a(1,2) nz this] show ?thesis
      unfolding t using bm(3) by auto
  qed
  have tabs2: "sp g s1 l1 d1 = sp g s2 l2 d2 \<and> i1 = i2"
    if a: "s1 < num_segs g" "s2 < num_segs g" "i1 < VERTEX_PER_SEG" "i2 < VERTEX_PER_SEG"
      "tbl g' s1 l1 d1 i1 \<noteq> 0" "tbl g' s1 l1 d1 i1 = tbl g' s2 l2 d2 i2" for s1 s2 l1 l2 d1 d2 i1 i2
  proof -
    let ?new = "\<lambda>s' l' d' i. sp g s' l' d' = p \<and> i = i0 \<and> epoch_tables sg' i0 \<noteq> tbl g s l d i0"
    have old: "tbl g' s' l' d' i = tbl g s' l' d' i" if "\<not> ?new s' l' d' i" "i < VERTEX_PER_SEG" for s' l' d' i
      using that tb [of s' l' d' i] tb0 [of s' l' d' i] T(1) [OF that(2)] by (cases "i = i0") auto
    have val: "tbl g' s' l' d' i = epoch_tables sg' i0 \<and> epoch_tables sg' i0 \<notin> fst ` live"
      if "?new s' l' d' i" for s' l' d' i
      using that tb T(2) by auto
    show ?thesis
    proof (cases "?new s1 l1 d1 i1")
      case n1: True
      show ?thesis
      proof (cases "?new s2 l2 d2 i2")
        case True
        then show ?thesis using n1 by simp
      next
        case False
        have "tbl g s2 l2 d2 i2 \<in> fst ` live"
          using a old [OF False a(4)] by (intro tlive) simp_all
        then show ?thesis using val [OF n1] a(6) old [OF False a(4)] by simp
      qed
    next
      case n1: False
      show ?thesis
      proof (cases "?new s2 l2 d2 i2")
        case True
        have "tbl g s1 l1 d1 i1 \<in> fst ` live"
          using a old [OF n1 a(3)] by (intro tlive) simp_all
        then show ?thesis using val [OF True] a(6) old [OF n1 a(3)] by simp
      next
        case False
        then show ?thesis
          using tables_okD(2) [OF RD(6) a(1-4)] a(5,6) old [OF n1 a(3)] old [OF False a(4)] by metis
      qed
    qed
  qed
  have "tables_ok g' live'" unfolding tables_ok_def n sp using tabs1 tabs2 by blast
  moreover have "logs_ok P g' lgs'"
    unfolding logs_ok_def n sp
  proof (intro allI impI)
    fix s' l' d' i
    assume a: "s' < num_segs g" "i < VERTEX_PER_SEG"
    let ?v = "s' * VERTEX_PER_SEG + i"
    note old0 = logs_okD(1) [OF RD(7) a, of l' d'] and old1 = logs_okD(2) [OF RD(7) a, of l' d']
    have vs: "s' = s \<and> i = i0" if "?v = s * VERTEX_PER_SEG + i0"
    proof -
      have "?v div VERTEX_PER_SEG = s'" "?v mod VERTEX_PER_SEG = i" using a by simp_all
      moreover have "(s * VERTEX_PER_SEG + i0) div VERTEX_PER_SEG = s"
        "(s * VERTEX_PER_SEG + i0) mod VERTEX_PER_SEG = i0" using T(3) by simp_all
      ultimately show ?thesis using that by simp
    qed
    show "if sp g s' l' d' = 0 then lgs' ?v l' d' = []
        else region_rel (epoch_blocks g') (P l') (seg_at g' (sp g s' l' d')) i (lgs' ?v l' d')"
    proof (cases "sp g s' l' d' = p")
      case True
      note o = own [OF a(1) True]
      show ?thesis
      proof (cases "i = i0")
        case True
        have "lgs' ?v l' d' = lgs' (s * VERTEX_PER_SEG + i0) l d" using o True und by auto
        then show ?thesis using o True L(2) p \<open>sp g s' l' d' = p\<close> by (simp add: g')
      next
        case False
        have lg: "lgs' ?v l' d' = lgs ?v l' d'" using False vs by (intro same) blast
        have "region_rel (epoch_blocks g) (P l) (seg_at g p) i (lgs ?v l' d')"
          using old1 True p o by simp
        moreover have "epoch_tables sg' i = epoch_tables (seg_at g p) i"
          using T(1) [OF a(2) False] p by (simp add: tbl_def)
        moreover have "epoch_tables (seg_at g p) i \<noteq> 0 \<Longrightarrow>
            epoch_blocks g' (epoch_tables (seg_at g p) i) = epoch_blocks g (epoch_tables (seg_at g p) i)"
          using E' [OF s a(2), of l d] False p by (simp add: tbl_def)
        ultimately show ?thesis
          using True o p L(1) [OF a(2) False] lg by (auto simp: region_rel_def g' split: if_splits)
      qed
    next
      case False
      have lg: "lgs' ?v l' d' = lgs ?v l' d'"
      proof (rule same, rule notI)
        assume "?v = s * VERTEX_PER_SEG + i0 \<and> l' = l \<and> (d' = d \<or> is_edge_undirected g l)"
        then have "sp g s' l' d' = p" using vs ptrs_okD(2) [OF RD(5) s, of l d' d] p by auto
        then show False using False by simp
      qed
      show ?thesis
      proof (cases "sp g s' l' d' = 0")
        case True
        then show ?thesis using old0 lg by simp
      next
        case nz: False
        have "epoch_tables (seg_at g (sp g s' l' d')) i \<noteq> 0 \<Longrightarrow>
            epoch_blocks g' (epoch_tables (seg_at g (sp g s' l' d')) i) =
            epoch_blocks g (epoch_tables (seg_at g (sp g s' l' d')) i)"
          using E' [OF a, of l' d'] False nz by (simp add: tbl_def)
        then show ?thesis
          using old1 nz lg False by (auto simp: region_rel_def g' split: if_splits)
      qed
    qed
  qed
  moreover have "\<forall>a r. role_of g a r \<longrightarrow> a \<in> fst ` live" using role_live [OF RD(3,4,6)] by blast
  then have "roles_ok g' live'"
  proof (rule roles_step [OF RD(10) _ bm(3)])
    fix a r
    assume r: "role_of g' a r"
    show "role_of g a r \<or> a \<notin> fst ` live \<and> r = Table"
    proof (cases r)
      case Table
      then obtain s' l' d' i where a: "s' < num_segs g" "i < VERTEX_PER_SEG" "tbl g' s' l' d' i = a" "a \<noteq> 0"
        using r by (auto simp: role_of_def n)
      show ?thesis
      proof (cases "tbl g s' l' d' i = a")
        case True
        then show ?thesis using a Table by (auto simp: role_of_def)
      next
        case False
        then have "a \<notin> fst ` live"
          using a(3) tb [of s' l' d' i] tb0 [of s' l' d' i] T(1) [OF a(2)] T(2) by (cases "i = i0") (auto split: if_splits)
        then show ?thesis using Table by simp
      qed
    qed (use r in \<open>auto simp: role_of_def n sp g'(1)\<close>)
  qed (rule disjI1, rule g'(5))
  ultimately show ?thesis
    using bm segs ptrs labels_ok_cong [OF g'(1,2) bm(3) RD(3)] RD(8) und
    by (simp add: graph_rel_def u)
qed

section \<open>Pointing a label to a new segment\<close>

lemma point_to_segment:
  assumes R: "graph_rel P g lgs live" and s: "s < num_segs g"
    and run: "alloc (sg_order new) (manager g) = (np, m)" and np: "np \<noteq> 0"
    and new: "sg_head new = np" "seg_ok (P l) new"
    and T: "\<And>i. i < VERTEX_PER_SEG \<Longrightarrow> epoch_tables new i = 0 \<or> epoch_tables new i = tbl g s l d i"
    and L: "\<And>i. i < VERTEX_PER_SEG \<Longrightarrow>
      region_rel (epoch_blocks g) (P l) new i (lgs (s * VERTEX_PER_SEG + i) l d)"
    and F: "F np = Some new" "\<And>q. q \<noteq> np \<Longrightarrow> q \<noteq> sp g s l d \<Longrightarrow> F q = segments g q"
    and rec: "rec = segments_to_recycle g \<or>
      sp g s l d \<noteq> 0 \<and> (\<exists>e. rec = segments_to_recycle g @ [(sp g s l d, sg_order (seg_at g (sp g s l d)), e)])"
    and g0: "g0 = g\<lparr>manager := m, segments := F, segments_to_recycle := rec\<rparr>"
  shows "update_edge_label_block s l d np g0 = Inl Null_block \<or>
    (\<exists>g' live'. update_edge_label_block s l d np g0 = Inr g' \<and> graph_rel P g' lgs live' \<and>
       sp g' s l d = np \<and> segments g' = F \<and> num_segs g' = num_segs g \<and>
       vertex_count g' = vertex_count g \<and> edge_is_undirected g' = edge_is_undirected g \<and>
       epoch_blocks g' = epoch_blocks g)"
proof -
  note RD = graph_relD [OF R]
  let ?live = "insert (np, sg_order new) live"
  have bm0: "bm_ok (manager g0) ?live" "orders_ok (manager g0) ?live"
    using blocks.get_ok [OF RD(1) run np] alloc_orders(1) [OF RD(1,2) run np] by (simp_all add: g0)
  have fresh: "np \<notin> fst ` live" by (rule blocks.get_fresh [OF RD(1) run np])
  have e0: "edge_label_ptrs g0 = edge_label_ptrs g" "label_blocks g0 = label_blocks g"
    "edge_is_undirected g0 = edge_is_undirected g"
    by (simp_all add: g0)
  have lab0: "labels_ok g0 ?live" using labels_ok_cong [OF e0(1,2) _ RD(3)] by blast
  have u0: "is_edge_undirected g0 x = is_edge_undirected g x" for x by (simp add: is_edge_undirected_def e0)
  have s0: "s < num_segs g0" using s e0 by simp
  consider "update_edge_label_block s l d np g0 = Inl Null_block"
    | g' live' where "update_edge_label_block s l d np g0 = Inr g'" "bm_ok (manager g') live'"
      "orders_ok (manager g') live'" "?live \<subseteq> live'" "labels_ok g' live'" "repointed s l d np g0 g'"
      "segments_to_recycle g' = segments_to_recycle g0"
      "\<forall>s' < num_segs g0. lp g' s' = lp g0 s' \<or> lp g' s' \<notin> fst ` ?live"
    using update_edge_label_block_ok [OF bm0 lab0 s0, of l d np] by blast
  then show ?thesis
  proof cases
    case 1
    then show ?thesis by simp
  next
    case (2 g' live')
    let ?ch = "\<lambda>s' l' d'. s' = s \<and> l' = l \<and> (d' = d \<or> is_edge_undirected g l)"
    have sp: "sp g' s' l' d' = (if ?ch s' l' d' then np else sp g s' l' d')" if "s' < num_segs g" for s' l' d'
    proof -
      have "\<forall>s' < num_segs g. \<forall>l' d'. sp g' s' l' d' = (if ?ch s' l' d' then np else sp g0 s' l' d')"
        using 2(6) unfolding repointed_def u0 e0 by blast
      then show ?thesis using that unfolding sp_cong [OF e0(1,2)] by blast
    qed
    have spT: "sp g' s' l' d' = np" if "s' < num_segs g" "?ch s' l' d'" for s' l' d'
      unfolding sp [OF that(1)] if_P [OF that(2)] ..
    have spF: "sp g' s' l' d' = sp g s' l' d'" if "s' < num_segs g" "\<not> ?ch s' l' d'" for s' l' d'
      unfolding sp [OF that(1)] if_not_P [OF that(2)] ..
    have n: "num_segs g' = num_segs g" and seg: "segments g' = F"
      and E: "epoch_blocks g' = epoch_blocks g" and un: "edge_is_undirected g' = edge_is_undirected g"
      and vc: "vertex_count g' = vertex_count g"
      using 2(6) by (simp_all add: repointed_def e0) (simp_all add: g0)
    have u: "is_edge_undirected g' x = is_edge_undirected g x" for x by (simp add: is_edge_undirected_def un)
    have spne: "sp g s' l' d' \<noteq> np" if "s' < num_segs g" for s' l' d'
    proof (cases "sp g s' l' d' = 0")
      case False
      then show ?thesis using segs_okD(4) [OF RD(4) that False] fresh by force
    qed (use np in simp)
    have Fold: "F (sp g s' l' d') = segments g (sp g s' l' d')"
      if "s' < num_segs g" "\<not> ?ch s' l' d'" "sp g s' l' d' \<noteq> 0" for s' l' d'
    proof (rule F(2) [OF spne [OF that(1)]], rule notI)
      assume "sp g s' l' d' = sp g s l d"
      from ptrs_okD(1) [OF RD(5) that(1) s that(3) this] show False using that(2) by blast
    qed
    have tb: "tbl g' s' l' d' i = (if ?ch s' l' d' then epoch_tables new i else tbl g s' l' d' i)"
      if "s' < num_segs g" for s' l' d' i
    proof (cases "?ch s' l' d'")
      case True
      have "sp g' s' l' d' = np" by (rule spT [OF that True])
      then show ?thesis unfolding if_P [OF True] using np by (simp add: tbl_def seg F(1))
    next
      case False
      have "sp g' s' l' d' = sp g s' l' d'" by (rule spF [OF that False])
      then show ?thesis unfolding if_not_P [OF False] using Fold [OF that False] by (simp add: tbl_def seg)
    qed
    have tch: "tbl g s' l' d' i = tbl g s l d i" if "?ch s' l' d'" for s' l' d' i
      using that ptrs_okD(2) [OF RD(5) s, of l d' d] by (auto simp: tbl_def)
    have told: "tbl g' s' l' d' i = tbl g s' l' d' i"
      if "s' < num_segs g" "i < VERTEX_PER_SEG" "tbl g' s' l' d' i \<noteq> 0" for s' l' d' i
      using tb [OF that(1)] T [OF that(2)] tch [of s' l' d' i] that(3) by (auto split: if_splits)
    have spch: "?ch s1 l1 d1 \<longleftrightarrow> ?ch s2 l2 d2"
      if "s1 < num_segs g" "s2 < num_segs g" "sp g s1 l1 d1 = sp g s2 l2 d2" "sp g s1 l1 d1 \<noteq> 0" for s1 l1 d1 s2 l2 d2
      using ptrs_okD(1) [OF RD(5) that(1,2,4,3)] by (cases d1; cases d2; cases d) auto
    have segs: "segs_ok P g' live'"
      unfolding segs_ok_def n
    proof (intro allI impI)
      fix s' l' d'
      assume a: "s' < num_segs g" "sp g' s' l' d' \<noteq> 0"
      show "\<exists>sg. segments g' (sp g' s' l' d') = Some sg \<and> sg_head sg = sp g' s' l' d' \<and>
          seg_ok (P l') sg \<and> (sp g' s' l' d', sg_order sg) \<in> live'"
      proof (cases "?ch s' l' d'")
        case True
        then show ?thesis using spT [OF a(1) True] new 2(4) by (simp add: seg F(1))
      next
        case False
        then have eq: "sp g' s' l' d' = sp g s' l' d'" by (rule spF [OF a(1)])
        then have nz: "sp g s' l' d' \<noteq> 0" using a(2) by simp
        show ?thesis
          unfolding eq using segs_okD [OF RD(4) a(1) nz] Fold [OF a(1) False nz] 2(4) by (auto simp: seg)
      qed
    qed
    have ptrs: "ptrs_ok g'"
      unfolding ptrs_ok_def n u
    proof (intro conjI allI impI)
      fix s1 s2 l1 l2 d1 d2
      assume a: "s1 < num_segs g" "s2 < num_segs g" "sp g' s1 l1 d1 \<noteq> 0" "sp g' s1 l1 d1 = sp g' s2 l2 d2"
      have "s1 = s2 \<and> l1 = l2 \<and> (d1 = d2 \<or> is_edge_undirected g l1)"
      proof (cases "?ch s1 l1 d1")
        case True
        then have "?ch s2 l2 d2"
          using a(4) spT [OF a(1) True] spF [OF a(2), of l2 d2] spne [OF a(2), of l2 d2] by metis
        then show ?thesis using True by auto
      next
        case False
        then have no2: "\<not> ?ch s2 l2 d2"
          using a(4) spF [OF a(1) False] spT [OF a(2), of l2 d2] spne [OF a(1), of l1 d1] by metis
        have "sp g s1 l1 d1 \<noteq> 0" "sp g s1 l1 d1 = sp g s2 l2 d2"
          using a(3,4) spF [OF a(1) False] spF [OF a(2) no2] by simp_all
        from ptrs_okD(1) [OF RD(5) a(1,2) this] show ?thesis .
      qed
      then show "s1 = s2" "l1 = l2" "d1 = d2 \<or> is_edge_undirected g l1" by blast+
    next
      fix s1 l1 d1 d2
      assume a: "s1 < num_segs g" "is_edge_undirected g l1"
      then show "sp g' s1 l1 d1 = sp g' s1 l1 d2"
        using spT [OF a(1), of l1 d1] spT [OF a(1), of l1 d2] spF [OF a(1), of l1 d1]
          spF [OF a(1), of l1 d2] ptrs_okD(2) [OF RD(5) a, of d1 d2] by metis
    qed
    have tabs1: "\<exists>t. epoch_blocks g' (tbl g' s' l' d' i) = Some t \<and> (tbl g' s' l' d' i, ep_order t) \<in> live'"
      if a: "s' < num_segs g" "i < VERTEX_PER_SEG" "tbl g' s' l' d' i \<noteq> 0" for s' l' d' i
      using tables_okD(1) [OF RD(6) a(1,2), of l' d'] told [OF a] a(3) 2(4) by (auto simp: E)
    have tabs2: "sp g' s1 l1 d1 = sp g' s2 l2 d2 \<and> i1 = i2"
      if a: "s1 < num_segs g" "s2 < num_segs g" "i1 < VERTEX_PER_SEG" "i2 < VERTEX_PER_SEG"
        "tbl g' s1 l1 d1 i1 \<noteq> 0" "tbl g' s1 l1 d1 i1 = tbl g' s2 l2 d2 i2" for s1 s2 l1 l2 d1 d2 i1 i2
    proof -
      have t1: "tbl g' s1 l1 d1 i1 = tbl g s1 l1 d1 i1" by (rule told [OF a(1,3,5)])
      have t2: "tbl g' s2 l2 d2 i2 = tbl g s2 l2 d2 i2" using a by (intro told) simp_all
      have nz: "tbl g s1 l1 d1 i1 \<noteq> 0" and eq: "tbl g s1 l1 d1 i1 = tbl g s2 l2 d2 i2" using a t1 t2 by simp_all
      from tables_okD(2) [OF RD(6) a(1-4) nz eq]
      have sp12: "sp g s1 l1 d1 = sp g s2 l2 d2" and "i1 = i2" by simp_all
      moreover have "sp g s1 l1 d1 \<noteq> 0" using nz by (simp add: tbl_def split: if_splits)
      ultimately show ?thesis
        using spch [OF a(1,2) sp12] spT [OF a(1), of l1 d1] spT [OF a(2), of l2 d2]
          spF [OF a(1), of l1 d1] spF [OF a(2), of l2 d2] sp12 by metis
    qed
    have "tables_ok g' live'" unfolding tables_ok_def n using tabs1 tabs2 by blast
    moreover have "logs_ok P g' lgs"
      unfolding logs_ok_def n
    proof (intro allI impI)
      fix s' l' d' i
      assume a: "s' < num_segs g" "i < VERTEX_PER_SEG"
      let ?v = "s' * VERTEX_PER_SEG + i"
      show "if sp g' s' l' d' = 0 then lgs ?v l' d' = []
          else region_rel (epoch_blocks g') (P l') (seg_at g' (sp g' s' l' d')) i (lgs ?v l' d')"
      proof (cases "?ch s' l' d'")
        case True
        then have "lgs ?v l' d' = lgs (s * VERTEX_PER_SEG + i) l d"
          using RD(9) by metis
        then show ?thesis using True spT [OF a(1) True] np L [OF a(2)] by (simp add: seg E F(1))
      next
        case False
        then show ?thesis
          using spF [OF a(1) False] Fold [OF a(1) False] logs_okD [OF RD(7) a, of l' d']
          by (auto simp: seg E)
      qed
    qed
    moreover have "\<forall>a r. role_of g a r \<longrightarrow> a \<in> fst ` live" using role_live [OF RD(3,4,6)] by blast
    then have "roles_ok g' live'"
    proof (rule roles_step [OF RD(10)])
      show "live \<subseteq> live'" using 2(4) by blast
      fix a r
      assume r: "role_of g' a r"
      show "role_of g a r \<or> a \<notin> fst ` live \<and> r = (if a = np then Segment else Label)"
      proof (cases r)
        case Label
        then obtain s' where a: "s' < num_segs g" "lp g' s' = a" "a \<noteq> 0"
          using r by (auto simp: role_of_def n)
        have "lp g' s' = lp g s' \<or> lp g' s' \<notin> fst ` ?live" using 2(8) a(1) by (simp add: e0)
        then show ?thesis using a Label by (auto simp: role_of_def)
      next
        case Segment
        then obtain s' l' d' where a: "s' < num_segs g" "sp g' s' l' d' = a" "a \<noteq> 0"
          using r by (auto simp: role_of_def n)
        then show ?thesis
          using Segment spT [OF a(1), of l' d'] spF [OF a(1), of l' d'] fresh
          by (cases "?ch s' l' d'") (auto simp: role_of_def)
      next
        case Table
        then obtain s' l' d' i where a: "s' < num_segs g" "i < VERTEX_PER_SEG" "tbl g' s' l' d' i = a" "a \<noteq> 0"
          using r by (auto simp: role_of_def n)
        then have "tbl g s' l' d' i = a" using told by metis
        then show ?thesis using a Table by (auto simp: role_of_def)
      qed
    next
      have "segments_to_recycle g' = rec" using 2(7) by (simp add: g0)
      then show "segments_to_recycle g' = segments_to_recycle g \<or>
          (\<exists>p ord e. segments_to_recycle g' = segments_to_recycle g @ [(p, ord, e)] \<and> (p, ord) \<in> live \<and>
             role_of g p Segment \<and> \<not> role_of g' p Segment)"
      proof (cases "rec = segments_to_recycle g")
        case False
        then have nz: "sp g s l d \<noteq> 0"
          and e: "\<exists>e. rec = segments_to_recycle g @ [(sp g s l d, sg_order (seg_at g (sp g s l d)), e)]"
          using rec by blast+
        have "role_of g (sp g s l d) Segment" using nz s by (auto simp: role_of_def)
        moreover have "\<not> role_of g' (sp g s l d) Segment"
        proof
          assume "role_of g' (sp g s l d) Segment"
          then obtain s' l' d' where a: "s' < num_segs g" "sp g' s' l' d' = sp g s l d"
            by (auto simp: role_of_def n)
          show False
          proof (cases "?ch s' l' d'")
            case True
            then show False using a spT [OF a(1) True] spne [OF s, of l d] by simp
          next
            case False
            then have "sp g s' l' d' = sp g s l d" using a spF [OF a(1) False] by simp
            from spch [OF a(1) s this] nz this False show False by simp
          qed
        qed
        ultimately show ?thesis
          using e segs_okD(4) [OF RD(4) s nz] \<open>segments_to_recycle g' = rec\<close> by blast
      qed simp
    qed
    ultimately have "graph_rel P g' lgs live'"
      using 2(2,3,5) segs ptrs RD(8,9) by (auto simp: graph_rel_def u)
    moreover have "sp g' s l d = np" by (rule spT [OF s]) simp
    ultimately show ?thesis using 2(1) n seg un vc E by blast
  qed
qed

section \<open>The steps of adding an edge\<close>

lemma first_order_init: "first_order INIT_SEGMENT_ORDER = 20"
  by (simp add: first_order.simps [of 20] INIT_SEGMENT_ORDER_def size_defs)

definition stopped :: "seg_error + 'a \<Rightarrow> bool" where
  "stopped r \<longleftrightarrow> r = Inl Out_of_memory \<or> r = Inl Null_block"

definition same_shape :: "seg_graph \<Rightarrow> seg_graph \<Rightarrow> bool" where
  "same_shape g g' \<longleftrightarrow> num_segs g' = num_segs g \<and> vertex_count g' = vertex_count g \<and>
     edge_is_undirected g' = edge_is_undirected g"

text \<open>
  The newest block of a vertex holds an edge, but for the vertices of \<open>X\<close>, given as pairs of a segment
  and an index: a vertex an edge is being added to may have got an empty block.
\<close>

definition seg_heads :: "segment \<Rightarrow> nat set \<Rightarrow> bool" where
  "seg_heads sg J \<longleftrightarrow> (\<forall>i < VERTEX_PER_SEG. i \<notin> J \<longrightarrow> region sg i \<noteq> [] \<longrightarrow>
     0 < get_num_entries (snd (hd (region sg i))))"

definition heads :: "seg_graph \<Rightarrow> (nat \<times> nat) set \<Rightarrow> bool" where
  "heads g X \<longleftrightarrow> (\<forall>p sg. segments g p = Some sg \<longrightarrow> seg_heads sg {i. (p, i) \<in> X})"

lemma heads_update:
  assumes "heads g X" and "segments g' = (segments g)(p \<mapsto> sg)" and "seg_heads sg {i. (p, i) \<in> X'}"
    and "\<And>q i. q \<noteq> p \<Longrightarrow> (q, i) \<in> X \<Longrightarrow> (q, i) \<in> X'"
  shows "heads g' X'"
  unfolding heads_def
proof (intro allI impI)
  fix q S
  assume S: "segments g' q = Some S"
  show "seg_heads S {i. (q, i) \<in> X'}"
  proof (cases "q = p")
    case True
    then show ?thesis using S assms(2,3) by simp
  next
    case False
    then have "seg_heads S {i. (q, i) \<in> X}" using S assms(1,2) by (simp add: heads_def)
    then show ?thesis using assms(4) [OF False] by (auto simp: seg_heads_def)
  qed
qed

lemma heads_weaken: "heads g {} \<Longrightarrow> heads g X"
  by (auto simp: heads_def seg_heads_def)

lemma fill_segment_heads: "seg_heads (fill_segment np order s) J"
  by (simp add: seg_heads_def region_null)

lemma merged_heads:
  assumes "\<forall>j < VERTEX_PER_SEG. moved S (Some i) p N j"
  shows "seg_heads N {i}"
  unfolding seg_heads_def
proof (intro allI impI)
  fix j
  assume j: "j < VERTEX_PER_SEG" "j \<notin> {i}" "region N j \<noteq> []"
  have mv: "moved S (Some i) p N j" using assms j(1) by blast
  have ns: "\<not> skipped S (Some i) j"
    using mv j(3) region_null [of N j] by (auto simp: moved_def split: if_splits)
  then obtain q b where reg: "region N j = [(q, b)]" and c: "content N p j = content S p j"
    using mv by (auto simp: moved_def)
  have "get_num_entries b = length (content N p j)"
    by (simp add: content_def reg block_content_def)
  also have "\<dots> = chain_total (region S j)"
    unfolding c unfolding content_def by (rule length_chain_content)
  finally show "0 < get_num_entries (snd (hd (region N j)))"
    using ns j(2) by (simp add: reg skipped_def)
qed

lemma ensure_segment_ok:
  assumes R: "graph_rel P g lgs live" and s: "s < num_segs g"
  shows "stopped (ensure_segment s l d g) \<or>
    (\<exists>p g' live'. ensure_segment s l d g = Inr (p, g') \<and> graph_rel P g' lgs live' \<and> sp g' s l d = p \<and>
       p \<noteq> 0 \<and> same_shape g g' \<and> (heads g {} \<longrightarrow> heads g' {}))"
proof (cases "sp g s l d = 0")
  case False
  then show ?thesis
    using R locate_sp [OF graph_relD(3) [OF R] s]
    by (auto simp: ensure_segment_def NULLPOINTER_def same_shape_def)
next
  case True
  obtain np m where run: "alloc 20 (manager g) = (np, m)" by fastforce
  let ?new = "fill_segment np 20 s"
  let ?F = "(segments g)(np \<mapsto> ?new)"
  let ?g0 = "g\<lparr>manager := m, segments := ?F, segments_to_recycle := segments_to_recycle g\<rparr>"
  have es: "ensure_segment s l d g = (if np = 0 then Inl Out_of_memory
      else case update_edge_label_block s l d np ?g0 of Inl e \<Rightarrow> Inl e | Inr g' \<Rightarrow> Inr (np, g'))"
    using locate_sp [OF graph_relD(3) [OF R] s, of l d] True run
    by (simp add: ensure_segment_def NULLPOINTER_def first_order_init)
  show ?thesis
  proof (cases "np = 0")
    case True
    then show ?thesis by (simp add: es stopped_def)
  next
    case np: False
    have "segment_header_size \<le> 2 ^ 20" by (simp add: size_defs)
    note fo = fill_segment_ok [OF this, where p = "P l" and np = np and segid = s]
    have L: "region_rel (epoch_blocks g) (P l) ?new i (lgs (s * VERTEX_PER_SEG + i) l d)"
      if "i < VERTEX_PER_SEG" for i
      using logs_okD(1) [OF graph_relD(7) [OF R] s that True] fo(2) by (simp add: region_rel_def)
    have run': "alloc (sg_order ?new) (manager g) = (np, m)" using run by simp
    define g0 where "g0 = ?g0"
    have "update_edge_label_block s l d np g0 = Inl Null_block \<or>
      (\<exists>g' live'. update_edge_label_block s l d np g0 = Inr g' \<and> graph_rel P g' lgs live' \<and>
         sp g' s l d = np \<and> segments g' = ?F \<and> num_segs g' = num_segs g \<and>
         vertex_count g' = vertex_count g \<and> edge_is_undirected g' = edge_is_undirected g \<and>
         epoch_blocks g' = epoch_blocks g)"
      by (rule point_to_segment [OF R s run' np fill_segment_fields(5) fo(1) _ L _ _ _ g0_def]) simp_all
    moreover have "heads g {} \<Longrightarrow> segments g' = ?F \<Longrightarrow> heads g' {}" for g'
      by (rule heads_update) (auto intro: fill_segment_heads)
    ultimately show ?thesis
      using np by (auto simp: es stopped_def same_shape_def g0_def)
  qed
qed

text \<open>Merging reads nothing of the old segment's allocation counter.\<close>

lemma copy_src_cong:
  assumes "\<And>x. get_allocated_edge_num S' x = get_allocated_edge_num S x"
    and "\<And>off. get_property S' off p = get_property S off p"
  shows "copy_entries (\<lambda>_. S') old_p a p i es sg = copy_entries (\<lambda>_. S) old_p a p i es sg"
proof (induction es arbitrary: i sg)
  case (Cons e es)
  then show ?case by (cases "sg_blocks sg a") (simp_all add: Let_def assms)
qed simp

lemma bumped_region:
  assumes "seg_ok p S" and "i < VERTEX_PER_SEG"
  shows "region (S\<lparr>allocated_edge_num := n\<rparr>) i = region S i"
proof -
  have "chain (S\<lparr>allocated_edge_num := n\<rparr>) q bs = chain S q bs" for q bs
    by (induction bs arbitrary: q) simp_all
  then show ?thesis using seg_okD(5) [OF assms] by (intro region_chain) simp
qed

lemma merge_segment_bumped:
  assumes ok: "seg_ok p S"
  shows "merge_segment (S\<lparr>allocated_edge_num := n\<rparr>) segidx p new = merge_segment S segidx p new"
proof -
  let ?S = "S\<lparr>allocated_edge_num := n\<rparr>"
  have src: "get_allocated_edge_num ?S x = get_allocated_edge_num S x" "get_property ?S off p = get_property S off p"
    for x off
    by (simp_all add: get_allocated_edge_num_def get_property_def property_start_def)
  have mb: "merge_blocks ?S q p bs sg = merge_blocks S q p bs sg" for q bs sg
    by (induction bs arbitrary: sg) (simp_all add: copy_src_cong [OF src] split: sum.splits)
  have ch: "chain ?S q bs = chain S q bs" for q bs
    by (induction bs arbitrary: q) simp_all
  have "merge_region ?S segidx p i sg = merge_region S segidx p i sg" if "i < VERTEX_PER_SEG" for i sg
  proof -
    have c: "chain S (region_ptrs S i) (region S i)" by (rule seg_okD(5) [OF ok that])
    then have "collect_blocks ?S (region_ptrs S i) = collect_blocks S (region_ptrs S i)"
      using collect_chain [of S "region_ptrs S i" "region S i"] collect_chain [of ?S "region_ptrs S i" "region S i"]
      by (simp add: ch)
    then show ?thesis by (simp add: merge_region_def mb Let_def cong: if_cong option.case_cong)
  qed
  then have "set is \<subseteq> {..<VERTEX_PER_SEG} \<Longrightarrow> merge_regions ?S segidx p is sg = merge_regions S segidx p is sg" for "is" sg
    by (induction "is" arbitrary: sg) (auto split: sum.splits)
  from this [of "[0..<VERTEX_PER_SEG]" new] show ?thesis by (simp add: merge_segment_def subset_iff)
qed

lemma moved_region_rel:
  assumes "region_rel E p S i lg" and "moved S segidx p N i"
  shows "region_rel E p N i lg"
proof -
  have "length (content S p i) = chain_total (region S i)"
    by (simp add: content_def length_chain_content)
  then have "length lg = chain_total (region S i)" using assms(1) by (simp add: region_rel_def)
  then have "lg \<noteq> [] \<Longrightarrow> \<not> skipped S segidx i" by (cases lg) (auto simp: skipped_def)
  then show ?thesis
    using assms by (cases "skipped S segidx i") (auto simp: region_rel_def moved_def split: if_splits)
qed

definition roomy :: "segment \<Rightarrow> nat \<Rightarrow> bool" where
  "roomy sg i \<longleftrightarrow> (\<exists>a b bs. region sg i = (a, b) # bs \<and> has_room b 1)"

lemma replace_segment_ok:
  assumes R: "graph_rel P g lgs live" and s: "s < num_segs g" and i: "i < VERTEX_PER_SEG"
    and p: "p = sp g s l d" "p \<noteq> 0" and sg1: "sg1 = (seg_at g p)\<lparr>allocated_edge_num := n\<rparr>"
    and g1: "g1 = g\<lparr>segments := (segments g)(p \<mapsto> sg1)\<rparr>"
  shows "stopped (replace_segment epoch s i l d p sg1 (P l) g1) \<or>
    (\<exists>p' g' live'. replace_segment epoch s i l d p sg1 (P l) g1 = Inr (p', g') \<and>
       graph_rel P g' lgs live' \<and> sp g' s l d = p' \<and> p' \<noteq> 0 \<and> same_shape g g' \<and> roomy (seg_at g' p') i \<and>
       (heads g {} \<longrightarrow> heads g' {(p', i)}))"
proof -
  note RD = graph_relD [OF R]
  let ?S = "seg_at g p"
  have nz: "sp g s l d \<noteq> 0" using p by simp
  note so = segs_okD [OF RD(4) s nz, folded p(1)]
  have ord: "sg_order ?S \<le> 62" using so(4) RD(2) by (force simp: orders_ok_def)
  obtain np m where run: "alloc (sg_order ?S + 1) (manager g) = (np, m)" by fastforce
  obtain N where mg: "merge_segment ?S (Some i) (P l) (fill_segment np (sg_order ?S + 1) s) = Inr N"
    and okN: "seg_ok (P l) N" and mv: "\<forall>i' < VERTEX_PER_SEG. moved ?S (Some i) (P l) N i'"
    and fN: "sg_order N = sg_order ?S + 1" "sg_head N = np"
    using merge_segment_ok [OF so(3) RD(8) ord] by blast
  define F where "F = (segments g)(p \<mapsto> sg1, np \<mapsto> N)"
  define g0 where "g0 = g\<lparr>manager := m, segments := F,
    segments_to_recycle := segments_to_recycle g @ [(p, sg_order ?S, epoch)]\<rparr>"
  have rs: "replace_segment epoch s i l d p sg1 (P l) g1 = (if np = 0 then Inl Out_of_memory
      else case update_edge_label_block s l d np g0 of Inl e \<Rightarrow> Inl e | Inr g' \<Rightarrow> Inr (np, g'))"
    using run mg
    by (simp add: replace_segment_def g1 sg1 NULLPOINTER_def merge_segment_bumped [OF so(3)] g0_def F_def)
  show ?thesis
  proof (cases "np = 0")
    case True
    then show ?thesis by (simp add: rs stopped_def)
  next
    case np: False
    have run': "alloc (sg_order N) (manager g) = (np, m)" using run fN by simp
    have T: "epoch_tables N i' = 0 \<or> epoch_tables N i' = tbl g s l d i'" if "i' < VERTEX_PER_SEG" for i'
      using mv that p by (auto simp: moved_def tbl_def split: if_splits)
    have L: "region_rel (epoch_blocks g) (P l) N i' (lgs (s * VERTEX_PER_SEG + i') l d)"
      if "i' < VERTEX_PER_SEG" for i'
      using moved_region_rel logs_okD(2) [OF RD(7) s that nz] mv that p(1) by blast
    have "update_edge_label_block s l d np g0 = Inl Null_block \<or>
      (\<exists>g' live'. update_edge_label_block s l d np g0 = Inr g' \<and> graph_rel P g' lgs live' \<and>
         sp g' s l d = np \<and> segments g' = F \<and> num_segs g' = num_segs g \<and>
         vertex_count g' = vertex_count g \<and> edge_is_undirected g' = edge_is_undirected g \<and>
         epoch_blocks g' = epoch_blocks g)"
      by (rule point_to_segment [OF R s run' np fN(2) okN T L _ _ _ g0_def])
        (use p in \<open>simp_all add: F_def\<close>)
    moreover have "roomy N i"
      using mv [rule_format, OF i] by (auto simp: moved_def skipped_def slack_def roomy_def)
    moreover have "heads g {} \<Longrightarrow> segments g' = F \<Longrightarrow> heads g' {(np, i)}" for g'
    proof -
      assume h: "heads g {}" and F: "segments g' = F"
      obtain S where S: "segments g p = Some S" using so(1) by blast
      have "seg_heads ?S {}" using h S by (simp add: heads_def)
      then have "seg_heads sg1 {}"
        unfolding seg_heads_def sg1 using bumped_region [OF so(3)] by simp
      then have "heads (g\<lparr>segments := (segments g)(p \<mapsto> sg1)\<rparr>) {}"
        by (intro heads_update [OF h]) simp_all
      then show "heads g' {(np, i)}"
        by (rule heads_update) (use F merged_heads [OF mv] in \<open>auto simp: F_def\<close>)
    qed
    ultimately show ?thesis
      using np by (auto simp: rs stopped_def same_shape_def F_def)
  qed
qed

lemma ensure_block_ok:
  assumes R: "graph_rel P g lgs live" and s: "s < num_segs g" and i: "i < VERTEX_PER_SEG"
    and p: "p = sp g s l d" "p \<noteq> 0"
  shows "stopped (ensure_block epoch s i l d p (P l) g) \<or>
    (\<exists>p' g' live'. ensure_block epoch s i l d p (P l) g = Inr (p', g') \<and>
       graph_rel P g' lgs live' \<and> sp g' s l d = p' \<and> p' \<noteq> 0 \<and> same_shape g g' \<and> roomy (seg_at g' p') i \<and>
       (heads g {} \<longrightarrow> heads g' {(p', i)}))"
proof -
  note RD = graph_relD [OF R]
  let ?S = "seg_at g p" and ?b = "newest (seg_at g p) i"
  let ?o = "case ?b of None \<Rightarrow> DEFAULT_INIT_ORDER | Some b \<Rightarrow> eb_order b + 1"
  have nz: "sp g s l d \<noteq> 0" using p by simp
  note so = segs_okD [OF RD(4) s nz, folded p(1)]
  obtain np sg1 where al: "alloc_slots ?o (P l) ?S = (np, sg1)" by fastforce
  then have sg1: "sg1 = ?S\<lparr>allocated_edge_num := allocated_edge_num ?S + required_slots ?o\<rparr>"
    by (auto simp: alloc_slots_def Let_def split: if_splits)
  define g1 where "g1 = g\<lparr>segments := (segments g)(p \<mapsto> sg1)\<rparr>"
  have eb: "ensure_block epoch s i l d p (P l) g =
      (if (case ?b of None \<Rightarrow> False | Some b \<Rightarrow> has_space b) then Inr (p, g)
       else if np = 0 then replace_segment epoch s i l d p sg1 (P l) g1
       else (case extend_region i (region_ptrs ?S i) ?b ?o np (P l) sg1 of
           Inl e \<Rightarrow> Inl e
         | Inr sg2 \<Rightarrow> Inr (p, g1\<lparr>segments := (segments g1)(p \<mapsto> sg2)\<rparr>)))"
  proof -
    obtain S where S: "segments g p = Some S" using so(1) by blast
    then have at: "seg_at g p = S" by simp
    have "convert_block S (region_ptrs S i) = Inr (newest S i)"
      using convert_newest [OF so(3) i] unfolding at .
    then show ?thesis
      using al unfolding at
      by (simp add: ensure_block_def S Let_def NULLPOINTER_def g1_def cong: if_cong option.case_cong sum.case_cong)
  qed
  show ?thesis
  proof (cases "case ?b of None \<Rightarrow> False | Some b \<Rightarrow> has_space b")
    case True
    then have "roomy ?S i"
      by (auto simp: newest_def roomy_def has_space_iff has_room_def split: list.splits option.splits)
    moreover have "ensure_block epoch s i l d p (P l) g = Inr (p, g)" unfolding eb if_P [OF True] ..
    moreover have "same_shape g g" by (simp add: same_shape_def)
    moreover have "heads g {} \<longrightarrow> heads g {(p, i)}" using heads_weaken by blast
    ultimately show ?thesis using R p by blast
  next
    case full: False
    show ?thesis
    proof (cases "np = 0")
      case True
      then show ?thesis
        unfolding eb if_not_P [OF full] if_P [OF True] by (intro replace_segment_ok [OF R s i p sg1 g1_def])
    next
      case False
      have "case ?b of None \<Rightarrow> True | Some b \<Rightarrow> \<not> has_space b" using full by (simp split: option.splits)
      from extend_region_ok [OF so(3) i this refl al False]
      obtain sg2 where run: "extend_region i (region_ptrs ?S i) ?b ?o np (P l) sg1 = Inr sg2"
        and ex: "extended (P l) i np ?S sg2" by blast
      let ?g' = "g1\<lparr>segments := (segments g1)(p \<mapsto> sg2)\<rparr>"
      have t: "epoch_tables sg2 j = tbl g s l d j" for j using ex p by (simp add: extended_def tbl_def)
      have "graph_rel P ?g' lgs live"
      proof (rule rewrite_segment [OF R s p, where sg' = sg2 and ?i0.0 = i])
        show "\<exists>tb. epoch_blocks ?g' (epoch_tables sg2 i) = Some tb \<and> (epoch_tables sg2 i, ep_order tb) \<in> live"
          if "epoch_tables sg2 i \<noteq> 0"
          using tables_okD(1) [OF RD(6) s i, of l d] that by (simp add: t g1_def)
        show "region_rel (epoch_blocks ?g') (P l) sg2 i (lgs (s * VERTEX_PER_SEG + i) l d)"
          using logs_okD(2) [OF RD(7) s i nz, folded p(1)] ex i by (simp add: region_rel_def extended_def g1_def)
      qed (use RD(1,2,9) ex so(2) t i in \<open>simp_all add: g1_def extended_def\<close>)
      moreover have "sp ?g' s l d = p" using sp_cong [of ?g' g s l d] p by (simp add: g1_def)
      moreover have "roomy (seg_at ?g' p) i" using ex by (auto simp: extended_def roomy_def)
      moreover have "ensure_block epoch s i l d p (P l) g = Inr (p, ?g')"
        unfolding eb if_not_P [OF full] if_not_P [OF False] run by simp
      moreover have "same_shape g ?g'" by (simp add: same_shape_def g1_def)
      moreover have "heads ?g' {(p, i)}" if h: "heads g {}"
      proof (rule heads_update [OF h])
        obtain S where S: "segments g p = Some S" using so(1) by blast
        have "seg_heads ?S {}" using h S by (simp add: heads_def)
        then show "seg_heads sg2 {j. (p, j) \<in> {(p, i)}}" using ex by (simp add: seg_heads_def extended_def)
      qed (simp_all add: g1_def)
      ultimately show ?thesis using p(2) by blast
    qed
  qed
qed

section \<open>Epoch tables\<close>

lemma sorted_snoc: "sorted es \<Longrightarrow> es \<noteq> [] \<Longrightarrow> last es \<le> e \<Longrightarrow> sorted (es @ [e])"
  for e :: "'a::linorder"
proof (induction es)
  case (Cons x es)
  then show ?case by (cases "es = []") (auto simp: last_in_set intro: order.trans)
qed simp

lemma epoch_has_space_iff: "epoch_has_space t \<longleftrightarrow> 32 + (length (ep_entries t) + 1) * 16 \<le> 2 ^ ep_order t"
  by (auto simp: epoch_has_space_def size_defs get_block_size_def)

lemma append_all_epochs:
  "32 + (length (ep_entries nt) + length es) * 16 \<le> 2 ^ ep_order nt \<Longrightarrow>
     foldl (\<lambda>nt e. append_epoch e nt) nt es = nt\<lparr>ep_entries := ep_entries nt @ es\<rparr>"
proof (induction es arbitrary: nt)
  case (Cons e es)
  then have "append_epoch e nt = nt\<lparr>ep_entries := ep_entries nt @ [e]\<rparr>"
    by (simp add: append_epoch_def epoch_has_space_iff)
  then show ?case using Cons by simp
qed simp

text \<open>A table for one more entry of epoch \<open>e\<close>.\<close>

lemma table_ok_first:
  assumes "order = size_to_order (epoch_block_header_size + epoch_entry_size)"
  shows "table_ok (append_epoch (e, 0) (fill_epoch_block order 0 e)) [e] \<and>
    ep_order (append_epoch (e, 0) (fill_epoch_block order 0 e)) = order"
proof -
  have "48 \<le> (2::nat) ^ order" using size_to_order_covers(1) [of 48] assms by (simp add: size_defs)
  then show ?thesis
    using starts_snoc [of "[]" e]
    by (simp add: append_epoch_def epoch_has_space_iff fill_epoch_block_def table_ok_def)
qed

lemma table_ok_same:
  assumes "table_ok t es" and "last es \<le> e" and "\<not> e > latest_epoch t"
  shows "table_ok t (es @ [e])"
  using assms by (auto simp: table_ok_def starts_snoc sorted_snoc)

lemma table_ok_append:
  assumes "table_ok t es" and "e > latest_epoch t" and "32 + (length (ep_entries t) + 1) * 16 \<le> 2 ^ ep_order t'"
    and "ep_entries t' = ep_entries t" and "latest_epoch t' = e"
  shows "table_ok (append_epoch (e, length es) t') (es @ [e]) \<and>
    ep_order (append_epoch (e, length es) t') = ep_order t'"
  using assms by (auto simp: table_ok_def starts_snoc sorted_snoc append_epoch_def epoch_has_space_iff)

lemma copied_table:
  assumes "table_ok t es" and "order = ep_order t + 1"
  shows "foldl (\<lambda>nt e. append_epoch e nt) (fill_epoch_block order tp x) (ep_entries t) =
      (fill_epoch_block order tp x)\<lparr>ep_entries := ep_entries t\<rparr>"
    and "32 + (length (ep_entries t) + 1) * 16 \<le> (2::nat) ^ order"
proof -
  show le: "32 + (length (ep_entries t) + 1) * 16 \<le> (2::nat) ^ order"
    using assms by (auto simp: table_ok_def)
  then show "foldl (\<lambda>nt e. append_epoch e nt) (fill_epoch_block order tp x) (ep_entries t) =
      (fill_epoch_block order tp x)\<lparr>ep_entries := ep_entries t\<rparr>"
    by (subst append_all_epochs) (simp_all add: fill_epoch_block_def)
qed

lemma set_table_same [simp]: "set_epoch_table i (epoch_tables sg i) sg = sg"
  by (simp add: set_epoch_table_def)

text \<open>What the two table steps of \<open>put_edge\<close> leave: a table at \<open>q\<close> for the log with one more entry.\<close>

definition tabled ::
  "seg_graph \<Rightarrow> block set \<Rightarrow> nat \<Rightarrow> nat \<Rightarrow> int list \<Rightarrow> seg_graph \<Rightarrow> block set \<Rightarrow> nat \<Rightarrow> bool" where
  "tabled g live p i es g' live' q \<longleftrightarrow>
     edge_label_ptrs g' = edge_label_ptrs g \<and> label_blocks g' = label_blocks g \<and> same_shape g g' \<and>
     segments_to_recycle g' = segments_to_recycle g \<and> bm_ok (manager g') live' \<and> orders_ok (manager g') live' \<and> live \<subseteq> live' \<and> q \<noteq> 0 \<and>
     segments g' = (segments g)(p \<mapsto> set_epoch_table i q (seg_at g p)) \<and>
     (q = epoch_tables (seg_at g p) i \<or> q \<notin> fst ` live) \<and>
     (\<exists>t. epoch_blocks g' = (epoch_blocks g)(q \<mapsto> t) \<and> (q, ep_order t) \<in> live' \<and> table_ok t es)"

lemma tabledI:
  assumes "edge_label_ptrs g' = edge_label_ptrs g" "label_blocks g' = label_blocks g" "same_shape g g'"
    "segments_to_recycle g' = segments_to_recycle g" "bm_ok (manager g') live'" "orders_ok (manager g') live'" "live \<subseteq> live'" "q \<noteq> 0"
    "segments g' = (segments g)(p \<mapsto> set_epoch_table i q (seg_at g p))"
    "q = epoch_tables (seg_at g p) i \<or> q \<notin> fst ` live"
    "epoch_blocks g' = (epoch_blocks g)(q \<mapsto> t)" "(q, ep_order t) \<in> live'" "table_ok t es"
  shows "tabled g live p i es g' live' q"
  using assms unfolding tabled_def by blast

definition table_steps ::
  "int \<Rightarrow> nat \<Rightarrow> nat \<Rightarrow> nat \<Rightarrow> seg_graph \<Rightarrow> seg_error + seg_graph" where
  "table_steps epoch i p num g =
     (case ensure_epoch_table epoch i p g of
        Inl e \<Rightarrow> Inl e
      | Inr (tp, g') \<Rightarrow> advance_epoch epoch i p tp num g')"

lemma table_steps_ok:
  assumes R: "graph_rel P g lgs live" and s: "s < num_segs g" and i: "i < VERTEX_PER_SEG"
    and p: "p = sp g s l d" "p \<noteq> 0" and lg: "lg = lgs (s * VERTEX_PER_SEG + i) l d"
    and ep: "lg \<noteq> [] \<Longrightarrow> fst (last lg) \<le> epoch"
  shows "stopped (table_steps epoch i p (length lg) g) \<or>
    (\<exists>g' live' q. table_steps epoch i p (length lg) g = Inr g' \<and>
       tabled g live p i (map fst lg @ [epoch]) g' live' q)"
proof -
  note RD = graph_relD [OF R]
  have nz: "sp g s l d \<noteq> 0" using p by simp
  obtain S where S: "segments g p = Some S" using segs_okD(1) [OF RD(4) s nz, folded p(1)] by blast
  have rel: "region_rel (epoch_blocks g) (P l) S i lg"
    using logs_okD(2) [OF RD(7) s i nz, folded p(1)] S lg by simp
  show ?thesis
  proof (cases "lg = []")
    case True
    let ?o = "size_to_order (epoch_block_header_size + epoch_entry_size)"
    have "epoch_tables S i = 0" using rel True by (simp add: region_rel_def)
    moreover obtain np m where run: "alloc ?o (manager g) = (np, m)" by fastforce
    ultimately have ts: "table_steps epoch i p (length lg) g = (if np = 0 then Inl Out_of_memory
        else Inr (g\<lparr>manager := m,
          epoch_blocks := (epoch_blocks g)(np \<mapsto> append_epoch (epoch, 0) (fill_epoch_block ?o 0 epoch)),
          segments := (segments g)(p \<mapsto> set_epoch_table i np S)\<rparr>))"
      using table_ok_first [of ?o epoch]
      by (simp add: table_steps_def ensure_epoch_table_def S NULLPOINTER_def advance_epoch_def table_ok_def)
    show ?thesis
    proof (cases "np = 0")
      case True
      then show ?thesis by (simp add: ts stopped_def)
    next
      case np: False
      note al = blocks.get_ok [OF RD(1) run np] alloc_orders(1) [OF RD(1,2) run np]
        blocks.get_fresh [OF RD(1) run np]
      have "tabled g live p i [epoch] (g\<lparr>manager := m,
          epoch_blocks := (epoch_blocks g)(np \<mapsto> append_epoch (epoch, 0) (fill_epoch_block ?o 0 epoch)),
          segments := (segments g)(p \<mapsto> set_epoch_table i np S)\<rparr>) (insert (np, ?o) live) np"
        using al np table_ok_first [of ?o epoch] by (intro tabledI) (auto simp: S same_shape_def)
      then show ?thesis unfolding ts if_not_P [OF np] using True by auto
    qed
  next
    case False
    let ?tp = "epoch_tables S i"
    obtain t where tp: "?tp \<noteq> 0" and t: "epoch_blocks g ?tp = Some t" and tok: "table_ok t (map fst lg)"
      using rel False by (auto simp: region_rel_def)
    have tl: "(?tp, ep_order t) \<in> live"
      using tables_okD(1) [OF RD(6) s i, of l d] tp t nz p(1) S by (simp add: tbl_def)
    have last: "last (map fst lg) \<le> epoch" using ep False by (simp add: last_map)
    have ts: "table_steps epoch i p (length lg) g = advance_epoch epoch i p ?tp (length lg) g"
      using tp by (simp add: table_steps_def ensure_epoch_table_def S NULLPOINTER_def)
    have trivial: "(segments g)(p \<mapsto> S) = segments g" "(epoch_blocks g)(?tp \<mapsto> t) = epoch_blocks g"
      using S t by (simp_all add: fun_upd_idem)
    consider "\<not> epoch > latest_epoch t" | "epoch > latest_epoch t" "epoch_has_space t"
      | "epoch > latest_epoch t" "\<not> epoch_has_space t" by blast
    then show ?thesis
    proof cases
      case 1
      then have "tabled g live p i (map fst lg @ [epoch]) g live ?tp"
        using RD(1,2) tp tl table_ok_same [OF tok last 1] S
        by (intro tabledI [where t = t]) (simp_all add: same_shape_def trivial)
      then show ?thesis using 1 S t by (auto simp: ts advance_epoch_def)
    next
      case 2
      let ?t = "append_epoch (epoch, length lg) (t\<lparr>latest_epoch := epoch\<rparr>)"
      have "table_ok ?t (map fst lg @ [epoch]) \<and> ep_order ?t = ep_order t"
        using table_ok_append [OF tok 2(1), of "t\<lparr>latest_epoch := epoch\<rparr>"] 2(2)
        by (simp add: epoch_has_space_iff)
      then have "tabled g live p i (map fst lg @ [epoch])
          (g\<lparr>epoch_blocks := (epoch_blocks g)(?tp \<mapsto> ?t)\<rparr>) live ?tp"
        using RD(1,2) tp tl S by (intro tabledI [where t = ?t]) (simp_all add: same_shape_def trivial)
      then show ?thesis using 2 S t by (auto simp: ts advance_epoch_def)
    next
      case 3
      let ?o = "ep_order t + 1"
      let ?f = "(fill_epoch_block ?o ?tp (latest_epoch t))\<lparr>ep_entries := ep_entries t\<rparr>"
      let ?t = "append_epoch (epoch, length lg) (?f\<lparr>latest_epoch := epoch\<rparr>)"
      obtain np m where run: "alloc ?o (manager g) = (np, m)" by fastforce
      have ts': "table_steps epoch i p (length lg) g = (if np = 0 then Inl Out_of_memory
          else Inr (g\<lparr>manager := m, epoch_blocks := (epoch_blocks g)(np \<mapsto> ?t),
            segments := (segments g)(p \<mapsto> set_epoch_table i np S)\<rparr>))"
        using 3 S t run copied_table(1) [OF tok refl, of ?tp "latest_epoch t"]
        by (simp add: ts advance_epoch_def NULLPOINTER_def Let_def)
      show ?thesis
      proof (cases "np = 0")
        case True
        then show ?thesis by (simp add: ts' stopped_def)
      next
        case np: False
        note al = blocks.get_ok [OF RD(1) run np] alloc_orders(1) [OF RD(1,2) run np]
          blocks.get_fresh [OF RD(1) run np]
        have "table_ok ?t (map fst lg @ [epoch]) \<and> ep_order ?t = ?o"
          using table_ok_append [OF tok 3(1), of "?f\<lparr>latest_epoch := epoch\<rparr>"] copied_table(2) [OF tok refl]
          by (simp add: fill_epoch_block_def)
        then have "tabled g live p i (map fst lg @ [epoch]) (g\<lparr>manager := m,
            epoch_blocks := (epoch_blocks g)(np \<mapsto> ?t),
            segments := (segments g)(p \<mapsto> set_epoch_table i np S)\<rparr>) (insert (np, ?o) live) np"
          using al np by (intro tabledI [where t = ?t]) (auto simp: S same_shape_def)
        then show ?thesis using np by (auto simp: ts')
      qed
    qed
  qed
qed

section \<open>Adding an edge\<close>

definition log_edge :: "bool \<Rightarrow> nat \<Rightarrow> nat \<Rightarrow> dir_t \<Rightarrow> int \<times> edge \<Rightarrow> logs \<Rightarrow> logs" where
  "log_edge undirected v l d x lgs = (\<lambda>v' l' d'.
     if v' = v \<and> l' = l \<and> (d' = d \<or> undirected) then lgs v' l' d' @ [x] else lgs v' l' d')"

lemma insert_edge_push:
  assumes "region sg i = (a, b) # bs" and "seg_ok p sg" and "i < VERTEX_PER_SEG" and "has_room b 1"
    and "length data = p"
  shows "insert_edge i (region_ptrs sg i) dst data sg = Inr (push_entry p a dst data sg)"
proof -
  have ch: "chain sg (region_ptrs sg i) ((a, b) # bs)" using seg_okD(5) [OF assms(2,3)] by (simp only: assms(1))
  have "region_ptrs sg i = a" "sg_blocks sg a = Some b" using ch by auto
  then show ?thesis
    using assms(4,5)
    by (auto simp: insert_edge_def push_entry_def Let_def slot_def put_block_def get_allocated_edge_num_def)
qed

lemma pushed_frame:
  assumes "seg_ok p sg" and "sg_blocks sg a = Some b" and "has_room b 1" and "length v = p"
  shows "sg_head (push_entry p a e v sg) = sg_head sg" "sg_order (push_entry p a e v sg) = sg_order sg"
    "epoch_tables (push_entry p a e v sg) = epoch_tables sg"
  using push_entry_effect(1) [OF assms, of e] by (simp_all add: same_frame_def)

lemma put_edge_steps:
  assumes "ensure_segment s l d g = Inr (p0, g1)" and "ensure_block epoch s i l d p0 (length data) g1 = Inr (p, g2)"
    and "segments g2 p = Some S" and "convert_block S (region_ptrs S i) = Inr (Some b)"
    and "\<not> vertex_count g \<le> v" "s = get_vertex_seg_id v" "i = get_vertex_seg_idx v"
  shows "put_edge epoch v l d dst data g =
    (case table_steps epoch i p (prev_num_entries b + get_num_entries b) g2 of
       Inl e \<Rightarrow> Inl e
     | Inr g4 \<Rightarrow> (case segments g4 p of None \<Rightarrow> Inl Fault
       | Some sg4 \<Rightarrow> (case insert_edge i (region_ptrs S i) dst data sg4 of
           Inl e \<Rightarrow> Inl e
         | Inr sg5 \<Rightarrow> Inr (g4\<lparr>segments := (segments g4)(p \<mapsto> sg5)\<rparr>))))"
  using assms(1-5) unfolding assms(6,7)
  by (cases "ensure_epoch_table epoch (get_vertex_seg_idx v) p g2")
    (auto simp: put_edge_def Let_def table_steps_def)

text \<open>The last steps, in a segment with room in the newest block of vertex \<open>i\<close>.\<close>

lemma put_edge_end:
  assumes R: "graph_rel P g lgs live" and s: "s < num_segs g" and i: "i < VERTEX_PER_SEG"
    and p: "p = sp g s l d" "p \<noteq> 0" and reg: "region (seg_at g p) i = (a, b) # bs" "has_room b 1"
    and T: "tabled g live p i (map fst (lgs (s * VERTEX_PER_SEG + i) l d) @ [epoch]) g4 live' q"
    and len: "length data = P l"
    and lgs': "lgs' = log_edge (is_edge_undirected g l) (s * VERTEX_PER_SEG + i) l d (epoch, dst, data) lgs"
  shows "\<exists>sg4 sg5. segments g4 p = Some sg4 \<and>
    insert_edge i (region_ptrs (seg_at g p) i) dst data sg4 = Inr sg5 \<and>
    graph_rel P (g4\<lparr>segments := (segments g4)(p \<mapsto> sg5)\<rparr>) lgs' live' \<and>
    (heads g {(p, i)} \<longrightarrow> heads (g4\<lparr>segments := (segments g4)(p \<mapsto> sg5)\<rparr>) {})"
proof -
  note RD = graph_relD [OF R]
  let ?v = "s * VERTEX_PER_SEG + i" and ?S = "seg_at g p" and ?S4 = "set_epoch_table i q (seg_at g p)"
  let ?S5 = "push_entry (P l) a dst data ?S4" and ?lg = "lgs (s * VERTEX_PER_SEG + i) l d"
  have nz: "sp g s l d \<noteq> 0" using p by simp
  note so = segs_okD [OF RD(4) s nz, folded p(1)]
  note st = set_table_ok [OF so(3), where i = i and t = q]
  have r4: "region ?S4 i = (a, b) # bs" using st(2) [OF i] reg by simp
  note ph = push_head [OF st(1) i r4 reg(2) len, where e = dst]
  have ptr: "region_ptrs ?S4 = region_ptrs ?S" by (simp add: set_table_frame)
  have ins: "insert_edge i (region_ptrs ?S i) dst data ?S4 = Inr ?S5"
    using insert_edge_push [OF r4 st(1) i reg(2) len, where dst = dst] unfolding ptr .
  have "chain ?S4 (region_ptrs ?S4 i) ((a, b) # bs)" using seg_okD(5) [OF st(1) i] by (simp only: r4)
  then have blk: "sg_blocks ?S4 a = Some b" by auto
  note fr = pushed_frame [OF st(1) blk reg(2) len, where e = dst]
  obtain t where E: "epoch_blocks g4 = (epoch_blocks g)(q \<mapsto> t)" and tl: "(q, ep_order t) \<in> live'"
    and tok: "table_ok t (map fst ?lg @ [epoch])" using T by (auto simp: tabled_def)
  have g4: "segments g4 = (segments g)(p \<mapsto> ?S4)" "edge_label_ptrs g4 = edge_label_ptrs g"
    "label_blocks g4 = label_blocks g" "edge_is_undirected g4 = edge_is_undirected g"
    "segments_to_recycle g4 = segments_to_recycle g" "bm_ok (manager g4) live'" "orders_ok (manager g4) live'" "live \<subseteq> live'" "q \<noteq> 0"
    "q = epoch_tables ?S i \<or> q \<notin> fst ` live"
    using T by (simp_all add: tabled_def same_shape_def)
  have et: "epoch_tables ?S5 = (epoch_tables ?S)(i := q)" using fr(3) by (simp add: set_table_frame)
  have tb: "tbl g s l d j = epoch_tables ?S j" for j using p by (simp add: tbl_def)
  have "graph_rel P (g4\<lparr>segments := (segments g4)(p \<mapsto> ?S5)\<rparr>) lgs' live'"
  proof (rule rewrite_segment [OF R s p, where sg' = ?S5 and ?i0.0 = i])
    show "segments (g4\<lparr>segments := (segments g4)(p \<mapsto> ?S5)\<rparr>) = (segments g)(p \<mapsto> ?S5)" by (simp add: g4)
    show "sg_head ?S5 = p" "sg_order ?S5 = sg_order ?S" using fr so(2) by (simp_all add: set_table_frame)
    show "seg_ok (P l) ?S5" by (rule ph(1))
    show "epoch_blocks (g4\<lparr>segments := (segments g4)(p \<mapsto> ?S5)\<rparr>) x = epoch_blocks g x"
      if "x \<in> fst ` live" "x \<noteq> tbl g s l d i" for x
      using that g4(10) by (auto simp: E tb)
    show "content ?S5 (P l) j = content ?S (P l) j" if "j < VERTEX_PER_SEG" "j \<noteq> i" for j
      using ph(4) [OF that] st(3) [OF that(1)] by simp
    have "content ?S5 (P l) i = map snd ?lg @ [(dst, data)]"
      using ph(3) st(3) [OF i] logs_okD(2) [OF RD(7) s i nz, folded p(1)] by (simp add: region_rel_def)
    then show "region_rel (epoch_blocks (g4\<lparr>segments := (segments g4)(p \<mapsto> ?S5)\<rparr>)) (P l) ?S5 i (lgs' ?v l d)"
      using g4(9) tok by (simp add: region_rel_def lgs' log_edge_def et E)
    show "lgs' x l1 d1 = lgs' x l1 d2" if "is_edge_undirected g l1" for x l1 d1 d2
      using RD(9) [OF that, of x d1 d2] that by (auto simp: lgs' log_edge_def)
  qed (use g4 i tl in \<open>auto simp: tb et E lgs' log_edge_def\<close>)
  moreover have "heads (g4\<lparr>segments := (segments g4)(p \<mapsto> ?S5)\<rparr>) {}" if h: "heads g {(p, i)}"
  proof (rule heads_update [OF h])
    have "segments g p = Some ?S" by (rule so(1))
    then have "seg_heads ?S {i}" using h unfolding heads_def by fastforce
    moreover have "region ?S5 j = region ?S j" if "j < VERTEX_PER_SEG" "j \<noteq> i" for j
      using ph(5) [OF that] st(2) [OF that(1)] by simp
    moreover have "0 < get_num_entries (snd (hd (region ?S5 i)))" by (simp add: ph(2) get_num_entries_def)
    ultimately have "seg_heads ?S5 {}" unfolding seg_heads_def by (metis singletonD)
    then show "seg_heads ?S5 {j. (p, j) \<in> {}}" by simp
  qed (simp_all add: g4)
  ultimately show ?thesis using ins g4(1) by simp
qed

lemma put_edge_ok:
  assumes R: "graph_rel P g lgs live" and len: "length data = P l"
    and v: "get_vertex_seg_id v < num_segs g"
    and ep: "lgs v l d \<noteq> [] \<longrightarrow> fst (last (lgs v l d)) \<le> epoch"
  shows "case put_edge epoch v l d dst data g of
      Inl e \<Rightarrow> e = Out_of_memory \<or> e = Null_block \<or> e = Invalid_argument \<and> vertex_count g \<le> v
    | Inr g' \<Rightarrow> v < vertex_count g \<and> same_shape g g' \<and> (heads g {} \<longrightarrow> heads g' {}) \<and> (\<exists>live'. graph_rel P g'
        (log_edge (is_edge_undirected g l) v l d (epoch, dst, data) lgs) live')"
proof (cases "vertex_count g \<le> v")
  case True
  then show ?thesis by (simp add: put_edge_def)
next
  case valid: False
  define s i where "s = get_vertex_seg_id v" and "i = get_vertex_seg_idx v"
  have s: "s < num_segs g" and i: "i < VERTEX_PER_SEG" and v': "s * VERTEX_PER_SEG + i = v"
    using v by (simp_all add: s_def i_def get_vertex_seg_id_def get_vertex_seg_idx_def VERTEX_PER_SEG_def)
  consider "stopped (ensure_segment s l d g)"
    | p0 g1 live1 where "ensure_segment s l d g = Inr (p0, g1)" "graph_rel P g1 lgs live1"
      "sp g1 s l d = p0" "p0 \<noteq> 0" "same_shape g g1" "heads g {} \<longrightarrow> heads g1 {}"
    using ensure_segment_ok [OF R s, of l d] by blast
  then show ?thesis
  proof cases
    case 1
    then show ?thesis
      using valid by (auto simp: stopped_def put_edge_def Let_def s_def)
  next
    case (2 p0 g1 live1)
    have s1: "s < num_segs g1" using s 2(5) by (simp add: same_shape_def)
    consider "stopped (ensure_block epoch s i l d p0 (P l) g1)"
      | p g2 live2 where "ensure_block epoch s i l d p0 (P l) g1 = Inr (p, g2)" "graph_rel P g2 lgs live2"
        "sp g2 s l d = p" "p \<noteq> 0" "same_shape g1 g2" "roomy (seg_at g2 p) i"
        "heads g1 {} \<longrightarrow> heads g2 {(p, i)}"
      using ensure_block_ok [OF 2(2) s1 i 2(3) [symmetric] 2(4), of epoch] by blast
    then show ?thesis
    proof cases
      case 1
      then show ?thesis
        using valid 2(1) len by (auto simp: stopped_def put_edge_def Let_def s_def i_def)
    next
      case b: (2 p g2 live2)
      let ?lgs = "log_edge (is_edge_undirected g l) v l d (epoch, dst, data) lgs"
      have s2: "s < num_segs g2" using s1 b(5) by (simp add: same_shape_def)
      obtain S where S: "segments g2 p = Some S"
        using segs_okD(1) [OF graph_relD(4) [OF b(2)] s2, of l d] b(3,4) by blast
      obtain a bk bs where reg: "region S i = (a, bk) # bs" "has_room bk 1"
        using b(6) S by (auto simp: roomy_def)
      have okS: "seg_ok (P l) S"
        using segs_okD(3) [OF graph_relD(4) [OF b(2)] s2, of l d] b(3,4) S by simp
      have conv: "convert_block S (region_ptrs S i) = Inr (Some bk)"
        using convert_newest [OF okS i] reg by (simp add: newest_def)
      have rel: "region_rel (epoch_blocks g2) (P l) S i (lgs v l d)"
        using logs_okD(2) [OF graph_relD(7) [OF b(2)] s2 i, of l d] b(3,4) S v' by simp
      have "chain S (region_ptrs S i) ((a, bk) # bs)" using seg_okD(5) [OF okS i] by (simp only: reg)
      moreover have "length (lgs v l d) = chain_total (region S i)"
        using rel length_chain_content [of S "P l" "region S i"]
        by (simp add: region_rel_def content_def)
      ultimately have num: "prev_num_entries bk + get_num_entries bk = length (lgs v l d)"
        by (simp add: reg)
      note steps = put_edge_steps [OF 2(1) b(1) [folded len] S conv valid s_def i_def, where dst = dst, unfolded num]
      consider "stopped (table_steps epoch i p (length (lgs v l d)) g2)"
        | g4 live4 q where "table_steps epoch i p (length (lgs v l d)) g2 = Inr g4"
          "tabled g2 live2 p i (map fst (lgs v l d) @ [epoch]) g4 live4 q"
        using table_steps_ok [OF b(2) s2 i b(3) [symmetric] b(4) refl] ep unfolding v' by blast
      then show ?thesis
      proof cases
        case 1
        then show ?thesis unfolding steps by (auto simp: stopped_def)
      next
        case e: (2 g4 live4 q)
        have u: "is_edge_undirected g2 l = is_edge_undirected g l"
          using 2(5) b(5) by (simp add: same_shape_def is_edge_undirected_def)
        obtain sg4 sg5 where f: "segments g4 p = Some sg4"
          "insert_edge i (region_ptrs S i) dst data sg4 = Inr sg5"
          "graph_rel P (g4\<lparr>segments := (segments g4)(p \<mapsto> sg5)\<rparr>) ?lgs live4"
          "heads g2 {(p, i)} \<longrightarrow> heads (g4\<lparr>segments := (segments g4)(p \<mapsto> sg5)\<rparr>) {}"
          using put_edge_end [OF b(2) s2 i b(3) [symmetric] b(4) _ _ _ len refl] reg S e(2) unfolding v' u
          by (metis option.sel)
        have "same_shape g (g4\<lparr>segments := (segments g4)(p \<mapsto> sg5)\<rparr>)"
          using 2(5) b(5) e(2) by (simp add: same_shape_def tabled_def)
        then show ?thesis unfolding steps e(1) using f valid 2(6) b(7) by auto
      qed
    qed
  qed
qed

end
