(* ===== verification/Edge_Store.thy ===== *)
theory Edge_Store
  imports Seg_Refine
begin

text \<open>
  Whole runs of the edge store: a client creates vertices and adds edges with \<open>new_vertex\<close> and
  \<open>put_edge\<close>. After any run that returns, the store holds exactly the edges that were put, per
  vertex, label and direction, in order and with their properties; the run never leaves the
  structure as long as the vertices stay below the last segment of the capacity.
\<close>

section \<open>Runs\<close>

datatype store_op = New_Vertex | Put_Edge int nat nat dir_t u64 bytes | Recycle int

fun run_store :: "store_op list \<Rightarrow> seg_graph \<Rightarrow> seg_error + seg_graph" where
  "run_store [] g = Inr g"
| "run_store (New_Vertex # ops) g =
     (case new_vertex g of Inl e \<Rightarrow> Inl e | Inr (v, g') \<Rightarrow> run_store ops g')"
| "run_store (Put_Edge epoch v l d dst data # ops) g =
     (case put_edge epoch v l d dst data g of Inl e \<Rightarrow> Inl e | Inr g' \<Rightarrow> run_store ops g')"
| "run_store (Recycle epoch # ops) g = run_store ops (recycle_segments epoch g)"

text \<open>The edges stored for a vertex, label and direction, oldest first.\<close>

definition stored_edges :: "seg_graph \<Rightarrow> nat \<Rightarrow> nat \<Rightarrow> nat \<Rightarrow> dir_t \<Rightarrow> edge list" where
  "stored_edges g prop_size v l d =
     (let p = sp g (get_vertex_seg_id v) l d in
      if p = 0 then [] else content (seg_at g p) prop_size (get_vertex_seg_idx v))"

text \<open>The edges a run puts for them.\<close>

definition undirected_label :: "bool list \<Rightarrow> nat \<Rightarrow> bool" where
  "undirected_label und l \<longleftrightarrow> l < length und \<and> und ! l"

fun edges_put :: "bool list \<Rightarrow> nat \<Rightarrow> nat \<Rightarrow> dir_t \<Rightarrow> store_op list \<Rightarrow> log" where
  "edges_put und v l d [] = []"
| "edges_put und v l d (New_Vertex # ops) = edges_put und v l d ops"
| "edges_put und v l d (Put_Edge epoch v' l' d' dst data # ops) =
     (if v = v' \<and> l = l' \<and> (d = d' \<or> undirected_label und l) then (epoch, dst, data) # edges_put und v l d ops
      else edges_put und v l d ops)"
| "edges_put und v l d (Recycle epoch # ops) = edges_put und v l d ops"

fun put_epochs :: "store_op list \<Rightarrow> int list" where
  "put_epochs [] = []"
| "put_epochs (New_Vertex # ops) = put_epochs ops"
| "put_epochs (Put_Edge epoch v l d dst data # ops) = epoch # put_epochs ops"
| "put_epochs (Recycle epoch # ops) = put_epochs ops"

fun props_fit :: "(nat \<Rightarrow> nat) \<Rightarrow> store_op list \<Rightarrow> bool" where
  "props_fit P [] \<longleftrightarrow> True"
| "props_fit P (New_Vertex # ops) \<longleftrightarrow> props_fit P ops"
| "props_fit P (Put_Edge epoch v l d dst data # ops) \<longleftrightarrow>
     length data = P l \<and> props_fit P ops"
| "props_fit P (Recycle epoch # ops) \<longleftrightarrow> props_fit P ops"

fun vertices_made :: "store_op list \<Rightarrow> nat" where
  "vertices_made [] = 0"
| "vertices_made (New_Vertex # ops) = Suc (vertices_made ops)"
| "vertices_made (Put_Edge epoch v l d dst data # ops) = vertices_made ops"
| "vertices_made (Recycle epoch # ops) = vertices_made ops"

section \<open>What adding an edge leaves of the vertices\<close>

definition only_label :: "nat \<Rightarrow> seg_graph \<Rightarrow> seg_graph \<Rightarrow> bool" where
  "only_label s g g' \<longleftrightarrow> seg_count g' = seg_count g \<and> vertex_count g' = vertex_count g \<and>
     deleted_inner g' = deleted_inner g \<and> deleted_outer g' = deleted_outer g \<and>
     (\<forall>s'. s' \<noteq> s \<longrightarrow> lp g' s' = lp g s')"

lemma only_label_refl [simp]: "only_label s g g"
  by (simp add: only_label_def)

lemma only_label_trans: "only_label s g1 g2 \<Longrightarrow> only_label s g2 g3 \<Longrightarrow> only_label s g1 g3"
  by (simp add: only_label_def)

lemma update_edge_label_block_only: "update_edge_label_block s l d p g = Inr g' \<Longrightarrow> only_label s g g'"
  by (auto simp: update_edge_label_block_def only_label_def Let_def
      split: if_splits option.splits prod.splits)

lemma ensure_segment_only: "ensure_segment s l d g = Inr (p, g') \<Longrightarrow> only_label s g g'"
  by (auto simp: ensure_segment_def Let_def only_label_def split: sum.splits if_splits prod.splits
      dest!: update_edge_label_block_only)

lemma replace_segment_only:
  "replace_segment epoch s i l d p sg prop_size g = Inr (p', g') \<Longrightarrow> only_label s g g'"
  by (auto simp: replace_segment_def Let_def only_label_def split: sum.splits if_splits prod.splits
      dest!: update_edge_label_block_only)

lemma ensure_block_only: "ensure_block epoch s i l d p prop_size g = Inr (p', g') \<Longrightarrow> only_label s g g'"
  by (auto simp: ensure_block_def Let_def only_label_def
      split: option.splits sum.splits if_splits prod.splits dest!: replace_segment_only)

lemma ensure_epoch_table_only: "ensure_epoch_table epoch i p g = Inr (tp, g') \<Longrightarrow> only_label s g g'"
  by (auto simp: ensure_epoch_table_def Let_def only_label_def split: option.splits if_splits prod.splits)

lemma advance_epoch_only: "advance_epoch epoch i p tp n g = Inr g' \<Longrightarrow> only_label s g g'"
  by (auto simp: advance_epoch_def Let_def only_label_def split: option.splits if_splits prod.splits)

lemma put_edge_only:
  assumes "put_edge epoch v l d dst data g = Inr g'"
  shows "only_label (get_vertex_seg_id v) g g'"
proof -
  let ?s = "get_vertex_seg_id v" and ?i = "get_vertex_seg_idx v"
  obtain p0 g1 p g2 tp g3 n g4 sg where
    run: "ensure_segment ?s l d g = Inr (p0, g1)" "ensure_block epoch ?s ?i l d p0 (length data) g1 = Inr (p, g2)"
      "ensure_epoch_table epoch ?i p g2 = Inr (tp, g3)" "advance_epoch epoch ?i p tp n g3 = Inr g4"
    and g': "g' = g4\<lparr>segments := (segments g4)(p \<mapsto> sg)\<rparr>"
    using assms by (auto simp: put_edge_def Let_def split: if_splits sum.splits prod.splits option.splits)
  have "only_label ?s g g4"
    using ensure_segment_only [OF run(1)] ensure_block_only [OF run(2)] ensure_epoch_table_only [OF run(3)]
      advance_epoch_only [OF run(4)] by (blast intro: only_label_trans)
  then show ?thesis by (simp add: g' only_label_def)
qed

text \<open>The segments in use come first, and the vertices lie in them.\<close>

definition verts_ok :: "seg_graph \<Rightarrow> bool" where
  "verts_ok g \<longleftrightarrow> vertex_count g \<le> seg_count g * VERTEX_PER_SEG \<and> seg_count g \<le> num_segs g \<and>
     (\<forall>s. seg_count g \<le> s \<longrightarrow> s < num_segs g \<longrightarrow> lp g s = 0)"

lemma vertex_segment: "verts_ok g \<Longrightarrow> v < vertex_count g \<Longrightarrow> get_vertex_seg_id v < seg_count g"
  by (auto simp: verts_ok_def get_vertex_seg_id_def less_mult_imp_div_less)

lemma put_edge_verts_ok:
  assumes "verts_ok g" and "v < vertex_count g" and "put_edge epoch v l d dst data g = Inr g'"
    and "same_shape g g'"
  shows "verts_ok g'"
  using put_edge_only [OF assms(3)] vertex_segment [OF assms(1,2)] assms(1,4)
  by (simp add: verts_ok_def same_shape_def only_label_def)

lemma new_vertex_ok:
  assumes "verts_ok g"
  shows "new_vertex g = (if vertex_count g = seg_count g * VERTEX_PER_SEG \<and> num_segs g \<le> seg_count g + 1
     then Inl Fault
     else Inr (vertex_count g, g\<lparr>vertex_count := vertex_count g + 1,
       seg_count := (if vertex_count g = seg_count g * VERTEX_PER_SEG then seg_count g + 1 else seg_count g)\<rparr>))"
proof -
  have le: "vertex_count g \<le> seg_count g * VERTEX_PER_SEG" using assms by (simp add: verts_ok_def)
  have eq: "seg_count g \<le> get_vertex_seg_id (vertex_count g) \<longleftrightarrow> vertex_count g = seg_count g * VERTEX_PER_SEG"
  proof
    assume "seg_count g \<le> get_vertex_seg_id (vertex_count g)"
    then have "seg_count g * VERTEX_PER_SEG \<le> vertex_count g div VERTEX_PER_SEG * VERTEX_PER_SEG"
      by (simp add: get_vertex_seg_id_def)
    also have "\<dots> \<le> vertex_count g" by (rule div_times_less_eq_dividend)
    finally show "vertex_count g = seg_count g * VERTEX_PER_SEG" using le by simp
  qed (simp add: get_vertex_seg_id_def VERTEX_PER_SEG_def)
  have "(edge_label_ptrs g)[seg_count g + 1 := 0] = edge_label_ptrs g" if "seg_count g + 1 < num_segs g"
    using assms that by (intro list_update_same_conv [THEN iffD2]) (simp_all add: verts_ok_def)
  then show ?thesis
    by (auto simp: new_vertex_def Let_def eq NULLPOINTER_def)
qed

section \<open>The refinement along a run\<close>

text \<open>The relation does not depend on the counters of a store.\<close>

lemma graph_rel_cong:
  assumes "graph_rel P g lgs live"
    and f: "manager g' = manager g" "edge_label_ptrs g' = edge_label_ptrs g" "label_blocks g' = label_blocks g"
      "segments g' = segments g" "epoch_blocks g' = epoch_blocks g" "edge_is_undirected g' = edge_is_undirected g"
      "segments_to_recycle g' = segments_to_recycle g"
  shows "graph_rel P g' lgs live"
proof -
  note RD = graph_relD [OF assms(1)]
  have sp: "sp g' s l d = sp g s l d" for s l d by (rule sp_cong [OF f(2,3)])
  have tb: "tbl g' s l d i = tbl g s l d i" for s l d i by (simp add: tbl_def sp f)
  have u: "is_edge_undirected g' l = is_edge_undirected g l" for l by (simp add: is_edge_undirected_def f)
  have "labels_ok g' live" by (rule labels_ok_cong [OF f(2,3) order.refl RD(3)])
  moreover have "segs_ok P g' live" using RD(4) unfolding segs_ok_def sp f .
  moreover have "ptrs_ok g'" using RD(5) unfolding ptrs_ok_def sp u f .
  moreover have "tables_ok g' live" using RD(6) unfolding tables_ok_def sp tb f .
  moreover have "logs_ok P g' lgs" using RD(7) unfolding logs_ok_def sp f .
  moreover have "role_of g' a r = role_of g a r" for a r by (cases r) (simp_all add: role_of_def sp tb f)
  then have "roles_ok g' live" using RD(10) by (simp add: roles_ok_def f)
  ultimately show ?thesis using RD(1,2,8,9) by (simp add: graph_rel_def u f)
qed

lemma graph_rel_verts:
  "graph_rel P g lgs live \<Longrightarrow> graph_rel P (g\<lparr>vertex_count := a, seg_count := b\<rparr>) lgs live"
  by (rule graph_rel_cong) simp_all

text \<open>Freeing blocks one after another.\<close>

lemma free_all_ok:
  assumes "bm_ok m live" and "orders_ok m live" and "distinct (map fst xs)"
    and "\<forall>x \<in> set xs. (fst x, fst (snd x)) \<in> live"
  shows "bm_ok (foldl (\<lambda>m (p, order, epoch). free p order m) m xs) (live - (\<lambda>x. (fst x, fst (snd x))) ` set xs) \<and>
    orders_ok (foldl (\<lambda>m (p, order, epoch). free p order m) m xs) (live - (\<lambda>x. (fst x, fst (snd x))) ` set xs)"
  using assms
proof (induction xs arbitrary: m live)
  case (Cons x xs)
  obtain p order epoch where x: "x = (p, order, epoch)" by (metis prod.exhaust)
  let ?m = "free p order m" and ?live = "live - {(p, order)}"
  have held: "(p, order) \<in> live" using Cons.prems(4) by (simp add: x)
  have ok: "bm_ok ?m ?live" by (rule blocks.release_ok [OF Cons.prems(1) held])
  have "frees ?m = insert (p, order) (frees m)" by (auto simp: frees_def free_list_free split: if_splits)
  moreover have "order < 62" "capacity ?m = capacity m"
    using Cons.prems(2) held by (force simp: orders_ok_def, simp add: free_def)
  ultimately have ord: "orders_ok ?m ?live"
    using Cons.prems(2) by (auto simp: orders_ok_def)
  have "\<forall>y \<in> set xs. (fst y, fst (snd y)) \<in> ?live"
    using Cons.prems(3,4) by (force simp: x)
  from Cons.IH [OF ok ord _ this] Cons.prems(3)
  show ?case by (simp add: x insert_Diff_if Diff_insert2 [symmetric] Diff_insert [symmetric])
qed simp

text \<open>Recycling frees only segments no label points to any more.\<close>

lemma recycle_rel:
  assumes R: "graph_rel P g lgs live"
  shows "\<exists>live'. graph_rel P (recycle_segments e g) lgs live'"
proof -
  note RD = graph_relD [OF R]
  let ?g = "recycle_segments e g" and ?xs = "segments_to_recycle g"
  define old where "old = filter (\<lambda>(p, order, epoch). epoch + LAG_EPOCH_NUMBER < e) ?xs"
  define kept where "kept = filter (\<lambda>(p, order, epoch). \<not> epoch + LAG_EPOCH_NUMBER < e) ?xs"
  define live' where "live' = live - (\<lambda>x. (fst x, fst (snd x))) ` set old"
  have g: "?g = g\<lparr>manager := foldl (\<lambda>m (p, order, epoch). free p order m) (manager g) old, segments_to_recycle := kept\<rparr>"
    by (simp add: recycle_segments_def Let_def old_def kept_def)
  have held: "\<forall>x \<in> set ?xs. (fst x, fst (snd x)) \<in> live \<and> (\<forall>r. \<not> role_of g (fst x) r)"
    and dist: "distinct (map fst ?xs)"
    using RD(10) unfolding roles_ok_def by blast+
  have part: "set old \<subseteq> set ?xs" "set kept \<subseteq> set ?xs" "set old \<inter> set kept = {}"
    by (auto simp: old_def kept_def)
  have do: "distinct (map fst old)" "distinct (map fst kept)"
    using dist by (simp_all add: old_def kept_def distinct_map_filter)
  have bm: "bm_ok (manager ?g) live'" "orders_ok (manager ?g) live'"
    using free_all_ok [OF RD(1,2) do(1)] held part(1) by (auto simp: g live'_def)
  have f: "edge_label_ptrs ?g = edge_label_ptrs g" "label_blocks ?g = label_blocks g" "segments ?g = segments g"
    "epoch_blocks ?g = epoch_blocks g" "edge_is_undirected ?g = edge_is_undirected g" by (simp_all add: g)
  have u: "is_edge_undirected ?g l = is_edge_undirected g l" for l by (simp add: is_edge_undirected_def f)
  have sp: "sp ?g s l d = sp g s l d" for s l d by (rule sp_cong [OF f(1,2)])
  have tb: "tbl ?g s l d i = tbl g s l d i" for s l d i by (simp add: tbl_def sp f)
  have role: "role_of ?g a r = role_of g a r" for a r by (cases r) (simp_all add: role_of_def f sp tb)
  have keep: "(a, ord) \<in> live'" if "(a, ord) \<in> live" "role_of g a r" for a ord r
    using that held part(1) by (auto simp: live'_def)
  have "labels_ok ?g live'"
    using RD(3) keep [where r = Label] unfolding labels_ok_def f by (auto simp: role_of_def) blast+
  moreover have "segs_ok P ?g live'"
    using RD(4) keep [where r = Segment] unfolding segs_ok_def f sp by (auto simp: role_of_def) blast+
  moreover have "ptrs_ok ?g" using RD(5) by (simp add: ptrs_ok_def f sp u)
  moreover have "tables_ok ?g live'"
  proof -
    have "\<exists>t. epoch_blocks g (tbl g s l d i) = Some t \<and> (tbl g s l d i, ep_order t) \<in> live'"
      if a: "s < num_segs g" "i < VERTEX_PER_SEG" "tbl g s l d i \<noteq> 0" for s l d i
    proof -
      have "role_of g (tbl g s l d i) Table" using a by (auto simp: role_of_def)
      then show ?thesis using tables_okD(1) [OF RD(6) a] keep by blast
    qed
    moreover have "sp g s l d = sp g s' l' d' \<and> i = i'"
      if "s < num_segs g" "s' < num_segs g" "i < VERTEX_PER_SEG" "i' < VERTEX_PER_SEG"
        "tbl g s l d i \<noteq> 0" "tbl g s l d i = tbl g s' l' d' i'" for s s' l l' d d' i i'
      by (rule tables_okD(2) [OF RD(6) that])
    ultimately show ?thesis unfolding tables_ok_def f tb sp by blast
  qed
  moreover have "logs_ok P ?g lgs" using RD(7) by (simp add: logs_ok_def f sp)
  moreover have "roles_ok ?g live'"
  proof -
    have "(fst x, fst (snd x)) \<in> live'" if "x \<in> set kept" for x
    proof -
      have "fst y \<noteq> fst x" if "y \<in> set old" for y
        using dist part that \<open>x \<in> set kept\<close> unfolding distinct_map inj_on_def by blast
      then have "(fst x, fst (snd x)) \<notin> (\<lambda>x. (fst x, fst (snd x))) ` set old"
        by (metis (lifting) imageE prod.inject)
      then show ?thesis using held part(2) that unfolding live'_def by blast
    qed
    then show ?thesis
      using RD(10) do(2) held part(2) unfolding roles_ok_def role by (auto simp: g)
  qed
  ultimately show ?thesis
    using bm RD(8,9) by (auto simp: graph_rel_def u)
qed

lemma new_manager_frees: "frees (new_block_manager cap) = {}"
  by (auto simp: new_block_manager_def alloc_def Let_def pop_free_def pop_block_def frees_def free_list_def
      NULLPOINTER_def split: if_splits)

lemma new_seg_graph_rel:
  assumes "2 ^ 20 \<le> cap" and "cap < 2 ^ 62" and "\<forall>l. P l \<le> MAX_PROP"
  shows "graph_rel P (new_seg_graph cap maxv und) (\<lambda>v l d. []) {}"
proof -
  let ?g = "new_seg_graph cap maxv und"
  have lp: "lp ?g s = 0" if "s < num_segs ?g" for s
    using that by (simp add: new_seg_graph_def NULLPOINTER_def)
  have sp: "sp ?g s l d = 0" if "s < num_segs ?g" for s l d
    using that lp [OF that] by (simp add: sp_def locate_segment_def NULLPOINTER_def)
  have "capacity (new_block_manager cap) = cap"
    using alloc_capacity by (simp add: new_block_manager_def) (metis prod.collapse block_manager.select_convs(1))
  then have "orders_ok (manager ?g) {}"
    using assms(2) by (simp add: orders_ok_def new_seg_graph_def new_manager_frees)
  moreover have "bm_ok (manager ?g) {}"
    using new_block_manager_ok [OF assms(1)] by (simp add: new_seg_graph_def)
  ultimately show ?thesis
    using lp sp assms(3)
    by (simp add: graph_rel_def labels_ok_def segs_ok_def ptrs_ok_def tables_ok_def logs_ok_def tbl_def
        roles_ok_def role_of_def new_seg_graph_def split: role.splits)
qed

lemma undirected_graph: "is_edge_undirected g l = undirected_label (edge_is_undirected g) l"
  by (simp add: is_edge_undirected_def undirected_label_def)

text \<open>All epochs in the logs are at most those still to come.\<close>

definition logs_before :: "logs \<Rightarrow> store_op list \<Rightarrow> bool" where
  "logs_before lgs ops \<longleftrightarrow> (\<forall>v l d. \<forall>x \<in> set (lgs v l d). \<forall>e \<in> set (put_epochs ops). fst x \<le> e)"

text \<open>
  A run from a related state: it ends in a related state with the logs extended by what it put, or
  stops at a failed allocation or an invalid vertex, or at the vertex that opens the last segment.
\<close>

lemma run_store_ok:
  assumes "graph_rel P g lgs live" and "verts_ok g" and "edge_is_undirected g = und"
    and "sorted (put_epochs ops)" and "props_fit P ops" and "logs_before lgs ops"
  shows "case run_store ops g of
      Inl e \<Rightarrow> e = Fault \<longrightarrow> (num_segs g - 1) * VERTEX_PER_SEG < vertex_count g + vertices_made ops
    | Inr g' \<Rightarrow> vertex_count g' = vertex_count g + vertices_made ops \<and> verts_ok g' \<and>
        edge_is_undirected g' = und \<and>
        (\<exists>live'. graph_rel P g' (\<lambda>v l d. lgs v l d @ edges_put und v l d ops) live') \<and>
        (heads g {} \<longrightarrow> heads g' {})"
  using assms
proof (induction ops arbitrary: g lgs live)
  case Nil
  then show ?case by auto
next
  case (Cons op ops)
  show ?case
  proof (cases op)
    case (Recycle e)
    obtain live' where rel: "graph_rel P (recycle_segments e g) lgs live'" using recycle_rel [OF Cons.prems(1)] by blast
    have f: "edge_label_ptrs (recycle_segments e g) = edge_label_ptrs g" "vertex_count (recycle_segments e g) = vertex_count g"
      "seg_count (recycle_segments e g) = seg_count g" "segments (recycle_segments e g) = segments g"
      "edge_is_undirected (recycle_segments e g) = edge_is_undirected g"
      by (simp_all add: recycle_segments_def Let_def)
    have ok: "verts_ok (recycle_segments e g)" using Cons.prems(2) by (simp add: verts_ok_def f)
    have und: "edge_is_undirected (recycle_segments e g) = und" using Cons.prems(3) by (simp add: f)
    have prems: "sorted (put_epochs ops)" "props_fit P ops" "logs_before lgs ops"
      using Cons.prems(4-6) by (simp_all add: Recycle logs_before_def)
    show ?thesis
      using Cons.IH [OF rel ok und prems] by (simp add: Recycle f heads_def split: sum.splits)
  next
    case New_Vertex
    let ?full = "vertex_count g = seg_count g * VERTEX_PER_SEG"
    define g' where "g' = g\<lparr>vertex_count := vertex_count g + 1,
       seg_count := (if ?full then seg_count g + 1 else seg_count g)\<rparr>"
    have fields: "vertex_count g' = vertex_count g + 1" "num_segs g' = num_segs g"
      "edge_is_undirected g' = und" "heads g' {} = heads g {}"
      using Cons.prems(3) by (simp_all add: g'_def heads_def)
    show ?thesis
    proof (cases "?full \<and> num_segs g \<le> seg_count g + 1")
      case True
      have run: "run_store (op # ops) g = Inl Fault"
        unfolding New_Vertex run_store.simps new_vertex_ok [OF Cons.prems(2)] if_P [OF True] by simp
      have "(num_segs g - 1) * VERTEX_PER_SEG \<le> vertex_count g" using True by auto
      then show ?thesis unfolding run by (simp add: New_Vertex)
    next
      case False
      have run: "run_store (op # ops) g = run_store ops g'"
        unfolding New_Vertex run_store.simps new_vertex_ok [OF Cons.prems(2)] if_not_P [OF False] g'_def by simp
      have ok: "verts_ok g'" using Cons.prems(2) False by (auto simp: verts_ok_def g'_def VERTEX_PER_SEG_def)
      have rel: "graph_rel P g' lgs live" unfolding g'_def by (rule graph_rel_verts [OF Cons.prems(1)])
      have before: "logs_before lgs ops" and so: "sorted (put_epochs ops)" and fit: "props_fit P ops"
        using Cons.prems(4-6) New_Vertex by (simp_all add: logs_before_def)
      show ?thesis
        using Cons.IH [OF rel ok fields(3) so fit before] unfolding run fields
        by (simp add: New_Vertex split: sum.splits)
    qed
  next
    case (Put_Edge epoch v l d dst data)
    have len: "length data = P l" and so: "sorted (put_epochs ops)" and fit: "props_fit P ops"
      and later: "\<forall>e \<in> set (put_epochs ops). epoch \<le> e"
      using Cons.prems(4,5) Put_Edge by simp_all
    show ?thesis
    proof (cases "v < vertex_count g")
      case False
      then show ?thesis by (simp add: Put_Edge put_edge_def)
    next
      case True
      let ?u = "is_edge_undirected g l"
      let ?lgs = "log_edge ?u v l d (epoch, dst, data) lgs"
      have seg: "get_vertex_seg_id v < num_segs g"
        using vertex_segment [OF Cons.prems(2) True] Cons.prems(2) by (simp add: verts_ok_def)
      have ep: "lgs v l d \<noteq> [] \<longrightarrow> fst (last (lgs v l d)) \<le> epoch"
      proof -
        have "fst x \<le> epoch" if "x \<in> set (lgs v l d)" for x
          using Cons.prems(6) that unfolding logs_before_def Put_Edge put_epochs.simps by (meson list.set_intros(1))
        then show ?thesis by simp
      qed
      note put = put_edge_ok [OF Cons.prems(1) len seg ep, of dst]
      show ?thesis
      proof (cases "put_edge epoch v l d dst data g")
        case (Inl e)
        then show ?thesis using put by (auto simp: Put_Edge)
      next
        case (Inr g')
        then obtain live' where g': "same_shape g g'" "graph_rel P g' ?lgs live'"
          and hd: "heads g {} \<longrightarrow> heads g' {}" using put by auto
        have before: "logs_before ?lgs ops"
          using Cons.prems(6) Put_Edge later by (auto simp: logs_before_def log_edge_def)
        have ok: "verts_ok g'" by (rule put_edge_verts_ok [OF Cons.prems(2) True Inr g'(1)])
        have und: "edge_is_undirected g' = und" using g'(1) Cons.prems(3) by (simp add: same_shape_def)
        have n: "num_segs g' = num_segs g" "vertex_count g' = vertex_count g"
          using g'(1) by (simp_all add: same_shape_def)
        have logs: "(\<lambda>v' l' d'. ?lgs v' l' d' @ edges_put und v' l' d' ops) =
            (\<lambda>v' l' d'. lgs v' l' d' @ edges_put und v' l' d' (op # ops))"
          using Cons.prems(3) by (intro ext) (auto simp: Put_Edge log_edge_def undirected_graph)
        show ?thesis
          using Cons.IH [OF g'(2) ok und so fit before] hd unfolding n logs
          by (auto simp: Put_Edge Inr split: sum.splits)
      qed
    qed
  qed
qed

text \<open>The same from the empty store.\<close>

lemma new_store_run:
  assumes "2 ^ 20 \<le> cap" and "cap < 2 ^ 62" and "\<forall>l. P l \<le> MAX_PROP"
    and "sorted (put_epochs ops)" and "props_fit P ops"
  shows "case run_store ops (new_seg_graph cap maxv und) of
      Inl e \<Rightarrow> e = Fault \<longrightarrow> (maxv div VERTEX_PER_SEG - 1) * VERTEX_PER_SEG < vertices_made ops
    | Inr g' \<Rightarrow> vertex_count g' = vertices_made ops \<and> verts_ok g' \<and> edge_is_undirected g' = und \<and>
        (\<exists>live'. graph_rel P g' (\<lambda>v l d. edges_put und v l d ops) live') \<and> heads g' {}"
proof -
  let ?g = "new_seg_graph cap maxv und"
  have "heads ?g {}" by (simp add: heads_def new_seg_graph_def)
  have v: "verts_ok ?g" by (simp add: verts_ok_def new_seg_graph_def NULLPOINTER_def)
  have f: "num_segs ?g = maxv div VERTEX_PER_SEG" "vertex_count ?g = 0" "edge_is_undirected ?g = und"
    by (simp_all add: new_seg_graph_def)
  have "logs_before (\<lambda>v l d. []) ops" by (simp add: logs_before_def)
  from run_store_ok [OF new_seg_graph_rel [OF assms(1-3)] v f(3) assms(4,5) this] \<open>heads ?g {}\<close>
  show ?thesis by (simp add: f(1,2) split: sum.splits)
qed

lemma stored_of_rel:
  assumes R: "graph_rel P g lgs live" and "verts_ok g" and "v < vertex_count g"
  shows "stored_edges g (P l) v l d = map snd (lgs v l d)"
proof -
  let ?s = "get_vertex_seg_id v" and ?i = "get_vertex_seg_idx v"
  have s: "?s < num_segs g" using vertex_segment [OF assms(2,3)] assms(2) by (simp add: verts_ok_def)
  have i: "?i < VERTEX_PER_SEG" and v: "?s * VERTEX_PER_SEG + ?i = v"
    by (simp_all add: get_vertex_seg_id_def get_vertex_seg_idx_def VERTEX_PER_SEG_def)
  note lo = logs_okD [OF graph_relD(7) [OF R] s i, of l d, unfolded v]
  show ?thesis
    using lo by (cases "sp g ?s l d = 0") (simp_all add: stored_edges_def Let_def region_rel_def)
qed

section \<open>A run evaluated\<close>

lemma replicate_two: "replicate 2 x = [x, x]"
  by (simp add: numeral_2_eq_2)

lemma orders_of_blocks:
  "size_to_order 48 = 6" "size_to_order 56 = 6" "size_to_order 80 = 7"
  by (simp_all add: size_to_order_def halvings.simps)

lemma nothing_freed:
  "free_blocks bm = (\<lambda>k. []) \<Longrightarrow> large_free_blocks bm = (\<lambda>k. []) \<Longrightarrow> getUsedMemory bm = used_size bm"
  by (simp add: getUsedMemory_eq free_list_def cong: if_cong)

text \<open>With nothing freed, a block comes from the end of the used part.\<close>

lemma alloc_bump:
  assumes "free_blocks bm = (\<lambda>k. [])" "large_free_blocks bm = (\<lambda>k. [])"
    and "used_size bm + 2 ^ order \<le> capacity bm" "used_size bm + 2 ^ order < file_size bm"
  shows "alloc order bm = (used_size bm, bm\<lparr>used_size := used_size bm + 2 ^ order\<rparr>)"
  using assms by (simp add: alloc_def Let_def pop_free_def pop_block_def NULLPOINTER_def nothing_freed)

lemmas store_eval = new_vertex_def new_seg_graph_def Let_def new_block_manager_def alloc_bump
  LARGE_BLOCK_THRESHOLD_def NULLPOINTER_def size_defs FILE_TRUNC_SIZE_def replicate_two
  put_edge_def get_vertex_seg_id_def get_vertex_seg_idx_def ensure_segment_def locate_segment_def
  first_order_init update_edge_label_block_def orders_of_blocks fill_label_block_def new_label_entry_def
  point_entry_def set_pointer_def is_edge_undirected_def append_label_def label_has_space_def
  get_block_size_def ensure_block_def fill_segment_def convert_block_def DEFAULT_INIT_ORDER_def
  alloc_slots_def required_slots_def extend_region_def COPY_THRESHOLD_ORDER_def put_block_def
  fill_edge_block_def set_region_ptr_def ensure_epoch_table_def append_epoch_def fill_epoch_block_def
  epoch_has_space_def advance_epoch_def set_epoch_table_def get_allocated_edge_num_def append_edge_def
  has_space_def get_vegito_block_size_def get_num_entries_def insert_edge_def append_property_def
  property_start_def find_label_def get_pointer_def

definition demo_store :: "store_op list" where
  "demo_store = [New_Vertex, New_Vertex, Put_Edge 1 0 0 EOUT 1 [7, 8], Put_Edge 1 1 0 EIN 0 [7, 8],
     Put_Edge 2 0 0 EOUT 1 [9, 9]]"

lemma store_demo_run: "\<exists>g. run_store demo_store (new_seg_graph 67108864 8192 [False]) = Inr g"
  by (simp add: demo_store_def store_eval cong: if_cong)

definition demo_prop :: "nat \<Rightarrow> nat" where
  "demo_prop l = 2"

lemma demo_fits:
  "2 ^ 20 \<le> (67108864::nat)" "(67108864::nat) < 2 ^ 62" "\<forall>l. demo_prop l \<le> MAX_PROP"
  "sorted (put_epochs demo_store)" "props_fit demo_prop demo_store" "vertices_made demo_store = 2"
  by (simp_all add: demo_prop_def MAX_PROP_def demo_store_def)

section \<open>Properties of runs\<close>

text \<open>
C1: After any run of vertex creations, edge insertions and recyclings of replaced segments that
returns, from an empty store, the edges stored for a vertex, label and direction are exactly those the run put for them (in either
direction, for an undirected label), in the order they were put and each with its property bytes.
This holds through every path of the insertion: a new segment, a copied or chained block, a
segment replaced by a larger one, a full epoch table.
\<close>

theorem edge_store_contents:
  assumes "2 ^ 20 \<le> cap" and "cap < 2 ^ 62" and "\<forall>l. P l \<le> MAX_PROP"
    and "sorted (put_epochs ops)" and "props_fit P ops"
    and "run_store ops (new_seg_graph cap maxv und) = Inr g" and "v < vertices_made ops"
  shows "stored_edges g (P l) v l d = map snd (edges_put und v l d ops)"
  using new_store_run [OF assms(1-5), of maxv und] assms(6,7) stored_of_rel [of P g _ _ v l d] by auto

lemma edge_store_contents_witness:
  "\<exists>g. run_store demo_store (new_seg_graph 67108864 8192 [False]) = Inr g \<and>
     stored_edges g 2 0 0 EOUT = [(1, [7, 8]), (1, [9, 9])] \<and> stored_edges g 2 1 0 EIN = [(0, [7, 8])]"
proof -
  obtain g where g: "run_store demo_store (new_seg_graph 67108864 8192 [False]) = Inr g"
    using store_demo_run by blast
  have "stored_edges g (demo_prop 0) v 0 d = map snd (edges_put [False] v 0 d demo_store)" if "v < 2" for v d
    using edge_store_contents [OF demo_fits(1-5) g] that by (simp add: demo_fits(6))
  from this [of 0 EOUT] this [of 1 EIN] show ?thesis
    using g by (simp add: demo_prop_def demo_store_def undirected_label_def)
qed



text \<open>
C23: A segment that waits to be recycled is one no label points to any more, in whatever order edges
were added and segments recycled before; no block is waiting twice, so freeing them one after another
gives back each block once and none that is in use.
\<close>

theorem recycle_safe:
  assumes "2 ^ 20 \<le> cap" and "cap < 2 ^ 62" and "\<forall>l. P l \<le> MAX_PROP"
    and "sorted (put_epochs ops)" and "props_fit P ops"
    and "run_store ops (new_seg_graph cap maxv und) = Inr g"
  shows "distinct (map fst (segments_to_recycle g)) \<and>
    (\<forall>s < num_segs g. \<forall>l d. sp g s l d \<notin> fst ` set (segments_to_recycle g)) \<and>
    (\<exists>live. bm_ok (manager (recycle_segments e g)) live \<and>
       (\<forall>s < num_segs g. \<forall>l d. sp g s l d \<noteq> 0 \<longrightarrow> sp g s l d \<in> fst ` live))"
proof -
  obtain live where R: "graph_rel P g (\<lambda>v l d. edges_put und v l d ops) live"
    using new_store_run [OF assms(1-5), of maxv und] assms(6) by auto
  obtain live' where R': "graph_rel P (recycle_segments e g) (\<lambda>v l d. edges_put und v l d ops) live'"
    using recycle_rel [OF R] by blast
  have roles: "roles_ok g live" by (rule graph_relD(10) [OF R])
  have live0: "(0, k) \<notin> live" for k by (rule blocks.live_not_null [OF graph_relD(1) [OF R]])
  have "sp g s l d \<noteq> fst x" if "x \<in> set (segments_to_recycle g)" "s < num_segs g" for x s l d
  proof
    assume eq: "sp g s l d = fst x"
    have "(fst x, fst (snd x)) \<in> live" "\<not> role_of g (fst x) Segment"
      using roles that(1) unfolding roles_ok_def by blast+
    then show False using that(2) eq live0 by (auto simp: role_of_def)
  qed
  then have "\<forall>s < num_segs g. \<forall>l d. sp g s l d \<notin> fst ` set (segments_to_recycle g)" by blast
  moreover have "sp g s l d \<in> fst ` live'" if "s < num_segs g" "sp g s l d \<noteq> 0" for s l d
  proof -
    have eq: "sp (recycle_segments e g) s l d = sp g s l d"
      by (rule sp_cong) (simp_all add: recycle_segments_def Let_def)
    have n: "num_segs (recycle_segments e g) = num_segs g" by (simp add: recycle_segments_def Let_def)
    from segs_okD(4) [OF graph_relD(4) [OF R'], of s l d] that show ?thesis unfolding eq n by force
  qed
  ultimately show ?thesis
    using roles graph_relD(1) [OF R'] unfolding roles_ok_def by blast
qed

lemma recycle_safe_witness:
  "\<exists>g. run_store demo_store (new_seg_graph 67108864 8192 [False]) = Inr g \<and>
     (\<forall>s < num_segs g. \<forall>l d. sp g s l d \<notin> fst ` set (segments_to_recycle g))"
proof -
  obtain g where g: "run_store demo_store (new_seg_graph 67108864 8192 [False]) = Inr g"
    using store_demo_run by blast
  from recycle_safe [OF demo_fits(1-5) g, of 5] g show ?thesis by blast
qed

lemma new_vertices_run:
  assumes "verts_ok g" and "seg_count g \<le> num_segs g - 1"
  shows "run_store (replicate n New_Vertex) g = Inl Fault \<longleftrightarrow>
    (num_segs g - 1) * VERTEX_PER_SEG < vertex_count g + n"
  using assms
proof (induction n arbitrary: g)
  case 0
  have "vertex_count g \<le> seg_count g * VERTEX_PER_SEG" using 0 by (simp add: verts_ok_def)
  also have "\<dots> \<le> (num_segs g - 1) * VERTEX_PER_SEG" using 0(2) by (rule mult_right_mono) simp
  finally show ?case by simp
next
  case (Suc n)
  let ?full = "vertex_count g = seg_count g * VERTEX_PER_SEG"
  define g' where "g' = g\<lparr>vertex_count := vertex_count g + 1,
    seg_count := (if ?full then seg_count g + 1 else seg_count g)\<rparr>"
  have f: "num_segs g' = num_segs g" "vertex_count g' = vertex_count g + 1" by (simp_all add: g'_def)
  show ?case
  proof (cases "?full \<and> num_segs g \<le> seg_count g + 1")
    case True
    have run: "run_store (replicate (Suc n) New_Vertex) g = Inl Fault"
      unfolding replicate_Suc run_store.simps new_vertex_ok [OF Suc.prems(1)] if_P [OF True] by simp
    have "(num_segs g - 1) * VERTEX_PER_SEG \<le> vertex_count g" using True by auto
    then show ?thesis unfolding run by simp
  next
    case False
    have run: "run_store (replicate (Suc n) New_Vertex) g = run_store (replicate n New_Vertex) g'"
      unfolding replicate_Suc run_store.simps new_vertex_ok [OF Suc.prems(1)] if_not_P [OF False] g'_def by simp
    have "verts_ok g'" using Suc.prems(1) False by (auto simp: verts_ok_def g'_def VERTEX_PER_SEG_def)
    moreover have "seg_count g' \<le> num_segs g' - 1" using Suc.prems(2) False by (auto simp: g'_def)
    ultimately show ?thesis unfolding run using Suc.IH [of g'] f by simp
  qed
qed

text \<open>
C27: Creating vertices one after another writes past the end of the array of label pointers exactly
at the first vertex of the last segment, although the vertex capacity covers that segment: the
array has one entry per segment, and the first vertex of a segment clears the entry after its own.
\<close>

theorem new_vertex_overflow:
  "run_store (replicate n New_Vertex) (new_seg_graph cap maxv und) = Inl Fault \<longleftrightarrow>
     (maxv div VERTEX_PER_SEG - 1) * VERTEX_PER_SEG < n"
  using new_vertices_run [of "new_seg_graph cap maxv und" n]
  by (simp add: verts_ok_def new_seg_graph_def NULLPOINTER_def)

text \<open>
C22: In every reachable store, moving a segment into a new one of twice its size keeps the edges of
every vertex of the segment, in order and with their properties, and ends in a well-formed segment.
\<close>

theorem compaction_keeps_edges:
  assumes "2 ^ 20 \<le> cap" and "cap < 2 ^ 62" and "\<forall>l. P l \<le> MAX_PROP"
    and "sorted (put_epochs ops)" and "props_fit P ops"
    and "run_store ops (new_seg_graph cap maxv und) = Inr g"
    and "s < num_segs g" and "sp g s l d \<noteq> 0"
  shows "\<exists>sg N. segments g (sp g s l d) = Some sg \<and>
    merge_segment sg segidx (P l) (fill_segment np (sg_order sg + 1) segid) = Inr N \<and> seg_ok (P l) N \<and>
    (\<forall>i < VERTEX_PER_SEG. content N (P l) i = content sg (P l) i)"
proof -
  obtain live where R: "graph_rel P g (\<lambda>v l d. edges_put und v l d ops) live"
    using new_store_run [OF assms(1-5), of maxv und] assms(6) by auto
  note so = segs_okD [OF graph_relD(4) [OF R] assms(7,8)]
  have "sg_order (seg_at g (sp g s l d)) \<le> 62"
    using so(4) graph_relD(2) [OF R] by (force simp: orders_ok_def)
  from merge_segment_ok [OF so(3) _ this] show ?thesis
    using so(1) assms(3) by (metis moved_def)
qed

lemma compaction_keeps_edges_witness:
  "\<exists>g sg N. run_store demo_store (new_seg_graph 67108864 8192 [False]) = Inr g \<and>
     segments g (sp g 0 0 EOUT) = Some sg \<and>
     merge_segment sg (Some 0) 2 (fill_segment 99999 (sg_order sg + 1) 0) = Inr N \<and>
     content N 2 0 = [(1, [7, 8]), (1, [9, 9])]"
proof -
  obtain g where g: "run_store demo_store (new_seg_graph 67108864 8192 [False]) = Inr g"
    using store_demo_run by blast
  have rel: "verts_ok g" "vertex_count g = 2"
    "\<exists>live. graph_rel demo_prop g (\<lambda>v l d. edges_put [False] v l d demo_store) live"
    using new_store_run [OF demo_fits(1-5), of 8192 "[False]"] g by (simp_all add: demo_fits(6))
  then have st: "stored_edges g (demo_prop 0) 0 0 EOUT = [(1, [7, 8]), (1, [9, 9])]"
    using stored_of_rel [of demo_prop g _ _ 0 0 EOUT] by (auto simp: demo_store_def)
  then have nz: "sp g 0 0 EOUT \<noteq> 0"
    by (auto simp: stored_edges_def get_vertex_seg_id_def Let_def split: if_splits)
  have "0 < num_segs g" using vertex_segment [OF rel(1), of 0] rel(1,2) unfolding verts_ok_def by linarith
  from compaction_keeps_edges [OF demo_fits(1-5) g this nz, of "Some 0" 99999 0]
  show ?thesis using g st nz
    by (auto simp: stored_edges_def get_vertex_seg_id_def get_vertex_seg_idx_def demo_prop_def VERTEX_PER_SEG_def Let_def)
qed

end
