(* ===== verification/Seg_Reader.thy ===== *)
theory Seg_Reader
  imports Edge_Store Markers
begin

text \<open>
  Reading the edge store at an epoch. The writer's process reads with \<^verbatim>\<open>EpochGraphReader\<close>
  and \<^verbatim>\<open>EpochEdgeIterator\<close> (\<^verbatim>\<open>vegito/src/seggraph/epoch_graph_reader.cpp\<close>,
  \<^verbatim>\<open>vegito/include/seggraph/edge_iterator.hpp\<close>), which return every entry; the analytics
  processes read the same memory with \<^verbatim>\<open>EdgeIterator\<close>
  (\<^verbatim>\<open>interfaces/fragment/iterator.h\<close>), which skips deleted edges. Both start from the
  newest block of a vertex, search its epoch table for the number of edges visible at the epoch, and
  walk the entries from newest to oldest.

  A cursor is the address of its block (0: none) and the number of entries from it to the end of the
  block's array, \<^verbatim>\<open>entries - entries_cursor\<close>: the cursor stands on entry \<open>left - 1\<close>.
  \<open>None\<close> is an access outside the structure, or a loop that does not end.
\<close>

section \<open>The epoch table\<close>

datatype read_end = Whole | Upto nat | Nothing

text \<open>
  The search, newest entry first: the first entry whose epoch is at most the one read ends it, and the
  entry before it in this order holds the number of edges to read.
\<close>

fun search_epochs :: "int \<Rightarrow> nat option \<Rightarrow> (int \<times> nat) list \<Rightarrow> read_end" where
  "search_epochs e newer [] = Nothing"
| "search_epochs e newer ((epoch, off) # es) =
     (if e \<ge> epoch then (case newer of None \<Rightarrow> Whole | Some n \<Rightarrow> Upto n)
      else search_epochs e (Some off) es)"

text \<open>\<^verbatim>\<open>while (header->get_prev_num_entries() >= read_end_offset)\<close>\<close>

partial_function (option) back_to :: "segment \<Rightarrow> nat \<Rightarrow> nat \<Rightarrow> (nat \<times> edge_block) option" where
  [code]: "back_to sg k p =
     (case sg_blocks sg p of
        None \<Rightarrow> None
      | Some b \<Rightarrow> if prev_num_entries b \<ge> k then back_to sg k (prev_pointer b) else Some (p, b))"

definition init_cursor :: "segment \<Rightarrow> epoch_block \<Rightarrow> int \<Rightarrow> nat \<Rightarrow> nat \<Rightarrow> (nat \<times> nat) option" where
  "init_cursor sg t e num_entries p =
     (case search_epochs e None (rev (ep_entries t)) of
        Whole \<Rightarrow> Some (p, num_entries)
      | Nothing \<Rightarrow> Some (NULLPOINTER, 0)
      | Upto k \<Rightarrow> (case back_to sg k p of
          None \<Rightarrow> None
        | Some (q, b) \<Rightarrow> Some (q, k - prev_num_entries b)))"

section \<open>The reader of the writer's process\<close>

record epoch_iter =
  ei_header :: nat
  ei_left :: nat
  ei_prop_offset :: nat

definition EpochEdgeIterator :: "segment \<Rightarrow> nat \<Rightarrow> epoch_block \<Rightarrow> nat \<Rightarrow> int \<Rightarrow> epoch_iter option" where
  "EpochEdgeIterator sg p t num_entries e =
     (case init_cursor sg t e num_entries p of
        None \<Rightarrow> None
      | Some (q, left) \<Rightarrow>
          Some \<lparr>ei_header = q, ei_left = left, ei_prop_offset = get_allocated_edge_num sg q\<rparr>)"

definition empty_epoch_iter :: epoch_iter where
  "empty_epoch_iter = \<lparr>ei_header = NULLPOINTER, ei_left = 0, ei_prop_offset = 0\<rparr>"

definition switch_block :: "segment \<Rightarrow> epoch_iter \<Rightarrow> (bool \<times> epoch_iter) option" where
  "switch_block sg it =
     (if ei_header it = NULLPOINTER then Some (False, it)
      else case sg_blocks sg (ei_header it) of
        None \<Rightarrow> None
      | Some b \<Rightarrow>
          if prev_pointer b = NULLPOINTER then Some (False, it\<lparr>ei_header := NULLPOINTER\<rparr>)
          else (case sg_blocks sg (prev_pointer b) of
            None \<Rightarrow> None
          | Some b' \<Rightarrow> Some (True, \<lparr>ei_header = prev_pointer b, ei_left = get_num_entries b',
              ei_prop_offset = get_allocated_edge_num sg (prev_pointer b)\<rparr>)))"

definition epoch_iter_valid :: "segment \<Rightarrow> epoch_iter \<Rightarrow> (bool \<times> epoch_iter) option" where
  "epoch_iter_valid sg it = (if ei_left it = 0 then switch_block sg it else Some (True, it))"

definition epoch_iter_next :: "epoch_iter \<Rightarrow> epoch_iter" where
  "epoch_iter_next it = it\<lparr>ei_left := ei_left it - 1\<rparr>"

text \<open>\<open>dst_id\<close> and \<open>edge_data\<close> of the entry the cursor stands on.\<close>

definition epoch_iter_edge :: "segment \<Rightarrow> nat \<Rightarrow> epoch_iter \<Rightarrow> edge option" where
  "epoch_iter_edge sg edge_prop_size it =
     (case sg_blocks sg (ei_header it) of
        None \<Rightarrow> None
      | Some b \<Rightarrow>
          if ei_left it = 0 \<or> length (eb_entries b) < ei_left it then None
          else Some (eb_entries b ! (ei_left it - 1),
            get_property sg (ei_prop_offset it + ei_left it - 1) edge_prop_size))"

text \<open>\<^verbatim>\<open>while (iter.valid()) { iter.dst_id(); iter.edge_data(); iter.next(); }\<close>\<close>

partial_function (option) epoch_visit :: "segment \<Rightarrow> nat \<Rightarrow> epoch_iter \<Rightarrow> edge list option" where
  [code]: "epoch_visit sg edge_prop_size it =
     (case epoch_iter_valid sg it of
        None \<Rightarrow> None
      | Some (ok, it1) \<Rightarrow>
          if \<not> ok then Some []
          else Option.bind (epoch_iter_edge sg edge_prop_size it1) (\<lambda>e.
            Option.bind (epoch_visit sg edge_prop_size (epoch_iter_next it1)) (\<lambda>es. Some (e # es))))"

text \<open>
  \<open>EpochGraphReader\<close>: it remembers the segments of the last label it looked up in a segment.
\<close>

record epoch_reader =
  read_epoch :: int
  cache_meta :: "nat \<times> nat"
  cache_ptr :: "nat \<times> nat"

definition create_graph_reader :: "int \<Rightarrow> epoch_reader" where
  "create_graph_reader e = \<lparr>read_epoch = e, cache_meta = (0, 0), cache_ptr = (NULLPOINTER, NULLPOINTER)\<rparr>"

definition reader_locate_segment ::
  "seg_graph \<Rightarrow> nat \<Rightarrow> nat \<Rightarrow> dir_t \<Rightarrow> epoch_reader \<Rightarrow> (nat \<times> epoch_reader) option" where
  "reader_locate_segment g segid label dir rd =
     (if length (edge_label_ptrs g) \<le> segid then None
      else if edge_label_ptrs g ! segid = NULLPOINTER then Some (NULLPOINTER, rd)
      else case label_blocks g (edge_label_ptrs g ! segid) of
        None \<Rightarrow> None
      | Some b \<Rightarrow>
          (case find_label label (lb_entries b) of
             None \<Rightarrow> Some (NULLPOINTER, rd)
           | Some entry \<Rightarrow> Some (get_pointer entry dir,
               rd\<lparr>cache_meta := (segid, label), cache_ptr := (get_pointer entry EOUT, get_pointer entry EIN)\<rparr>)))"

text \<open>The segment an iterator reads, with the iterator.\<close>

definition get_edges_in_seg :: "seg_graph \<Rightarrow> nat \<Rightarrow> nat \<Rightarrow> int \<Rightarrow> (segment option \<times> epoch_iter) option" where
  "get_edges_in_seg g p src e =
     (if src \<ge> vertex_count g \<or> p = NULLPOINTER then Some (None, empty_epoch_iter)
      else case segments g p of
        None \<Rightarrow> None
      | Some sg \<Rightarrow>
          let idx = get_vertex_seg_idx src; bp = region_ptrs sg idx; tp = epoch_tables sg idx in
          if bp = NULLPOINTER \<or> tp = NULLPOINTER then Some (None, empty_epoch_iter)
          else (case (sg_blocks sg bp, epoch_blocks g tp) of
              (Some b, Some t) \<Rightarrow>
                (case EpochEdgeIterator sg bp t (get_num_entries b) e of
                   None \<Rightarrow> None
                 | Some it \<Rightarrow> Some (Some sg, it))
            | _ \<Rightarrow> None))"

definition get_edges ::
  "seg_graph \<Rightarrow> nat \<Rightarrow> nat \<Rightarrow> dir_t \<Rightarrow> epoch_reader \<Rightarrow> ((segment option \<times> epoch_iter) \<times> epoch_reader) option" where
  "get_edges g src label dir rd =
     (if src \<ge> vertex_count g then Some ((None, empty_epoch_iter), rd)
      else
        let segid = get_vertex_seg_id src in
        (case (if (segid, label) = cache_meta rd \<and> (fst (cache_ptr rd) \<noteq> NULLPOINTER \<or> snd (cache_ptr rd) \<noteq> NULLPOINTER)
               then Some (if dir = EOUT then fst (cache_ptr rd) else snd (cache_ptr rd), rd)
               else reader_locate_segment g segid label dir rd) of
           None \<Rightarrow> None
         | Some (p, rd') \<Rightarrow>
             (case get_edges_in_seg g p src (read_epoch rd) of None \<Rightarrow> None | Some si \<Rightarrow> Some (si, rd'))))"

text \<open>All the edges a reader sees for a vertex, label and direction.\<close>

definition reader_edges ::
  "seg_graph \<Rightarrow> nat \<Rightarrow> nat \<Rightarrow> nat \<Rightarrow> dir_t \<Rightarrow> epoch_reader \<Rightarrow> (edge list \<times> epoch_reader) option" where
  "reader_edges g edge_prop_size src label dir rd =
     (case get_edges g src label dir rd of
        None \<Rightarrow> None
      | Some ((None, it), rd') \<Rightarrow> Some ([], rd')
      | Some ((Some sg, it), rd') \<Rightarrow>
          (case epoch_visit sg edge_prop_size it of None \<Rightarrow> None | Some es \<Rightarrow> Some (es, rd')))"

section \<open>The reader of the analytics processes\<close>

record edge_iter =
  it_header :: nat
  it_left :: nat
  it_deleted :: prio
  it_prop_offset :: nat

partial_function (option) next_valid_edge :: "segment \<Rightarrow> edge_iter \<Rightarrow> edge_iter option" where
  [code]: "next_valid_edge sg it =
     (if it_header it = NULLPOINTER then Some it
      else case sg_blocks sg (it_header it) of
        None \<Rightarrow> None
      | Some b \<Rightarrow>
          if it_left it = 0 then
            (if prev_pointer b = NULLPOINTER then Some it
             else case sg_blocks sg (prev_pointer b) of
               None \<Rightarrow> None
             | Some b' \<Rightarrow> next_valid_edge sg (it\<lparr>it_header := prev_pointer b, it_left := get_num_entries b',
                 it_prop_offset := get_allocated_edge_num sg (prev_pointer b)\<rparr>))
          else if length (eb_entries b) < it_left it then None
          else
            let vid = eb_entries b ! (it_left it - 1) in
            if is_marker vid then
              next_valid_edge sg (it\<lparr>it_left := it_left it - 1,
                it_deleted := max_push (delete_offset vid) (it_deleted it)\<rparr>)
            else if it_deleted it = [] then Some it
            else if hd (it_deleted it) \<noteq> it_left it - 1 + prev_num_entries b then Some it
            else next_valid_edge sg (it\<lparr>it_left := it_left it - 1, it_deleted := tl (it_deleted it)\<rparr>))"

text \<open>
  The constructor takes the property offset from the block the first valid cursor was found in; the
  cursor of a reader with nothing to read stays null.
\<close>

definition EdgeIterator :: "segment \<Rightarrow> nat \<Rightarrow> epoch_block \<Rightarrow> nat \<Rightarrow> int \<Rightarrow> edge_iter option" where
  "EdgeIterator sg p t num_entries e =
     (case init_cursor sg t e num_entries p of
        None \<Rightarrow> None
      | Some (q, left) \<Rightarrow>
          (case next_valid_edge sg \<lparr>it_header = q, it_left = left, it_deleted = [], it_prop_offset = 0\<rparr> of
             None \<Rightarrow> None
           | Some it \<Rightarrow> Some (it\<lparr>it_prop_offset := get_allocated_edge_num sg (it_header it)\<rparr>)))"

definition edge_iter_valid :: "edge_iter \<Rightarrow> bool" where
  "edge_iter_valid it \<longleftrightarrow> it_left it \<noteq> 0"

definition edge_iter_next :: "segment \<Rightarrow> edge_iter \<Rightarrow> edge_iter option" where
  "edge_iter_next sg it =
     (if it_left it = 0 then None else next_valid_edge sg (it\<lparr>it_left := it_left it - 1\<rparr>))"

text \<open>\<open>neighbor\<close> and the property record at \<open>get_edge_property_offset\<close>.\<close>

definition edge_iter_edge :: "segment \<Rightarrow> nat \<Rightarrow> edge_iter \<Rightarrow> edge option" where
  "edge_iter_edge sg edge_prop_size it =
     (case sg_blocks sg (it_header it) of
        None \<Rightarrow> None
      | Some b \<Rightarrow>
          if it_left it = 0 \<or> length (eb_entries b) < it_left it then None
          else Some (eb_entries b ! (it_left it - 1),
            get_property sg (it_prop_offset it + it_left it - 1) edge_prop_size))"

partial_function (option) edge_visit :: "segment \<Rightarrow> nat \<Rightarrow> edge_iter \<Rightarrow> edge list option" where
  [code]: "edge_visit sg edge_prop_size it =
     (if \<not> edge_iter_valid it then Some []
      else Option.bind (edge_iter_edge sg edge_prop_size it) (\<lambda>e.
        Option.bind (edge_iter_next sg it) (\<lambda>it'.
          Option.bind (edge_visit sg edge_prop_size it') (\<lambda>es. Some (e # es)))))"

text \<open>
  \<^verbatim>\<open>locate_segment_\<close> and \<^verbatim>\<open>get_edges_in_seg_\<close> of
  \<^verbatim>\<open>GartFragment\<close>: \<open>v\<close> is the index of the vertex in its store. A newest block without
  entries counts as no edges at all.
\<close>

definition fragment_edges :: "seg_graph \<Rightarrow> nat \<Rightarrow> int \<Rightarrow> nat \<Rightarrow> nat \<Rightarrow> dir_t \<Rightarrow> edge list option" where
  "fragment_edges g edge_prop_size e v label dir =
     (case locate_segment g (get_vertex_seg_id v) label dir of
        Inl _ \<Rightarrow> None
      | Inr p \<Rightarrow>
          if p = NULLPOINTER then Some []
          else case segments g p of
            None \<Rightarrow> None
          | Some sg \<Rightarrow>
              let idx = get_vertex_seg_idx v; bp = region_ptrs sg idx; tp = epoch_tables sg idx in
              if bp = NULLPOINTER \<or> tp = NULLPOINTER then Some []
              else (case (sg_blocks sg bp, epoch_blocks g tp) of
                  (Some b, Some t) \<Rightarrow>
                    if get_num_entries b = 0 then Some []
                    else Option.bind (EdgeIterator sg bp t (get_num_entries b) e)
                      (edge_visit sg edge_prop_size)
                | _ \<Rightarrow> None))"

section \<open>The search finds the visible prefix\<close>

text \<open>How many edges of a log an epoch sees; its epochs never decrease.\<close>

definition seen :: "int \<Rightarrow> int list \<Rightarrow> nat" where
  "seen e es = length (takeWhile (\<lambda>x. x \<le> e) es)"

lemma seen_le: "seen e es \<le> length es"
  by (simp add: seen_def length_takeWhile_le)

lemma takeWhile_le_sorted:
  "sorted (xs @ [x]) \<Longrightarrow> x \<le> (e::int) \<Longrightarrow> takeWhile (\<lambda>x. x \<le> e) (xs @ [x]) = xs @ [x]"
  by (subst takeWhile_eq_all_conv) (auto simp: sorted_append)

lemma seen_snoc:
  assumes "sorted (es @ [x])"
  shows "seen e (es @ [x]) = (if x \<le> e then Suc (length es) else seen e es)"
proof (cases "x \<le> e")
  case True
  then show ?thesis using takeWhile_le_sorted [OF assms True] by (simp add: seen_def)
next
  case False
  show ?thesis
  proof (cases "\<forall>y \<in> set es. y \<le> e")
    case True
    then show ?thesis
      using False by (simp add: seen_def takeWhile_append2 takeWhile_eq_all_conv [THEN iffD2])
  next
    case no: False
    then show ?thesis using False by (auto simp: seen_def takeWhile_append1)
  qed
qed

lemma search_starts:
  assumes "sorted es"
  shows "search_epochs e newer (rev (starts es)) =
    (if seen e es = 0 then Nothing
     else if seen e es = length es then (case newer of None \<Rightarrow> Whole | Some n \<Rightarrow> Upto n)
     else Upto (seen e es))"
  using assms
proof (induction es arbitrary: newer rule: rev_induct)
  case Nil
  then show ?case by (simp add: seen_def)
next
  case (snoc x es)
  have so: "sorted es" using snoc.prems by (simp add: sorted_append)
  show ?case
  proof (cases "es \<noteq> [] \<and> last es = x")
    case True
    then obtain ys where es: "es = ys @ [x]" by (metis append_butlast_last_id)
    have "starts (es @ [x]) = starts es" using True by (simp add: starts_snoc)
    moreover have "seen e es = (if x \<le> e then length es else seen e ys)"
      using seen_snoc [of ys x e] so by (simp add: es)
    moreover have "seen e ys \<le> length ys" by (rule seen_le)
    ultimately show ?thesis
      using snoc.IH [OF so, of newer] seen_snoc [OF snoc.prems, of e] by (auto simp: es)
  next
    case False
    then have st: "rev (starts (es @ [x])) = (x, length es) # rev (starts es)" by (auto simp: starts_snoc)
    show ?thesis
    proof (cases "x \<le> e")
      case True
      then show ?thesis using st seen_snoc [OF snoc.prems, of e] by simp
    next
      case no: False
      have "seen e es \<le> length es" by (rule seen_le)
      then show ?thesis
        using snoc.IH [OF so, of "Some (length es)"] st no seen_snoc [OF snoc.prems, of e] by auto
    qed
  qed
qed

section \<open>Walking a chain\<close>

lemma back_to_chain:
  assumes "chain sg p bs" and "0 < k" and "k \<le> chain_total bs"
  shows "\<exists>q b rest. back_to sg k p = Some (q, b) \<and> chain sg q ((q, b) # rest) \<and>
    prev_num_entries b < k \<and> k \<le> prev_num_entries b + get_num_entries b \<and>
    (\<exists>pre. bs = pre @ (q, b) # rest)"
  using assms
proof (induction bs arbitrary: p)
  case Nil
  then show ?case by simp
next
  case (Cons ab bs)
  obtain b where ab: "ab = (p, b)" using Cons.prems(1) by (cases ab) auto
  have ch: "chain sg p ((p, b) # bs)" using Cons.prems(1) by (simp only: ab)
  then have b: "sg_blocks sg p = Some b" "prev_num_entries b = chain_total bs" "chain sg (prev_pointer b) bs"
    by auto
  show ?case
  proof (cases "k \<le> chain_total bs")
    case True
    then obtain q b' rest pre where "back_to sg k (prev_pointer b) = Some (q, b')"
      "chain sg q ((q, b') # rest)" "prev_num_entries b' < k" "k \<le> prev_num_entries b' + get_num_entries b'"
      "bs = pre @ (q, b') # rest"
      using Cons.IH [OF b(3) Cons.prems(2)] by blast
    moreover have "back_to sg k p = back_to sg k (prev_pointer b)"
      using b True by (subst back_to.simps) simp
    moreover have "ab # bs = (ab # pre) @ (q, b') # rest" using \<open>bs = _\<close> by simp
    ultimately show ?thesis by metis
  next
    case False
    then have "back_to sg k p = Some (p, b)" using b by (subst back_to.simps) simp
    moreover have "k \<le> prev_num_entries b + get_num_entries b" using Cons.prems(3) b by (simp add: ab)
    ultimately show ?thesis using ch b False ab by (intro exI [of _ p] exI [of _ b] exI [of _ bs]) auto
  qed
qed

text \<open>
  The first \<open>n\<close> edges of a chain lie behind a cursor: in the block at \<open>q\<close>, \<open>left\<close> entries of it, and
  in the blocks behind it.
\<close>

definition behind :: "segment \<Rightarrow> nat \<Rightarrow> nat \<Rightarrow> (nat \<times> edge_block) list \<Rightarrow> nat \<Rightarrow> bool" where
  "behind sg q left bs n \<longleftrightarrow> (\<exists>b rest. bs = (q, b) # rest \<and> chain sg q bs \<and>
     left \<le> get_num_entries b \<and> n = prev_num_entries b + left)"

lemma init_cursor_ok:
  assumes ch: "chain sg p bs" and ne: "bs \<noteq> []" and tok: "table_ok t es" and len: "length es = chain_total bs"
    and num: "num = get_num_entries (snd (hd bs))"
  shows "if seen e es = 0 then init_cursor sg t e num p = Some (0, 0)
    else \<exists>q left cs pre. init_cursor sg t e num p = Some (q, left) \<and> bs = pre @ cs \<and>
      behind sg q left cs (seen e es) \<and> (seen e es < length es \<longrightarrow> 0 < left)"
proof -
  have so: "sorted es" and st: "ep_entries t = starts es" using tok by (auto simp: table_ok_def)
  note se = search_starts [OF so, of e None, folded st]
  show ?thesis
  proof (cases "seen e es = 0")
    case True
    then show ?thesis using se by (simp add: init_cursor_def NULLPOINTER_def)
  next
    case nz: False
    show ?thesis
    proof (cases "seen e es = length es")
      case True
      obtain b rest where bs: "bs = (p, b) # rest" using ch ne by (cases bs) auto
      have "behind sg p num bs (seen e es)"
        using ch num len True by (auto simp: behind_def bs)
      moreover have "init_cursor sg t e num p = Some (p, num)"
        using se nz True by (simp add: init_cursor_def)
      ultimately show ?thesis using nz True by auto
    next
      case False
      then have lt: "seen e es < length es" using seen_le [of e es] by simp
      have "0 < seen e es" "seen e es \<le> chain_total bs" using nz lt len by simp_all
      from back_to_chain [OF ch this] obtain q b rest pre where r: "back_to sg (seen e es) p = Some (q, b)"
        "chain sg q ((q, b) # rest)" "prev_num_entries b < seen e es"
        "seen e es \<le> prev_num_entries b + get_num_entries b" "bs = pre @ (q, b) # rest"
        by blast
      have "init_cursor sg t e num p = Some (q, seen e es - prev_num_entries b)"
        using se nz False r(1) by (simp add: init_cursor_def)
      moreover have "behind sg q (seen e es - prev_num_entries b) ((q, b) # rest) (seen e es)"
        using r by (auto simp: behind_def)
      ultimately show ?thesis using nz r(3,5) by auto
    qed
  qed
qed

text \<open>What lies behind a cursor, newest first.\<close>

lemma behindD:
  assumes "behind sg q left bs n"
  obtains b rest where "bs = (q, b) # rest" "q \<noteq> 0" "sg_blocks sg q = Some b" "chain sg (prev_pointer b) rest"
    "left \<le> length (eb_entries b)" "prev_num_entries b = chain_total rest" "n = chain_total rest + left"
    "rest \<noteq> [] \<longrightarrow> 0 < get_num_entries (snd (hd rest))"
  using assms by (auto simp: behind_def get_num_entries_def)

lemma behind_le: "behind sg q left bs n \<Longrightarrow> n \<le> chain_total bs"
  by (auto simp: behind_def)

lemma behind_entry:
  assumes "behind sg q left bs n" and "0 < left"
  shows "0 < n" and "behind sg q (left - 1) bs (n - 1)"
    and "chain_content sg p bs ! (n - 1) =
      (eb_entries (snd (hd bs)) ! (left - 1), get_property sg (slot sg q + left - 1) p)"
proof -
  obtain b rest where bs: "bs = (q, b) # rest" and n: "n = chain_total rest + left"
    and left: "left \<le> length (eb_entries b)"
    using assms(1) by (rule behindD)
  show "0 < n" using assms(2) n by simp
  obtain b1 rest1 where "bs = (q, b1) # rest1" "chain sg q bs" "left \<le> get_num_entries b1"
    "n = prev_num_entries b1 + left" using assms(1) unfolding behind_def by blast
  moreover from this have "left - 1 \<le> get_num_entries b1" "n - 1 = prev_num_entries b1 + (left - 1)"
    using assms(2) by simp_all
  ultimately show "behind sg q (left - 1) bs (n - 1)" unfolding behind_def by blast
  have "n - 1 = length (chain_content sg p rest) + (left - 1)"
    using assms(2) by (simp add: n length_chain_content)
  then have "chain_content sg p bs ! (n - 1) = block_content sg p (q, b) ! (left - 1)"
    by (simp add: bs)
  also have "\<dots> = (eb_entries b ! (left - 1), get_property sg (slot sg q + (left - 1)) p)"
  proof -
    have "left - Suc 0 < length (eb_entries b)" using left assms(2) by linarith
    then show ?thesis by (simp add: block_content_def get_num_entries_def)
  qed
  finally show "chain_content sg p bs ! (n - 1) =
      (eb_entries (snd (hd bs)) ! (left - 1), get_property sg (slot sg q + left - 1) p)"
    using assms(2) by (simp add: bs)
qed

lemma behind_switch:
  assumes "behind sg q 0 bs n"
  shows "\<exists>b rest. bs = (q, b) # rest \<and> sg_blocks sg q = Some b \<and>
    (if rest = [] then prev_pointer b = 0 \<and> n = 0
     else prev_pointer b \<noteq> 0 \<and> (\<exists>b'. sg_blocks sg (prev_pointer b) = Some b' \<and> 0 < get_num_entries b' \<and>
       behind sg (prev_pointer b) (get_num_entries b') rest n))"
proof -
  obtain b rest where bs: "bs = (q, b) # rest" and blk: "sg_blocks sg q = Some b"
    and ch: "chain sg (prev_pointer b) rest" and n0: "n = chain_total rest + 0"
    and ne: "rest \<noteq> [] \<longrightarrow> 0 < get_num_entries (snd (hd rest))"
    using assms by (rule behindD)
  have n: "n = chain_total rest" using n0 by simp
  show ?thesis
  proof (cases rest)
    case Nil
    then show ?thesis using bs blk ch n by simp
  next
    case (Cons ab rest')
    obtain b' where ab: "ab = (prev_pointer b, b')" using ch by (cases ab) (auto simp: Cons)
    then have "behind sg (prev_pointer b) (get_num_entries b') rest n"
      using ch by (auto simp: behind_def Cons n)
    moreover have "sg_blocks sg (prev_pointer b) = Some b'" "prev_pointer b \<noteq> 0"
      using ch by (auto simp: Cons ab)
    moreover have "0 < get_num_entries b'" using ne by (simp add: Cons ab)
    ultimately show ?thesis using bs blk Cons by auto
  qed
qed

text \<open>The iterator of the writer's process returns everything behind its cursor.\<close>

lemma epoch_visit_behind:
  assumes "behind sg q left bs n" and "it = \<lparr>ei_header = q, ei_left = left, ei_prop_offset = slot sg q\<rparr>"
  shows "epoch_visit sg p it = Some (rev (take n (chain_content sg p bs)))"
  using assms
proof (induction "n + length bs" arbitrary: n left bs q it rule: less_induct)
  case less
  note it = less.prems(2)
  show ?case
  proof (cases "left = 0")
    case False
    then have pos: "0 < left" by simp
    note en = behind_entry(1,2) [OF less.prems(1) pos] behind_entry(3) [OF less.prems(1) pos, of p]
    obtain b rest where bs: "bs = (q, b) # rest" and blk: "sg_blocks sg q = Some b"
      and left: "left \<le> length (eb_entries b)"
      using less.prems(1) by (rule behindD)
    have e: "epoch_iter_edge sg p it = Some (chain_content sg p bs ! (n - 1))"
      using blk left pos en(3) by (simp add: epoch_iter_edge_def it bs)
    have "epoch_visit sg p (epoch_iter_next it) = Some (rev (take (n - 1) (chain_content sg p bs)))"
      using en(1) by (intro less.hyps [OF _ en(2)]) (simp_all add: it epoch_iter_next_def)
    then have run: "epoch_visit sg p it =
        Some (chain_content sg p bs ! (n - 1) # rev (take (n - 1) (chain_content sg p bs)))"
      using pos e by (subst epoch_visit.simps) (simp add: epoch_iter_valid_def it)
    have "n - 1 < length (chain_content sg p bs)"
      using behind_le [OF less.prems(1)] en(1) by (simp add: length_chain_content)
    then have "rev (take (Suc (n - 1)) (chain_content sg p bs)) =
        chain_content sg p bs ! (n - 1) # rev (take (n - 1) (chain_content sg p bs))"
      by (simp add: take_Suc_conv_app_nth)
    then show ?thesis using run en(1) by simp
  next
    case True
    have q: "q \<noteq> 0" using less.prems(1) by (rule behindD)
    obtain b rest where bs: "bs = (q, b) # rest" and blk: "sg_blocks sg q = Some b"
      and sw: "if rest = [] then prev_pointer b = 0 \<and> n = 0
       else prev_pointer b \<noteq> 0 \<and> (\<exists>b'. sg_blocks sg (prev_pointer b) = Some b' \<and> 0 < get_num_entries b' \<and>
         behind sg (prev_pointer b) (get_num_entries b') rest n)"
      using behind_switch less.prems(1) True by blast
    show ?thesis
    proof (cases "rest = []")
      case True
      then show ?thesis
        using sw blk q \<open>left = 0\<close>
        by (subst epoch_visit.simps) (simp add: epoch_iter_valid_def switch_block_def it NULLPOINTER_def)
    next
      case False
      then obtain b' where b': "prev_pointer b \<noteq> 0" "sg_blocks sg (prev_pointer b) = Some b'"
        "0 < get_num_entries b'" "behind sg (prev_pointer b) (get_num_entries b') rest n" using sw by auto
      let ?it = "\<lparr>ei_header = prev_pointer b, ei_left = get_num_entries b',
        ei_prop_offset = slot sg (prev_pointer b)\<rparr>"
      have v: "epoch_iter_valid sg it = Some (True, ?it)"
        using blk b' q \<open>left = 0\<close> by (simp add: epoch_iter_valid_def switch_block_def it NULLPOINTER_def slot_def)
      have v': "epoch_iter_valid sg ?it = Some (True, ?it)" using b'(3) by (simp add: epoch_iter_valid_def)
      have "epoch_visit sg p it = epoch_visit sg p ?it"
        by (subst epoch_visit.simps, subst (2) epoch_visit.simps) (simp only: v v')
      moreover have "epoch_visit sg p ?it = Some (rev (take n (chain_content sg p rest)))"
        by (rule less.hyps [OF _ b'(4) refl]) (simp add: bs)
      moreover have "n \<le> length (chain_content sg p rest)"
        using behind_le [OF b'(4)] by (simp add: length_chain_content)
      ultimately show ?thesis by (simp add: bs)
    qed
  qed
qed

section \<open>Walking a chain with deletions\<close>

lemma take_shorter: "take n xs = take n ys \<Longrightarrow> take (n - 1) xs = take (n - 1) ys"
proof -
  assume "take n xs = take n ys"
  then have "take (n - 1) (take n xs) = take (n - 1) (take n ys)" by simp
  then show ?thesis by simp
qed

lemma nth_of_takes: "take n xs = take n ys \<Longrightarrow> 0 < n \<Longrightarrow> ys ! (n - 1) = xs ! (n - 1)"
  using nth_take [of "n - 1" n xs] nth_take [of "n - 1" n ys] by simp

definition edge_scan :: "prio \<Rightarrow> u64 list \<Rightarrow> (nat \<times> u64) list" where
  "edge_scan dq log = scan max_push hd tl (\<lambda>q. q = []) dq (newest_first log)"

lemma edge_scan_Nil [simp]: "edge_scan dq [] = []"
  by (simp add: edge_scan_def)

lemma edge_scan_step:
  assumes "0 < n" and "n \<le> length C"
  shows "edge_scan dq (map fst (take n C)) =
    (let v = fst (C ! (n - 1)); older = map fst (take (n - 1) C) in
     if is_marker v then edge_scan (max_push (delete_offset v) dq) older
     else if dq = [] \<or> hd dq \<noteq> n - 1 then (n - 1, v) # edge_scan dq older
     else edge_scan (tl dq) older)"
proof -
  obtain m where n: "n = Suc m" using assms(1) by (cases n) auto
  then have t: "map fst (take n C) = map fst (take m C) @ [fst (C ! m)]"
    using assms(2) by (simp add: take_Suc_conv_app_nth)
  have "length (take m C) = m" using assms(2) n by simp
  then show ?thesis unfolding t by (auto simp: edge_scan_def n Let_def)
qed

text \<open>Where \<open>next_valid_edge\<close> stops: at the first edge of the scan, or behind the last one.\<close>

definition at_scan :: "segment \<Rightarrow> nat \<Rightarrow> edge list \<Rightarrow> edge_iter \<Rightarrow> (nat \<times> u64) list \<Rightarrow> bool" where
  "at_scan sg p C it S \<longleftrightarrow>
     (S = [] \<and> it_left it = 0) \<or>
     (\<exists>cs n. 0 < it_left it \<and> behind sg (it_header it) (it_left it) cs n \<and>
        take n (chain_content sg p cs) = take n C \<and> n \<le> length C \<and>
        S = (n - 1, fst (C ! (n - 1))) # edge_scan (it_deleted it) (map fst (take (n - 1) C)))"

lemma next_valid_edge_behind:
  assumes "behind sg q left bs n" and "take n (chain_content sg p bs) = take n C" and "n \<le> length C"
    and "it = \<lparr>it_header = q, it_left = left, it_deleted = dq, it_prop_offset = po\<rparr>"
  shows "\<exists>it'. next_valid_edge sg it = Some it' \<and> at_scan sg p C it' (edge_scan dq (map fst (take n C))) \<and>
    (po = slot sg q \<longrightarrow> it_prop_offset it' = slot sg (it_header it'))"
  using assms
proof (induction "n + length bs" arbitrary: n left bs q it dq po rule: less_induct)
  case less
  note it = less.prems(4)
  obtain b rest where bs: "bs = (q, b) # rest" and q: "q \<noteq> 0" and blk: "sg_blocks sg q = Some b"
    and left: "left \<le> length (eb_entries b)" and prev: "prev_num_entries b = chain_total rest"
    and n: "n = chain_total rest + left"
    using less.prems(1) by (rule behindD)
  show ?case
  proof (cases "left = 0")
    case True
    have sw: "if rest = [] then prev_pointer b = 0 \<and> n = 0
       else prev_pointer b \<noteq> 0 \<and> (\<exists>b'. sg_blocks sg (prev_pointer b) = Some b' \<and> 0 < get_num_entries b' \<and>
         behind sg (prev_pointer b) (get_num_entries b') rest n)"
      using behind_switch [OF less.prems(1) [unfolded True]] blk by (auto simp: bs)
    show ?thesis
    proof (cases "rest = []")
      case True
      have "next_valid_edge sg it = Some it"
        using sw True blk q \<open>left = 0\<close> by (subst next_valid_edge.simps) (simp add: it NULLPOINTER_def)
      then show ?thesis using sw True \<open>left = 0\<close> by (simp add: at_scan_def it)
    next
      case False
      then obtain b' where b': "prev_pointer b \<noteq> 0" "sg_blocks sg (prev_pointer b) = Some b'"
        "behind sg (prev_pointer b) (get_num_entries b') rest n" using sw by auto
      let ?it = "\<lparr>it_header = prev_pointer b, it_left = get_num_entries b', it_deleted = dq,
        it_prop_offset = slot sg (prev_pointer b)\<rparr>"
      have run: "next_valid_edge sg it = next_valid_edge sg ?it"
        using blk q b' \<open>left = 0\<close>
        by (subst next_valid_edge.simps) (simp add: it NULLPOINTER_def slot_def)
      have "n \<le> length (chain_content sg p rest)"
        using behind_le [OF b'(3)] by (simp add: length_chain_content)
      then have "take n (chain_content sg p rest) = take n C" using less.prems(2) by (simp add: bs)
      then show ?thesis
        using less.hyps [OF _ b'(3) _ less.prems(3) refl, of dq "slot sg (prev_pointer b)"] by (auto simp: run bs)
    qed
  next
    case False
    then have pos: "0 < left" by simp
    note en = behind_entry(1,2) [OF less.prems(1) pos] behind_entry(3) [OF less.prems(1) pos, of p]
    let ?v = "eb_entries b ! (left - 1)"
    have "C ! (n - 1) = chain_content sg p bs ! (n - 1)"
      by (rule nth_of_takes [OF less.prems(2) en(1)])
    then have v: "fst (C ! (n - 1)) = ?v" using en(3) by (simp add: bs)
    have pos': "left - 1 + prev_num_entries b = n - 1" using pos by (simp add: n prev)
    have shorter: "take (n - 1) (chain_content sg p bs) = take (n - 1) C"
      by (rule take_shorter [OF less.prems(2)])
    have len: "n - 1 \<le> length C" using less.prems(3) by simp
    have lt: "n - 1 + length bs < n + length bs" using en(1) by simp
    have step: "next_valid_edge sg it =
        (if is_marker ?v then next_valid_edge sg (it\<lparr>it_left := left - 1, it_deleted := max_push (delete_offset ?v) dq\<rparr>)
         else if dq = [] \<or> hd dq \<noteq> n - 1 then Some it
         else next_valid_edge sg (it\<lparr>it_left := left - 1, it_deleted := tl dq\<rparr>))"
      using blk q left pos pos' by (subst next_valid_edge.simps) (simp add: it NULLPOINTER_def Let_def)
    note sc = edge_scan_step [OF en(1) less.prems(3), of dq, unfolded v Let_def]
    consider (marker) "is_marker ?v" | (hit) "\<not> is_marker ?v" "dq = [] \<or> hd dq \<noteq> n - 1"
      | (skip) "\<not> is_marker ?v" "\<not> (dq = [] \<or> hd dq \<noteq> n - 1)" by blast
    then show ?thesis
    proof cases
      case marker
      show ?thesis
        unfolding step sc using less.hyps [OF lt en(2) shorter len refl, of "max_push (delete_offset ?v) dq" po]
          marker by (simp add: it)
    next
      case hit
      have "next_valid_edge sg it = Some it" unfolding step using hit by simp
      moreover have "at_scan sg p C it (edge_scan dq (map fst (take n C)))"
        unfolding at_scan_def sc
        using hit less.prems pos v by (intro disjI2 exI [of _ bs] exI [of _ n]) (auto simp: it)
      ultimately show ?thesis by (simp add: it)
    next
      case skip
      show ?thesis
        unfolding step sc using less.hyps [OF lt en(2) shorter len refl, of "tl dq" po] skip
        by (simp add: it)
    qed
  qed
qed

lemma edge_visit_at:
  assumes "at_scan sg p C it S" and "it_prop_offset it = slot sg (it_header it)"
  shows "edge_visit sg p it = Some (map (\<lambda>e. C ! fst e) S)"
  using assms
proof (induction "length S" arbitrary: it S rule: less_induct)
  case less
  show ?case
  proof (cases "it_left it = 0")
    case True
    then have "S = []" using less.prems(1) by (auto simp: at_scan_def)
    then show ?thesis using True by (subst edge_visit.simps) (simp add: edge_iter_valid_def)
  next
    case False
    then obtain cs n where pos: "0 < it_left it" and be: "behind sg (it_header it) (it_left it) cs n"
      and pre: "take n (chain_content sg p cs) = take n C" "n \<le> length C"
      and S: "S = (n - 1, fst (C ! (n - 1))) # edge_scan (it_deleted it) (map fst (take (n - 1) C))"
      using less.prems(1) by (auto simp: at_scan_def)
    note en = behind_entry(1,2) [OF be pos] behind_entry(3) [OF be pos, of p]
    obtain b rest where cs: "cs = (it_header it, b) # rest" and blk: "sg_blocks sg (it_header it) = Some b"
      and left: "it_left it \<le> length (eb_entries b)" using be by (rule behindD)
    have "C ! (n - 1) = chain_content sg p cs ! (n - 1)"
      by (rule nth_of_takes [OF pre(1) en(1)])
    then have edge: "edge_iter_edge sg p it = Some (C ! (n - 1))"
      using en(3) blk left pos less.prems(2) by (simp add: edge_iter_edge_def cs)
    have shorter: "take (n - 1) (chain_content sg p cs) = take (n - 1) C"
      by (rule take_shorter [OF pre(1)])
    have len: "n - 1 \<le> length C" using pre(2) by simp
    obtain it' where step: "next_valid_edge sg (it\<lparr>it_left := it_left it - 1\<rparr>) = Some it'"
      and at: "at_scan sg p C it' (edge_scan (it_deleted it) (map fst (take (n - 1) C)))"
      and po: "it_prop_offset it' = slot sg (it_header it')"
      using next_valid_edge_behind [OF en(2) shorter len, of "it\<lparr>it_left := it_left it - 1\<rparr>" "it_deleted it"
          "it_prop_offset it"] less.prems(2) by auto
    have "edge_visit sg p it' =
        Some (map (\<lambda>e. C ! fst e) (edge_scan (it_deleted it) (map fst (take (n - 1) C))))"
      by (rule less.hyps [OF _ at po]) (simp add: S)
    then show ?thesis
      using pos edge step by (subst edge_visit.simps) (simp add: edge_iter_valid_def edge_iter_next_def S)
  qed
qed

end
