(* ===== verification/Seg_Snapshot.thy ===== *)
theory Seg_Snapshot
  imports Seg_Reader
begin

text \<open>
  What the two readers return from a reachable store: the edges put up to the epoch read, newest
  first; the reader of the analytics processes leaves out the deleted ones.
\<close>

section \<open>The specification\<close>

text \<open>The part of a log an epoch sees.\<close>

definition visible :: "int \<Rightarrow> log \<Rightarrow> edge list" where
  "visible e lg = map snd (filter (\<lambda>x. fst x \<le> e) lg)"

text \<open>The edges of a list no marker of the list names.\<close>

definition live_edges :: "edge list \<Rightarrow> edge list" where
  "live_edges es = map (\<lambda>x. es ! fst x) (live (map fst es))"

lemma takeWhile_filter_sorted: "sorted (map f xs) \<Longrightarrow> takeWhile (\<lambda>x. f x \<le> (e::int)) xs = filter (\<lambda>x. f x \<le> e) xs"
  by (induction xs) (auto intro!: sym [OF filter_False])

lemma visible_take:
  assumes "sorted (map fst lg)"
  shows "visible e lg = take (seen e (map fst lg)) (map snd lg)"
proof -
  have "seen e (map fst lg) = length (takeWhile (\<lambda>x. fst x \<le> e) lg)"
    by (simp add: seen_def takeWhile_map comp_def)
  moreover have "takeWhile (\<lambda>x. fst x \<le> e) lg = take (length (takeWhile (\<lambda>x. fst x \<le> e) lg)) lg"
    by (rule takeWhile_eq_take)
  ultimately have "take (seen e (map fst lg)) lg = filter (\<lambda>x. fst x \<le> e) lg"
    using takeWhile_filter_sorted [OF assms, of e] by simp
  then show ?thesis by (simp add: visible_def take_map)
qed

lemma edge_scan_live:
  "wf_log (map fst es) \<Longrightarrow> map (\<lambda>x. es ! fst x) (edge_scan [] (map fst es)) = rev (live_edges es)"
  by (simp add: edge_scan_def scan_newest_first live_edges_def rev_map)

section \<open>Reading a region\<close>

text \<open>A region that holds a log, and how its readers start.\<close>

lemma region_start:
  assumes ok: "seg_ok p sg" and i: "i < VERTEX_PER_SEG" and rr: "region_rel E p sg i lg" and ne: "lg \<noteq> []"
  shows "\<exists>b t. region_ptrs sg i \<noteq> 0 \<and> epoch_tables sg i \<noteq> 0 \<and> sg_blocks sg (region_ptrs sg i) = Some b \<and>
    E (epoch_tables sg i) = Some t \<and> table_ok t (map fst lg) \<and>
    chain sg (region_ptrs sg i) (region sg i) \<and> region sg i \<noteq> [] \<and> snd (hd (region sg i)) = b \<and>
    length (map fst lg) = chain_total (region sg i)"
proof -
  have c: "content sg p i = map snd lg"
    and t: "epoch_tables sg i \<noteq> 0" "\<exists>t. E (epoch_tables sg i) = Some t \<and> table_ok t (map fst lg)"
    using rr ne by (simp_all add: region_rel_def)
  have ch: "chain sg (region_ptrs sg i) (region sg i)" using seg_okD(5) [OF ok i] .
  have r: "region sg i \<noteq> []" using c ne by (auto simp: content_def chain_content_def)
  have "chain_total (region sg i) = length (map snd lg)"
    unfolding c [symmetric] unfolding content_def by (rule length_chain_content [symmetric])
  moreover obtain b rest where "region sg i = (region_ptrs sg i, b) # rest" using ch r by (cases "region sg i") auto
  ultimately show ?thesis using t ch r by (cases "region sg i") auto
qed

lemma epoch_region:
  assumes ok: "seg_ok p sg" and i: "i < VERTEX_PER_SEG" and rr: "region_rel E p sg i lg" and ne: "lg \<noteq> []"
    and b: "sg_blocks sg (region_ptrs sg i) = Some b" and t: "E (epoch_tables sg i) = Some t"
  shows "\<exists>it. EpochEdgeIterator sg (region_ptrs sg i) t (get_num_entries b) e = Some it \<and>
    epoch_visit sg p it = Some (rev (visible e lg))"
proof -
  let ?es = "map fst lg" and ?n = "seen e (map fst lg)"
  have tok: "table_ok t ?es" and ch: "chain sg (region_ptrs sg i) (region sg i)" and r: "region sg i \<noteq> []"
    and len: "length ?es = chain_total (region sg i)" and hd: "get_num_entries b = get_num_entries (snd (hd (region sg i)))"
    using region_start [OF ok i rr ne] b t by auto
  have so: "sorted ?es" using tok by (simp add: table_ok_def)
  have vis: "visible e lg = take ?n (content sg p i)"
    using visible_take [OF so] rr by (simp add: region_rel_def)
  note ic = init_cursor_ok [OF ch r tok len hd, of e]
  show ?thesis
  proof (cases "?n = 0")
    case True
    have "epoch_visit sg p \<lparr>ei_header = 0, ei_left = 0, ei_prop_offset = get_allocated_edge_num sg 0\<rparr> = Some []"
      by (subst epoch_visit.simps) (simp add: epoch_iter_valid_def switch_block_def NULLPOINTER_def)
    then show ?thesis using ic True vis by (simp add: EpochEdgeIterator_def)
  next
    case False
    then obtain q left cs pre where start: "init_cursor sg t e (get_num_entries b) (region_ptrs sg i) = Some (q, left)"
      and bs: "region sg i = pre @ cs" and be: "behind sg q left cs ?n"
      using ic by auto
    have "?n \<le> length (chain_content sg p cs)" using behind_le [OF be] by (simp add: length_chain_content)
    then have "take ?n (chain_content sg p cs) = take ?n (content sg p i)"
      by (simp add: content_def bs chain_content_def)
    then show ?thesis
      using epoch_visit_behind [OF be refl, of p] start vis
      by (simp add: EpochEdgeIterator_def slot_def)
  qed
qed

lemma edge_region:
  assumes ok: "seg_ok p sg" and i: "i < VERTEX_PER_SEG" and rr: "region_rel E p sg i lg" and ne: "lg \<noteq> []"
    and b: "sg_blocks sg (region_ptrs sg i) = Some b" and t: "E (epoch_tables sg i) = Some t"
    and wf: "wf_log (map fst (visible e lg))"
  shows "Option.bind (EdgeIterator sg (region_ptrs sg i) t (get_num_entries b) e) (edge_visit sg p) =
    Some (rev (live_edges (visible e lg)))"
proof -
  let ?es = "map fst lg" and ?n = "seen e (map fst lg)" and ?C = "content sg p i"
  have tok: "table_ok t ?es" and ch: "chain sg (region_ptrs sg i) (region sg i)" and r: "region sg i \<noteq> []"
    and len: "length ?es = chain_total (region sg i)" and hd: "get_num_entries b = get_num_entries (snd (hd (region sg i)))"
    using region_start [OF ok i rr ne] b t by auto
  have so: "sorted ?es" using tok by (simp add: table_ok_def)
  have vis: "visible e lg = take ?n ?C" using visible_take [OF so] rr by (simp add: region_rel_def)
  note ic = init_cursor_ok [OF ch r tok len hd, of e]
  show ?thesis
  proof (cases "?n = 0")
    case True
    have "next_valid_edge sg \<lparr>it_header = 0, it_left = 0, it_deleted = [], it_prop_offset = 0\<rparr> =
        Some \<lparr>it_header = 0, it_left = 0, it_deleted = [], it_prop_offset = 0\<rparr>"
      by (subst next_valid_edge.simps) (simp add: NULLPOINTER_def)
    then show ?thesis using ic True vis
      by (simp add: EdgeIterator_def live_edges_def live_def edge_visit.simps edge_iter_valid_def)
  next
    case False
    then obtain q left cs pre where start: "init_cursor sg t e (get_num_entries b) (region_ptrs sg i) = Some (q, left)"
      and bs: "region sg i = pre @ cs" and be: "behind sg q left cs ?n"
      using ic by auto
    have n: "?n \<le> length (chain_content sg p cs)" using behind_le [OF be] by (simp add: length_chain_content)
    then have take: "take ?n (chain_content sg p cs) = take ?n ?C"
      by (simp add: content_def bs chain_content_def)
    have le: "?n \<le> length ?C" using n by (simp add: content_def bs chain_content_def)
    obtain it where it: "next_valid_edge sg \<lparr>it_header = q, it_left = left, it_deleted = [], it_prop_offset = 0\<rparr> = Some it"
      and at: "at_scan sg p ?C it (edge_scan [] (map fst (take ?n ?C)))"
      using next_valid_edge_behind [OF be take le refl] by blast
    let ?it = "it\<lparr>it_prop_offset := get_allocated_edge_num sg (it_header it)\<rparr>"
    have "at_scan sg p ?C ?it (edge_scan [] (map fst (take ?n ?C)))" using at by (simp add: at_scan_def)
    from edge_visit_at [OF this] have "edge_visit sg p ?it =
        Some (map (\<lambda>x. ?C ! fst x) (edge_scan [] (map fst (take ?n ?C))))"
      by (simp add: slot_def)
    also have "map (\<lambda>x. ?C ! fst x) (edge_scan [] (map fst (take ?n ?C))) =
        map (\<lambda>x. visible e lg ! fst x) (edge_scan [] (map fst (visible e lg)))"
      using wf vis by (auto simp: edge_scan_def scan_newest_first live_def in_set_enumerate_eq)
    finally show ?thesis using it start edge_scan_live [OF wf] by (simp add: EdgeIterator_def)
  qed
qed

section \<open>Reading a vertex\<close>

lemma vertex_seg:
  assumes "verts_ok g" and "v < vertex_count g"
  shows "get_vertex_seg_id v < num_segs g" and "get_vertex_seg_idx v < VERTEX_PER_SEG"
    and "get_vertex_seg_id v * VERTEX_PER_SEG + get_vertex_seg_idx v = v"
  using vertex_segment [OF assms] assms(1)
  by (simp_all add: verts_ok_def get_vertex_seg_id_def get_vertex_seg_idx_def VERTEX_PER_SEG_def)

text \<open>What the readers find in the segment of a vertex.\<close>

lemma vertex_region:
  fixes l d
  assumes R: "graph_rel P g lgs A" and v: "verts_ok g" "v < vertex_count g"
  defines "p \<equiv> sp g (get_vertex_seg_id v) l d" and "i \<equiv> get_vertex_seg_idx v"
  shows "if p = 0 then lgs v l d = []
    else \<exists>sg. segments g p = Some sg \<and> seg_ok (P l) sg \<and> region_rel (epoch_blocks g) (P l) sg i (lgs v l d)"
proof -
  note vs = vertex_seg [OF v]
  note lo = logs_okD [OF graph_relD(7) [OF R] vs(1,2), of l d, unfolded vs(3), folded p_def i_def]
  show ?thesis
  proof (cases "p = 0")
    case True
    then show ?thesis using lo(1) by simp
  next
    case False
    note so = segs_okD [OF graph_relD(4) [OF R] vs(1) False [unfolded p_def], folded p_def]
    show ?thesis unfolding if_not_P [OF False] using so(1,3) lo(2) [OF False] by blast
  qed
qed

lemma fragment_edges_rel:
  assumes R: "graph_rel P g lgs A" and v: "verts_ok g" "v < vertex_count g" and h: "heads g {}"
    and wf: "wf_log (map fst (visible e (lgs v l d)))"
  shows "fragment_edges g (P l) e v l d = Some (rev (live_edges (visible e (lgs v l d))))"
proof -
  let ?p = "sp g (get_vertex_seg_id v) l d" and ?i = "get_vertex_seg_idx v" and ?lg = "lgs v l d"
  note vs = vertex_seg [OF v] and vr = vertex_region [OF R v, of l d]
  note loc = locate_sp [OF graph_relD(3) [OF R] vs(1), of l d]
  have none: "live_edges (visible e []) = []" by (simp add: visible_def live_edges_def live_def)
  show ?thesis
  proof (cases "?p = 0")
    case True
    then show ?thesis using loc vr none by (simp add: fragment_edges_def NULLPOINTER_def)
  next
    case nz: False
    then obtain sg where sg: "segments g ?p = Some sg" "seg_ok (P l) sg"
      "region_rel (epoch_blocks g) (P l) sg ?i ?lg" using vr by auto
    show ?thesis
    proof (cases "?lg = []")
      case True
      then show ?thesis using loc nz sg none
        by (simp add: fragment_edges_def NULLPOINTER_def region_rel_def Let_def)
    next
      case False
      obtain b t where st: "region_ptrs sg ?i \<noteq> 0" "epoch_tables sg ?i \<noteq> 0"
        "sg_blocks sg (region_ptrs sg ?i) = Some b" "epoch_blocks g (epoch_tables sg ?i) = Some t"
        "region sg ?i \<noteq> []" "snd (hd (region sg ?i)) = b"
        using region_start [OF sg(2) vs(2) sg(3) False] by blast
      have "get_num_entries b \<noteq> 0"
        using h sg(1) st(5,6) vs(2) by (auto simp: heads_def seg_heads_def)
      then have "fragment_edges g (P l) e v l d =
          Option.bind (EdgeIterator sg (region_ptrs sg ?i) t (get_num_entries b) e) (edge_visit sg (P l))"
        using loc nz sg(1) st(1-4) by (simp add: fragment_edges_def NULLPOINTER_def Let_def)
      then show ?thesis using edge_region [OF sg(2) vs(2) sg(3) False st(3,4) wf] by simp
    qed
  qed
qed

text \<open>The pointers a reader remembers are the ones of the segment and label it remembers.\<close>

definition cache_ok :: "seg_graph \<Rightarrow> epoch_reader \<Rightarrow> bool" where
  "cache_ok g rd \<longleftrightarrow> cache_ptr rd = (0, 0) \<or>
     cache_ptr rd = (sp g (fst (cache_meta rd)) (snd (cache_meta rd)) EOUT,
                     sp g (fst (cache_meta rd)) (snd (cache_meta rd)) EIN)"

lemma reader_locate_ok:
  assumes "labels_ok g A" and "s < num_segs g" and "cache_ok g rd"
  shows "\<exists>rd'. reader_locate_segment g s l d rd = Some (sp g s l d, rd') \<and> cache_ok g rd' \<and>
    read_epoch rd' = read_epoch rd"
proof (cases "lp g s = 0")
  case True
  then show ?thesis using assms
    by (simp add: reader_locate_segment_def sp_def locate_segment_def NULLPOINTER_def)
next
  case False
  then obtain b where "label_blocks g (lp g s) = Some b" using assms(1,2) by (auto simp: labels_ok_def)
  then show ?thesis using False assms
    by (auto simp: reader_locate_segment_def sp_def locate_segment_def NULLPOINTER_def cache_ok_def
        split: option.splits)
qed

lemma reader_edges_rel:
  assumes R: "graph_rel P g lgs A" and v: "verts_ok g" "v < vertex_count g" and c: "cache_ok g rd"
  shows "\<exists>rd'. reader_edges g (P l) v l d rd = Some (rev (visible (read_epoch rd) (lgs v l d)), rd') \<and>
    cache_ok g rd' \<and> read_epoch rd' = read_epoch rd"
proof -
  let ?s = "get_vertex_seg_id v" and ?p = "sp g (get_vertex_seg_id v) l d" and ?i = "get_vertex_seg_idx v"
  let ?lg = "lgs v l d" and ?e = "read_epoch rd"
  note vs = vertex_seg [OF v] and vr = vertex_region [OF R v, of l d]
  let ?hit = "(?s, l) = cache_meta rd \<and> (fst (cache_ptr rd) \<noteq> NULLPOINTER \<or> snd (cache_ptr rd) \<noteq> NULLPOINTER)"
  obtain rd' where rd': "(if ?hit then Some (if d = EOUT then fst (cache_ptr rd) else snd (cache_ptr rd), rd)
      else reader_locate_segment g ?s l d rd) = Some (?p, rd')" "cache_ok g rd'" "read_epoch rd' = ?e"
  proof (cases ?hit)
    case True
    then have cp: "cache_ptr rd = (sp g ?s l EOUT, sp g ?s l EIN)"
      using c by (auto simp: cache_ok_def NULLPOINTER_def) (metis fst_conv snd_conv)+
    show thesis
      by (rule that [of rd]) (use True c cp in \<open>cases d; simp add: if_P\<close>)+
  next
    case False
    from reader_locate_ok [OF graph_relD(3) [OF R] vs(1) c, of l d] show thesis
      unfolding if_not_P [OF False] by (metis that False)
  qed
  have get: "get_edges g v l d rd =
      (case get_edges_in_seg g ?p v ?e of None \<Rightarrow> None | Some si \<Rightarrow> Some (si, rd'))"
    using v(2) rd'(1) by (simp only: get_edges_def Let_def not_le [symmetric] if_False) simp
  have "\<exists>osg it. get_edges_in_seg g ?p v ?e = Some (osg, it) \<and>
      (case osg of None \<Rightarrow> ?lg = [] | Some sg \<Rightarrow> epoch_visit sg (P l) it = Some (rev (visible ?e ?lg)))"
  proof (cases "?p = 0")
    case True
    then show ?thesis using vr by (simp add: get_edges_in_seg_def NULLPOINTER_def)
  next
    case nz: False
    then obtain sg where sg: "segments g ?p = Some sg" "seg_ok (P l) sg"
      "region_rel (epoch_blocks g) (P l) sg ?i ?lg" using vr by auto
    show ?thesis
    proof (cases "?lg = []")
      case True
      then show ?thesis using nz sg v(2)
        by (simp add: get_edges_in_seg_def NULLPOINTER_def region_rel_def Let_def)
    next
      case False
      obtain b t where st: "region_ptrs sg ?i \<noteq> 0" "epoch_tables sg ?i \<noteq> 0"
        "sg_blocks sg (region_ptrs sg ?i) = Some b" "epoch_blocks g (epoch_tables sg ?i) = Some t"
        using region_start [OF sg(2) vs(2) sg(3) False] by blast
      obtain it where it: "EpochEdgeIterator sg (region_ptrs sg ?i) t (get_num_entries b) ?e = Some it"
        "epoch_visit sg (P l) it = Some (rev (visible ?e ?lg))"
        using epoch_region [OF sg(2) vs(2) sg(3) False st(3,4), of ?e] by blast
      have "get_edges_in_seg g ?p v ?e = Some (Some sg, it)"
        using nz sg(1) v(2) st it(1) by (simp add: get_edges_in_seg_def NULLPOINTER_def Let_def)
      then show ?thesis using it(2) by auto
    qed
  qed
  then obtain osg it where g: "get_edges_in_seg g ?p v ?e = Some (osg, it)"
    "case osg of None \<Rightarrow> ?lg = [] | Some sg \<Rightarrow> epoch_visit sg (P l) it = Some (rev (visible ?e ?lg))" by blast
  show ?thesis
    using get g rd'(2,3) by (cases osg) (auto simp: reader_edges_def visible_def)
qed

section \<open>Reads of a reachable store\<close>

text \<open>One reader answers a list of queries.\<close>

primrec run_reader ::
  "seg_graph \<Rightarrow> (nat \<Rightarrow> nat) \<Rightarrow> (nat \<times> nat \<times> dir_t) list \<Rightarrow> epoch_reader \<Rightarrow> edge list list option" where
  "run_reader g P [] rd = Some []"
| "run_reader g P (q # qs) rd =
     (case q of (v, l, d) \<Rightarrow> case reader_edges g (P l) v l d rd of
        None \<Rightarrow> None
      | Some (es, rd') \<Rightarrow> map_option ((#) es) (run_reader g P qs rd'))"

lemma run_reader_rel:
  assumes "graph_rel P g lgs A" and "verts_ok g" and "\<forall>q \<in> set qs. fst q < vertex_count g" and "cache_ok g rd"
  shows "run_reader g P qs rd = Some (map (\<lambda>(v, l, d). rev (visible (read_epoch rd) (lgs v l d))) qs)"
  using assms(3,4)
proof (induction qs arbitrary: rd)
  case (Cons q qs)
  obtain v l d where q: "q = (v, l, d)" by (cases q) auto
  then have "v < vertex_count g" using Cons.prems(1) by simp
  from reader_edges_rel [OF assms(1,2) this Cons.prems(2), of l d]
  obtain rd' where rd': "reader_edges g (P l) v l d rd = Some (rev (visible (read_epoch rd) (lgs v l d)), rd')"
    "cache_ok g rd'" "read_epoch rd' = read_epoch rd" by blast
  then show ?case using Cons.IH [OF _ rd'(2)] Cons.prems(1) by (simp add: q)
qed simp

lemma fragment_edges_run:
  assumes "2 ^ 20 \<le> cap" and "cap < 2 ^ 62" and "\<forall>l. P l \<le> MAX_PROP"
    and "sorted (put_epochs ops)" and "props_fit P ops"
    and "run_store ops (new_seg_graph cap maxv und) = Inr g" and "v < vertices_made ops"
    and "wf_log (map fst (visible e (edges_put und v l d ops)))"
  shows "fragment_edges g (P l) e v l d = Some (rev (live_edges (visible e (edges_put und v l d ops))))"
  using new_store_run [OF assms(1-5), of maxv und] assms(6-8) fragment_edges_rel [of P g _ _ v e l d] by auto

lemma edges_put_append: "edges_put und v l d (xs @ ys) = edges_put und v l d xs @ edges_put und v l d ys"
  by (induction und v l d xs rule: edges_put.induct) auto

lemma put_epochs_append: "put_epochs (xs @ ys) = put_epochs xs @ put_epochs ys"
  by (induction xs rule: put_epochs.induct) auto

lemma edges_put_epochs: "x \<in> set (edges_put und v l d ops) \<Longrightarrow> fst x \<in> set (put_epochs ops)"
  by (induction und v l d ops rule: edges_put.induct) (auto split: if_splits)

lemma props_fit_append: "props_fit P (xs @ ys) \<longleftrightarrow> props_fit P xs \<and> props_fit P ys"
  by (induction P xs rule: props_fit.induct) auto

lemma vertices_made_append: "vertices_made (xs @ ys) = vertices_made xs + vertices_made ys"
  by (induction xs rule: vertices_made.induct) auto

lemma one_plain: "wf_log [1 :: u64]" "live [1 :: u64] = [(0, 1)]"
proof -
  have "\<not> is_marker (1 :: u64)" by (simp add: is_marker_iff_bit)
  then show "wf_log [1 :: u64]" "live [1 :: u64] = [(0, 1)]"
    using wf_log_snoc [of "[]" 1] live_snoc_plain [of "[]" 1] by (simp_all add: live_def)
qed

lemma demo_read:
  "\<exists>g. run_store demo_store (new_seg_graph 67108864 8192 [False]) = Inr g \<and>
     fragment_edges g 2 1 0 0 EOUT = Some [(1, [7, 8])]"
proof -
  obtain g where g: "run_store demo_store (new_seg_graph 67108864 8192 [False]) = Inr g"
    using store_demo_run by blast
  have vis: "visible 1 (edges_put [False] 0 0 EOUT demo_store) = [(1, [7, 8])]"
    by (simp_all add: demo_store_def visible_def)
  show ?thesis
    using fragment_edges_run [OF demo_fits(1-5) g, of 0 1 0 EOUT]
      g one_plain vis by (simp add: demo_fits(6) demo_prop_def live_edges_def)
qed

text \<open>
C3: An analytics process that reads a vertex at an epoch gets exactly the edges put up to the epoch
that no deletion up to the epoch names, newest first and each with its property bytes, however the
store laid them out: over chained and copied blocks, from the middle of a block, or none at all.
\<close>

theorem fragment_snapshot:
  assumes "2 ^ 20 \<le> cap" and "cap < 2 ^ 62" and "\<forall>l. P l \<le> MAX_PROP"
    and "sorted (put_epochs ops)" and "props_fit P ops"
    and "run_store ops (new_seg_graph cap maxv und) = Inr g" and "v < vertices_made ops"
    and "wf_log (map fst (visible e (edges_put und v l d ops)))"
  shows "fragment_edges g (P l) e v l d = Some (rev (live_edges (visible e (edges_put und v l d ops))))"
  using assms by (rule fragment_edges_run)

lemma fragment_snapshot_witness:
  "\<exists>g. run_store demo_store (new_seg_graph 67108864 8192 [False]) = Inr g \<and>
     fragment_edges g 2 1 0 0 EOUT = Some [(1, [7, 8])] \<and> fragment_edges g 2 0 0 0 EOUT = Some []"
proof -
  obtain g where g: "run_store demo_store (new_seg_graph 67108864 8192 [False]) = Inr g"
    using store_demo_run by blast
  have vis: "visible 1 (edges_put [False] 0 0 EOUT demo_store) = [(1, [7, 8])]"
    "visible 0 (edges_put [False] 0 0 EOUT demo_store) = []"
    by (simp_all add: demo_store_def visible_def)
  show ?thesis
    using fragment_snapshot [OF demo_fits(1-5) g, of 0 1 0 EOUT] fragment_snapshot [OF demo_fits(1-5) g, of 0 0 0 EOUT]
      g one_plain vis by (simp add: demo_fits(6) demo_prop_def live_edges_def live_def)
qed



text \<open>
C4: A snapshot is stable: whatever vertices and edges the writer adds at later epochs, through block
growth, chained blocks and segment compaction, an analytics process that reads a vertex at the
epoch gets the same edges.
\<close>

theorem snapshot_stable:
  assumes "2 ^ 20 \<le> cap" and "cap < 2 ^ 62" and "\<forall>l. P l \<le> MAX_PROP"
    and "sorted (put_epochs (ops @ later))" and "props_fit P (ops @ later)"
    and "run_store ops (new_seg_graph cap maxv und) = Inr g"
    and "run_store (ops @ later) (new_seg_graph cap maxv und) = Inr g'"
    and "\<forall>x \<in> set (put_epochs later). e < x" and "v < vertices_made ops"
    and "wf_log (map fst (visible e (edges_put und v l d ops)))"
  shows "fragment_edges g' (P l) e v l d = fragment_edges g (P l) e v l d"
proof -
  have "fst x \<le> e \<longleftrightarrow> False" if "x \<in> set (edges_put und v l d later)" for x
    using assms(8) edges_put_epochs [OF that] by force
  then have vis: "visible e (edges_put und v l d (ops @ later)) = visible e (edges_put und v l d ops)"
    by (simp add: edges_put_append visible_def)
  have "sorted (put_epochs ops)" "props_fit P ops"
    using assms(4,5) by (simp_all add: put_epochs_append sorted_append props_fit_append)
  from fragment_edges_run [OF assms(1-3) this assms(6,9,10)]
    fragment_edges_run [OF assms(1-5,7) _ assms(10) [folded vis]] show ?thesis
    using assms(9) vis by (simp add: vertices_made_append)
qed

lemma snapshot_stable_witness:
  "\<exists>g g'. run_store (take 4 demo_store) (new_seg_graph 67108864 8192 [False]) = Inr g \<and>
     run_store demo_store (new_seg_graph 67108864 8192 [False]) = Inr g' \<and>
     fragment_edges g' 2 1 0 0 EOUT = fragment_edges g 2 1 0 0 EOUT"
proof -
  obtain g where g: "run_store demo_store (new_seg_graph 67108864 8192 [False]) = Inr g"
    using store_demo_run by blast
  have four: "\<exists>g. run_store (take 4 demo_store) (new_seg_graph 67108864 8192 [False]) = Inr g"
    by (simp add: demo_store_def store_eval cong: if_cong)
  then obtain g4 where g4: "run_store (take 4 demo_store) (new_seg_graph 67108864 8192 [False]) = Inr g4" by blast
  have split: "take 4 demo_store @ drop 4 demo_store = demo_store" by simp
  have ops: "vertices_made (take 4 demo_store) = 2" "put_epochs (drop 4 demo_store) = [2]"
    "visible 1 (edges_put [False] 0 0 EOUT (take 4 demo_store)) = [(1, [7, 8])]"
    by (simp_all add: demo_store_def visible_def)
  show ?thesis
    using snapshot_stable [of 67108864 demo_prop "take 4 demo_store" "drop 4 demo_store" 8192 "[False]" g4 g 1 0 0 EOUT]
      demo_fits(1-5) g g4 ops one_plain unfolding split by (simp add: demo_prop_def)
qed

text \<open>
C30: While the writer chains a new block to a vertex, between linking the block and appending the first
entry to it, an analytics process sees no edges of the vertex at any epoch, old ones included: its
reader takes an empty newest block for a vertex without edges.
\<close>

theorem chained_block_hides_edges:
  assumes "2 ^ 20 \<le> cap" and "cap < 2 ^ 62" and "\<forall>l. P l \<le> MAX_PROP"
    and "sorted (put_epochs ops)" and "props_fit P ops"
    and "run_store ops (new_seg_graph cap maxv und) = Inr g" and "v < vertices_made ops"
    and "segments g (sp g (get_vertex_seg_id v) l d) = Some sg" and "sp g (get_vertex_seg_id v) l d \<noteq> 0"
    and "COPY_THRESHOLD_ORDER \<le> order"
    and "extend_region (get_vertex_seg_idx v) (region_ptrs sg (get_vertex_seg_idx v))
      (newest sg (get_vertex_seg_idx v)) order np (P l) sg = Inr sg'"
  shows "fragment_edges (g\<lparr>segments := (segments g)(sp g (get_vertex_seg_id v) l d \<mapsto> sg')\<rparr>) (P l) e v l d = Some []"
proof -
  let ?s = "get_vertex_seg_id v" and ?i = "get_vertex_seg_idx v"
  let ?p = "sp g ?s l d" and ?lg = "edges_put und v l d ops"
  obtain A where R: "graph_rel P g (\<lambda>v l d. edges_put und v l d ops) A" and v: "verts_ok g" "v < vertex_count g"
    using new_store_run [OF assms(1-5), of maxv und] assms(6,7) by auto
  note vs = vertex_seg [OF v]
  have "region_rel (epoch_blocks g) (P l) sg ?i ?lg" using vertex_region [OF R v, of l d] assms(8,9) by auto
  then have "epoch_tables sg ?i = 0 \<or> (\<exists>t. epoch_blocks g (epoch_tables sg ?i) = Some t)"
    by (auto simp: region_rel_def split: if_splits)
  moreover have "region_ptrs sg' ?i = np" "epoch_tables sg' = epoch_tables sg"
    "\<exists>b. sg_blocks sg' np = Some b \<and> get_num_entries b = 0"
    using assms(10,11)
    by (auto simp: extend_region_def put_block_def set_region_ptr_def fill_edge_block_def get_num_entries_def)
  moreover have "locate_segment (g\<lparr>segments := F\<rparr>) ?s l d = locate_segment g ?s l d" for F
    by (simp add: locate_segment_def)
  note this [unfolded locate_sp [OF graph_relD(3) [OF R] vs(1)]]
  ultimately show ?thesis
    using assms(9) by (auto simp: fragment_edges_def NULLPOINTER_def Let_def)
qed

lemma chained_block_hides_edges_witness:
  "\<exists>g sg sg'. run_store demo_store (new_seg_graph 67108864 8192 [False]) = Inr g \<and>
     fragment_edges g 2 1 0 0 EOUT = Some [(1, [7, 8])] \<and>
     extend_region 0 (region_ptrs sg 0) (newest sg 0) COPY_THRESHOLD_ORDER 99999 2 sg = Inr sg' \<and>
     fragment_edges (g\<lparr>segments := (segments g)(sp g 0 0 EOUT \<mapsto> sg')\<rparr>) 2 1 0 0 EOUT = Some []"
proof -
  obtain g where g: "run_store demo_store (new_seg_graph 67108864 8192 [False]) = Inr g"
    and e: "fragment_edges g 2 1 0 0 EOUT = Some [(1, [7, 8])]"
    using demo_read by blast
  have rel: "verts_ok g" "vertex_count g = 2"
    "\<exists>A. graph_rel demo_prop g (\<lambda>v l d. edges_put [False] v l d demo_store) A"
    using new_store_run [OF demo_fits(1-5), of 8192 "[False]"] g by (simp_all add: demo_fits(6))
  have "edges_put [False] 0 0 EOUT demo_store \<noteq> []" by (simp add: demo_store_def)
  moreover obtain A where "graph_rel demo_prop g (\<lambda>v l d. edges_put [False] v l d demo_store) A"
    using rel(3) by blast
  note vertex_region [OF this rel(1), of 0 0 EOUT]
  ultimately have "sp g 0 0 EOUT \<noteq> 0 \<and> (\<exists>sg. segments g (sp g 0 0 EOUT) = Some sg)"
    using rel(2) by (auto simp: get_vertex_seg_id_def split: if_splits)
  then obtain sg where nz: "sp g 0 0 EOUT \<noteq> 0" and sg: "segments g (sp g 0 0 EOUT) = Some sg" by blast
  obtain sg' where ex: "extend_region 0 (region_ptrs sg 0) (newest sg 0) COPY_THRESHOLD_ORDER 99999 2 sg = Inr sg'"
    by (simp add: extend_region_def)
  have at: "get_vertex_seg_id 0 = 0" "get_vertex_seg_idx 0 = 0"
    by (simp_all add: get_vertex_seg_id_def get_vertex_seg_idx_def)
  show ?thesis
    using chained_block_hides_edges [OF demo_fits(1-5) g, of 0 0 EOUT sg COPY_THRESHOLD_ORDER 99999 sg' 1,
        unfolded at] g e sg nz ex by (auto simp: demo_fits(6) demo_prop_def)
qed

end
