(* ===== verification/Values.thy ===== *)
theory Values
  imports Bitset
begin

text \<open>
  Property values on their way from a log line into memory: the conversions of the C++ library the
  loader uses (\<^verbatim>\<open>std::stoi\<close>, \<^verbatim>\<open>std::stoll\<close>, \<^verbatim>\<open>std::stoull\<close>,
  \<^verbatim>\<open>std::to_string\<close>), the little-endian fields they are stored in, and
  \<^verbatim>\<open>Property::assign_prop\<close> (\<^verbatim>\<open>vegito/src/property/property.h\<close>).
\<close>

section \<open>Decimal numbers\<close>

definition isspace :: "char \<Rightarrow> bool" where
  "isspace c \<longleftrightarrow> (of_char c :: nat) = 32 \<or> 9 \<le> (of_char c :: nat) \<and> (of_char c :: nat) \<le> 13"

definition isdigit :: "char \<Rightarrow> bool" where
  "isdigit c \<longleftrightarrow> 48 \<le> (of_char c :: nat) \<and> (of_char c :: nat) \<le> 57"

definition digit_value :: "char \<Rightarrow> nat" where
  "digit_value c = of_char c - 48"

definition digits_value :: "string \<Rightarrow> nat" where
  "digits_value ds = foldl (\<lambda>n c. 10 * n + digit_value c) 0 ds"

text \<open>The common part of the conversions: leading spaces, a sign, as many digits as there are.\<close>

definition leading_number :: "string \<Rightarrow> (bool \<times> nat) option" where
  "leading_number s =
     (let t = dropWhile isspace s;
          neg = (t \<noteq> [] \<and> hd t = CHR ''-'');
          u = (if t \<noteq> [] \<and> (hd t = CHR ''-'' \<or> hd t = CHR ''+'') then tl t else t);
          ds = takeWhile isdigit u
      in if ds = [] then None else Some (neg, digits_value ds))"

datatype conv_error = Invalid_conversion | Out_of_range

definition conv_int :: "nat \<Rightarrow> string \<Rightarrow> conv_error + int" where
  "conv_int w s =
     (case leading_number s of
        None \<Rightarrow> Inl Invalid_conversion
      | Some (neg, n) \<Rightarrow>
          let v = (if neg then - int n else int n) in
          if v < - (2 ^ (w - 1)) \<or> 2 ^ (w - 1) \<le> v then Inl Out_of_range else Inr v)"

definition stoi :: "string \<Rightarrow> conv_error + int" where
  "stoi s = conv_int 32 s"

definition stoll :: "string \<Rightarrow> conv_error + int" where
  "stoll s = conv_int 64 s"

text \<open>A minus sign negates the unsigned value modulo the width.\<close>

definition stoull :: "string \<Rightarrow> conv_error + int" where
  "stoull s =
     (case leading_number s of
        None \<Rightarrow> Inl Invalid_conversion
      | Some (neg, n) \<Rightarrow>
          if 2 ^ 64 \<le> n then Inl Out_of_range
          else Inr (if neg then (- int n) mod 2 ^ 64 else int n))"

fun to_string :: "nat \<Rightarrow> string" where
  "to_string n =
     (if n < 10 then [char_of (48 + n)] else to_string (n div 10) @ [char_of (48 + n mod 10)])"

declare to_string.simps [simp del]

lemma isdigit_char_of: "(n::nat) < 10 \<Longrightarrow> isdigit (char_of (48 + n))"
  by (simp add: isdigit_def)

lemma digit_value_char_of: "(n::nat) < 10 \<Longrightarrow> digit_value (char_of (48 + n)) = n"
  by (simp add: digit_value_def)

lemma to_string_digits: "to_string n \<noteq> [] \<and> (\<forall>c \<in> set (to_string n). isdigit c)"
proof (induction n rule: to_string.induct)
  case (1 n)
  then show ?case by (cases "n < 10") (simp_all add: to_string.simps [of n] isdigit_char_of)
qed

lemma digits_value_snoc: "digits_value (ds @ [c]) = 10 * digits_value ds + digit_value c"
  by (simp add: digits_value_def)

lemma digits_value_to_string: "digits_value (to_string n) = n"
proof (induction n rule: to_string.induct)
  case (1 n)
  show ?case
  proof (cases "n < 10")
    case True
    then show ?thesis
      using digits_value_snoc [of "[]"] by (simp add: to_string.simps [of n] digit_value_char_of digits_value_def)
  next
    case False
    then show ?thesis
      using 1 by (simp add: to_string.simps [of n] digits_value_snoc digit_value_char_of)
  qed
qed

lemma digit_chars: "isdigit c \<Longrightarrow> \<not> isspace c \<and> c \<noteq> CHR ''-'' \<and> c \<noteq> CHR ''+''"
  by (auto simp: isdigit_def isspace_def)

lemma leading_number_to_string: "leading_number (to_string n) = Some (False, n)"
proof -
  obtain c cs where s: "to_string n = c # cs" and c: "isdigit c"
    using to_string_digits [of n] by (cases "to_string n") auto
  have "takeWhile isdigit (to_string n) = to_string n" using to_string_digits [of n] by simp
  then show ?thesis
    using digit_chars [OF c] digits_value_to_string [of n] by (simp add: leading_number_def s Let_def)
qed

lemma stoll_to_string: "n < 2 ^ 63 \<Longrightarrow> stoll (to_string n) = Inr (int n)"
proof -
  assume "n < 2 ^ 63"
  then have "int n < int (2 ^ 63)" by (simp only: of_nat_less_iff)
  then show ?thesis by (simp add: stoll_def conv_int_def leading_number_to_string)
qed

lemma stoull_to_string: "n < 2 ^ 64 \<Longrightarrow> stoull (to_string n) = Inr (int n)"
  by (simp add: stoull_def leading_number_to_string)

section \<open>Little-endian fields\<close>

primrec le_bytes :: "nat \<Rightarrow> int \<Rightarrow> bytes" where
  "le_bytes 0 v = []"
| "le_bytes (Suc n) v = word_of_int v # le_bytes n (v div 256)"

primrec le_value :: "bytes \<Rightarrow> int" where
  "le_value [] = 0"
| "le_value (b # bs) = uint b + 256 * le_value bs"

definition le_signed :: "bytes \<Rightarrow> int" where
  "le_signed bs = (let v = le_value bs; m = 256 ^ length bs in if 2 * v < m then v else v - m)"

lemma length_le_bytes [simp]: "length (le_bytes n v) = n"
  by (induction n arbitrary: v) simp_all

lemma le_value_le_bytes: "le_value (le_bytes n v) = v mod 256 ^ n"
proof (induction n arbitrary: v)
  case (Suc n)
  have "v mod (256 * 256 ^ n) = 256 * (v div 256 mod 256 ^ n) + v mod 256"
    by (rule zmod_zmult2_eq) simp
  then show ?case by (simp add: Suc unsigned_of_int take_bit_eq_mod)
qed simp

lemma le_signed_le_bytes:
  assumes "0 < n" and "- (256 ^ n) \<le> 2 * v" and "2 * v < 256 ^ n"
  shows "le_signed (le_bytes n v) = v"
proof (cases "0 \<le> v")
  case True
  then show ?thesis using assms by (simp add: le_signed_def le_value_le_bytes Let_def)
next
  case False
  have "v mod 256 ^ n = (v + 256 ^ n) mod 256 ^ n" by simp
  also have "\<dots> = v + 256 ^ n" by (rule mod_pos_pos_trivial) (use False assms in linarith)+
  finally show ?thesis using False assms by (simp add: le_signed_def le_value_le_bytes Let_def)
qed

section \<open>Bytes at an offset\<close>

definition put_bytes :: "nat \<Rightarrow> bytes \<Rightarrow> bytes \<Rightarrow> bytes" where
  "put_bytes off bs buf = take off buf @ bs @ drop (off + length bs) buf"

definition get_bytes :: "nat \<Rightarrow> nat \<Rightarrow> bytes \<Rightarrow> bytes" where
  "get_bytes off n buf = take n (drop off buf)"

lemma length_put_bytes [simp]: "off + length bs \<le> length buf \<Longrightarrow> length (put_bytes off bs buf) = length buf"
  by (simp add: put_bytes_def)

lemma get_put_same [simp]:
  "off + length bs \<le> length buf \<Longrightarrow> n = length bs \<Longrightarrow> get_bytes off n (put_bytes off bs buf) = bs"
  by (simp add: put_bytes_def get_bytes_def)

lemma nth_put_bytes:
  "off + length bs \<le> length buf \<Longrightarrow> i < length buf \<Longrightarrow>
     put_bytes off bs buf ! i = (if off \<le> i \<and> i < off + length bs then bs ! (i - off) else buf ! i)"
  by (auto simp: put_bytes_def nth_append)

lemma get_bytes_cong:
  assumes "length buf = length buf'" and "off + n \<le> length buf"
    and "\<And>i. off \<le> i \<Longrightarrow> i < off + n \<Longrightarrow> buf ! i = buf' ! i"
  shows "get_bytes off n buf = get_bytes off n buf'"
  using assms by (intro nth_equalityI) (simp_all add: get_bytes_def)

lemma get_put_other:
  assumes "off + length bs \<le> length buf" and "o' + n \<le> length buf"
    and "o' + n \<le> off \<or> off + length bs \<le> o'"
  shows "get_bytes o' n (put_bytes off bs buf) = get_bytes o' n buf"
  using assms by (intro get_bytes_cong) (auto simp: nth_put_bytes)

section \<open>Assigning a property\<close>

datatype prop_type = INVALID | BOOL | CHAR_T | SHORT | INT_T | LONG | FLOAT | DOUBLE | STRING | BYTES
  | INT_LIST | LONG_LIST | FLOAT_LIST | DOUBLE_LIST | STRING_LIST | DATE | DATETIME | TIME | TIMESTAMP

text \<open>
  What an assignment does at the property's address: it writes some bytes, leaves the memory as it is
  (an unknown type or a conversion that throws, both logged), or runs past the field. The bytes of a
  floating-point number are an argument.
\<close>

datatype assigned = Written bytes | Kept | Overrun

definition of_conv :: "nat \<Rightarrow> (conv_error + int) \<Rightarrow> assigned" where
  "of_conv n r = (case r of Inl _ \<Rightarrow> Kept | Inr v \<Rightarrow> Written (le_bytes n v))"

text \<open>The fixed-width string of a time stamp, padded with spaces.\<close>

definition TIMESTAMP_LEN :: nat where
  "TIMESTAMP_LEN = 22"

definition assign_inline_str :: "string \<Rightarrow> assigned" where
  "assign_inline_str s =
     (if TIMESTAMP_LEN < length s then Overrun
      else Written (map of_char s @ replicate (TIMESTAMP_LEN - length s) 32))"

definition assign_prop :: "(prop_type \<Rightarrow> string \<Rightarrow> bytes option) \<Rightarrow> prop_type \<Rightarrow> string \<Rightarrow> assigned" where
  "assign_prop real_bytes dtype val =
     (case dtype of
        CHAR_T \<Rightarrow> (case val of [] \<Rightarrow> Kept | c # cs \<Rightarrow> Written [of_char c])
      | SHORT \<Rightarrow> of_conv 2 (stoi val)
      | INT_T \<Rightarrow> of_conv 4 (stoi val)
      | LONG \<Rightarrow> of_conv 8 (stoll val)
      | FLOAT \<Rightarrow> (case real_bytes FLOAT val of None \<Rightarrow> Kept | Some bs \<Rightarrow> Written bs)
      | DOUBLE \<Rightarrow> (case real_bytes DOUBLE val of None \<Rightarrow> Kept | Some bs \<Rightarrow> Written bs)
      | STRING \<Rightarrow> of_conv 8 (stoull val)
      | DATE \<Rightarrow> of_conv 4 (stoi val)
      | DATETIME \<Rightarrow> of_conv 8 (stoll val)
      | TIME \<Rightarrow> of_conv 8 (stoll val)
      | TIMESTAMP \<Rightarrow> assign_inline_str val
      | _ \<Rightarrow> Kept)"

text \<open>The bytes a value of a type occupies.\<close>

definition prop_width :: "prop_type \<Rightarrow> nat" where
  "prop_width dtype =
     (case dtype of CHAR_T \<Rightarrow> 1 | SHORT \<Rightarrow> 2 | INT_T \<Rightarrow> 4 | LONG \<Rightarrow> 8 | FLOAT \<Rightarrow> 4 | DOUBLE \<Rightarrow> 8 | STRING \<Rightarrow> 8
      | DATE \<Rightarrow> 4 | DATETIME \<Rightarrow> 8 | TIME \<Rightarrow> 8 | TIMESTAMP \<Rightarrow> 22 | _ \<Rightarrow> 0)"

text \<open>The floating-point encoder has the width of its type.\<close>

definition real_bytes_ok :: "(prop_type \<Rightarrow> string \<Rightarrow> bytes option) \<Rightarrow> bool" where
  "real_bytes_ok f \<longleftrightarrow> (\<forall>t s bs. f t s = Some bs \<longrightarrow> length bs = prop_width t)"

lemma assign_prop_width:
  assumes "real_bytes_ok f" and "assign_prop f t s = Written bs"
  shows "length bs = prop_width t"
  using assms
  by (cases t) (auto simp: assign_prop_def of_conv_def prop_width_def assign_inline_str_def TIMESTAMP_LEN_def
      real_bytes_ok_def split: sum.splits list.splits option.splits if_splits)

end
