(* ===== verification/String_Buffer.thy ===== *)
theory String_Buffer
  imports Values
begin

text \<open>
  The memory pool of strings and property pages, \<^verbatim>\<open>BufferManager\<close>
  (\<^verbatim>\<open>vegito/src/memory/buffer_manager.cc\<close>), and the string keys the graph store keeps
  in place of strings: \<^verbatim>\<open>(offset << 16) | length\<close>
  (\<^verbatim>\<open>put_cstring\<close> and \<^verbatim>\<open>get_string\<close> of
  \<^verbatim>\<open>vegito/src/graph/graph_store.h\<close>). The release build compiles the assertions out, so
  a full buffer returns -1.
\<close>

section \<open>The buffer manager\<close>

record buffer =
  buf_capacity :: nat
  buf_size :: nat
  buf_data :: "nat \<Rightarrow> u8"

definition init_capacity :: "nat \<Rightarrow> (nat \<Rightarrow> u8) \<Rightarrow> buffer" where
  "init_capacity n mem = \<lparr>buf_capacity = n, buf_size = 0, buf_data = mem\<rparr>"

text \<open>The string's bytes from \<open>off\<close> on, and a zero behind them.\<close>

definition store_cstring :: "nat \<Rightarrow> string \<Rightarrow> (nat \<Rightarrow> u8) \<Rightarrow> nat \<Rightarrow> u8" where
  "store_cstring off s mem =
     (\<lambda>a. if off \<le> a \<and> a < off + length s then of_char (s ! (a - off))
          else if a = off + length s then 0 else mem a)"

definition buffer_put_cstring :: "string \<Rightarrow> buffer \<Rightarrow> u64 \<times> buffer" where
  "buffer_put_cstring s b =
     (let off = buf_size b; new_size = off + length s + 1; b1 = b\<lparr>buf_size := new_size\<rparr> in
      if new_size \<ge> buf_capacity b then (-1, b1)
      else (of_nat off, b1\<lparr>buf_data := store_cstring off s (buf_data b)\<rparr>))"

text \<open>A region is its offset; \<open>None\<close> is the null region.\<close>

definition get_region :: "nat \<Rightarrow> buffer \<Rightarrow> nat option \<times> buffer" where
  "get_region len b =
     (let off = buf_size b; new_size = off + len in
      if new_size \<ge> buf_capacity b then (None, b) else (Some off, b\<lparr>buf_size := new_size\<rparr>))"

definition buffer_get_string :: "buffer \<Rightarrow> nat \<Rightarrow> nat \<Rightarrow> string" where
  "buffer_get_string b off len = map (\<lambda>i. char_of (unat (buf_data b (off + i)))) [0..<len]"

lemma char_of_unat [simp]: "char_of (unat (of_char c :: u8)) = c"
proof -
  have "(of_char c :: u8) = of_nat (of_char c :: nat)" by (simp add: of_nat_of_char)
  moreover have "(of_char c :: nat) < 256" by (rule nat_of_char_less_256)
  ultimately have "unat (of_char c :: u8) = of_char c" by (simp add: unat_of_nat del: of_nat_of_char)
  then show ?thesis by simp
qed

section \<open>String keys\<close>

definition put_cstring :: "string \<Rightarrow> buffer \<Rightarrow> u64 \<times> buffer" where
  "put_cstring s b =
     (let (str_offset, b') = buffer_put_cstring s b in
      (push_bit 16 str_offset OR of_nat (length s), b'))"

definition get_string :: "buffer \<Rightarrow> u64 \<Rightarrow> string" where
  "get_string b key =
     (let str_offset = drop_bit 16 key; str_len = key AND 0xffff in
      buffer_get_string b (unat str_offset) (unat str_len))"

lemma key_parts:
  assumes "n < 2 ^ 16" and "off < 2 ^ 48"
  shows "drop_bit 16 (push_bit 16 (of_nat off) OR of_nat n :: u64) = of_nat off"
    and "(push_bit 16 (of_nat off) OR of_nat n :: u64) AND 0xffff = of_nat n"
proof -
  have n: "i < 16" if "bit (of_nat n :: u64) i" for i
    using bit_of_int_beyond [of "int n" 16 i, where 'a=64] assms(1) that by (cases "i < 16") simp_all
  have o48: "i < 48" if "bit (of_nat off :: u64) i" for i
    using bit_of_int_beyond [of "int off" 48 i, where 'a=64] assms(2) that by (cases "i < 48") simp_all
  have mask: "(0xffff :: u64) = mask 16" by (simp add: mask_eq_exp_minus_1)
  show "drop_bit 16 (push_bit 16 (of_nat off) OR of_nat n :: u64) = of_nat off"
    using o48 by (intro bit_word_eqI) (auto simp: bit_drop_bit_eq bit_or_iff bit_push_bit_iff dest: n)
  show "(push_bit 16 (of_nat off) OR of_nat n :: u64) AND 0xffff = of_nat n"
    unfolding mask using n
    by (intro bit_word_eqI) (auto simp: bit_and_iff bit_or_iff bit_push_bit_iff bit_mask_iff)
qed

lemma unat_small: "n < 2 ^ k \<Longrightarrow> k \<le> 64 \<Longrightarrow> unat (of_nat n :: u64) = n"
proof -
  assume "n < 2 ^ k" "k \<le> 64"
  moreover have "(2::nat) ^ k \<le> 2 ^ 64" using \<open>k \<le> 64\<close> by (rule power_increasing) simp
  ultimately have "n < 2 ^ 64" by linarith
  then show ?thesis by (simp add: unat_of_nat)
qed

section \<open>The contract of a string pool\<close>

text \<open>
  What the property stores rely on: a string that fits comes back under its key, and keys stay good
  when more strings are added.
\<close>

locale string_pool =
  fixes put :: "string \<Rightarrow> 'b \<Rightarrow> 'k \<times> 'b"
    and get :: "'b \<Rightarrow> 'k \<Rightarrow> string"
    and fits :: "string \<Rightarrow> 'b \<Rightarrow> bool"
    and held :: "'b \<Rightarrow> 'k \<Rightarrow> bool"
  assumes put_held: "fits s b \<Longrightarrow> put s b = (k, b') \<Longrightarrow> held b' k \<and> get b' k = s"
    and put_keeps: "fits s b \<Longrightarrow> put s b = (k, b') \<Longrightarrow> held b j \<Longrightarrow> held b' j \<and> get b' j = get b j"
begin

primrec put_all :: "string list \<Rightarrow> 'b \<Rightarrow> 'k list \<times> 'b" where
  "put_all [] b = ([], b)"
| "put_all (s # ss) b = (let (k, b1) = put s b; (ks, b2) = put_all ss b1 in (k # ks, b2))"

primrec all_fit :: "string list \<Rightarrow> 'b \<Rightarrow> bool" where
  "all_fit [] b \<longleftrightarrow> True"
| "all_fit (s # ss) b \<longleftrightarrow> fits s b \<and> all_fit ss (snd (put s b))"

lemma put_all_keeps:
  "all_fit ss b \<Longrightarrow> put_all ss b = (ks, b') \<Longrightarrow> held b j \<Longrightarrow> held b' j \<and> get b' j = get b j"
proof (induction ss arbitrary: b ks)
  case (Cons s ss)
  obtain k b1 where put: "put s b = (k, b1)" by fastforce
  obtain ks' where all: "put_all ss b1 = (ks', b')" using Cons.prems(2) put by (auto split: prod.splits)
  have "held b1 j \<and> get b1 j = get b j" using put_keeps [OF _ put Cons.prems(3)] Cons.prems(1) by simp
  then show ?case using Cons.IH [OF _ all] Cons.prems(1) put by simp
qed simp

lemma put_all_gets: "all_fit ss b \<Longrightarrow> put_all ss b = (ks, b') \<Longrightarrow> map (get b') ks = ss"
proof (induction ss arbitrary: b ks)
  case (Cons s ss)
  obtain k b1 where put: "put s b = (k, b1)" by fastforce
  obtain ks' where all: "put_all ss b1 = (ks', b')" and ks: "ks = k # ks'"
    using Cons.prems(2) put by (auto split: prod.splits)
  have fit: "all_fit ss b1" "fits s b" using Cons.prems(1) put by simp_all
  have "held b1 k" "get b1 k = s" using put_held [OF fit(2) put] by simp_all
  then have "get b' k = s" using put_all_keeps [OF fit(1) all, of k] by simp
  then show ?case using Cons.IH [OF fit(1) all] by (simp add: ks)
qed simp

end

definition string_fits :: "string \<Rightarrow> buffer \<Rightarrow> bool" where
  "string_fits s b \<longleftrightarrow> length s < 2 ^ 16 \<and> buf_size b + length s + 1 < buf_capacity b \<and> buf_capacity b \<le> 2 ^ 48"

definition key_held :: "buffer \<Rightarrow> u64 \<Rightarrow> bool" where
  "key_held b key \<longleftrightarrow> unat (drop_bit 16 key) + unat (key AND 0xffff) \<le> buf_size b"

lemma put_cstring_fits:
  assumes "string_fits s b"
  shows "put_cstring s b = (push_bit 16 (of_nat (buf_size b)) OR of_nat (length s),
    b\<lparr>buf_size := buf_size b + length s + 1, buf_data := store_cstring (buf_size b) s (buf_data b)\<rparr>)"
  using assms by (simp add: put_cstring_def buffer_put_cstring_def Let_def string_fits_def)

lemma fits_key:
  assumes "string_fits s b" and "put_cstring s b = (k, b')"
  shows "unat (drop_bit 16 k) = buf_size b" and "unat (k AND 0xffff) = length s"
proof -
  have len: "length s < 2 ^ 16" and off: "buf_size b < 2 ^ 48"
    using assms(1) by (simp_all add: string_fits_def)
  have k: "k = push_bit 16 (of_nat (buf_size b)) OR of_nat (length s)"
    using put_cstring_fits [OF assms(1)] assms(2) by simp
  show "unat (drop_bit 16 k) = buf_size b"
    unfolding k key_parts(1) [OF len off] using off by (rule unat_small) simp
  show "unat (k AND 0xffff) = length s"
    unfolding k key_parts(2) [OF len off] using len by (rule unat_small) simp
qed

interpretation pool: string_pool put_cstring get_string string_fits key_held
proof unfold_locales
  fix s b k b'
  assume f: "string_fits s b" and p: "put_cstring s b = (k, b')"
  note key = fits_key [OF f p]
  have b': "b' = b\<lparr>buf_size := buf_size b + length s + 1, buf_data := store_cstring (buf_size b) s (buf_data b)\<rparr>"
    using put_cstring_fits [OF f] p by simp
  have "buffer_get_string b' (buf_size b) (length s) = s"
    by (rule nth_equalityI) (simp_all add: buffer_get_string_def b' store_cstring_def)
  then show "key_held b' k \<and> get_string b' k = s"
    by (simp add: key_held_def get_string_def Let_def key b')
next
  fix s b k b' j
  assume f: "string_fits s b" and p: "put_cstring s b = (k, b')" and h: "key_held b j"
  have b': "b' = b\<lparr>buf_size := buf_size b + length s + 1, buf_data := store_cstring (buf_size b) s (buf_data b)\<rparr>"
    using put_cstring_fits [OF f] p by simp
  then show "key_held b' j \<and> get_string b' j = get_string b j"
    using h by (auto simp: key_held_def get_string_def buffer_get_string_def store_cstring_def Let_def)
qed

section \<open>Properties\<close>

text \<open>The strings of a load, put one after another.\<close>

primrec put_strings :: "string list \<Rightarrow> buffer \<Rightarrow> u64 list \<times> buffer" where
  "put_strings [] b = ([], b)"
| "put_strings (s # ss) b = (let (k, b1) = put_cstring s b; (ks, b2) = put_strings ss b1 in (k # ks, b2))"

lemma put_strings_pool: "put_strings ss b = pool.put_all ss b"
  by (induction ss arbitrary: b) simp_all

lemma all_fit_sum:
  assumes "\<forall>s \<in> set ss. length s < 2 ^ 16" and "buf_capacity b \<le> 2 ^ 48"
    and "buf_size b + sum_list (map (\<lambda>s. length s + 1) ss) < buf_capacity b"
  shows "pool.all_fit ss b"
  using assms
proof (induction ss arbitrary: b)
  case (Cons s ss)
  have f: "string_fits s b" using Cons.prems by (simp add: string_fits_def)
  then show ?case using Cons by (simp add: put_cstring_fits)
qed simp

text \<open>
C34: Any strings shorter than 64 KiB that fit into the buffer together are read back from the keys
\<open>put_cstring\<close> returned for them, after all of them have been put.
\<close>

theorem strings_roundtrip:
  assumes "\<forall>s \<in> set ss. length s < 2 ^ 16" and "capacity \<le> 2 ^ 48"
    and "sum_list (map (\<lambda>s. length s + 1) ss) < capacity"
    and "put_strings ss (init_capacity capacity mem) = (keys, b)"
  shows "map (get_string b) keys = ss"
proof -
  have "pool.all_fit ss (init_capacity capacity mem)"
    by (rule all_fit_sum) (use assms(1-3) in \<open>simp_all add: init_capacity_def\<close>)
  then show ?thesis using pool.put_all_gets assms(4) by (simp add: put_strings_pool)
qed

lemma strings_roundtrip_witness:
  "\<exists>keys b. put_strings [''ab'', '''', ''c''] (init_capacity 100 (\<lambda>a. 0)) = (keys, b) \<and>
     map (get_string b) keys = [''ab'', '''', ''c'']"
proof -
  obtain keys b where "put_strings [''ab'', '''', ''c''] (init_capacity 100 (\<lambda>a. 0)) = (keys, b)" by fastforce
  with strings_roundtrip [of "[''ab'', '''', ''c'']" 100] show ?thesis by auto
qed

text \<open>
A string that does not fit uses up its bytes all the same: \<open>put_cstring\<close> advances the size before
it checks the capacity. From then on every string fails, even one the buffer had room for.
\<close>

theorem overflow_is_final:
  assumes "buf_capacity b \<le> buf_size b + length s + 1"
  shows "fst (buffer_put_cstring t (snd (buffer_put_cstring s b))) = - 1"
  using assms by (simp add: buffer_put_cstring_def Let_def)

lemma overflow_is_final_witness:
  "let b = init_capacity 10 (\<lambda>a. 0) in
     fst (buffer_put_cstring ''a'' b) = 0 \<and> fst (buffer_put_cstring ''abcdefghij'' b) = - 1 \<and>
     fst (buffer_put_cstring ''a'' (snd (buffer_put_cstring ''abcdefghij'' b))) = - 1"
  using overflow_is_final [of "init_capacity 10 (\<lambda>a. 0)" "''abcdefghij''" "''a''"]
  by (simp add: init_capacity_def buffer_put_cstring_def Let_def)

text \<open>
The key of a string of 64 KiB or more is wrong: the length field keeps only the low 16 bits of the
length, so the string read back is a different, shorter one.
\<close>

theorem long_string_lost:
  assumes "2 ^ 16 \<le> length s"
  shows "get_string (snd (put_cstring s b)) (fst (put_cstring s b)) \<noteq> s"
proof -
  let ?k = "fst (put_cstring s b)"
  have "length (get_string b' k) = unat (k AND 0xffff)" for b' and k :: u64
    by (simp add: get_string_def buffer_get_string_def Let_def)
  moreover have "unat (k AND 0xffff) < 2 ^ 16" for k :: u64
  proof -
    have "k AND 0xffff = take_bit 16 k" by (simp add: take_bit_eq_mask mask_eq_exp_minus_1)
    then show ?thesis using take_bit_nat_less_exp [of 16 "unat k"] by (simp add: unsigned_take_bit_eq)
  qed
  ultimately have "length (get_string b' k) < 2 ^ 16" for b' and k :: u64 by metis
  then show ?thesis using assms(1) by (metis not_le)
qed

lemma long_string_lost_witness:
  "get_string (snd (put_cstring (replicate (2 ^ 16) CHR ''a'') (init_capacity 100000 (\<lambda>a. 0)))) (fst (put_cstring (replicate (2 ^ 16) CHR ''a'') (init_capacity 100000 (\<lambda>a. 0)))) \<noteq>
    replicate (2 ^ 16) CHR ''a''"
  by (rule long_string_lost) simp

end
