(* ===== verification/Edge_Props.thy ===== *)
theory Edge_Props
  imports String_Buffer
begin

text \<open>
  The record of an edge's properties: a null bitmap followed by one field per property.
  \<^verbatim>\<open>GraphStore::construct_eprop\<close> (\<^verbatim>\<open>vegito/src/graph/graph_store.cc\<close>)
  writes it from the values of a log line; the accessors of
  \<^verbatim>\<open>EdgeIterator\<close> (\<^verbatim>\<open>interfaces/fragment/iterator.h\<close>) read it.
\<close>

section \<open>Writing a record\<close>

text \<open>What the store knows of the properties of an edge label; offsets count from the end of the bitmap.\<close>

record eprop_schema =
  prop_total_bytes :: nat
  edge_bitmap_size :: nat
  prop_dtype :: "nat \<Rightarrow> prop_type"
  prop_prefix_bytes :: "nat \<Rightarrow> nat"

text \<open>One property; \<open>None\<close> is a write outside the record.\<close>

definition eprop_step ::
  "(prop_type \<Rightarrow> string \<Rightarrow> bytes option) \<Rightarrow> eprop_schema \<Rightarrow> nat \<Rightarrow> string \<Rightarrow> bytes \<times> buffer \<Rightarrow>
     (bytes \<times> buffer) option" where
  "eprop_step real_bytes sch idx sv st =
     (let (buf, b) = st;
          buf1 = (if sv = [] then set_bit_arr buf idx else buf);
          dtype = prop_dtype sch idx;
          at = edge_bitmap_size sch + prop_prefix_bytes sch idx;
          (buf2, b2, val) =
            (if dtype = STRING then
               (let buf2 = (if sv = [] then set_bit_arr buf1 idx else buf1);
                    (key, b2) = put_cstring sv b
                in (buf2, b2, to_string (unat key)))
             else (buf1, b, sv))
      in if sv = [] then Some (buf2, b2)
         else (case assign_prop real_bytes dtype val of
             Kept \<Rightarrow> Some (buf2, b2)
           | Overrun \<Rightarrow> None
           | Written bs \<Rightarrow>
               if length buf2 < at + length bs then None else Some (put_bytes at bs buf2, b2)))"

primrec eprop_loop ::
  "(prop_type \<Rightarrow> string \<Rightarrow> bytes option) \<Rightarrow> eprop_schema \<Rightarrow> nat \<Rightarrow> string list \<Rightarrow> bytes \<times> buffer \<Rightarrow>
     (bytes \<times> buffer) option" where
  "eprop_loop real_bytes sch idx [] st = Some st"
| "eprop_loop real_bytes sch idx (sv # svs) st =
     (case eprop_step real_bytes sch idx sv st of
        None \<Rightarrow> None
      | Some st' \<Rightarrow> eprop_loop real_bytes sch (Suc idx) svs st')"

definition construct_eprop ::
  "(prop_type \<Rightarrow> string \<Rightarrow> bytes option) \<Rightarrow> eprop_schema \<Rightarrow> string list \<Rightarrow> buffer \<Rightarrow> (bytes \<times> buffer) option" where
  "construct_eprop real_bytes sch eprop b =
     eprop_loop real_bytes sch 0 eprop (replicate (prop_total_bytes sch + edge_bitmap_size sch) 0, b)"

section \<open>Reading a record\<close>

text \<open>\<open>prop_offsets\<close> holds the end of each field, so a field starts where the one before it ends.\<close>

definition get_data_is_valid :: "bytes \<Rightarrow> nat \<Rightarrow> bool" where
  "get_data_is_valid data prop_id \<longleftrightarrow> get_bit data prop_id = False"

definition field_offset :: "nat \<Rightarrow> nat list \<Rightarrow> nat \<Rightarrow> nat" where
  "field_offset bitmap_size prop_offsets prop_id =
     (if prop_id = 0 then bitmap_size else bitmap_size + prop_offsets ! (prop_id - 1))"

definition get_data_impl :: "nat \<Rightarrow> nat list \<Rightarrow> bytes \<Rightarrow> nat \<Rightarrow> nat \<Rightarrow> bytes" where
  "get_data_impl bitmap_size prop_offsets data prop_id width =
     get_bytes (field_offset bitmap_size prop_offsets prop_id) width data"

text \<open>A string: the field is a signed 64-bit key.\<close>

definition get_data_string :: "buffer \<Rightarrow> nat \<Rightarrow> nat list \<Rightarrow> bytes \<Rightarrow> nat \<Rightarrow> string" where
  "get_data_string b bitmap_size prop_offsets data prop_id =
     (let v = le_signed (get_data_impl bitmap_size prop_offsets data prop_id 8);
          str_offset = v div 2 ^ 16; str_len = v mod 2 ^ 16
      in buffer_get_string b (nat str_offset) (nat str_len))"

section \<open>Keys as signed numbers\<close>

lemma key_div_mod:
  fixes k :: u64
  shows "unat (drop_bit 16 k) = unat k div 2 ^ 16" and "unat (k AND 0xffff) = unat k mod 2 ^ 16"
proof -
  show "unat (drop_bit 16 k) = unat k div 2 ^ 16"
    unfolding drop_bit_eq_div unat_div by simp
  have "k AND 0xffff = take_bit 16 k" by (simp add: take_bit_eq_mask mask_eq_exp_minus_1)
  then show "unat (k AND 0xffff) = unat k mod 2 ^ 16"
    unfolding take_bit_eq_mod by (simp add: unat_mod)
qed

lemma fits_key_value:
  assumes "string_fits s b" and "put_cstring s b = (k, b')"
  shows "unat k = buf_size b * 2 ^ 16 + length s"
proof -
  have "unat k = unat (drop_bit 16 k) * 2 ^ 16 + unat (k AND 0xffff)" unfolding key_div_mod by simp
  then show ?thesis unfolding fits_key [OF assms] .
qed

lemma get_string_value: "get_string b k = buffer_get_string b (unat k div 2 ^ 16) (unat k mod 2 ^ 16)"
  unfolding get_string_def Let_def key_div_mod ..

lemma string_of_key:
  assumes "unat k < 2 ^ 63"
  shows "buffer_get_string b (nat (le_signed (le_bytes 8 (int (unat k))) div 2 ^ 16))
    (nat (le_signed (le_bytes 8 (int (unat k))) mod 2 ^ 16)) = get_string b k"
proof -
  have "int (unat k) < int (2 ^ 63)" using assms by (simp only: of_nat_less_iff)
  then have "le_signed (le_bytes 8 (int (unat k))) = int (unat k)"
    by (intro le_signed_le_bytes) (simp_all del: of_nat_unat)
  moreover have "nat (int (unat k) div 2 ^ 16) = unat k div 2 ^ 16"
    "nat (int (unat k) mod 2 ^ 16) = unat k mod 2 ^ 16"
    by (simp_all add: nat_div_distrib nat_mod_distrib)
  ultimately show ?thesis by (simp add: get_string_value)
qed

section \<open>The loop\<close>

text \<open>A layout: the bitmap covers \<open>n\<close> properties, and their fields lie one behind the other.\<close>

definition schema_ok :: "eprop_schema \<Rightarrow> nat \<Rightarrow> bool" where
  "schema_ok sch n \<longleftrightarrow> n \<le> 8 * edge_bitmap_size sch \<and>
     (\<forall>i < n. prop_prefix_bytes sch i + prop_width (prop_dtype sch i) \<le> prop_total_bytes sch) \<and>
     (\<forall>i < n. \<forall>j < n. i < j \<longrightarrow> prop_prefix_bytes sch i + prop_width (prop_dtype sch i) \<le> prop_prefix_bytes sch j)"

definition field :: "eprop_schema \<Rightarrow> nat \<Rightarrow> bytes \<Rightarrow> bytes" where
  "field sch i buf = get_bytes (edge_bitmap_size sch + prop_prefix_bytes sch i) (prop_width (prop_dtype sch i)) buf"

definition room :: "string list \<Rightarrow> buffer \<Rightarrow> bool" where
  "room ss b \<longleftrightarrow> (\<forall>s \<in> set ss. length s < 2 ^ 16) \<and> buf_capacity b \<le> 2 ^ 47 \<and>
     buf_size b + sum_list (map (\<lambda>s. length s + 1) ss) < buf_capacity b"

text \<open>What a field holds for a value.\<close>

definition holds ::
  "(prop_type \<Rightarrow> string \<Rightarrow> bytes option) \<Rightarrow> prop_type \<Rightarrow> string \<Rightarrow> buffer \<Rightarrow> bytes \<Rightarrow> bool" where
  "holds real_bytes t sv b bs \<longleftrightarrow>
     (if t = STRING then \<exists>k. key_held b k \<and> get_string b k = sv \<and> unat k < 2 ^ 63 \<and> bs = le_bytes 8 (int (unat k))
      else \<forall>ws. assign_prop real_bytes t sv = Written ws \<longrightarrow> bs = ws)"

lemma get_bit_put_bytes:
  assumes "i < 8 * m" and "m \<le> off" and "off + length bs \<le> length buf"
  shows "get_bit (put_bytes off bs buf) i = get_bit buf i"
proof -
  have "BYTE_INDEX i < m" using assms(1) by (simp add: BYTE_INDEX_eq less_mult_imp_div_less mult.commute)
  then show ?thesis using assms by (simp add: get_bit_def nth_put_bytes)
qed

lemma field_set_bit:
  assumes "i < 8 * edge_bitmap_size sch" and "length buf = prop_total_bytes sch + edge_bitmap_size sch"
    and "prop_prefix_bytes sch j + prop_width (prop_dtype sch j) \<le> prop_total_bytes sch"
  shows "field sch j (set_bit_arr buf i) = field sch j buf"
proof -
  have "BYTE_INDEX i < edge_bitmap_size sch"
    using assms(1) by (simp add: BYTE_INDEX_eq less_mult_imp_div_less mult.commute)
  then show ?thesis
    unfolding field_def using assms(2,3) by (intro get_bytes_cong) (auto simp: set_bit_arr_def)
qed

lemma field_put_other:
  assumes "i < n" and "j < n" and "j \<noteq> i" and "schema_ok sch n"
    and "length buf = prop_total_bytes sch + edge_bitmap_size sch" and "length bs = prop_width (prop_dtype sch i)"
  shows "field sch j (put_bytes (edge_bitmap_size sch + prop_prefix_bytes sch i) bs buf) = field sch j buf"
proof -
  have b: "prop_prefix_bytes sch x + prop_width (prop_dtype sch x) \<le> prop_total_bytes sch" if "x < n" for x
    using assms(4) that by (auto simp: schema_ok_def)
  have lt: "prop_prefix_bytes sch x + prop_width (prop_dtype sch x) \<le> prop_prefix_bytes sch y"
    if "x < y" "y < n" for x y
    using assms(4) that by (auto simp: schema_ok_def)
  have "i < j \<or> j < i" using assms(3) by auto
  then show ?thesis
    unfolding field_def using b [OF assms(1)] b [OF assms(2)] assms lt [of i j] lt [of j i]
    by (intro get_put_other) (elim disjE; simp)+
qed

lemma prop_width_string: "prop_width STRING = 8"
  by (simp add: prop_width_def)

lemma eprop_step_ok:
  assumes sch: "schema_ok sch n" and i: "i < n" and re: "real_bytes_ok f"
    and len: "length buf = prop_total_bytes sch + edge_bitmap_size sch"
    and fit: "prop_dtype sch i = STRING \<Longrightarrow> string_fits sv b \<and> buf_capacity b \<le> 2 ^ 47"
    and run: "eprop_step f sch i sv (buf, b) = Some (buf', b')"
  shows "length buf' = length buf"
    and "x < n \<Longrightarrow> get_bit buf' x = (x = i \<and> sv = [] \<or> get_bit buf x)"
    and "j < n \<Longrightarrow> j \<noteq> i \<Longrightarrow> field sch j buf' = field sch j buf"
    and "b' = (if prop_dtype sch i = STRING then snd (put_cstring sv b) else b)"
    and "sv \<noteq> [] \<Longrightarrow> holds f (prop_dtype sch i) sv b' (field sch i buf')"
proof -
  let ?t = "prop_dtype sch i" and ?at = "edge_bitmap_size sch + prop_prefix_bytes sch i"
  have bits: "n \<le> 8 * edge_bitmap_size sch" and
    inside: "prop_prefix_bytes sch x + prop_width (prop_dtype sch x) \<le> prop_total_bytes sch" if "x < n" for x
    using sch that i by (auto simp: schema_ok_def)
  have i8: "i < 8 * length buf" using bits [OF i] i len by simp
  have i8': "i < 8 * edge_bitmap_size sch" using bits [OF i] i by simp
  obtain key b2 where put: "put_cstring sv b = (key, b2)" by fastforce
  define buf1 where "buf1 = (if sv = [] then set_bit_arr buf i else buf)"
  have buf1: "length buf1 = length buf" "x < n \<Longrightarrow> get_bit buf1 x = (x = i \<and> sv = [] \<or> get_bit buf x)"
    "j < n \<Longrightarrow> field sch j buf1 = field sch j buf" for x j
    using get_set_bit_arr [OF i8, of x] field_set_bit [OF i8' len inside, of j] by (auto simp: buf1_def)
  have twice: "x < n \<Longrightarrow> get_bit (set_bit_arr buf1 i) x = (x = i \<or> get_bit buf1 x)" for x
    using get_set_bit_arr [of i buf1 x] i8 buf1(1) by simp
  define bufs where "bufs = (if ?t = STRING \<and> sv = [] then set_bit_arr buf1 i else buf1)"
  have bufs: "length bufs = length buf" "x < n \<Longrightarrow> get_bit bufs x = (x = i \<and> sv = [] \<or> get_bit buf x)"
    "j < n \<Longrightarrow> field sch j bufs = field sch j buf" for x j
    using twice [of x] buf1 field_set_bit [OF i8', of buf1 j] len inside [of j] by (auto simp: bufs_def)
  define bs where "bs = (if ?t = STRING then b2 else b)"
  define val where "val = (if ?t = STRING then to_string (unat key) else sv)"
  have step: "eprop_step f sch i sv (buf, b) = (if sv = [] then Some (bufs, bs)
      else (case assign_prop f ?t val of Kept \<Rightarrow> Some (bufs, bs) | Overrun \<Rightarrow> None
        | Written ws \<Rightarrow> if length bufs < ?at + length ws then None else Some (put_bytes ?at ws bufs, bs)))"
    using put
    by (cases "?t = STRING"; cases "sv = []") (simp_all add: eprop_step_def Let_def bufs_def buf1_def bs_def val_def
      cong: if_cong assigned.case_cong)
  have b': "b' = bs" using run step by (auto split: if_splits assigned.splits)
  then show "b' = (if ?t = STRING then snd (put_cstring sv b) else b)" by (simp add: bs_def put)
  consider (kept) "buf' = bufs" "sv = [] \<or> assign_prop f ?t val = Kept"
    | (written) ws where "sv \<noteq> []" "assign_prop f ?t val = Written ws" "?at + length ws \<le> length bufs"
        "buf' = put_bytes ?at ws bufs"
    using run step by (auto split: if_splits assigned.splits)
  note cases = this
  have key: "assign_prop f ?t val = Written (le_bytes 8 (int (unat key)))" if "?t = STRING"
    using stoull_to_string [of "unat key"] unsigned_less [of key, where 'a = nat] that
    by (simp add: assign_prop_def of_conv_def val_def)
  show "length buf' = length buf" using cases bufs(1) by cases simp_all
  show "get_bit buf' x = (x = i \<and> sv = [] \<or> get_bit buf x)" if x: "x < n" for x
    using cases
  proof cases
    case kept
    then show ?thesis using bufs(2) [OF x] by simp
  next
    case (written ws)
    have "get_bit buf' x = get_bit bufs x"
      unfolding written(4) by (rule get_bit_put_bytes [of _ "edge_bitmap_size sch"])
        (use x bits [OF x] written(3) in simp_all)
    then show ?thesis using bufs(2) [OF x] by simp
  qed
  show "field sch j buf' = field sch j buf" if j: "j < n" "j \<noteq> i" for j
    using cases
  proof cases
    case kept
    then show ?thesis using bufs(3) [OF j(1)] by simp
  next
    case (written ws)
    have "field sch j buf' = field sch j bufs"
      unfolding written(4) using i j sch bufs(1) len assign_prop_width [OF re written(2)]
      by (intro field_put_other) simp_all
    then show ?thesis using bufs(3) [OF j(1)] by simp
  qed
  show "holds f ?t sv b' (field sch i buf')" if ne: "sv \<noteq> []"
    using cases
  proof cases
    case kept
    have "?t \<noteq> STRING" using key kept(2) ne by auto
    then show ?thesis using kept ne by (simp add: holds_def val_def)
  next
    case (written ws)
    have f: "field sch i buf' = ws"
      unfolding field_def written(4) using written(3) assign_prop_width [OF re written(2)] by simp
    show ?thesis
    proof (cases "?t = STRING")
      case True
      have fits: "string_fits sv b" "buf_capacity b \<le> 2 ^ 47" using fit [OF True] by simp_all
      then have "length sv < 2 ^ 16" "buf_size b + 1 \<le> 2 ^ 47" by (simp_all add: string_fits_def)
      then have "unat key < 2 ^ 63" unfolding fits_key_value [OF fits(1) put] by simp
      then show ?thesis
        using pool.put_held [OF fits(1) put] key [OF True] written(2) f True b' by (auto simp: holds_def bs_def)
    next
      case False
      then show ?thesis using written(2) f by (simp add: holds_def val_def)
    qed
  qed
qed

lemma holds_later:
  assumes "holds f t sv b bs" and "\<And>k. key_held b k \<Longrightarrow> key_held b' k \<and> get_string b' k = get_string b k"
  shows "holds f t sv b' bs"
  using assms unfolding holds_def by metis

lemma room_step:
  assumes "room (sv # svs) b"
  shows "string_fits sv b" and "buf_capacity b \<le> 2 ^ 47"
    and "room svs (if t = STRING then snd (put_cstring sv b) else b)"
proof -
  show f: "string_fits sv b" and "buf_capacity b \<le> 2 ^ 47" using assms by (simp_all add: room_def string_fits_def)
  show "room svs (if t = STRING then snd (put_cstring sv b) else b)"
    using assms unfolding put_cstring_fits [OF f] by (simp add: room_def)
qed

lemma eprop_loop_ok:
  assumes sch: "schema_ok sch n" and re: "real_bytes_ok f"
  shows "eprop_loop f sch i svs (buf, b) = Some (buf', b') \<Longrightarrow> i + length svs \<le> n \<Longrightarrow>
      length buf = prop_total_bytes sch + edge_bitmap_size sch \<Longrightarrow> room svs b \<Longrightarrow>
    length buf' = length buf \<and>
    (\<forall>x < n. get_bit buf' x = (i \<le> x \<and> x < i + length svs \<and> svs ! (x - i) = [] \<or> get_bit buf x)) \<and>
    (\<forall>x < i. field sch x buf' = field sch x buf) \<and>
    (\<forall>k. key_held b k \<longrightarrow> key_held b' k \<and> get_string b' k = get_string b k) \<and>
    (\<forall>x. i \<le> x \<and> x < i + length svs \<and> svs ! (x - i) \<noteq> [] \<longrightarrow>
       holds f (prop_dtype sch x) (svs ! (x - i)) b' (field sch x buf'))"
proof (induction svs arbitrary: i buf b)
  case Nil
  then show ?case by auto
next
  case (Cons sv svs)
  obtain buf1 b1 where step: "eprop_step f sch i sv (buf, b) = Some (buf1, b1)"
    and rest: "eprop_loop f sch (Suc i) svs (buf1, b1) = Some (buf', b')"
    using Cons.prems(1) by (auto split: option.splits)
  have i: "i < n" using Cons.prems(2) by simp
  note r = room_step [OF Cons.prems(4)]
  note st = eprop_step_ok [OF sch i re Cons.prems(3) _ step, OF conjI [OF r(1,2)]]
  have b1: "b1 = (if prop_dtype sch i = STRING then snd (put_cstring sv b) else b)" by (rule st(4))
  have keys: "key_held b k \<Longrightarrow> key_held b1 k \<and> get_string b1 k = get_string b k" for k
    using pool.put_keeps [OF r(1)] by (cases "put_cstring sv b") (simp add: b1)
  have IH: "length buf' = length buf1 \<and>
    (\<forall>x < n. get_bit buf' x = (Suc i \<le> x \<and> x < Suc i + length svs \<and> svs ! (x - Suc i) = [] \<or> get_bit buf1 x)) \<and>
    (\<forall>x < Suc i. field sch x buf' = field sch x buf1) \<and>
    (\<forall>k. key_held b1 k \<longrightarrow> key_held b' k \<and> get_string b' k = get_string b1 k) \<and>
    (\<forall>x. Suc i \<le> x \<and> x < Suc i + length svs \<and> svs ! (x - Suc i) \<noteq> [] \<longrightarrow>
       holds f (prop_dtype sch x) (svs ! (x - Suc i)) b' (field sch x buf'))"
    by (rule Cons.IH [OF rest]) (use Cons.prems(2,3) st(1) r(3) b1 in auto)
  have "get_bit buf' x = (i \<le> x \<and> x < i + length (sv # svs) \<and> (sv # svs) ! (x - i) = [] \<or> get_bit buf x)"
    if "x < n" for x
    using IH st(2) [OF that] that by (cases "x = i") (auto simp: nth_Cons' le_eq_less_or_eq)
  moreover have "field sch x buf' = field sch x buf" if "x < i" for x
    using IH st(3) [of x] that i by auto
  moreover have "holds f (prop_dtype sch x) ((sv # svs) ! (x - i)) b' (field sch x buf')"
    if x: "i \<le> x" "x < i + length (sv # svs)" "(sv # svs) ! (x - i) \<noteq> []" for x
  proof (cases "x = i")
    case True
    have "holds f (prop_dtype sch i) sv b' (field sch i buf1)"
      by (rule holds_later [OF st(5)]) (use IH x True in auto)
    then show ?thesis using IH True by simp
  next
    case False
    then show ?thesis using IH x by (auto simp: nth_Cons' Suc_le_eq)
  qed
  ultimately show ?case using IH st(1) keys by auto
qed

section \<open>Properties\<close>

text \<open>The offsets a fragment computes from the schema: where each field ends.\<close>

definition reader_offsets :: "eprop_schema \<Rightarrow> nat \<Rightarrow> nat list" where
  "reader_offsets sch n = map (\<lambda>i. prop_prefix_bytes sch i + prop_width (prop_dtype sch i)) [0..<n]"

text \<open>Fields without gaps, as the schema of the loader has them.\<close>

definition packed :: "eprop_schema \<Rightarrow> nat \<Rightarrow> bool" where
  "packed sch n \<longleftrightarrow> edge_bitmap_size sch = BYTE_SIZE n \<and> (0 < n \<longrightarrow> prop_prefix_bytes sch 0 = 0) \<and>
     (\<forall>i. Suc i < n \<longrightarrow> prop_prefix_bytes sch (Suc i) = prop_prefix_bytes sch i + prop_width (prop_dtype sch i)) \<and>
     (0 < n \<longrightarrow> prop_total_bytes sch = prop_prefix_bytes sch (n - 1) + prop_width (prop_dtype sch (n - 1)))"

lemma packed_mono:
  assumes "packed sch n" and "i < j" and "j < n"
  shows "prop_prefix_bytes sch i + prop_width (prop_dtype sch i) \<le> prop_prefix_bytes sch j"
  using assms(2,3)
proof (induction j)
  case (Suc j)
  have "prop_prefix_bytes sch (Suc j) = prop_prefix_bytes sch j + prop_width (prop_dtype sch j)"
    using assms(1) Suc.prems(2) by (simp add: packed_def)
  then show ?case using Suc by (cases "i = j") auto
qed simp

lemma packed_ok: "packed sch n \<Longrightarrow> schema_ok sch n"
proof -
  assume p: "packed sch n"
  have "n \<le> 8 * BYTE_SIZE n" unfolding BYTE_SIZE_eq by linarith
  moreover have "prop_prefix_bytes sch i + prop_width (prop_dtype sch i) \<le> prop_total_bytes sch" if "i < n" for i
  proof (cases "i = n - 1")
    case True
    then show ?thesis using p that by (simp add: packed_def)
  next
    case False
    then have "prop_prefix_bytes sch i + prop_width (prop_dtype sch i) \<le> prop_prefix_bytes sch (n - 1)"
      using that by (intro packed_mono [OF p]) auto
    then show ?thesis using p that by (simp add: packed_def)
  qed
  ultimately show ?thesis using p packed_mono [OF p] by (simp add: schema_ok_def packed_def)
qed

lemma field_offset_packed:
  assumes "packed sch n" and "i < n"
  shows "field_offset (edge_bitmap_size sch) (reader_offsets sch n) i = edge_bitmap_size sch + prop_prefix_bytes sch i"
  using assms by (cases i) (auto simp: field_offset_def reader_offsets_def packed_def)

lemma edge_record_fields:
  assumes "packed sch n" and "real_bytes_ok f" and "length eprop = n" and "room eprop b"
    and "construct_eprop f sch eprop b = Some (data, b')" and "i < n"
  shows "get_data_is_valid data i \<longleftrightarrow> eprop ! i \<noteq> []"
    and "eprop ! i \<noteq> [] \<Longrightarrow> prop_dtype sch i \<noteq> STRING \<Longrightarrow> assign_prop f (prop_dtype sch i) (eprop ! i) = Written ws \<Longrightarrow>
      get_data_impl (edge_bitmap_size sch) (reader_offsets sch n) data i (prop_width (prop_dtype sch i)) = ws"
    and "eprop ! i \<noteq> [] \<Longrightarrow> prop_dtype sch i = STRING \<Longrightarrow>
      get_data_string b' (edge_bitmap_size sch) (reader_offsets sch n) data i = eprop ! i"
proof -
  let ?buf = "replicate (prop_total_bytes sch + edge_bitmap_size sch) 0 :: bytes"
  note sch = packed_ok [OF assms(1)]
  have L: "length data = length ?buf \<and>
    (\<forall>x < n. get_bit data x = (0 \<le> x \<and> x < 0 + length eprop \<and> eprop ! (x - 0) = [] \<or> get_bit ?buf x)) \<and>
    (\<forall>x < 0. field sch x data = field sch x ?buf) \<and>
    (\<forall>k. key_held b k \<longrightarrow> key_held b' k \<and> get_string b' k = get_string b k) \<and>
    (\<forall>x. 0 \<le> x \<and> x < 0 + length eprop \<and> eprop ! (x - 0) \<noteq> [] \<longrightarrow>
       holds f (prop_dtype sch x) (eprop ! (x - 0)) b' (field sch x data))"
    by (rule eprop_loop_ok [OF sch assms(2)]) (use assms(3-5) in \<open>simp_all add: construct_eprop_def\<close>)
  have "BYTE_INDEX i < edge_bitmap_size sch"
    using assms(1,6) BYTE_INDEX_bound [of i n] by (simp add: packed_def)
  then have "\<not> get_bit ?buf i" by (simp add: get_bit_def)
  then show "get_data_is_valid data i \<longleftrightarrow> eprop ! i \<noteq> []"
    using L assms(3,6) by (simp add: get_data_is_valid_def)
  assume ne: "eprop ! i \<noteq> []"
  have h: "holds f (prop_dtype sch i) (eprop ! i) b' (field sch i data)" using L ne assms(3,6) by simp
  have d: "get_data_impl (edge_bitmap_size sch) (reader_offsets sch n) data i (prop_width (prop_dtype sch i)) =
      field sch i data"
    by (simp add: get_data_impl_def field_offset_packed [OF assms(1,6)] field_def)
  show "get_data_impl (edge_bitmap_size sch) (reader_offsets sch n) data i (prop_width (prop_dtype sch i)) = ws"
    if "prop_dtype sch i \<noteq> STRING" "assign_prop f (prop_dtype sch i) (eprop ! i) = Written ws"
    using h that by (simp add: holds_def d)
  show "get_data_string b' (edge_bitmap_size sch) (reader_offsets sch n) data i = eprop ! i"
    if t: "prop_dtype sch i = STRING"
  proof -
    obtain k where k: "key_held b' k" "get_string b' k = eprop ! i" "unat k < 2 ^ 63"
      "field sch i data = le_bytes 8 (int (unat k))" using h t by (auto simp: holds_def)
    have "get_data_impl (edge_bitmap_size sch) (reader_offsets sch n) data i 8 = le_bytes 8 (int (unat k))"
      using d k(4) by (simp add: t prop_width_string)
    then show ?thesis using string_of_key [OF k(3), of b'] k(2) by (simp add: get_data_string_def Let_def)
  qed
qed


lemma assign_overrun: "assign_prop f t sv = Overrun \<longleftrightarrow> t = TIMESTAMP \<and> TIMESTAMP_LEN < length sv"
  by (cases t) (auto simp: assign_prop_def of_conv_def assign_inline_str_def
      split: sum.splits list.splits option.splits)

lemma eprop_step_shape:
  "\<exists>bufs bs val. length bufs = length buf \<and> (prop_dtype sch i \<noteq> STRING \<longrightarrow> val = sv) \<and>
    eprop_step f sch i sv (buf, b) = (if sv = [] then Some (bufs, bs)
      else (case assign_prop f (prop_dtype sch i) val of Kept \<Rightarrow> Some (bufs, bs) | Overrun \<Rightarrow> None
        | Written ws \<Rightarrow> if length bufs < edge_bitmap_size sch + prop_prefix_bytes sch i + length ws then None
            else Some (put_bytes (edge_bitmap_size sch + prop_prefix_bytes sch i) ws bufs, bs)))"
proof -
  obtain key b2 where put: "put_cstring sv b = (key, b2)" by fastforce
  let ?buf1 = "if sv = [] then set_bit_arr buf i else buf"
  show ?thesis
  proof (cases "prop_dtype sch i = STRING")
    case True
    then show ?thesis using put
      by (intro exI [of _ "if sv = [] then set_bit_arr ?buf1 i else ?buf1"] exI [of _ b2] exI [of _ "to_string (unat key)"])
        (auto simp: eprop_step_def Let_def cong: if_cong assigned.case_cong)
  next
    case False
    then show ?thesis
      by (intro exI [of _ ?buf1] exI [of _ b] exI [of _ sv])
        (auto simp: eprop_step_def Let_def cong: if_cong assigned.case_cong)
  qed
qed

lemma eprop_step_none:
  assumes sch: "schema_ok sch n" and i: "i < n" and re: "real_bytes_ok f"
    and len: "length buf = prop_total_bytes sch + edge_bitmap_size sch"
  shows "eprop_step f sch i sv (buf, b) = None \<longleftrightarrow> prop_dtype sch i = TIMESTAMP \<and> TIMESTAMP_LEN < length sv"
proof -
  obtain bufs bs val where l: "length bufs = length buf" and v: "prop_dtype sch i \<noteq> STRING \<longrightarrow> val = sv"
    and st: "eprop_step f sch i sv (buf, b) = (if sv = [] then Some (bufs, bs)
      else (case assign_prop f (prop_dtype sch i) val of Kept \<Rightarrow> Some (bufs, bs) | Overrun \<Rightarrow> None
        | Written ws \<Rightarrow> if length bufs < edge_bitmap_size sch + prop_prefix_bytes sch i + length ws then None
            else Some (put_bytes (edge_bitmap_size sch + prop_prefix_bytes sch i) ws bufs, bs)))"
    using eprop_step_shape [of buf sch i sv f b] by blast
  have "edge_bitmap_size sch + prop_prefix_bytes sch i + prop_width (prop_dtype sch i) \<le> length bufs"
    using sch i len l by (auto simp: schema_ok_def)
  then have fit: "\<not> length bufs < edge_bitmap_size sch + prop_prefix_bytes sch i + length ws"
    if "assign_prop f (prop_dtype sch i) val = Written ws" for ws
    using assign_prop_width [OF re that] by simp
  show ?thesis
  proof (cases "sv = []")
    case True
    then show ?thesis unfolding st by simp
  next
    case False
    then have "eprop_step f sch i sv (buf, b) = None \<longleftrightarrow> assign_prop f (prop_dtype sch i) val = Overrun"
      unfolding st using fit by (cases "assign_prop f (prop_dtype sch i) val") simp_all
    then show ?thesis using assign_overrun [of f "prop_dtype sch i" val] v by auto
  qed
qed

lemma eprop_step_length:
  assumes "eprop_step f sch i sv (buf, b) = Some (buf', b')"
  shows "length buf' = length buf"
  using eprop_step_shape [of buf sch i sv f b] assms by (auto split: if_splits assigned.splits)

lemma eprop_loop_none:
  assumes "schema_ok sch n" and "real_bytes_ok f"
  shows "i + length svs \<le> n \<Longrightarrow> length buf = prop_total_bytes sch + edge_bitmap_size sch \<Longrightarrow>
    eprop_loop f sch i svs (buf, b) = None \<longleftrightarrow>
      (\<exists>x < length svs. prop_dtype sch (i + x) = TIMESTAMP \<and> TIMESTAMP_LEN < length (svs ! x))"
proof (induction svs arbitrary: i buf b)
  case (Cons sv svs)
  let ?bad = "\<lambda>x. prop_dtype sch (i + x) = TIMESTAMP \<and> TIMESTAMP_LEN < length ((sv # svs) ! x)"
  have i: "i < n" using Cons.prems(1) by simp
  note none = eprop_step_none [OF assms(1) i assms(2) Cons.prems(2), of sv b]
  have split: "(\<exists>x < length (sv # svs). ?bad x) \<longleftrightarrow> ?bad 0 \<or> (\<exists>x < length svs. ?bad (Suc x))"
    unfolding length_Cons by (simp only: Ex_less_Suc2)
  show ?case
  proof (cases "eprop_step f sch i sv (buf, b)")
    case None
    then show ?thesis using none unfolding split by simp
  next
    case (Some st)
    obtain buf1 b1 where st: "st = (buf1, b1)" by fastforce
    have "eprop_loop f sch (Suc i) svs (buf1, b1) = None \<longleftrightarrow>
        (\<exists>x < length svs. prop_dtype sch (Suc i + x) = TIMESTAMP \<and> TIMESTAMP_LEN < length (svs ! x))"
      by (rule Cons.IH) (use Cons.prems eprop_step_length [OF Some [unfolded st]] in simp_all)
    then show ?thesis using none Some st unfolding split by auto
  qed
qed simp

lemma construct_eprop_none:
  assumes "packed sch n" and "real_bytes_ok f" and "length eprop = n"
  shows "construct_eprop f sch eprop b = None \<longleftrightarrow>
    (\<exists>i < n. prop_dtype sch i = TIMESTAMP \<and> TIMESTAMP_LEN < length (eprop ! i))"
  using eprop_loop_none [OF packed_ok [OF assms(1)] assms(2), of 0 eprop] assms(3)
  by (simp add: construct_eprop_def)

text \<open>
C32: A property of an edge that the writer builds from a log line is what a fragment reads back through
\<open>get_data\<close>: it is null exactly if the value was empty; a number or a time has the bytes its
conversion gives; a string is the string of the log line, found through its key in the buffer.
\<close>

theorem edge_record_roundtrip:
  assumes "packed sch n" and "real_bytes_ok f" and "length eprop = n" and "room eprop b"
    and "construct_eprop f sch eprop b = Some (data, b')" and "i < n"
  shows "(get_data_is_valid data i \<longleftrightarrow> eprop ! i \<noteq> []) \<and>
    (eprop ! i \<noteq> [] \<longrightarrow>
      (if prop_dtype sch i = STRING
       then get_data_string b' (edge_bitmap_size sch) (reader_offsets sch n) data i = eprop ! i
       else \<forall>ws. assign_prop f (prop_dtype sch i) (eprop ! i) = Written ws \<longrightarrow>
         get_data_impl (edge_bitmap_size sch) (reader_offsets sch n) data i (prop_width (prop_dtype sch i)) = ws))"
  using edge_record_fields [OF assms] by simp

definition demo_schema :: eprop_schema where
  "demo_schema = \<lparr>prop_total_bytes = 12, edge_bitmap_size = 1,
     prop_dtype = (\<lambda>i. if i = 0 then INT_T else STRING), prop_prefix_bytes = (\<lambda>i. if i = 0 then 0 else 4)\<rparr>"

lemma demo_schema_packed: "packed demo_schema 2"
proof -
  have "Suc i < 2 \<longleftrightarrow> i = 0" for i by auto
  then show ?thesis by (simp add: packed_def demo_schema_def BYTE_SIZE_eq prop_width_def)
qed

lemma edge_record_roundtrip_witness:
  "\<exists>data b. construct_eprop (\<lambda>t s. None) demo_schema [''-7'', ''Ann''] (init_capacity 100 (\<lambda>a. 0)) = Some (data, b) \<and>
     get_data_is_valid data 0 \<and> get_data_is_valid data 1 \<and>
     get_data_impl 1 (reader_offsets demo_schema 2) data 0 4 = [249, 255, 255, 255] \<and>
     get_data_string b 1 (reader_offsets demo_schema 2) data 1 = ''Ann''"
proof -
  let ?b = "init_capacity 100 (\<lambda>a. 0)" and ?vs = "[''-7'', ''Ann'']"
  have re: "real_bytes_ok (\<lambda>t s. None)" by (simp add: real_bytes_ok_def)
  have "construct_eprop (\<lambda>t s. None) demo_schema ?vs ?b \<noteq> None"
    using construct_eprop_none [OF demo_schema_packed re, of ?vs ?b] by (auto simp: demo_schema_def less_Suc_eq numeral_2_eq_2)
  then obtain data b where c: "construct_eprop (\<lambda>t s. None) demo_schema ?vs ?b = Some (data, b)" by auto
  have room: "room ?vs ?b" by (simp add: room_def init_capacity_def)
  have w: "assign_prop (\<lambda>t s. None) INT_T ''-7'' = Written [249, 255, 255, 255]"
    by code_simp
  from edge_record_roundtrip [OF demo_schema_packed re _ room c, of 0] edge_record_roundtrip [OF demo_schema_packed re _ room c, of 1]
  show ?thesis using c w by (auto simp: demo_schema_def prop_width_def)
qed

text \<open>
C39: Building the record of an edge stays inside the record for every input but one: a time stamp longer
than the 22 characters its field has. Debezium writes 22 characters for whole seconds with one decimal and
more for a finer precision.
\<close>

theorem edge_record_overrun:
  assumes "packed sch n" and "real_bytes_ok f" and "length eprop = n"
  shows "construct_eprop f sch eprop b = None \<longleftrightarrow>
    (\<exists>i < n. prop_dtype sch i = TIMESTAMP \<and> TIMESTAMP_LEN < length (eprop ! i))"
  using assms by (rule construct_eprop_none)

lemma edge_record_overrun_witness:
  "construct_eprop (\<lambda>t s. None) (demo_schema\<lparr>prop_total_bytes := 22, prop_dtype := (\<lambda>i. TIMESTAMP)\<rparr>)
     [''2010-12-30T17:15:00.123456Z''] (init_capacity 100 (\<lambda>a. 0)) = None"
proof -
  have "packed (demo_schema\<lparr>prop_total_bytes := 22, prop_dtype := (\<lambda>i. TIMESTAMP)\<rparr>) 1"
    by (simp add: packed_def demo_schema_def BYTE_SIZE_eq prop_width_def)
  from edge_record_overrun [OF this, of "\<lambda>t s. None" "[''2010-12-30T17:15:00.123456Z'']"]
  show ?thesis by (simp add: real_bytes_ok_def TIMESTAMP_LEN_def)
qed

end
