(* ===== verification/Prop_Paged.thy ===== *)
theory Prop_Paged
  imports Edge_Props
begin

text \<open>
  The multi-version store of vertex properties, \<^verbatim>\<open>PropertyColPaged\<close>
  (\<^verbatim>\<open>vegito/src/property/property_col_paged.cc\<close>), and the readers of it in the
  analytics processes (\<^verbatim>\<open>interfaces/fragment/gart_fragment.h\<close>,
  \<^verbatim>\<open>property_util.h\<close>).

  A column family of a label is cut into pages of \<open>page_size\<close> rows. A page holds the null bits of
  its rows and then the rows, \<open>vlen\<close> bytes each; writing at a new version copies the newest page of
  its number and puts the copy in front. Pages live in the buffer's memory and are named by their
  offset in it; 0 is the null pointer. The constructor makes every column family updatable, so the
  branches for fixed columns are never taken. \<open>None\<close> is a null or dangling page, an index outside a
  page or a vector, or a failed assertion.
\<close>

section \<open>State\<close>

record column_family =
  vlen :: nat
  page_size :: nat
  column_num :: nat

definition INIT_VER :: nat where
  "INIT_VER = 2 ^ 64 - 1"

record page =
  pg_ver :: nat
  pg_prev_ptr :: nat
  pg_min_ver :: nat
  pg_prev :: nat
  pg_next :: nat
  pg_content :: bytes

text \<open>The vectors of a column family and its header in the blob, which other processes read.\<close>

record flex_col =
  fc_pages :: "nat list"
  fc_old_pages :: "nat list"
  num_row_per_page :: nat
  page_ptr :: "nat list"

record paged =
  max_items :: nat
  pc_cols :: "column_family list"
  pc_flex :: "flex_col list"
  pc_heap :: "nat \<Rightarrow> page option"
  pc_buf :: buffer
  pc_header :: nat
  pc_stable_header :: nat

definition SIZEOF_PAGE :: nat where
  "SIZEOF_PAGE = 48"

definition FlexColHeader_size :: "nat \<Rightarrow> nat" where
  "FlexColHeader_size num_pages = 8 + num_pages * 8"

definition clamp_page_size :: "nat \<Rightarrow> column_family \<Rightarrow> column_family" where
  "clamp_page_size n col =
     (let c = (if page_size col > n then col\<lparr>page_size := n\<rparr> else col) in
      if page_size c = 0 then c\<lparr>page_size := 4 * 1024\<rparr> else c)"

definition page_count :: "nat \<Rightarrow> nat \<Rightarrow> nat" where
  "page_count n page_sz = (n + page_sz - 1) div page_sz"

primrec new_flex_cols :: "nat \<Rightarrow> column_family list \<Rightarrow> buffer \<Rightarrow> (flex_col list \<times> buffer) option" where
  "new_flex_cols n [] b = Some ([], b)"
| "new_flex_cols n (c # cs) b =
     (let num = page_count n (page_size c) in
      if num = 0 then None
      else case get_region (FlexColHeader_size num) b of
          (None, _) \<Rightarrow> None
        | (Some _, b1) \<Rightarrow>
            map_option (\<lambda>(fs, b2). (\<lparr>fc_pages = replicate num 0, fc_old_pages = replicate num 0,
                num_row_per_page = page_size c, page_ptr = replicate num 0\<rparr> # fs, b2))
              (new_flex_cols n cs b1))"

definition new_paged :: "column_family list \<Rightarrow> nat \<Rightarrow> buffer \<Rightarrow> paged option" where
  "new_paged families n b =
     (let cs = map (clamp_page_size n) families in
      map_option (\<lambda>(fs, b1). \<lparr>max_items = n, pc_cols = cs, pc_flex = fs, pc_heap = (\<lambda>a. None),
          pc_buf = b1, pc_header = 0, pc_stable_header = 0\<rparr>)
        (new_flex_cols n cs b))"

definition getNewOffset :: "paged \<Rightarrow> (nat \<times> paged) option" where
  "getNewOffset st =
     (let ret = pc_header st in if ret < max_items st then Some (ret, st\<lparr>pc_header := ret + 1\<rparr>) else None)"

definition updateHeader :: "paged \<Rightarrow> paged" where
  "updateHeader st = st\<lparr>pc_stable_header := pc_header st\<rparr>"

section \<open>Pages\<close>

definition bitmap_bytes :: "column_family \<Rightarrow> nat" where
  "bitmap_bytes col = BYTE_SIZE (page_size col * column_num col)"

definition content_bytes :: "column_family \<Rightarrow> nat" where
  "content_bytes col = bitmap_bytes col + vlen col * page_size col"

text \<open>
  \<open>getNewPage\<close>: the content of a page without a predecessor, or of a page of one row, is what the
  memory held before.
\<close>

definition getNewPage :: "column_family \<Rightarrow> nat \<Rightarrow> nat \<Rightarrow> nat \<Rightarrow> nat \<Rightarrow> paged \<Rightarrow> (nat \<times> paged) option" where
  "getNewPage col ver prev prop_id pg_num st =
     (case get_region (SIZEOF_PAGE + content_bytes col) (pc_buf st) of
        (None, _) \<Rightarrow> None
      | (Some ptr, b1) \<Rightarrow>
          let raw = map (\<lambda>i. buf_data (pc_buf st) (ptr + SIZEOF_PAGE + i)) [0..<content_bytes col];
              flex = (pc_flex st) ! prop_id;
              flex' = (pc_flex st)[prop_id := flex\<lparr>page_ptr := (page_ptr flex)[pg_num := ptr]\<rparr>]
          in if prev = 0 then
               Some (ptr, st\<lparr>pc_buf := b1, pc_flex := flex',
                 pc_heap := (pc_heap st)(ptr \<mapsto> \<lparr>pg_ver = ver, pg_prev_ptr = 0, pg_min_ver = ver, pg_prev = 0,
                   pg_next = 0, pg_content = raw\<rparr>)\<rparr>)
             else (case pc_heap st prev of
                 None \<Rightarrow> None
               | Some p \<Rightarrow>
                   Some (ptr, st\<lparr>pc_buf := b1, pc_flex := flex',
                     pc_heap := (pc_heap st)(prev \<mapsto> p\<lparr>pg_next := ptr\<rparr>,
                       ptr \<mapsto> \<lparr>pg_ver = ver, pg_prev_ptr = prev, pg_min_ver = pg_min_ver p, pg_prev = prev,
                         pg_next = 0, pg_content = (if page_size col \<noteq> 1 then pg_content p else raw)\<rparr>)\<rparr>)))"

definition set_newest :: "nat \<Rightarrow> nat \<Rightarrow> nat \<Rightarrow> paged \<Rightarrow> paged" where
  "set_newest colID pg_num ptr st =
     st\<lparr>pc_flex := (pc_flex st)[colID := (pc_flex st ! colID)\<lparr>fc_pages := (fc_pages (pc_flex st ! colID))[pg_num := ptr]\<rparr>]\<rparr>"

definition set_oldest :: "nat \<Rightarrow> nat \<Rightarrow> nat \<Rightarrow> paged \<Rightarrow> paged" where
  "set_oldest colID pg_num ptr st =
     st\<lparr>pc_flex := (pc_flex st)[colID := (pc_flex st ! colID)\<lparr>fc_old_pages := (fc_old_pages (pc_flex st ! colID))[pg_num := ptr]\<rparr>]\<rparr>"

definition findWithInsertPage :: "nat \<Rightarrow> nat \<Rightarrow> nat \<Rightarrow> paged \<Rightarrow> (nat \<times> paged) option" where
  "findWithInsertPage colID pg_num version st =
     (let col = pc_cols st ! colID; flex = pc_flex st ! colID in
      if length (fc_pages flex) \<le> pg_num then None
      else case (if fc_old_pages flex ! pg_num = 0
                 then map_option (\<lambda>(q, s). (q, set_oldest colID pg_num q s)) (getNewPage col INIT_VER 0 colID pg_num st)
                 else Some (fc_pages flex ! pg_num, st)) of
          None \<Rightarrow> None
        | Some (ptr, st1) \<Rightarrow>
            (case pc_heap st1 ptr of
               None \<Rightarrow> None
             | Some p \<Rightarrow>
                 if pg_ver p = INIT_VER then
                   Some (ptr, set_newest colID pg_num ptr
                     (st1\<lparr>pc_heap := (pc_heap st1)(ptr \<mapsto> p\<lparr>pg_ver := version, pg_min_ver := version\<rparr>)\<rparr>))
                 else if version > pg_ver p then
                   map_option (\<lambda>(q, s). (q, set_newest colID pg_num q s)) (getNewPage col version ptr colID pg_num st1)
                 else if pg_ver p = version then Some (ptr, st1)
                 else None))"

text \<open>\<^verbatim>\<open>findPage\<close>: 0 when every page of the number is newer than the version.\<close>

partial_function (option) walk_prev :: "(nat \<Rightarrow> page option) \<Rightarrow> nat \<Rightarrow> nat \<Rightarrow> nat option" where
  [code]: "walk_prev heap version ptr =
     (if ptr = 0 then None
      else case heap ptr of
        None \<Rightarrow> None
      | Some p \<Rightarrow> if pg_ver p \<le> version then Some ptr else walk_prev heap version (pg_prev p))"

definition findPage :: "nat \<Rightarrow> nat \<Rightarrow> nat \<Rightarrow> paged \<Rightarrow> nat option" where
  "findPage colID pg_num version st =
     (let flex = pc_flex st ! colID in
      if length (fc_pages flex) \<le> pg_num then None
      else
        let ptr = fc_pages flex ! pg_num in
        if ptr = 0 then Some 0
        else case pc_heap st ptr of
          None \<Rightarrow> None
        | Some p \<Rightarrow> if pg_min_ver p > version then Some 0 else walk_prev (pc_heap st) version ptr)"

section \<open>Rows\<close>

definition row_offset :: "column_family \<Rightarrow> nat \<Rightarrow> nat" where
  "row_offset col off = bitmap_bytes col + (off mod page_size col) * vlen col"

definition null_bit :: "column_family \<Rightarrow> nat \<Rightarrow> nat \<Rightarrow> nat" where
  "null_bit col off prop = off mod page_size col * column_num col + prop"

primrec write_nulls :: "column_family \<Rightarrow> nat \<Rightarrow> nat \<Rightarrow> bool list \<Rightarrow> bytes \<Rightarrow> bytes" where
  "write_nulls col off prop [] content = content"
| "write_nulls col off prop (n # ns) content =
     write_nulls col off (Suc prop) ns
       (if \<not> n then reset_bit content (null_bit col off prop) else set_bit_arr content (null_bit col off prop))"

text \<open>The row of one column family, and its null bits, at a version.\<close>

definition write_row :: "nat \<Rightarrow> nat \<Rightarrow> nat \<Rightarrow> bytes \<Rightarrow> bool list \<Rightarrow> paged \<Rightarrow> paged option" where
  "write_row cf off ver row nulls st =
     (let col = pc_cols st ! cf in
      case findWithInsertPage cf (off div page_size col) ver st of
        None \<Rightarrow> None
      | Some (ptr, st1) \<Rightarrow>
          (case pc_heap st1 ptr of
             None \<Rightarrow> None
           | Some p \<Rightarrow> Some (st1\<lparr>pc_heap := (pc_heap st1)(ptr \<mapsto>
               p\<lparr>pg_content := write_nulls col off 0 nulls (put_bytes (row_offset col off) row (pg_content p))\<rparr>)\<rparr>)))"

section \<open>Inserting and updating a vertex\<close>

text \<open>
  Where the schema puts the properties of a label: column family, offset in its row, number in its
  null bits, and type.
\<close>

record vprop_schema =
  prop_cf :: "nat list"
  prop_cf_offset :: "nat list"
  prop_cf_id :: "nat list"
  vprop_dtype :: "nat \<Rightarrow> prop_type"

text \<open>
  The bytes of a value; \<open>None\<close> is an exception of the conversion, which nothing catches here, or the
  assertion on an unsupported type. A string arrives as the decimal of its key.
\<close>

definition conv_bytes :: "nat \<Rightarrow> (conv_error + int) \<Rightarrow> bytes option" where
  "conv_bytes n r = (case r of Inl _ \<Rightarrow> None | Inr v \<Rightarrow> Some (le_bytes n v))"

definition value_bytes :: "(prop_type \<Rightarrow> string \<Rightarrow> bytes option) \<Rightarrow> prop_type \<Rightarrow> string \<Rightarrow> bytes option" where
  "value_bytes real_bytes dtype val =
     (case dtype of
        INT_T \<Rightarrow> conv_bytes 4 (stoi val)
      | LONG \<Rightarrow> conv_bytes 8 (stoll val)
      | DOUBLE \<Rightarrow> real_bytes DOUBLE val
      | FLOAT \<Rightarrow> real_bytes FLOAT val
      | STRING \<Rightarrow> conv_bytes 8 (stoll val)
      | _ \<Rightarrow> None)"

definition insert_is_null :: "prop_type \<Rightarrow> string \<Rightarrow> bool option" where
  "insert_is_null dtype val =
     (if dtype \<noteq> STRING then Some (val = [])
      else (case stoll val of Inl _ \<Rightarrow> None | Inr v \<Rightarrow> Some (v mod 2 ^ 16 = 0)))"

text \<open>The rows of the column families being built, with the null flags in the order of the properties.\<close>

definition put_field :: "nat \<Rightarrow> nat \<Rightarrow> bytes \<Rightarrow> (bytes \<times> bool list) list \<Rightarrow> (bytes \<times> bool list) list option" where
  "put_field cf off bs rows =
     (if length rows \<le> cf \<or> length (fst (rows ! cf)) < off + length bs then None
      else Some (rows[cf := (put_bytes off bs (fst (rows ! cf)), snd (rows ! cf))]))"

definition push_null :: "nat \<Rightarrow> bool \<Rightarrow> (bytes \<times> bool list) list \<Rightarrow> (bytes \<times> bool list) list" where
  "push_null cf n rows = rows[cf := (fst (rows ! cf), snd (rows ! cf) @ [n])]"

primrec build_rows ::
  "(prop_type \<Rightarrow> string \<Rightarrow> bytes option) \<Rightarrow> vprop_schema \<Rightarrow> nat \<Rightarrow> string list \<Rightarrow> (bytes \<times> bool list) list \<Rightarrow>
     (bytes \<times> bool list) list option" where
  "build_rows real_bytes sch idx [] rows = Some rows"
| "build_rows real_bytes sch idx (v # vs) rows =
     (let cf = prop_cf sch ! idx in
      if length rows \<le> cf then None
      else case insert_is_null (vprop_dtype sch idx) v of
          None \<Rightarrow> None
        | Some True \<Rightarrow> build_rows real_bytes sch (Suc idx) vs (push_null cf True rows)
        | Some False \<Rightarrow>
            (case value_bytes real_bytes (vprop_dtype sch idx) v of
               None \<Rightarrow> None
             | Some bs \<Rightarrow>
                 (case put_field cf (prop_cf_offset sch ! idx) bs (push_null cf False rows) of
                    None \<Rightarrow> None
                  | Some rows' \<Rightarrow> build_rows real_bytes sch (Suc idx) vs rows')))"

primrec write_rows :: "nat \<Rightarrow> nat \<Rightarrow> nat \<Rightarrow> (bytes \<times> bool list) list \<Rightarrow> paged \<Rightarrow> paged option" where
  "write_rows cf off ver [] st = Some st"
| "write_rows cf off ver (r # rs) st =
     (case write_row cf off ver (fst r) (snd r) st of
        None \<Rightarrow> None
      | Some st' \<Rightarrow> write_rows (Suc cf) off ver rs st')"

text \<open>\<open>fresh\<close> is what the memory of the temporary rows holds before anything is written to them.\<close>

definition paged_insert ::
  "(prop_type \<Rightarrow> string \<Rightarrow> bytes option) \<Rightarrow> (nat \<Rightarrow> u8) \<Rightarrow> vprop_schema \<Rightarrow> nat \<Rightarrow> string list \<Rightarrow> nat \<Rightarrow> paged \<Rightarrow>
     paged option" where
  "paged_insert real_bytes fresh sch off v_list ver st =
     (if \<not> off < max_items st then None
      else case build_rows real_bytes sch 0 v_list (map (\<lambda>c. (map fresh [0..<vlen c], [])) (pc_cols st)) of
          None \<Rightarrow> None
        | Some rows \<Rightarrow> write_rows 0 off ver rows st)"

text \<open>
  An update compares each value with the newest page and rewrites only the column families where
  some value or null flag differs. A string arrives as itself and gets a new key when it differs.
  \<open>real_ne\<close> is the comparison of floating-point values.
\<close>

type_synonym update_rows = "(bytes \<times> bool list) list \<times> bool list \<times> buffer"

definition update_step ::
  "(prop_type \<Rightarrow> string \<Rightarrow> bytes option) \<Rightarrow> (bytes \<Rightarrow> bytes \<Rightarrow> bool) \<Rightarrow> vprop_schema \<Rightarrow> nat \<Rightarrow> paged \<Rightarrow> nat \<Rightarrow> string \<Rightarrow>
     update_rows \<Rightarrow> update_rows option" where
  "update_step real_bytes real_ne sch off st idx v acc =
     (let (rows, upd, sb) = acc;
          cf = prop_cf sch ! idx; o' = prop_cf_offset sch ! idx; col = pc_cols st ! cf;
          pages = fc_pages (pc_flex st ! cf); pg = off div page_size col; dtype = vprop_dtype sch idx
      in if length rows \<le> cf \<or> length pages \<le> pg then None
      else case pc_heap st (pages ! pg) of
        None \<Rightarrow> None
      | Some p \<Rightarrow>
          let old_is_null = get_bit (pg_content p) (null_bit col off (prop_cf_id sch ! idx)) in
          if v = [] then
            Some (push_null cf True rows, (if \<not> old_is_null then upd[cf := True] else upd), sb)
          else
            let rows1 = push_null cf False rows;
                old = get_bytes (row_offset col off + o') (prop_width dtype) (pg_content p)
            in if dtype = STRING then
                 (let old_value = (if old_is_null then [] else get_string sb (word_of_int (le_value old)))
                  in if old_is_null \<or> old_value \<noteq> v then
                       (let (key, sb') = put_cstring v sb in
                        map_option (\<lambda>rows2. (rows2, upd[cf := True], sb')) (put_field cf o' (le_bytes 8 (int (unat key))) rows1))
                     else map_option (\<lambda>rows2. (rows2, upd, sb)) (put_field cf o' old rows1))
               else (case value_bytes real_bytes dtype v of
                   None \<Rightarrow> None
                 | Some bs \<Rightarrow>
                     let differs = (if dtype = DOUBLE \<or> dtype = FLOAT then real_ne bs old else bs \<noteq> old) in
                     map_option (\<lambda>rows2. (rows2, (if old_is_null \<or> differs then upd[cf := True] else upd), sb))
                       (put_field cf o' bs rows1)))"

primrec update_loop ::
  "(prop_type \<Rightarrow> string \<Rightarrow> bytes option) \<Rightarrow> (bytes \<Rightarrow> bytes \<Rightarrow> bool) \<Rightarrow> vprop_schema \<Rightarrow> nat \<Rightarrow> paged \<Rightarrow> nat \<Rightarrow> string list \<Rightarrow>
     update_rows \<Rightarrow> update_rows option" where
  "update_loop real_bytes real_ne sch off st idx [] acc = Some acc"
| "update_loop real_bytes real_ne sch off st idx (v # vs) acc =
     (case update_step real_bytes real_ne sch off st idx v acc of
        None \<Rightarrow> None
      | Some acc' \<Rightarrow> update_loop real_bytes real_ne sch off st (Suc idx) vs acc')"

primrec write_updated :: "nat \<Rightarrow> nat \<Rightarrow> nat \<Rightarrow> ((bytes \<times> bool list) \<times> bool) list \<Rightarrow> paged \<Rightarrow> paged option" where
  "write_updated cf off ver [] st = Some st"
| "write_updated cf off ver (r # rs) st =
     (case (if snd r then write_row cf off ver (fst (fst r)) (snd (fst r)) st else Some st) of
        None \<Rightarrow> None
      | Some st' \<Rightarrow> write_updated (Suc cf) off ver rs st')"

definition paged_update ::
  "(prop_type \<Rightarrow> string \<Rightarrow> bytes option) \<Rightarrow> (bytes \<Rightarrow> bytes \<Rightarrow> bool) \<Rightarrow> (nat \<Rightarrow> u8) \<Rightarrow> vprop_schema \<Rightarrow> nat \<Rightarrow> string list \<Rightarrow>
     nat \<Rightarrow> paged \<Rightarrow> buffer \<Rightarrow> (paged \<times> buffer) option" where
  "paged_update real_bytes real_ne fresh sch off v_list ver st sb =
     (case update_loop real_bytes real_ne sch off st 0 v_list
         (map (\<lambda>c. (map fresh [0..<vlen c], [])) (pc_cols st), map (\<lambda>c. False) (pc_cols st), sb) of
        None \<Rightarrow> None
      | Some (rows, upd, sb') \<Rightarrow> map_option (\<lambda>st'. (st', sb')) (write_updated 0 off ver (zip rows upd) st))"

section \<open>The other entry points of the store\<close>

text \<open>\<open>insert\<close> of a row of all column families; its bound check lets the offset \<open>max_items\<close> through.\<close>

primrec insert_raw_cols :: "nat \<Rightarrow> column_family list \<Rightarrow> nat \<Rightarrow> bytes \<Rightarrow> nat \<Rightarrow> paged \<Rightarrow> paged option" where
  "insert_raw_cols cf [] off v ver st = Some st"
| "insert_raw_cols cf (c # cs) off v ver st =
     (case write_row cf off ver (take (vlen c) v) [] st of
        None \<Rightarrow> None
      | Some st' \<Rightarrow> insert_raw_cols (Suc cf) cs off (drop (vlen c) v) ver st')"

definition insert_raw :: "nat \<Rightarrow> bytes \<Rightarrow> nat \<Rightarrow> paged \<Rightarrow> paged option" where
  "insert_raw off v ver st =
     (if off > max_items st then None else insert_raw_cols 0 (pc_cols st) off v ver st)"

text \<open>
  The updates of single columns place the row behind a bitmap of \<open>BYTE_SIZE page_size\<close> bytes, whatever
  the number of columns of the family.
\<close>

definition update_cid :: "nat \<Rightarrow> nat \<Rightarrow> bytes \<Rightarrow> nat \<Rightarrow> paged \<Rightarrow> paged option" where
  "update_cid off cid v ver st =
     (if sum_list (map vlen (pc_cols st)) = 0 then Some st
      else if \<not> off < max_items st \<or> length (pc_cols st) \<le> cid then None
      else
        let col = pc_cols st ! cid in
        (case findWithInsertPage cid (off div page_size col) ver st of
           None \<Rightarrow> None
         | Some (ptr, st1) \<Rightarrow>
             (case pc_heap st1 ptr of
                None \<Rightarrow> None
              | Some p \<Rightarrow>
                  let dst = (off mod page_size col) * vlen col + BYTE_SIZE (page_size col) in
                  if length (pg_content p) < dst + vlen col then None
                  else Some (st1\<lparr>pc_heap := (pc_heap st1)(ptr \<mapsto>
                    p\<lparr>pg_content := put_bytes dst (take (vlen col) v) (pg_content p)\<rparr>)\<rparr>))))"

text \<open>The update of several columns takes each from its place in the whole row \<open>v\<close>.\<close>

primrec update_each :: "nat \<Rightarrow> nat list \<Rightarrow> bytes \<Rightarrow> nat \<Rightarrow> paged \<Rightarrow> paged option" where
  "update_each off [] v ver st = Some st"
| "update_each off (i # is) v ver st =
     (case update_cid off i (drop (sum_list (map vlen (take i (pc_cols st)))) v) ver st of
        None \<Rightarrow> None
      | Some st' \<Rightarrow> update_each off is v ver st')"

definition update_cids :: "nat \<Rightarrow> nat list \<Rightarrow> bytes \<Rightarrow> nat \<Rightarrow> paged \<Rightarrow> paged option" where
  "update_cids off cids v ver st =
     (if sum_list (map vlen (pc_cols st)) = 0 then Some st
      else if \<not> off < max_items st then None
      else update_each off cids v ver st)"

text \<open>
  \<open>getByOffset\<close> answers from a cache per column whose version is kept per table, and places the row
  at the start of the page. The result is the page and the offset in it; the assertion wants the
  newest page of the first number.
\<close>

definition MAX_CACHED_TABLES :: nat where
  "MAX_CACHED_TABLES = 128"

definition MAX_CACHED_COLS :: nat where
  "MAX_CACHED_COLS = 128"

record page_cache =
  cached_ver :: nat
  cached_page_num :: "nat \<Rightarrow> nat"
  cached_page :: "nat \<Rightarrow> nat"

definition cached_findPage :: "nat \<Rightarrow> nat \<Rightarrow> nat \<Rightarrow> nat \<Rightarrow> paged \<Rightarrow> page_cache \<Rightarrow> (nat \<times> page_cache) option" where
  "cached_findPage table_id col_id pg version st ca =
     (if table_id \<ge> MAX_CACHED_TABLES \<and> col_id \<ge> MAX_CACHED_COLS then
        map_option (\<lambda>q. (q, ca)) (findPage col_id pg version st)
      else if cached_page ca col_id \<noteq> 0 \<and> cached_ver ca = version \<and> cached_page_num ca col_id = pg
      then Some (cached_page ca col_id, ca)
      else map_option (\<lambda>q. (q, ca\<lparr>cached_ver := version, cached_page := (cached_page ca)(col_id := q),
          cached_page_num := (cached_page_num ca)(col_id := pg)\<rparr>)) (findPage col_id pg version st))"

definition getByOffset :: "nat \<Rightarrow> nat \<Rightarrow> nat \<Rightarrow> nat \<Rightarrow> paged \<Rightarrow> page_cache \<Rightarrow> ((nat \<times> nat) option \<times> page_cache) option" where
  "getByOffset table_id offset col_id version st ca =
     (if \<not> offset < max_items st then None
      else
        let col = pc_cols st ! col_id in
        (case cached_findPage table_id col_id (offset div page_size col) version st ca of
           None \<Rightarrow> None
         | Some (ptr, ca') \<Rightarrow>
             if ptr = 0 then Some (None, ca')
             else if ptr \<noteq> fc_pages (pc_flex st ! col_id) ! 0 then None
             else Some (Some (ptr, (offset mod page_size col) * vlen col), ca')))"

text \<open>\<open>getCol\<close>: the pages of a range of rows; a missing page fails an assertion.\<close>

primrec get_pages :: "nat \<Rightarrow> nat \<Rightarrow> paged \<Rightarrow> nat list \<Rightarrow> nat list option" where
  "get_pages col_id lver st [] = Some []"
| "get_pages col_id lver st (i # is) =
     (case findPage col_id i lver st of
        None \<Rightarrow> None
      | Some p \<Rightarrow> if p = 0 then None else map_option ((#) p) (get_pages col_id lver st is))"

definition getCol :: "nat \<Rightarrow> nat \<Rightarrow> nat \<Rightarrow> nat \<Rightarrow> paged \<Rightarrow> (nat list \<times> nat) option" where
  "getCol col_id start_off n lver st =
     (let sz = page_size (pc_cols st ! col_id) in
      map_option (\<lambda>ps. (ps, sz)) (get_pages col_id lver st [start_off div sz..<(start_off + n + sz - 1) div sz]))"

definition locateValue :: "paged \<Rightarrow> nat \<Rightarrow> nat \<Rightarrow> nat" where
  "locateValue st cid offset = vlen (pc_cols st ! cid) * (offset mod page_size (pc_cols st ! cid))"

text \<open>Garbage collection from the oldest page on; \<open>fuel\<close> bounds the pages of a chain.\<close>

fun gc_pages :: "nat \<Rightarrow> nat \<Rightarrow> nat \<Rightarrow> (nat \<Rightarrow> page option) \<Rightarrow> (nat \<times> (nat \<Rightarrow> page option)) option" where
  "gc_pages ver 0 ptr heap = None"
| "gc_pages ver (Suc fuel) ptr heap =
     (case heap ptr of
        None \<Rightarrow> None
      | Some p \<Rightarrow>
          if pg_ver p < ver \<and> pg_next p \<noteq> 0 then
            (case heap (pg_next p) of
               None \<Rightarrow> None
             | Some q \<Rightarrow>
                 if pg_ver q \<le> ver then
                   gc_pages ver fuel (pg_next p) ((heap(pg_next p \<mapsto> q\<lparr>pg_prev := 0\<rparr>))(ptr := None))
                 else Some (ptr, heap))
          else Some (ptr, heap))"

primrec gc_col :: "nat \<Rightarrow> nat \<Rightarrow> nat list \<Rightarrow> (nat \<Rightarrow> page option) \<Rightarrow> (nat list \<times> (nat \<Rightarrow> page option)) option" where
  "gc_col ver fuel [] heap = Some ([], heap)"
| "gc_col ver fuel (p # ps) heap =
     (case gc_pages ver fuel p heap of
        None \<Rightarrow> None
      | Some (p', heap') \<Rightarrow> map_option (\<lambda>(qs, h). (p' # qs, h)) (gc_col ver fuel ps heap'))"

primrec gc_cols :: "nat \<Rightarrow> nat \<Rightarrow> column_family list \<Rightarrow> paged \<Rightarrow> paged option" where
  "gc_cols ver cf [] st = Some st"
| "gc_cols ver cf (c # cs) st =
     (let old = fc_old_pages (pc_flex st ! cf); used_page = page_count (pc_stable_header st) (page_size c) in
      if length old < used_page then None
      else case gc_col ver (Suc (buf_size (pc_buf st))) (take used_page old) (pc_heap st) of
          None \<Rightarrow> None
        | Some (qs, heap) \<Rightarrow>
            gc_cols ver (Suc cf) cs (st\<lparr>pc_heap := heap,
              pc_flex := (pc_flex st)[cf := (pc_flex st ! cf)\<lparr>fc_old_pages := qs @ drop used_page old\<rparr>]\<rparr>))"

definition gc :: "nat \<Rightarrow> paged \<Rightarrow> paged option" where
  "gc ver st = (if ver = 0 then Some st else gc_cols ver 0 (pc_cols st) st)"

text \<open>A cursor over a column; its counters start one before the first row.\<close>

record cursor =
  cu_col_id :: nat
  cu_ver :: nat
  cu_begin :: nat
  cu_end :: nat
  cu_cur :: int
  cu_base :: nat
  cu_pgn :: int
  cu_pgi :: int

definition new_cursor :: "paged \<Rightarrow> nat \<Rightarrow> nat \<Rightarrow> cursor" where
  "new_cursor st col_id ver =
     \<lparr>cu_col_id = col_id, cu_ver = ver, cu_begin = 0, cu_end = pc_stable_header st, cu_cur = -1, cu_base = 0,
      cu_pgn = -1, cu_pgi = int (page_size (pc_cols st ! col_id)) - 1\<rparr>"

definition seekOffset :: "paged \<Rightarrow> nat \<Rightarrow> nat \<Rightarrow> cursor \<Rightarrow> cursor" where
  "seekOffset st start stop cu =
     (let header = pc_stable_header st;
          stop1 = (if stop > header then header else stop);
          start1 = (if start > stop1 then stop1 else start);
          pgsz = page_size (pc_cols st ! cu_col_id cu);
          pgi = int (start1 mod pgsz) - 1
      in cu\<lparr>cu_begin := start1, cu_end := stop1, cu_cur := int start1 - 1,
           cu_pgi := (if pgi = -1 then int pgsz - 1 else pgi),
           cu_pgn := (if pgi = -1 then int (start1 div pgsz) - 1 else int (start1 div pgsz))\<rparr>)"

text \<open>The row found, as a page and an offset in it.\<close>

definition nextRow :: "paged \<Rightarrow> cursor \<Rightarrow> ((nat \<times> nat) option \<times> cursor) option" where
  "nextRow st cu =
     (let cu1 = cu\<lparr>cu_cur := cu_cur cu + 1\<rparr>; col = pc_cols st ! cu_col_id cu in
      if cu_cur cu1 \<ge> int (cu_end cu) then Some (None, cu1)
      else
        let cu2 = (if cu_pgi cu1 + 1 = int (page_size col)
                   then cu1\<lparr>cu_pgi := 0, cu_pgn := cu_pgn cu1 + 1\<rparr> else cu1\<lparr>cu_pgi := cu_pgi cu1 + 1\<rparr>)
        in if cu_pgi cu2 = 0 \<or> cu_base cu2 = 0 then
             (let pages = fc_pages (pc_flex st ! cu_col_id cu); pgn = nat (cu_pgn cu2) in
              if length pages \<le> pgn then None
              else case pc_heap st (pages ! pgn) of
                  None \<Rightarrow> None
                | Some p \<Rightarrow>
                    if pg_min_ver p > cu_ver cu then Some (None, cu2)
                    else (case walk_prev (pc_heap st) (cu_ver cu) (pages ! pgn) of
                        None \<Rightarrow> None
                      | Some q \<Rightarrow>
                          Some (Some (q, vlen col * nat (cu_pgi cu2)), cu2\<lparr>cu_base := q\<rparr>)))
           else Some (Some (cu_base cu2, vlen col * nat (cu_pgi cu2)), cu2))"

section \<open>The readers of the analytics processes\<close>

text \<open>Versions and epochs are compared as \<^verbatim>\<open>int\<close>.\<close>

definition as_int :: "nat \<Rightarrow> int" where
  "as_int n = sint (word_of_nat n :: 32 word)"

text \<open>
  The walk over \<^verbatim>\<open>prev_ptr_\<close>; an offset of 0 leads to the base of the blob, which is no page.
\<close>

partial_function (option) page_at :: "(nat \<Rightarrow> page option) \<Rightarrow> nat \<Rightarrow> nat \<Rightarrow> page option" where
  [code]: "page_at heap e ptr =
     (case (if ptr = 0 then None else heap ptr) of
        None \<Rightarrow> None
      | Some p \<Rightarrow> if as_int (pg_ver p) \<le> as_int e then Some p else page_at heap e (pg_prev_ptr p))"

definition fragment_page :: "paged \<Rightarrow> nat \<Rightarrow> nat \<Rightarrow> nat \<Rightarrow> page option" where
  "fragment_page st e cf off =
     (let flex = pc_flex st ! cf; page_id = off div num_row_per_page flex in
      if length (page_ptr flex) \<le> page_id then None else page_at (pc_heap st) e (page_ptr flex ! page_id))"

definition VertexPropValueIsValid :: "paged \<Rightarrow> vprop_schema \<Rightarrow> nat \<Rightarrow> nat \<Rightarrow> nat \<Rightarrow> bool option" where
  "VertexPropValueIsValid st sch e off prop_id =
     (let cf = prop_cf sch ! prop_id; per = num_row_per_page (pc_flex st ! cf) in
      map_option (\<lambda>p. get_bit (pg_content p)
          (off mod per * column_num (pc_cols st ! cf) + prop_cf_id sch ! prop_id) = False)
        (fragment_page st e cf off))"

definition GetRowDataAddr :: "paged \<Rightarrow> nat \<Rightarrow> nat \<Rightarrow> nat \<Rightarrow> bytes option" where
  "GetRowDataAddr st e cf off =
     (let per = num_row_per_page (pc_flex st ! cf); col = pc_cols st ! cf in
      map_option (\<lambda>p. get_bytes (BYTE_SIZE (per * column_num col) + off mod per * vlen col) (vlen col) (pg_content p))
        (fragment_page st e cf off))"

definition GetData :: "paged \<Rightarrow> vprop_schema \<Rightarrow> nat \<Rightarrow> nat \<Rightarrow> nat \<Rightarrow> bytes option" where
  "GetData st sch e off prop_id =
     (let cf = prop_cf sch ! prop_id; per = num_row_per_page (pc_flex st ! cf); col = pc_cols st ! cf in
      map_option (\<lambda>p. get_bytes
          (BYTE_SIZE (per * column_num col) + (off mod per * vlen col + prop_cf_offset sch ! prop_id))
          (prop_width (vprop_dtype sch prop_id)) (pg_content p))
        (fragment_page st e cf off))"

definition GetData_string :: "paged \<Rightarrow> buffer \<Rightarrow> vprop_schema \<Rightarrow> nat \<Rightarrow> nat \<Rightarrow> nat \<Rightarrow> string option" where
  "GetData_string st sb sch e off prop_id =
     map_option (\<lambda>bs. let v = le_signed bs in buffer_get_string sb (nat (v div 2 ^ 16)) (nat (v mod 2 ^ 16)))
       (GetData st sch e off prop_id)"

end
