(* ===== verification/Prop_Versions.thy ===== *)
theory Prop_Versions
  imports Prop_Paged
begin

text \<open>
  The property store keeps versions: any sequence of row writes at versions that never decrease leaves,
  for every row and every version read, the row as the last write up to that version made it. The
  relation \<open>paged_rel\<close> ties the pages in memory to lists of versions, newest first.
\<close>

section \<open>Chains of versions\<close>

text \<open>A page as its address, its version and its content.\<close>

type_synonym ver_page = "nat \<times> nat \<times> bytes"

abbreviation vp_ptr :: "ver_page \<Rightarrow> nat" where "vp_ptr x \<equiv> fst x"
abbreviation vp_ver :: "ver_page \<Rightarrow> nat" where "vp_ver x \<equiv> fst (snd x)"
abbreviation vp_content :: "ver_page \<Rightarrow> bytes" where "vp_content x \<equiv> snd (snd x)"

primrec pages_of :: "(nat \<Rightarrow> page option) \<Rightarrow> nat \<Rightarrow> ver_page list \<Rightarrow> bool" where
  "pages_of h ptr [] \<longleftrightarrow> ptr = 0"
| "pages_of h ptr (x # xs) \<longleftrightarrow> ptr = vp_ptr x \<and> ptr \<noteq> 0 \<and>
     (\<exists>p. h ptr = Some p \<and> pg_ver p = vp_ver x \<and> pg_content p = vp_content x \<and> pg_prev p = pg_prev_ptr p \<and>
        pg_min_ver p = vp_ver (last (x # xs)) \<and> pages_of h (pg_prev_ptr p) xs) \<and>
     (\<forall>y \<in> set xs. vp_ver y < vp_ver x)"

lemma pages_of_upd:
  "ptr \<notin> vp_ptr ` set xs \<Longrightarrow> pages_of (h(ptr := v)) q xs = pages_of h q xs"
  by (induction xs arbitrary: q) (auto split: if_splits)

lemma pages_of_next:
  assumes "h a = Some p"
  shows "pages_of (h(a \<mapsto> p\<lparr>pg_next := z\<rparr>)) q xs = pages_of h q xs"
  using assms by (induction xs arbitrary: q) auto

lemma pages_of_distinct:
  assumes "pages_of h ptr (x # xs)"
  shows "vp_ptr x \<notin> vp_ptr ` set xs"
proof
  assume "vp_ptr x \<in> vp_ptr ` set xs"
  then obtain y where y: "y \<in> set xs" "vp_ptr y = vp_ptr x" by auto
  have at: "\<exists>p. h (vp_ptr z) = Some p \<and> pg_ver p = vp_ver z" if "pages_of h q zs" "z \<in> set zs" for q z zs
    using that by (induction zs arbitrary: q) auto
  obtain p where p: "h (vp_ptr x) = Some p" "pg_ver p = vp_ver x" "pages_of h (pg_prev_ptr p) xs"
    "\<forall>y \<in> set xs. vp_ver y < vp_ver x"
    using assms by auto
  from at [OF p(3) y(1)] p(1,2,4) y show False by auto
qed

lemma pages_of_head: "pages_of h ptr xs \<Longrightarrow> (xs = [] \<longleftrightarrow> ptr = 0)"
  by (cases xs) auto

text \<open>Reading: the first page that is old enough.\<close>

definition content_at :: "ver_page list \<Rightarrow> nat \<Rightarrow> bytes option" where
  "content_at xs e = map_option vp_content (List.find (\<lambda>x. vp_ver x \<le> e) xs)"

lemma content_at_simps [simp]:
  "content_at [] e = None"
  "content_at (x # xs) e = (if vp_ver x \<le> e then Some (vp_content x) else content_at xs e)"
  by (simp_all add: content_at_def)

lemma as_int_small: "n < 2 ^ 31 \<Longrightarrow> as_int n = int n"
proof -
  assume "n < 2 ^ 31"
  then have "int n < 2 ^ 31" by simp
  then show ?thesis by (simp add: as_int_def signed_of_nat signed_take_bit_int_eq_self)
qed

lemma page_at_pages:
  assumes "pages_of h ptr xs" and "\<forall>x \<in> set xs. vp_ver x < 2 ^ 31" and "e < 2 ^ 31"
  shows "map_option pg_content (page_at h e ptr) = content_at xs e"
  using assms(1,2)
proof (induction xs arbitrary: ptr)
  case Nil
  then show ?case by (subst page_at.simps) simp
next
  case (Cons x xs)
  then show ?case using assms(3) by (subst page_at.simps) (auto simp: as_int_small)
qed

section \<open>The relation\<close>

type_synonym versions = "nat \<times> nat \<Rightarrow> ver_page list"

abbreviation num_pages :: "paged \<Rightarrow> nat \<Rightarrow> nat" where
  "num_pages st cf \<equiv> page_count (max_items st) (page_size (pc_cols st ! cf))"

definition cells :: "paged \<Rightarrow> (nat \<times> nat) set" where
  "cells st = {(cf, pg). cf < length (pc_cols st) \<and> pg < num_pages st cf}"

definition cell_ok :: "paged \<Rightarrow> nat \<times> nat \<Rightarrow> ver_page list \<Rightarrow> bool" where
  "cell_ok st c xs \<longleftrightarrow>
     (let flex = pc_flex st ! fst c; ptr = fc_pages flex ! snd c in
      pages_of (pc_heap st) ptr xs \<and> page_ptr flex ! snd c = ptr \<and>
      (fc_old_pages flex ! snd c = 0 \<longleftrightarrow> xs = []) \<and>
      (\<forall>x \<in> set xs. length (vp_content x) = content_bytes (pc_cols st ! fst c) \<and>
         vp_ver x < INIT_VER \<and> vp_ptr x < buf_size (pc_buf st)))"

definition shape_ok :: "paged \<Rightarrow> bool" where
  "shape_ok st \<longleftrightarrow> length (pc_flex st) = length (pc_cols st) \<and> 0 < buf_size (pc_buf st) \<and>
     (\<forall>cf < length (pc_cols st). 0 < page_size (pc_cols st ! cf) \<and>
        length (fc_pages (pc_flex st ! cf)) = num_pages st cf \<and>
        length (fc_old_pages (pc_flex st ! cf)) = num_pages st cf \<and>
        length (page_ptr (pc_flex st ! cf)) = num_pages st cf \<and>
        num_row_per_page (pc_flex st ! cf) = page_size (pc_cols st ! cf))"

definition apart :: "versions \<Rightarrow> (nat \<times> nat) set \<Rightarrow> bool" where
  "apart A C \<longleftrightarrow> (\<forall>c \<in> C. \<forall>c' \<in> C. c \<noteq> c' \<longrightarrow> vp_ptr ` set (A c) \<inter> vp_ptr ` set (A c') = {})"

definition paged_rel :: "paged \<Rightarrow> versions \<Rightarrow> bool" where
  "paged_rel st A \<longleftrightarrow> shape_ok st \<and> (\<forall>c \<in> cells st. cell_ok st c (A c)) \<and> apart A (cells st)"

lemma paged_relD:
  assumes "paged_rel st A"
  shows "shape_ok st" "c \<in> cells st \<Longrightarrow> cell_ok st c (A c)" "apart A (cells st)"
  using assms by (auto simp: paged_rel_def)

lemma shape_okD:
  assumes "shape_ok st" and "cf < length (pc_cols st)"
  shows "length (pc_flex st) = length (pc_cols st)" "0 < buf_size (pc_buf st)" "0 < page_size (pc_cols st ! cf)"
    "length (fc_pages (pc_flex st ! cf)) = num_pages st cf" "length (fc_old_pages (pc_flex st ! cf)) = num_pages st cf"
    "length (page_ptr (pc_flex st ! cf)) = num_pages st cf"
    "num_row_per_page (pc_flex st ! cf) = page_size (pc_cols st ! cf)"
  using assms by (auto simp: shape_ok_def)

lemma page_in_range: "off < n \<Longrightarrow> 0 < ps \<Longrightarrow> off div ps < page_count n ps"
proof -
  assume "off < n" and ps: "0 < ps"
  then have "off div ps \<le> (n - 1) div ps" by (intro div_le_mono) simp
  also have "\<dots> < (n - 1) div ps + 1" by simp
  also have "\<dots> = (n - 1 + ps) div ps" using ps by (simp add: div_add_self2)
  also have "\<dots> = page_count n ps" using \<open>off < n\<close> by (simp add: page_count_def add.commute)
  finally show ?thesis .
qed

text \<open>A new store has no pages.\<close>

lemma new_flex_cols_shape:
  assumes "new_flex_cols n cs b = Some (fs, b')"
  shows "length fs = length cs \<and> buf_size b \<le> buf_size b' \<and> (cs \<noteq> [] \<longrightarrow> 0 < buf_size b') \<and>
    (\<forall>i < length cs. fs ! i = \<lparr>fc_pages = replicate (page_count n (page_size (cs ! i))) 0,
       fc_old_pages = replicate (page_count n (page_size (cs ! i))) 0, num_row_per_page = page_size (cs ! i),
       page_ptr = replicate (page_count n (page_size (cs ! i))) 0\<rparr>)"
  using assms
proof (induction cs arbitrary: b fs)
  case (Cons c cs)
  obtain a b1 fs1 where r: "get_region (FlexColHeader_size (page_count n (page_size c))) b = (Some a, b1)"
    and rest: "new_flex_cols n cs b1 = Some (fs1, b')"
    and fs: "fs = \<lparr>fc_pages = replicate (page_count n (page_size c)) 0,
       fc_old_pages = replicate (page_count n (page_size c)) 0, num_row_per_page = page_size c,
       page_ptr = replicate (page_count n (page_size c)) 0\<rparr> # fs1"
    using Cons.prems by (auto simp: Let_def split: if_splits prod.splits option.splits)
  have "buf_size b < buf_size b1"
    using r by (auto simp: get_region_def Let_def FlexColHeader_size_def split: if_splits)
  then show ?case using Cons.IH [OF rest] by (auto simp: fs nth_Cons')
qed simp

lemma new_paged_rel:
  assumes "new_paged families n b = Some st" and "families \<noteq> []" and "0 < n"
  shows "paged_rel st (\<lambda>c. [])"
proof -
  let ?cs = "map (clamp_page_size n) families"
  obtain fs b1 where f: "new_flex_cols n ?cs b = Some (fs, b1)"
    and st: "st = \<lparr>max_items = n, pc_cols = ?cs, pc_flex = fs, pc_heap = (\<lambda>a. None),
          pc_buf = b1, pc_header = 0, pc_stable_header = 0\<rparr>"
    using assms(1) by (auto simp: new_paged_def Let_def)
  have pos: "0 < page_size (clamp_page_size n c)" for c using assms(3) by (simp add: clamp_page_size_def Let_def)
  note sh = new_flex_cols_shape [OF f]
  have "shape_ok st" using sh pos assms(2) by (auto simp: shape_ok_def st)
  moreover have "cell_ok st c []" if "c \<in> cells st" for c
    using sh that by (auto simp: cell_ok_def cells_def st Let_def)
  ultimately show ?thesis by (simp add: paged_rel_def apart_def)
qed

section \<open>One write\<close>

lemma pages_of_cong:
  "(\<And>x. x \<in> set xs \<Longrightarrow> h' (vp_ptr x) = h (vp_ptr x)) \<Longrightarrow> pages_of h' q xs = pages_of h q xs"
proof (induction xs arbitrary: q)
  case (Cons x xs)
  have "h' (vp_ptr x) = h (vp_ptr x)" using Cons.prems by simp
  moreover have "pages_of h' r xs = pages_of h r xs" for r using Cons.IH Cons.prems by simp
  ultimately show ?case by (cases "q = vp_ptr x") simp_all
qed simp

text \<open>A change to the pages of one cell; new pages come from the end of the buffer.\<close>

lemma paged_rel_cell:
  assumes R: "paged_rel st A" and c: "c \<in> cells st"
    and st': "pc_cols st' = pc_cols st" "max_items st' = max_items st" "shape_ok st'"
      "buf_size (pc_buf st) \<le> buf_size (pc_buf st')"
    and ok: "cell_ok st' c xs"
    and flex: "\<And>c'. c' \<in> cells st \<Longrightarrow> c' \<noteq> c \<Longrightarrow>
      fc_pages (pc_flex st' ! fst c') ! snd c' = fc_pages (pc_flex st ! fst c') ! snd c' \<and>
      page_ptr (pc_flex st' ! fst c') ! snd c' = page_ptr (pc_flex st ! fst c') ! snd c' \<and>
      fc_old_pages (pc_flex st' ! fst c') ! snd c' = fc_old_pages (pc_flex st ! fst c') ! snd c'"
    and heap: "\<And>a. a < buf_size (pc_buf st) \<Longrightarrow> a \<notin> vp_ptr ` set (A c) \<Longrightarrow> pc_heap st' a = pc_heap st a"
    and ptrs: "\<And>x. x \<in> set xs \<Longrightarrow> vp_ptr x \<in> vp_ptr ` set (A c) \<or> buf_size (pc_buf st) \<le> vp_ptr x"
  shows "paged_rel st' (A(c := xs))"
proof -
  note RD = paged_relD [OF R]
  have cells: "cells st' = cells st" using st' by (simp add: cells_def)
  have small: "vp_ptr x < buf_size (pc_buf st)" if "c' \<in> cells st" "x \<in> set (A c')" for c' x
    using RD(2) [OF that(1)] that(2) by (auto simp: cell_ok_def Let_def)
  have other: "cell_ok st' c' (A c')" if c': "c' \<in> cells st" "c' \<noteq> c" for c'
  proof -
    have "vp_ptr x \<notin> vp_ptr ` set (A c)" if "x \<in> set (A c')" for x
      using RD(3) c' c that by (auto simp: apart_def)
    then have "pages_of (pc_heap st') q (A c') = pages_of (pc_heap st) q (A c')" for q
      using heap small [OF c'(1)] by (intro pages_of_cong) blast
    then show ?thesis
      using RD(2) [OF c'(1)] flex [OF c'] st'(1,4) by (fastforce simp: cell_ok_def Let_def)
  qed
  have "vp_ptr x \<noteq> vp_ptr y" if "c' \<in> cells st" "c' \<noteq> c" "x \<in> set xs" "y \<in> set (A c')" for c' x y
    using ptrs [OF that(3)] small [OF that(1,4)] RD(3) that c by (force simp: apart_def)
  then have "vp_ptr ` set xs \<inter> vp_ptr ` set (A c') = {}" if "c' \<in> cells st" "c' \<noteq> c" for c'
    using that by blast
  then have "apart (A(c := xs)) (cells st)" using RD(3) by (auto simp: apart_def)
  then show ?thesis using st'(3) ok other by (auto simp: paged_rel_def cells)
qed

lemma get_region_some:
  "get_region n b = (Some a, b') \<longleftrightarrow> buf_size b + n < buf_capacity b \<and> a = buf_size b \<and> b' = b\<lparr>buf_size := buf_size b + n\<rparr>"
  by (auto simp: get_region_def Let_def not_le)

lemma cell_okD:
  assumes "cell_ok st (cf, pg) xs"
  shows "pages_of (pc_heap st) (fc_pages (pc_flex st ! cf) ! pg) xs"
    "page_ptr (pc_flex st ! cf) ! pg = fc_pages (pc_flex st ! cf) ! pg"
    "fc_old_pages (pc_flex st ! cf) ! pg = 0 \<longleftrightarrow> xs = []"
    "x \<in> set xs \<Longrightarrow> length (vp_content x) = content_bytes (pc_cols st ! cf) \<and> vp_ver x < INIT_VER \<and>
       vp_ptr x < buf_size (pc_buf st)"
  using assms by (auto simp: cell_ok_def Let_def)

text \<open>The page for a write: a first page, the newest one, or a copy of it.\<close>

definition page_for :: "nat \<Rightarrow> nat \<Rightarrow> ver_page list \<Rightarrow> ver_page list \<Rightarrow> bool" where
  "page_for ps ver old xs \<longleftrightarrow> xs \<noteq> [] \<and> vp_ver (hd xs) = ver \<and>
     (if old = [] then tl xs = []
      else if vp_ver (hd old) = ver then xs = old
      else tl xs = old \<and> (ps \<noteq> 1 \<longrightarrow> vp_content (hd xs) = vp_content (hd old)))"

lemma findWithInsertPage_ok:
  assumes R: "paged_rel st A" and c: "(cf, pg) \<in> cells st" and ver: "ver < INIT_VER"
    and newest: "\<forall>x \<in> set (A (cf, pg)). vp_ver x \<le> ver"
  shows "case findWithInsertPage cf pg ver st of
      None \<Rightarrow> buf_capacity (pc_buf st) \<le> buf_size (pc_buf st) + SIZEOF_PAGE + content_bytes (pc_cols st ! cf)
    | Some (ptr, st') \<Rightarrow> \<exists>xs. paged_rel st' (A((cf, pg) := xs)) \<and> ptr = vp_ptr (hd xs) \<and>
        page_for (page_size (pc_cols st ! cf)) ver (A (cf, pg)) xs \<and>
        pc_cols st' = pc_cols st \<and> max_items st' = max_items st"
proof -
  note RD = paged_relD [OF R]
  have cf: "cf < length (pc_cols st)" and pg: "pg < num_pages st cf" using c by (simp_all add: cells_def)
  note sh = shape_okD [OF RD(1) cf] and co = cell_okD [OF RD(2) [OF c]]
  let ?col = "pc_cols st ! cf" and ?flex = "pc_flex st ! cf" and ?b = "pc_buf st" and ?xs = "A (cf, pg)"
  let ?new = "buf_size ?b"
  have len: "\<not> length (fc_pages ?flex) \<le> pg" and cfl: "cf < length (pc_flex st)" using sh pg cf by simp_all
  show ?thesis
  proof (cases "?xs = []")
    case True
    then have old: "fc_old_pages ?flex ! pg = 0" using co(3) by simp
    show ?thesis
    proof (cases "get_region (SIZEOF_PAGE + content_bytes ?col) ?b")
      case (Pair o' b1)
      show ?thesis
      proof (cases o')
        case None
        then show ?thesis
          using Pair old len by (auto simp: findWithInsertPage_def getNewPage_def Let_def get_region_def split: if_splits)
      next
        case (Some ptr)
        then have ptr: "ptr = ?new" and b1: "b1 = ?b\<lparr>buf_size := ?new + (SIZEOF_PAGE + content_bytes ?col)\<rparr>"
          using Pair by (simp_all add: get_region_some)
        define raw where "raw = map (\<lambda>i. buf_data ?b (?new + SIZEOF_PAGE + i)) [0..<content_bytes ?col]"
        define st' where "st' = st\<lparr>pc_buf := b1,
          pc_flex := (pc_flex st)[cf := ?flex\<lparr>page_ptr := (page_ptr ?flex)[pg := ?new],
            fc_old_pages := (fc_old_pages ?flex)[pg := ?new], fc_pages := (fc_pages ?flex)[pg := ?new]\<rparr>],
          pc_heap := (pc_heap st)(?new \<mapsto> \<lparr>pg_ver = ver, pg_prev_ptr = 0, pg_min_ver = ver, pg_prev = 0,
            pg_next = 0, pg_content = raw\<rparr>)\<rparr>"
        have run: "findWithInsertPage cf pg ver st = Some (?new, st')"
          using Pair Some old len cfl
          by (simp add: findWithInsertPage_def getNewPage_def Let_def ptr set_oldest_def set_newest_def st'_def raw_def)
        have "paged_rel st' (A((cf, pg) := [(?new, ver, raw)]))"
        proof (rule paged_rel_cell [OF R c])
          show "shape_ok st'"
            using RD(1) cfl by (auto simp: shape_ok_def st'_def b1 nth_list_update)
          show "cell_ok st' (cf, pg) [(?new, ver, raw)]"
            using sh pg cfl ver by (auto simp: cell_ok_def st'_def b1 Let_def raw_def SIZEOF_PAGE_def)
        qed (use sh(1) cfl in \<open>auto simp: st'_def b1 nth_list_update cells_def\<close>)
        then show ?thesis unfolding run option.case prod.case
          by (intro exI [of _ "[(?new, ver, raw)]"]) (simp add: page_for_def True st'_def)
      qed
    qed
  next
    case False
    then obtain p v c0 rest where xs: "?xs = (p, v, c0) # rest" by (cases ?xs) auto
    have old: "fc_old_pages ?flex ! pg \<noteq> 0" using co(3) False by simp
    obtain P where ptr: "fc_pages ?flex ! pg = p" "p \<noteq> 0" and P: "pc_heap st p = Some P" "pg_ver P = v"
      "pg_content P = c0" "pg_prev P = pg_prev_ptr P" "pg_min_ver P = vp_ver (last ?xs)"
      "pages_of (pc_heap st) (pg_prev_ptr P) rest" "\<forall>y \<in> set rest. vp_ver y < v"
      using co(1) by (auto simp: xs)
    have v: "v \<noteq> INIT_VER" "v \<le> ver" and pnew: "p < ?new" using co(4) [of "(p, v, c0)"] newest by (auto simp: xs)
    show ?thesis
    proof (cases "v = ver")
      case True
      then have "findWithInsertPage cf pg ver st = Some (p, st)"
        using len old ptr P(1,2) v by (simp add: findWithInsertPage_def Let_def)
      then show ?thesis
        using R xs True by (simp add: page_for_def exI [of _ "?xs"] fun_upd_idem)
    next
      case newer: False
      then have lt: "v < ver" using v by simp
      show ?thesis
      proof (cases "get_region (SIZEOF_PAGE + content_bytes ?col) ?b")
        case (Pair o' b1)
        show ?thesis
        proof (cases o')
          case None
          then show ?thesis
            using Pair old len ptr P(1,2) v lt
            by (auto simp: findWithInsertPage_def getNewPage_def Let_def get_region_def split: if_splits)
        next
          case (Some q)
          then have q: "q = ?new" and b1: "b1 = ?b\<lparr>buf_size := ?new + (SIZEOF_PAGE + content_bytes ?col)\<rparr>"
            using Pair by (simp_all add: get_region_some)
          define raw where "raw = map (\<lambda>i. buf_data ?b (?new + SIZEOF_PAGE + i)) [0..<content_bytes ?col]"
          define cnt where "cnt = (if page_size ?col \<noteq> 1 then c0 else raw)"
          define st' where "st' = st\<lparr>pc_buf := b1,
            pc_flex := (pc_flex st)[cf := ?flex\<lparr>page_ptr := (page_ptr ?flex)[pg := ?new],
              fc_pages := (fc_pages ?flex)[pg := ?new]\<rparr>],
            pc_heap := (pc_heap st)(p \<mapsto> P\<lparr>pg_next := ?new\<rparr>,
              ?new \<mapsto> \<lparr>pg_ver = ver, pg_prev_ptr = p, pg_min_ver = pg_min_ver P, pg_prev = p,
                pg_next = 0, pg_content = cnt\<rparr>)\<rparr>"
          have run: "findWithInsertPage cf pg ver st = Some (?new, st')"
            using Pair Some old len cfl ptr P(1,2,3) v lt
            by (simp add: findWithInsertPage_def getNewPage_def Let_def q set_newest_def st'_def raw_def cnt_def)
          let ?ys = "(?new, ver, cnt) # ?xs"
          have "paged_rel st' (A((cf, pg) := ?ys))"
          proof (rule paged_rel_cell [OF R c])
            show "shape_ok st'"
              using RD(1) cfl by (auto simp: shape_ok_def st'_def b1 nth_list_update)
            have fresh: "?new \<notin> vp_ptr ` set ?xs"
            proof
              assume "?new \<in> vp_ptr ` set ?xs"
              then obtain x where "x \<in> set ?xs" "vp_ptr x = ?new" by auto
              then show False using co(4) [of x] by simp
            qed
            have "pages_of ((pc_heap st)(p \<mapsto> P\<lparr>pg_next := ?new\<rparr>)) p ?xs"
              using co(1) pages_of_next [where h = "pc_heap st", OF P(1)] ptr(1) by simp
            then have "pages_of (pc_heap st') p ?xs"
              using pages_of_upd [OF fresh] by (simp add: st'_def)
            moreover have "pc_heap st' ?new = Some \<lparr>pg_ver = ver, pg_prev_ptr = p, pg_min_ver = pg_min_ver P, pg_prev = p,
                pg_next = 0, pg_content = cnt\<rparr>" by (simp add: st'_def)
            ultimately have "pages_of (pc_heap st') ?new ?ys"
              using P(5,7) sh(2) lt by (auto simp: xs)
            moreover have "length cnt = content_bytes ?col"
              using co(4) [of "(p, v, c0)"] by (simp add: xs cnt_def raw_def)
            ultimately show "cell_ok st' (cf, pg) ?ys"
              using sh pg cfl ver co(3,4) False unfolding cell_ok_def Let_def
              by (fastforce simp: st'_def b1 SIZEOF_PAGE_def)
          qed (use pnew sh(1) cfl in \<open>auto simp: st'_def b1 nth_list_update cells_def xs\<close>)
          then show ?thesis
            unfolding run option.case prod.case
              by (intro exI [of _ ?ys]) (simp add: page_for_def xs newer cnt_def st'_def)
        qed
      qed
    qed
  qed
qed

section \<open>Rows in a page\<close>

definition upd_content :: "column_family \<Rightarrow> nat \<Rightarrow> bytes \<Rightarrow> bool list \<Rightarrow> bytes \<Rightarrow> bytes" where
  "upd_content col off row nulls c = write_nulls col off 0 nulls (put_bytes (row_offset col off) row c)"

definition row_view :: "column_family \<Rightarrow> nat \<Rightarrow> bytes \<Rightarrow> bytes" where
  "row_view col off c = get_bytes (row_offset col off) (vlen col) c"

definition null_view :: "column_family \<Rightarrow> nat \<Rightarrow> bytes \<Rightarrow> bool list" where
  "null_view col off c = map (\<lambda>j. get_bit c (null_bit col off j)) [0..<column_num col]"

lemma write_nulls_bits: "write_nulls col off k ns c = bitmap.assign_list c (null_bit col off k) ns"
  by (induction ns arbitrary: k c) (auto simp: bitmap.assign_def null_bit_def)

lemma length_write_nulls [simp]: "length (write_nulls col off k ns c) = length c"
  using bitmap.size_assign_list [of c "null_bit col off k" ns] by (simp add: write_nulls_bits)

text \<open>Slots of equal width at different indices do not meet.\<close>

lemma slots_apart: "(i::nat) \<noteq> j \<Longrightarrow> i * w + w \<le> j * w \<or> j * w + w \<le> i * w"
proof -
  assume "i \<noteq> j"
  then have "Suc i \<le> j \<or> Suc j \<le> i" by auto
  then have "Suc i * w \<le> j * w \<or> Suc j * w \<le> i * w" by (meson mult_le_mono1)
  then show ?thesis by (simp add: add.commute)
qed

lemma slot_inside: "(i::nat) < n \<Longrightarrow> i * w + w \<le> w * n"
  by (metis Suc_leI add.commute mult.commute mult_Suc mult_le_mono2)

text \<open>A page, and what is written to a row of it.\<close>

definition fits_page :: "column_family \<Rightarrow> bytes \<Rightarrow> bool list \<Rightarrow> bytes \<Rightarrow> bool" where
  "fits_page col row nulls c \<longleftrightarrow> 0 < page_size col \<and> length c = content_bytes col \<and>
     length row = vlen col \<and> length nulls = column_num col"

lemma fits_pageD:
  assumes "fits_page col row nulls c"
  shows "0 < page_size col" "length c = content_bytes col" "length row = vlen col" "length nulls = column_num col"
  using assms by (simp_all add: fits_page_def)

lemma row_fits:
  assumes "0 < page_size col" and "length c = content_bytes col"
  shows "row_offset col off + vlen col \<le> length c"
proof -
  have "off mod page_size col * vlen col + vlen col \<le> vlen col * page_size col"
    using assms(1) by (intro slot_inside) simp
  then show ?thesis by (simp add: row_offset_def assms(2) content_bytes_def)
qed

lemma null_bit_inside:
  assumes "0 < page_size col" and "j < column_num col"
  shows "null_bit col off j < 8 * bitmap_bytes col"
proof -
  have "null_bit col off j < off mod page_size col * column_num col + column_num col"
    using assms(2) by (simp add: null_bit_def)
  also have "\<dots> \<le> column_num col * page_size col" using assms(1) by (intro slot_inside) simp
  also have "\<dots> \<le> 8 * BYTE_SIZE (page_size col * column_num col)" unfolding BYTE_SIZE_eq by (simp add: mult.commute)
  finally show ?thesis by (simp add: bitmap_bytes_def)
qed

lemma length_upd_content: "fits_page col row nulls c \<Longrightarrow> length (upd_content col off row nulls c) = length c"
  using row_fits [of col c off] by (simp add: upd_content_def fits_page_def)

lemma assign_inside:
  assumes "fits_page col row nulls c"
  shows "null_bit col off 0 + length nulls \<le> 8 * bitmap_bytes col"
proof (cases "column_num col = 0")
  case False
  then have "null_bit col off (column_num col - 1) < 8 * bitmap_bytes col"
    by (intro null_bit_inside fits_pageD [OF assms]) simp
  then show ?thesis using fits_pageD [OF assms] False by (simp add: null_bit_def)
qed (use fits_pageD [OF assms] in \<open>simp add: null_bit_def\<close>)

lemma bitmap_before_row: "bitmap_bytes col \<le> row_offset col off"
  by (simp add: row_offset_def)

lemma write_nulls_beyond:
  assumes "null_bit col off k + length ns \<le> 8 * bitmap_bytes col" and "bitmap_bytes col \<le> i"
  shows "write_nulls col off k ns d ! i = d ! i"
  using assms(1)
proof (induction ns arbitrary: k d)
  case (Cons n ns)
  have "BYTE_INDEX (null_bit col off k) \<noteq> i"
    using Cons.prems assms(2) unfolding BYTE_INDEX_eq by auto
  moreover have "null_bit col off (Suc k) + length ns \<le> 8 * bitmap_bytes col"
    using Cons.prems by (simp add: null_bit_def)
  ultimately show ?case using Cons.IH by (simp add: reset_bit_def set_bit_arr_def)
qed simp

text \<open>The rows and null bits of a page after a write.\<close>

lemma row_upd_put:
  assumes F: "fits_page col row nulls c"
  shows "row_view col o' (upd_content col off row nulls c) =
    get_bytes (row_offset col o') (vlen col) (put_bytes (row_offset col off) row c)"
  unfolding row_view_def
proof (rule get_bytes_cong)
  note D = fits_pageD [OF F]
  have fit: "row_offset col x + vlen col \<le> length c" for x by (rule row_fits [OF D(1,2)])
  show "length (upd_content col off row nulls c) = length (put_bytes (row_offset col off) row c)"
    and "row_offset col o' + vlen col \<le> length (upd_content col off row nulls c)"
    using fit [of off] fit [of o'] D length_upd_content [OF F] by simp_all
  fix i
  assume "row_offset col o' \<le> i"
  then have "bitmap_bytes col \<le> i" using bitmap_before_row [of col o'] by simp
  then show "upd_content col off row nulls c ! i = put_bytes (row_offset col off) row c ! i"
    unfolding upd_content_def by (rule write_nulls_beyond [OF assign_inside [OF F]])
qed

lemma row_upd: "fits_page col row nulls c \<Longrightarrow> row_view col off (upd_content col off row nulls c) = row"
  using row_upd_put [of col row nulls c off off] row_fits [of col c off] by (simp add: fits_page_def)

lemma row_upd_other:
  assumes F: "fits_page col row nulls c" and "o' mod page_size col \<noteq> off mod page_size col"
  shows "row_view col o' (upd_content col off row nulls c) = row_view col o' c"
proof -
  note D = fits_pageD [OF F]
  show ?thesis
    unfolding row_upd_put [OF F] unfolding row_view_def
    using row_fits [OF D(1,2), of o'] row_fits [OF D(1,2), of off] D(3) slots_apart [OF assms(2), of "vlen col"]
    by (intro get_put_other) (auto simp: row_offset_def)
qed

lemma get_bit_upd:
  assumes F: "fits_page col row nulls c" and "j < column_num col"
  shows "get_bit (upd_content col off row nulls c) (null_bit col o' j) =
    (if o' mod page_size col = off mod page_size col then nulls ! j else get_bit c (null_bit col o' j))"
proof -
  note D = fits_pageD [OF F]
  note fit = row_fits [OF D(1,2), of off]
  let ?d = "put_bytes (row_offset col off) row c"
  have "bitmap_bytes col \<le> length c" using fit bitmap_before_row [of col off] by simp
  then have "null_bit col off 0 + length nulls \<le> 8 * length ?d"
    using assign_inside [OF F, of off] fit D(3) by simp
  note as = bitmap.get_assign_list [OF this, of "null_bit col o' j"]
  have "get_bit ?d (null_bit col o' j) = get_bit c (null_bit col o' j)"
    by (rule get_bit_put_bytes [OF null_bit_inside [OF D(1) assms(2)] bitmap_before_row]) (use fit D(3) in simp)
  then show ?thesis
    using as slots_apart [of "o' mod page_size col" "off mod page_size col" "column_num col"] assms(2) D(4)
    by (auto simp: upd_content_def write_nulls_bits null_bit_def)
qed

lemma null_upd: "fits_page col row nulls c \<Longrightarrow> null_view col off (upd_content col off row nulls c) = nulls"
  by (rule nth_equalityI) (simp_all add: null_view_def get_bit_upd fits_page_def)

lemma null_upd_other:
  assumes "fits_page col row nulls c" and "o' mod page_size col \<noteq> off mod page_size col"
  shows "null_view col o' (upd_content col off row nulls c) = null_view col o' c"
  using get_bit_upd [OF assms(1)] assms(2) by (simp add: null_view_def)

section \<open>Writes and reads\<close>

lemma write_row_ok:
  assumes R: "paged_rel st A" and cf: "cf < length (pc_cols st)" and off: "off < max_items st" and ver: "ver < INIT_VER"
    and newest: "\<forall>x \<in> set (A (cf, off div page_size (pc_cols st ! cf))). vp_ver x \<le> ver"
    and row: "length row = vlen (pc_cols st ! cf)" and nulls: "length nulls = column_num (pc_cols st ! cf)"
  shows "case write_row cf off ver row nulls st of
      None \<Rightarrow> buf_capacity (pc_buf st) \<le> buf_size (pc_buf st) + SIZEOF_PAGE + content_bytes (pc_cols st ! cf)
    | Some st' \<Rightarrow> \<exists>p c rest. paged_rel st' (A((cf, off div page_size (pc_cols st ! cf)) :=
          (p, ver, upd_content (pc_cols st ! cf) off row nulls c) # rest)) \<and>
        page_for (page_size (pc_cols st ! cf)) ver (A (cf, off div page_size (pc_cols st ! cf))) ((p, ver, c) # rest) \<and>
        fits_page (pc_cols st ! cf) row nulls c \<and>
        pc_cols st' = pc_cols st \<and> max_items st' = max_items st"
proof -
  let ?col = "pc_cols st ! cf" and ?pg = "off div page_size (pc_cols st ! cf)"
  note sh = shape_okD [OF paged_relD(1) [OF R] cf]
  have c: "(cf, ?pg) \<in> cells st" using cf page_in_range [OF off sh(3)] by (simp add: cells_def)
  note fw = findWithInsertPage_ok [OF R c ver newest]
  show ?thesis
  proof (cases "findWithInsertPage cf ?pg ver st")
    case None
    then show ?thesis using fw by (simp add: write_row_def Let_def)
  next
    case (Some ps)
    obtain ptr st1 where ps: "ps = (ptr, st1)" by fastforce
    obtain xs where R1: "paged_rel st1 (A((cf, ?pg) := xs))" and ptr: "ptr = vp_ptr (hd xs)"
      and pf: "page_for (page_size ?col) ver (A (cf, ?pg)) xs" and keep: "pc_cols st1 = pc_cols st" "max_items st1 = max_items st"
      using fw Some ps by auto
    obtain q v cnt rest where xs: "xs = (q, v, cnt) # rest" using pf by (cases xs) (auto simp: page_for_def)
    have v: "v = ver" and q: "ptr = q" using pf ptr by (simp_all add: page_for_def xs)
    have c1: "(cf, ?pg) \<in> cells st1" using c keep by (simp add: cells_def)
    note R1D = paged_relD [OF R1] and ok1 = paged_relD(2) [OF R1 c1, unfolded fun_upd_same xs]
    note co = cell_okD [OF ok1]
    obtain P where P: "pc_heap st1 q = Some P" "pg_ver P = v" "pg_content P = cnt" and q0: "q \<noteq> 0"
      "fc_pages (pc_flex st1 ! cf) ! ?pg = q"
      using co(1) by auto
    have len: "length cnt = content_bytes ?col" using co(4) [of "(q, v, cnt)"] keep by simp
    have fits: "fits_page ?col row nulls cnt" using sh(3) len row nulls by (simp add: fits_page_def)
    let ?cnt = "upd_content ?col off row nulls cnt"
    define st' where "st' = st1\<lparr>pc_heap := (pc_heap st1)(q \<mapsto> P\<lparr>pg_content := ?cnt\<rparr>)\<rparr>"
    have run: "write_row cf off ver row nulls st = Some st'"
      using Some ps P q by (simp add: write_row_def Let_def st'_def upd_content_def)
    have fresh: "q \<notin> vp_ptr ` set rest" using pages_of_distinct [OF co(1)] by simp
    have "paged_rel st' ((A((cf, ?pg) := xs))((cf, ?pg) := (q, ver, ?cnt) # rest))"
    proof (rule paged_rel_cell [OF R1 c1])
      show "shape_ok st'" using R1D(1) by (simp add: shape_ok_def st'_def)
      have "pages_of (pc_heap st') q ((q, ver, ?cnt) # rest)"
        using co(1) P pages_of_upd [OF fresh] by (auto simp: st'_def v q0)
      then show "cell_ok st' (cf, ?pg) ((q, ver, ?cnt) # rest)"
        using co(2,3) co(4) length_upd_content [OF fits, of off] len keep q0 ver
        unfolding cell_ok_def Let_def by (auto simp: st'_def v) fastforce+
    qed (auto simp: st'_def xs)
    then have "paged_rel st' (A((cf, ?pg) := (q, ver, ?cnt) # rest))" by simp
    then show ?thesis
      using pf fits keep by (simp add: run xs v) (auto simp: st'_def)
  qed
qed

type_synonym row_write = "nat \<times> nat \<times> nat \<times> bytes \<times> bool list"

abbreviation rw_ver :: "row_write \<Rightarrow> nat" where "rw_ver w \<equiv> fst (snd (snd w))"

primrec run_writes :: "row_write list \<Rightarrow> paged \<Rightarrow> paged option" where
  "run_writes [] st = Some st"
| "run_writes (w # ws) st =
     (case write_row (fst w) (fst (snd w)) (rw_ver w) (fst (snd (snd (snd w)))) (snd (snd (snd (snd w)))) st of
        None \<Rightarrow> None
      | Some st' \<Rightarrow> run_writes ws st')"

text \<open>The last write of a row up to a version, and what it wrote.\<close>

definition written :: "row_write list \<Rightarrow> nat \<Rightarrow> nat \<Rightarrow> nat \<Rightarrow> (bytes \<times> bool list) option" where
  "written ws cf off e = map_option (\<lambda>w. snd (snd (snd w)))
     (List.find (\<lambda>w. fst w = cf \<and> fst (snd w) = off \<and> rw_ver w \<le> e) (rev ws))"

lemma written_Nil [simp]: "written [] cf off e = None"
  by (simp add: written_def)

lemma written_snoc:
  "written (ws @ [w]) cf off e =
    (if fst w = cf \<and> fst (snd w) = off \<and> rw_ver w \<le> e then Some (snd (snd (snd w))) else written ws cf off e)"
  by (simp add: written_def)

definition write_ok :: "column_family list \<Rightarrow> nat \<Rightarrow> row_write \<Rightarrow> bool" where
  "write_ok cols n w \<longleftrightarrow> fst w < length cols \<and> fst (snd w) < n \<and> rw_ver w < 2 ^ 31 \<and>
     length (fst (snd (snd (snd w)))) = vlen (cols ! fst w) \<and> length (snd (snd (snd (snd w)))) = column_num (cols ! fst w)"

text \<open>The versions hold what the writes so far made of each row.\<close>

definition history :: "column_family list \<Rightarrow> versions \<Rightarrow> row_write list \<Rightarrow> bool" where
  "history cols A ws \<longleftrightarrow>
     (\<forall>cf off e row nulls. written ws cf off e = Some (row, nulls) \<longrightarrow>
        (\<exists>c. content_at (A (cf, off div page_size (cols ! cf))) e = Some c \<and>
           row_view (cols ! cf) off c = row \<and> null_view (cols ! cf) off c = nulls)) \<and>
     (\<forall>c. \<forall>x \<in> set (A c). \<exists>w \<in> set ws. vp_ver x = rw_ver w)"

lemma content_at_newest:
  assumes "\<forall>x \<in> set xs. vp_ver x \<le> e" and "xs \<noteq> []"
  shows "content_at xs e = Some (vp_content (hd xs))"
  using assms by (cases xs) auto

lemma page_for_cases:
  assumes "page_for ps ver old (x # rest)"
  obtains (first) "old = []" "rest = []" | (same) "old = x # rest"
    | (copy) "old \<noteq> []" "rest = old" "ps \<noteq> 1 \<longrightarrow> vp_content x = vp_content (hd old)"
proof (cases "old = []")
  case True
  then show ?thesis using assms first by (simp add: page_for_def)
next
  case ne: False
  show ?thesis
  proof (cases "vp_ver (hd old) = ver")
    case True
    then show ?thesis using assms ne same by (simp add: page_for_def)
  next
    case False
    then show ?thesis using assms ne copy by (simp add: page_for_def)
  qed
qed

lemma history_write:
  assumes H: "history cols A ws" and w: "w = (cf, off, ver, row, nulls)" and later: "\<forall>x \<in> set ws. rw_ver x \<le> ver"
    and col: "col = cols ! cf" and pg: "pg = off div page_size col"
    and pf: "page_for (page_size col) ver (A (cf, pg)) ((p, ver, c) # rest)" and fits: "fits_page col row nulls c"
  shows "history cols (A((cf, pg) := (p, ver, upd_content col off row nulls c) # rest)) (ws @ [w])"
proof -
  let ?A = "A((cf, pg) := (p, ver, upd_content col off row nulls c) # rest)"
  have V: "\<exists>w \<in> set ws. vp_ver x = rw_ver w" if "x \<in> set (A d)" for x d
    using H that unfolding history_def by blast
  have vers: "vp_ver x \<le> ver" if "x \<in> set (A d)" for x d using V [OF that] later by auto
  have rest: "set rest \<subseteq> set (A (cf, pg))" using pf by (cases rule: page_for_cases) auto
  have old: "content_at ((p, ver, c) # rest) e = content_at (A (cf, pg)) e" if "e < ver" for e
    using pf that by (cases rule: page_for_cases) simp_all
  have prev: "c = vp_content (hd (A (cf, pg)))" if "A (cf, pg) \<noteq> []" "page_size col \<noteq> 1"
    using pf that by (cases rule: page_for_cases) simp_all
  have "\<exists>d. content_at (?A (cf', o' div page_size (cols ! cf'))) e = Some d \<and>
      row_view (cols ! cf') o' d = row' \<and> null_view (cols ! cf') o' d = nulls'"
    if wr: "written (ws @ [w]) cf' o' e = Some (row', nulls')" for cf' o' e row' nulls'
  proof (cases "(cf', o' div page_size (cols ! cf')) = (cf, pg)")
    case False
    then have "\<not> (cf = cf' \<and> off = o')" by (auto simp: pg col)
    then have "written ws cf' o' e = Some (row', nulls')" using wr by (auto simp: written_snoc w split: if_splits)
    then show ?thesis using H False unfolding history_def by (metis fun_upd_other)
  next
    case True
    then have cf': "cf' = cf" and pg': "o' div page_size col = pg" by (auto simp: col)
    show ?thesis
    proof (cases "ver \<le> e")
      case False
      then have "written ws cf o' e = Some (row', nulls')" using wr by (simp add: written_snoc w cf')
      then obtain d where "content_at (A (cf, pg)) e = Some d" "row_view col o' d = row'" "null_view col o' d = nulls'"
        using H pg' unfolding history_def col by metis
      then show ?thesis using old [of e] False True by (auto simp: cf' col)
    next
      case new: True
      show ?thesis
      proof (cases "o' = off")
        case True
        then have "row' = row" "nulls' = nulls" using wr new by (simp_all add: written_snoc w cf')
        then show ?thesis
          using new True row_upd [OF fits] null_upd [OF fits] by (simp add: cf' flip: col pg)
      next
        case neq: False
        then have "written ws cf o' e = Some (row', nulls')" using wr by (simp add: written_snoc w cf')
        then obtain d where d: "content_at (A (cf, pg)) e = Some d" "row_view col o' d = row'" "null_view col o' d = nulls'"
          using H pg' unfolding history_def col by metis
        have ne: "A (cf, pg) \<noteq> []" using d(1) by auto
        have ps: "page_size col \<noteq> 1" using neq pg' pg by auto
        have "\<forall>x \<in> set (A (cf, pg)). vp_ver x \<le> e" using vers new by (meson order_trans)
        then have "d = c" using content_at_newest [OF _ ne] d(1) prev [OF ne ps] by simp
        moreover have "o' mod page_size col \<noteq> off mod page_size col"
          using neq pg' pg by (metis div_mult_mod_eq)
        ultimately show ?thesis
          using new d(2,3) row_upd_other [OF fits] null_upd_other [OF fits] True
          by (simp add: cf' flip: col)
      qed
    qed
  qed
  moreover have "\<exists>w' \<in> set (ws @ [w]). vp_ver x = rw_ver w'" if "x \<in> set (?A d)" for x d
  proof (cases "x \<in> set (A d)")
    case True
    then show ?thesis using V by auto
  next
    case False
    then have "vp_ver x = ver" using that rest by (auto split: if_splits)
    then show ?thesis by (simp add: w)
  qed
  ultimately show ?thesis unfolding history_def by blast
qed

lemma sorted_map_le: "sorted (map f (xs @ ys)) \<Longrightarrow> x \<in> set xs \<Longrightarrow> y \<in> set ys \<Longrightarrow> f x \<le> f y"
  by (simp add: sorted_append)

lemma written_in:
  "written ws cf off e = Some r \<Longrightarrow> \<exists>w \<in> set ws. fst w = cf \<and> fst (snd w) = off \<and> snd (snd (snd w)) = r"
proof (induction ws rule: rev_induct)
  case (snoc w ws)
  then show ?case by (cases "fst w = cf \<and> fst (snd w) = off \<and> rw_ver w \<le> e") (simp_all add: written_snoc)
qed simp

lemma run_writes_ok:
  assumes "paged_rel st A" and "history (pc_cols st) A ws0"
    and "sorted (map rw_ver (ws0 @ ws))" and "\<forall>w \<in> set ws. write_ok (pc_cols st) (max_items st) w"
    and "run_writes ws st = Some st'"
  shows "\<exists>A'. paged_rel st' A' \<and> history (pc_cols st) A' (ws0 @ ws) \<and> pc_cols st' = pc_cols st \<and>
    max_items st' = max_items st"
  using assms
proof (induction ws arbitrary: st A ws0)
  case Nil
  then show ?case by auto
next
  case (Cons w ws)
  obtain cf off ver row nulls where w: "w = (cf, off, ver, row, nulls)" by (metis prod.exhaust)
  obtain st1 where step: "write_row cf off ver row nulls st = Some st1" and rest: "run_writes ws st1 = Some st'"
    using Cons.prems(5) by (auto simp: w split: option.splits)
  have ok: "cf < length (pc_cols st)" "off < max_items st" "ver < 2 ^ 31" "length row = vlen (pc_cols st ! cf)"
    "length nulls = column_num (pc_cols st ! cf)"
    using Cons.prems(4) by (simp_all add: w write_ok_def)
  have "\<forall>x \<in> set ws0. \<forall>y \<in> set (w # ws). rw_ver x \<le> rw_ver y"
    using sorted_map_le [OF Cons.prems(3)] by blast
  then have later: "\<forall>x \<in> set ws0. rw_ver x \<le> ver" by (simp add: w)
  have V: "\<exists>w \<in> set ws0. vp_ver x = rw_ver w" if "x \<in> set (A d)" for x d
    using Cons.prems(2) that unfolding history_def by blast
  have newest: "\<forall>x \<in> set (A d). vp_ver x \<le> ver" for d
    using V [of _ d] later by metis
  have "ver < INIT_VER" using ok(3) by (simp add: INIT_VER_def)
  from write_row_ok [OF Cons.prems(1) ok(1,2) this newest ok(4,5)] step
  obtain p c rest' where R1: "paged_rel st1 (A((cf, off div page_size (pc_cols st ! cf)) :=
          (p, ver, upd_content (pc_cols st ! cf) off row nulls c) # rest'))"
    and pf: "page_for (page_size (pc_cols st ! cf)) ver (A (cf, off div page_size (pc_cols st ! cf))) ((p, ver, c) # rest')"
    and fits: "fits_page (pc_cols st ! cf) row nulls c"
    and keep: "pc_cols st1 = pc_cols st" "max_items st1 = max_items st" by auto
  note H1 = history_write [OF Cons.prems(2) w later refl refl pf fits]
  have S: "sorted (map rw_ver ((ws0 @ [w]) @ ws))" using Cons.prems(3) by simp
  have W: "\<forall>w \<in> set ws. write_ok (pc_cols st1) (max_items st1) w" using Cons.prems(4) keep by simp
  from Cons.IH [OF R1 _ S W rest] H1 keep
  have "\<exists>A'. paged_rel st' A' \<and> history (pc_cols st1) A' ((ws0 @ [w]) @ ws) \<and> pc_cols st' = pc_cols st1 \<and>
      max_items st' = max_items st1" by metis
  then show ?case using keep by simp
qed

text \<open>What a fragment reads, from the versions.\<close>

lemma fragment_page_rel:
  assumes R: "paged_rel st A" and cf: "cf < length (pc_cols st)" and off: "off < max_items st"
    and small: "\<forall>x \<in> set (A (cf, off div page_size (pc_cols st ! cf))). vp_ver x < 2 ^ 31" and e: "e < 2 ^ 31"
  shows "map_option pg_content (fragment_page st e cf off) = content_at (A (cf, off div page_size (pc_cols st ! cf))) e"
proof -
  let ?pg = "off div page_size (pc_cols st ! cf)"
  note sh = shape_okD [OF paged_relD(1) [OF R] cf]
  have pg: "?pg < num_pages st cf" by (rule page_in_range [OF off sh(3)])
  then have c: "(cf, ?pg) \<in> cells st" using cf by (simp add: cells_def)
  note co = cell_okD [OF paged_relD(2) [OF R c]]
  show ?thesis
    using page_at_pages [OF co(1) small e] sh pg co(2) by (simp add: fragment_page_def Let_def)
qed

lemma clamp_fields [simp]: "vlen (clamp_page_size n c) = vlen c" "column_num (clamp_page_size n c) = column_num c"
  by (simp_all add: clamp_page_size_def Let_def)

lemma write_ok_clamp: "write_ok (map (clamp_page_size m) cols) n w = write_ok cols n w"
  by (cases "fst w < length cols") (simp_all add: write_ok_def)

lemma vprop_read:
  assumes "new_paged families n b = Some st0" and "\<forall>w \<in> set ws. write_ok families n w" and "sorted (map rw_ver ws)"
    and "run_writes ws st0 = Some st" and "written ws cf off e = Some (row, nulls)" and "e < 2 ^ 31"
  shows "\<exists>p. fragment_page st e cf off = Some p \<and> row_view (pc_cols st ! cf) off (pg_content p) = row \<and>
    null_view (pc_cols st ! cf) off (pg_content p) = nulls \<and> cf < length (pc_cols st) \<and> shape_ok st \<and>
    pc_cols st = map (clamp_page_size n) families"
proof -
  obtain w where w: "w \<in> set ws" "fst w = cf" "fst (snd w) = off"
    using written_in [OF assms(5)] by blast
  have ok: "cf < length families" "off < n" using assms(2) w by (auto simp: write_ok_def)
  have st0: "pc_cols st0 = map (clamp_page_size n) families" "max_items st0 = n"
    using assms(1) by (auto simp: new_paged_def Let_def)
  have R0: "paged_rel st0 (\<lambda>c. [])" by (rule new_paged_rel [OF assms(1)]) (use ok in auto)
  have W0: "\<forall>w \<in> set ws. write_ok (pc_cols st0) (max_items st0) w"
    using assms(2) by (simp add: st0 write_ok_clamp)
  have "history (pc_cols st0) (\<lambda>c. []) []" by (simp add: history_def)
  from run_writes_ok [OF R0 this _ W0 assms(4)] assms(3)
  have "\<exists>A. paged_rel st A \<and> history (pc_cols st0) A ([] @ ws) \<and> pc_cols st = pc_cols st0 \<and> max_items st = max_items st0"
    by simp
  then obtain A where R: "paged_rel st A" and H: "history (pc_cols st0) A ws"
    and keep: "pc_cols st = pc_cols st0" "max_items st = n" using st0 by auto
  have V: "\<exists>w \<in> set ws. vp_ver x = rw_ver w" if "x \<in> set (A d)" for x d
    using H that unfolding history_def by blast
  then have small: "\<forall>x \<in> set (A d). vp_ver x < 2 ^ 31" for d using assms(2) unfolding write_ok_def by metis
  have cf: "cf < length (pc_cols st)" and off: "off < max_items st" using ok keep st0 by simp_all
  from fragment_page_rel [OF R cf off small assms(6)] H assms(5)
  have "\<exists>p. fragment_page st e cf off = Some p \<and> row_view (pc_cols st ! cf) off (pg_content p) = row \<and>
      null_view (pc_cols st ! cf) off (pg_content p) = nulls"
    unfolding history_def keep(1) by fastforce
  then show ?thesis using cf paged_relD(1) [OF R] keep(1) st0(1) by auto
qed

section \<open>Properties\<close>

text \<open>
C31: The property store is multi-versioned: after any row writes at versions that never decrease, an
analytics process that reads a row at a version gets the row of the last write of it up to the version,
with its null flags. Writes at later versions, and writes of other rows of the page, never show.
\<close>

theorem property_snapshot:
  assumes "new_paged families n b = Some st0" and "\<forall>w \<in> set ws. write_ok families n w" and "sorted (map rw_ver ws)"
    and "run_writes ws st0 = Some st" and "written ws cf off e = Some (row, nulls)" and "e < 2 ^ 31"
  shows "GetRowDataAddr st e cf off = Some row \<and>
    (\<forall>prop_id. prop_cf sch ! prop_id = cf \<longrightarrow> prop_cf_id sch ! prop_id < length nulls \<longrightarrow>
       VertexPropValueIsValid st sch e off prop_id = Some (\<not> nulls ! (prop_cf_id sch ! prop_id)))"
proof -
  obtain p where p: "fragment_page st e cf off = Some p" "row_view (pc_cols st ! cf) off (pg_content p) = row"
    "null_view (pc_cols st ! cf) off (pg_content p) = nulls" "cf < length (pc_cols st)" "shape_ok st"
    using vprop_read [OF assms] by blast
  note sh = shape_okD [OF p(5,4)]
  have "GetRowDataAddr st e cf off = Some row"
    using p(1,2) sh(7) by (simp add: GetRowDataAddr_def row_view_def row_offset_def bitmap_bytes_def Let_def)
  moreover have "get_bit (pg_content p) (null_bit (pc_cols st ! cf) off j) = nulls ! j" if "j < length nulls" for j
    using that p(3) by (auto simp: null_view_def)
  ultimately show ?thesis
    using p(1) sh(7) by (auto simp: VertexPropValueIsValid_def null_bit_def Let_def)
qed

definition demo_families :: "column_family list" where
  "demo_families = [\<lparr>vlen = 4, page_size = 2, column_num = 1\<rparr>]"

definition demo_writes :: "row_write list" where
  "demo_writes = [(0, 0, 1, [1, 2, 3, 4], [False]), (0, 1, 1, [5, 6, 7, 8], [True]), (0, 0, 3, [9, 9, 9, 9], [False])]"

lemmas paged_eval = new_paged_def new_flex_cols.simps Let_def clamp_page_size_def page_count_def
  get_region_def FlexColHeader_size_def init_capacity_def write_row_def findWithInsertPage_def getNewPage_def
  SIZEOF_PAGE_def content_bytes_def bitmap_bytes_def BYTE_SIZE_eq INIT_VER_def set_newest_def set_oldest_def
  row_offset_def null_bit_def put_bytes_def reset_bit_def set_bit_arr_def BYTE_INDEX_eq BIT_OFFSET_eq

lemma demo_writes_run:
  "\<exists>st0 st. new_paged demo_families 2 (init_capacity 1000 (\<lambda>a. 0)) = Some st0 \<and> run_writes demo_writes st0 = Some st"
  by (simp add: demo_families_def demo_writes_def paged_eval cong: if_cong)

lemma demo_writes_ok: "\<forall>w \<in> set demo_writes. write_ok demo_families 2 w" "sorted (map rw_ver demo_writes)"
  by (simp_all add: demo_writes_def demo_families_def write_ok_def)

lemma property_snapshot_witness:
  "\<exists>st. GetRowDataAddr st 2 0 0 = Some [1, 2, 3, 4] \<and>
     (\<forall>prop_id. [0::nat] ! prop_id = 0 \<longrightarrow> [0::nat] ! prop_id < 1 \<longrightarrow>
        VertexPropValueIsValid st \<lparr>prop_cf = [0], prop_cf_offset = [0], prop_cf_id = [0], vprop_dtype = \<lambda>i. INT_T\<rparr>
          2 0 prop_id = Some (\<not> [False] ! ([0] ! prop_id)))"
proof -
  obtain st0 st where run: "new_paged demo_families 2 (init_capacity 1000 (\<lambda>a. 0)) = Some st0"
    "run_writes demo_writes st0 = Some st"
    using demo_writes_run by blast
  have w: "written demo_writes 0 0 2 = Some ([1, 2, 3, 4], [False])"
    by (simp add: written_def demo_writes_def)
  show ?thesis
    using property_snapshot [OF run(1) demo_writes_ok run(2) w,
        of "\<lparr>prop_cf = [0], prop_cf_offset = [0], prop_cf_id = [0], vprop_dtype = \<lambda>i. INT_T\<rparr>"]
    by auto
qed

text \<open>
C40: The page cache of \<^verbatim>\<open>getByOffset\<close> keeps one version for all columns of a table: after a
column was read at one version and another column at a second version, reading the first column at the
second version returns its page of the first one.
\<close>

theorem cache_serves_old_version:
  assumes "table_id < MAX_CACHED_TABLES" and "cached_findPage table_id c pg v1 st ca = Some (p, ca1)" and "p \<noteq> 0"
    and "cached_findPage table_id c' pg' v2 st ca1 = Some (q, ca2)" and "c' \<noteq> c" and "v1 \<noteq> v2"
  shows "cached_findPage table_id c pg v2 st ca2 = Some (p, ca2)"
proof -
  have t: "\<not> MAX_CACHED_TABLES \<le> table_id" using assms(1) by simp
  have 1: "cached_page ca1 c = p" "cached_page_num ca1 c = pg" "cached_ver ca1 = v1"
    using assms(2) t by (auto simp: cached_findPage_def split: if_splits)
  have "cached_page ca2 c = p" "cached_page_num ca2 c = pg" "cached_ver ca2 = v2"
    using assms(4-6) t 1 by (auto simp: cached_findPage_def split: if_splits)
  then show ?thesis using assms(3) t by (simp add: cached_findPage_def)
qed

definition two_columns :: "column_family list" where
  "two_columns = [\<lparr>vlen = 4, page_size = 2, column_num = 1\<rparr>, \<lparr>vlen = 4, page_size = 2, column_num = 1\<rparr>]"

definition two_column_writes :: "row_write list" where
  "two_column_writes = [(0, 0, 1, [1, 2, 3, 4], [False]), (1, 0, 1, [5, 6, 7, 8], [False]), (0, 0, 3, [9, 9, 9, 9], [False])]"

definition empty_cache :: page_cache where
  "empty_cache = \<lparr>cached_ver = 0, cached_page_num = (\<lambda>i. 0), cached_page = (\<lambda>i. 0)\<rparr>"

lemma two_columns_run:
  "\<exists>st. (case new_paged two_columns 2 (init_capacity 1000 (\<lambda>a. 0)) of None \<Rightarrow> None | Some st0 \<Rightarrow> run_writes two_column_writes st0) = Some st \<and>
    (\<exists>p ca1 q ca2. cached_findPage 0 0 0 1 st empty_cache = Some (p, ca1) \<and> p \<noteq> 0 \<and>
       cached_findPage 0 1 0 3 st ca1 = Some (q, ca2) \<and> findPage 0 0 3 st \<noteq> Some p)"
  by (simp add: two_columns_def two_column_writes_def paged_eval cached_findPage_def empty_cache_def
      MAX_CACHED_TABLES_def MAX_CACHED_COLS_def findPage_def walk_prev.simps cong: if_cong)

lemma cache_serves_old_version_witness:
  "\<exists>st p ca2. cached_findPage 0 0 0 3 st ca2 = Some (p, ca2) \<and> findPage 0 0 3 st \<noteq> Some p"
proof -
  obtain st p ca1 q ca2 where r: "cached_findPage 0 0 0 1 st empty_cache = Some (p, ca1)" "p \<noteq> 0"
    "cached_findPage 0 1 0 3 st ca1 = Some (q, ca2)" "findPage 0 0 3 st \<noteq> Some p"
    using two_columns_run by blast
  have "cached_findPage 0 0 0 3 st ca2 = Some (p, ca2)"
    by (rule cache_serves_old_version [OF _ r(1,2,3)]) (simp_all add: MAX_CACHED_TABLES_def)
  then show ?thesis using r(4) by blast
qed

end
