(* ===== verification/Graph_Store.thy ===== *)
theory Graph_Store
  imports Edge_Store Vertex_Table Prop_Paged
begin

text \<open>
  \<^verbatim>\<open>GraphStore\<close> (\<^verbatim>\<open>vegito/src/graph/graph_store.h\<close>,
  \<^verbatim>\<open>graph_store.cc\<close>): the store of one partition. It keeps, per vertex label, the edge
  stores of the inner and of the outer vertices, the vertex table, the property store and the maps
  between identifiers, and it shares one string buffer. This theory has its state, the helpers the
  operations of \<^verbatim>\<open>graph_ops\<close> use, the insertion and update of vertices and the
  publication of an epoch, as the build without \<^verbatim>\<open>USE_MULTI_THREADS\<close> and
  \<^verbatim>\<open>USE_GLOBAL_VERTEX_MAP\<close> (the default) has them.

  The hash maps are vineyard's: their states \<open>'m\<close> and their \<open>emplace\<close> are parameters. The numbers
  \<^verbatim>\<open>rand()\<close> returns are part of the state, as the stream of those still to come.
\<close>

section \<open>State\<close>

datatype op_error = Edge_Error seg_error | Bad_Number conv_error | Assert_Failed | Out_Of_Range

record 'm graph_store =
  local_pid :: u64
  parser :: id_parser
  edge_relation_size :: nat
  seg_graphs :: "nat \<Rightarrow> seg_graph option"
  ov_seg_graphs :: "nat \<Rightarrow> seg_graph option"
  vertex_tables :: "nat \<Rightarrow> vtable option"
  property_stores :: "nat \<Rightarrow> paged option"
  vprop_schemas :: "nat \<Rightarrow> vprop_schema"
  vprop_buffer :: buffer
  string_buffer :: buffer
  edge_schemas :: "nat \<Rightarrow> eprop_schema"
  ovl2gs :: "nat \<Rightarrow> u64 list option"
  ovg2ls :: "nat \<Rightarrow> 'm"
  vertex_maps :: "nat \<Rightarrow> 'm"
  key_lid_map :: "nat \<Rightarrow> u64 \<Rightarrow> u64 option"
  external_id_dtype :: "nat \<Rightarrow> prop_type"
  external_id_stores :: "nat \<Rightarrow> u64 list option"
  outer_external_id_stores :: "nat \<Rightarrow> u64 list option"
  rands :: "nat \<Rightarrow> nat"

text \<open>The two edge stores of a label.\<close>

datatype side = Inner | Outer

definition get_graph :: "side \<Rightarrow> nat \<Rightarrow> 'm graph_store \<Rightarrow> op_error + seg_graph" where
  "get_graph s label gs =
     demand Out_Of_Range (case s of Inner \<Rightarrow> seg_graphs gs label | Outer \<Rightarrow> ov_seg_graphs gs label)"

definition set_graph :: "side \<Rightarrow> nat \<Rightarrow> seg_graph \<Rightarrow> 'm graph_store \<Rightarrow> 'm graph_store" where
  "set_graph s label g gs =
     (case s of Inner \<Rightarrow> gs\<lparr>seg_graphs := (seg_graphs gs)(label \<mapsto> g)\<rparr>
      | Outer \<Rightarrow> gs\<lparr>ov_seg_graphs := (ov_seg_graphs gs)(label \<mapsto> g)\<rparr>)"

text \<open>The parts of an identifier; the masks keep them non-negative.\<close>

definition label_of :: "'m graph_store \<Rightarrow> u64 \<Rightarrow> nat" where
  "label_of gs v = nat (GetLabelId (parser gs) v)"

definition offset_of :: "'m graph_store \<Rightarrow> u64 \<Rightarrow> u64" where
  "offset_of gs v = word_of_int (GetOffset (parser gs) v)"

definition is_local :: "'m graph_store \<Rightarrow> u64 \<Rightarrow> bool" where
  "is_local gs v \<longleftrightarrow> GetFid (parser gs) v = local_pid gs"

definition max_outer_id_offset :: "'m graph_store \<Rightarrow> u64" where
  "max_outer_id_offset gs = push_bit (GetOffsetWidth (parser gs)) 1 - 1"

text \<open>The local identifier of a label and an offset.\<close>

definition local_id :: "'m graph_store \<Rightarrow> nat \<Rightarrow> u64 \<Rightarrow> u64" where
  "local_id gs label off = GenerateId (parser gs) 0 (int label) (sint off)"

section \<open>Writers\<close>

definition RECYCLE_FREQ :: nat where
  "RECYCLE_FREQ = 2 ^ 16"

text \<open>\<^verbatim>\<open>create_graph_writer\<close>: every now and then it recycles the replaced segments first.\<close>

definition create_graph_writer :: "side \<Rightarrow> nat \<Rightarrow> int \<Rightarrow> 'm graph_store \<Rightarrow> op_error + 'm graph_store" where
  "create_graph_writer s label epoch gs =
     and_then (get_graph s label gs) (\<lambda>g.
       let gs1 = gs\<lparr>rands := (\<lambda>i. rands gs (Suc i))\<rparr> in
       Inr (if rands gs 0 mod RECYCLE_FREQ = 0 then set_graph s label (recycle_segments epoch g) gs1 else gs1))"

definition writer_put_edge ::
  "side \<Rightarrow> nat \<Rightarrow> int \<Rightarrow> nat \<Rightarrow> nat \<Rightarrow> dir_t \<Rightarrow> u64 \<Rightarrow> bytes \<Rightarrow> 'm graph_store \<Rightarrow> op_error + 'm graph_store" where
  "writer_put_edge s label epoch v elabel dir dst data gs =
     and_then (get_graph s label gs) (\<lambda>g.
       and_then (lift_error Edge_Error (put_edge epoch v elabel dir dst data g)) (\<lambda>g'.
         Inr (set_graph s label g' gs)))"

definition writer_new_vertex :: "side \<Rightarrow> nat \<Rightarrow> 'm graph_store \<Rightarrow> op_error + nat \<times> 'm graph_store" where
  "writer_new_vertex s label gs =
     and_then (get_graph s label gs) (\<lambda>g.
       and_then (lift_error Edge_Error (new_vertex g)) (\<lambda>(v, g').
         Inr (v, set_graph s label g' gs)))"

section \<open>Identifier maps\<close>

definition set_lid :: "nat \<Rightarrow> u64 \<Rightarrow> u64 \<Rightarrow> 'm graph_store \<Rightarrow> 'm graph_store" where
  "set_lid label key off gs =
     gs\<lparr>key_lid_map := (key_lid_map gs)(label := (key_lid_map gs label)(key \<mapsto> off))\<rparr>"

definition get_lid :: "'m graph_store \<Rightarrow> nat \<Rightarrow> u64 \<Rightarrow> u64" where
  "get_lid gs label key = (case key_lid_map gs label key of None \<Rightarrow> - 1 | Some off \<Rightarrow> off)"

definition set_ovl2g :: "nat \<Rightarrow> nat \<Rightarrow> u64 \<Rightarrow> 'm graph_store \<Rightarrow> op_error + 'm graph_store" where
  "set_ovl2g label offset gid gs =
     and_then (demand Out_Of_Range (Option.bind (ovl2gs gs label) (\<lambda>xs. store_at xs offset gid)))
       (\<lambda>xs. Inr (gs\<lparr>ovl2gs := (ovl2gs gs)(label \<mapsto> xs)\<rparr>))"

definition set_ovg2l ::
  "(int \<Rightarrow> int \<Rightarrow> 'm \<Rightarrow> 'm) \<Rightarrow> nat \<Rightarrow> u64 \<Rightarrow> u64 \<Rightarrow> 'm graph_store \<Rightarrow> 'm graph_store" where
  "set_ovg2l emplace label gid lid gs =
     gs\<lparr>ovg2ls := (ovg2ls gs)(label := emplace (sint gid) (sint lid) (ovg2ls gs label))\<rparr>"

definition set_vertex_map ::
  "(int \<Rightarrow> int \<Rightarrow> 'm \<Rightarrow> 'm) \<Rightarrow> nat \<Rightarrow> int \<Rightarrow> u64 \<Rightarrow> 'm graph_store \<Rightarrow> 'm graph_store" where
  "set_vertex_map emplace label oid gid gs =
     gs\<lparr>vertex_maps := (vertex_maps gs)(label := emplace oid (sint gid) (vertex_maps gs label))\<rparr>"

section \<open>Vertex tables of the store\<close>

definition on_vtable ::
  "(vtable \<Rightarrow> vtable option) \<Rightarrow> nat \<Rightarrow> 'm graph_store \<Rightarrow> op_error + 'm graph_store" where
  "on_vtable f label gs =
     and_then (demand Out_Of_Range (vertex_tables gs label)) (\<lambda>vt.
       and_then (demand Assert_Failed (f vt)) (\<lambda>vt'.
         Inr (gs\<lparr>vertex_tables := (vertex_tables gs)(label \<mapsto> vt')\<rparr>)))"

definition get_vtable_max_inner :: "'m graph_store \<Rightarrow> nat \<Rightarrow> nat" where
  "get_vtable_max_inner gs label = (case vertex_tables gs label of None \<Rightarrow> 0 | Some vt \<Rightarrow> max_inner vt)"

section \<open>Inserting and updating vertices\<close>

definition set_external_id :: "nat \<Rightarrow> nat \<Rightarrow> u64 \<Rightarrow> 'm graph_store \<Rightarrow> op_error + 'm graph_store" where
  "set_external_id label v value gs =
     and_then (demand Out_Of_Range (Option.bind (external_id_stores gs label) (\<lambda>xs. store_at xs v value)))
       (\<lambda>xs. Inr (gs\<lparr>external_id_stores := (external_id_stores gs)(label \<mapsto> xs)\<rparr>))"

text \<open>A string property is put into the buffer and its key takes the place of the string.\<close>

primrec intern_strings :: "(nat \<Rightarrow> prop_type) \<Rightarrow> nat \<Rightarrow> string list \<Rightarrow> buffer \<Rightarrow> string list \<times> buffer" where
  "intern_strings dtype idx [] b = ([], b)"
| "intern_strings dtype idx (v # vs) b =
     (if dtype idx = STRING then
        (let (key, b1) = put_cstring v b; (ws, b2) = intern_strings dtype (Suc idx) vs b1
         in (to_string (unat key) # ws, b2))
      else (let (ws, b2) = intern_strings dtype (Suc idx) vs b in (v # ws, b2)))"

text \<open>The property store of a label works on the shared buffer.\<close>

definition with_property ::
  "(paged \<Rightarrow> (paged \<times> buffer) option) \<Rightarrow> nat \<Rightarrow> 'm graph_store \<Rightarrow> op_error + 'm graph_store" where
  "with_property f label gs =
     and_then (demand Out_Of_Range (property_stores gs label)) (\<lambda>st.
       and_then (demand Assert_Failed (f (st\<lparr>pc_buf := vprop_buffer gs\<rparr>))) (\<lambda>(st', sb).
         Inr (gs\<lparr>property_stores := (property_stores gs)(label \<mapsto> st'), vprop_buffer := pc_buf st',
              string_buffer := sb\<rparr>)))"

text \<open>
  \<open>insert_inner_vertex\<close>: false for a vertex of another partition. \<open>fresh\<close> is the memory of the
  temporary rows, \<open>real_bytes\<close> the conversion of floating-point values.
\<close>

definition insert_inner_vertex ::
  "(int \<Rightarrow> int \<Rightarrow> 'm \<Rightarrow> 'm) \<Rightarrow> (prop_type \<Rightarrow> string \<Rightarrow> bytes option) \<Rightarrow> (nat \<Rightarrow> u8) \<Rightarrow>
   int \<Rightarrow> u64 \<Rightarrow> string \<Rightarrow> string list \<Rightarrow> 'm graph_store \<Rightarrow> op_error + bool \<times> 'm graph_store" where
  "insert_inner_vertex emplace real_bytes fresh epoch gid external_id vprop gs =
     (let vlabel = label_of gs gid in
      if \<not> is_local gs gid then Inr (False, gs)
      else
        and_then (if external_id_dtype gs vlabel = LONG
            then (case stoll external_id of Inl e \<Rightarrow> Inl (Bad_Number e)
              | Inr oid \<Rightarrow> Inr (set_vertex_map emplace vlabel oid gid gs))
            else Inr gs) (\<lambda>gs1.
        and_then (create_graph_writer Inner vlabel epoch gs1) (\<lambda>gs2.
        and_then (writer_new_vertex Inner vlabel gs2) (\<lambda>(v, gs3).
        and_then (demand Out_Of_Range (property_stores gs3 vlabel)) (\<lambda>st.
        and_then (demand Assert_Failed (getNewOffset st)) (\<lambda>(off, st').
        if v \<noteq> off then Inl Assert_Failed
        else
          let gs4 = gs3\<lparr>property_stores := (property_stores gs3)(vlabel \<mapsto> st')\<rparr>;
              lid = local_id gs vlabel (offset_of gs gid)
          in
        and_then (on_vtable (add_inner lid) vlabel gs4) (\<lambda>gs5.
        and_then (if external_id_dtype gs vlabel = STRING
            then (let (key, b) = put_cstring external_id (string_buffer gs5)
              in set_external_id vlabel v key (gs5\<lparr>string_buffer := b\<rparr>))
            else (case stoll external_id of Inl e \<Rightarrow> Inl (Bad_Number e)
              | Inr n \<Rightarrow> set_external_id vlabel v (word_of_int n) gs5)) (\<lambda>gs6.
        let sch = vprop_schemas gs vlabel;
            (vs, b) = intern_strings (vprop_dtype sch) 0 vprop (string_buffer gs6)
        in and_then (with_property (\<lambda>st. map_option (\<lambda>st'. (st', b))
               (paged_insert real_bytes fresh sch v vs (nat epoch) st)) vlabel gs6) (\<lambda>gs7.
             Inr (True, gs7))))))))))"

definition update_inner_vertex ::
  "(prop_type \<Rightarrow> string \<Rightarrow> bytes option) \<Rightarrow> (bytes \<Rightarrow> bytes \<Rightarrow> bool) \<Rightarrow> (nat \<Rightarrow> u8) \<Rightarrow>
   int \<Rightarrow> u64 \<Rightarrow> string list \<Rightarrow> 'm graph_store \<Rightarrow> op_error + bool \<times> 'm graph_store" where
  "update_inner_vertex real_bytes real_ne fresh epoch gid vprop gs =
     (if \<not> is_local gs gid then Inr (False, gs)
      else
        let vlabel = label_of gs gid in
        and_then (with_property (\<lambda>st. paged_update real_bytes real_ne fresh (vprop_schemas gs vlabel)
            (unat (offset_of gs gid)) vprop (nat epoch) st (string_buffer gs)) vlabel gs) (\<lambda>gs'.
          Inr (True, gs')))"

section \<open>Publishing an epoch\<close>

text \<open>
  \<open>update_blob\<close>: what the analytics processes learn of the vertex table of a label is computed from
  the counters of the two edge stores.
\<close>

definition update_blob :: "'m graph_store \<Rightarrow> nat \<Rightarrow> vtable_meta \<Rightarrow> vtable_meta option" where
  "update_blob gs label m =
     (case (seg_graphs gs label, ov_seg_graphs gs label) of
        (Some g, Some og) \<Rightarrow>
          Some (set_loc (vertex_count g + deleted_inner g) (vertex_count og + deleted_outer og)
            (set_boundary (vertex_count g) (vertex_count og) m))
      | _ \<Rightarrow> None)"

section \<open>Global offsets\<close>

text \<open>The maps from keys to partitions and to the offsets in them; offsets are given out in order.\<close>

record offset_maps =
  key_pid_map :: "nat \<Rightarrow> u64 \<Rightarrow> int option"
  key_off_map :: "nat \<Rightarrow> u64 \<Rightarrow> int option"
  pid_off_map :: "nat \<Rightarrow> int \<Rightarrow> int option"

definition add_global_off :: "nat \<Rightarrow> u64 \<Rightarrow> int \<Rightarrow> offset_maps \<Rightarrow> offset_maps" where
  "add_global_off vlabel key pid m =
     (let off = (case pid_off_map m vlabel pid of None \<Rightarrow> 0 | Some n \<Rightarrow> n)
      in m\<lparr>key_pid_map := (key_pid_map m)(vlabel := (key_pid_map m vlabel)(key \<mapsto> pid)),
           pid_off_map := (pid_off_map m)(vlabel := (pid_off_map m vlabel)(pid \<mapsto> off + 1)),
           key_off_map := (key_off_map m)(vlabel := (key_off_map m vlabel)(key \<mapsto> off))\<rparr>)"

definition get_pid_off :: "offset_maps \<Rightarrow> nat \<Rightarrow> u64 \<Rightarrow> int \<times> int" where
  "get_pid_off m vlabel key =
     (case (key_pid_map m vlabel key, key_off_map m vlabel key) of
        (Some pid, Some off) \<Rightarrow> (pid, off)
      | _ \<Rightarrow> (- 1, - 1))"

text \<open>\<open>update_property_bytes\<close> for one label: where each column family of a row starts, and the row's size.\<close>

primrec prefix_bytes :: "nat \<Rightarrow> column_family list \<Rightarrow> nat list \<times> nat" where
  "prefix_bytes prefix_sum [] = ([], prefix_sum)"
| "prefix_bytes prefix_sum (c # cs) =
     (let (ps, total) = prefix_bytes (prefix_sum + vlen c) cs in (prefix_sum # ps, total))"

end
