(* ===== verification/Graph_Ops.thy ===== *)
theory Graph_Ops
  imports Graph_Store
begin

text \<open>
  The operations of \<^verbatim>\<open>vegito/src/graph/graph_ops\<close>, one per kind of log line:
  \<^verbatim>\<open>process_add_vertex\<close>, \<^verbatim>\<open>process_update_vertex\<close>,
  \<^verbatim>\<open>process_add_edge\<close>, \<^verbatim>\<open>process_del_edge\<close> and
  \<^verbatim>\<open>process_del_vertex\<close>. Each takes the fields of the line and the store. The deletions
  contain the same search loops once per direction and side; the loops are stated once here and the
  branches use them.
\<close>

section \<open>Fields of a log line\<close>

definition field_at :: "string list \<Rightarrow> nat \<Rightarrow> op_error + string" where
  "field_at cmd i = (if i < length cmd then Inr (cmd ! i) else Inl Out_Of_Range)"

definition int_field :: "string list \<Rightarrow> nat \<Rightarrow> op_error + int" where
  "int_field cmd i = and_then (field_at cmd i) (\<lambda>s. lift_error Bad_Number (stoi s))"

definition vid_field :: "string list \<Rightarrow> nat \<Rightarrow> op_error + u64" where
  "vid_field cmd i =
     and_then (field_at cmd i) (\<lambda>s. and_then (lift_error Bad_Number (stoll s)) (\<lambda>n. Inr (word_of_int n)))"

text \<open>An edge label indexes vectors; a negative one is out of range.\<close>

definition label_field :: "string list \<Rightarrow> nat \<Rightarrow> op_error + nat" where
  "label_field cmd i = and_then (int_field cmd i) (\<lambda>n. if n < 0 then Inl Out_Of_Range else Inr (nat n))"

section \<open>Vertices\<close>

definition process_add_vertex ::
  "(int \<Rightarrow> int \<Rightarrow> 'm \<Rightarrow> 'm) \<Rightarrow> (prop_type \<Rightarrow> string \<Rightarrow> bytes option) \<Rightarrow> (nat \<Rightarrow> u8) \<Rightarrow>
   string list \<Rightarrow> 'm graph_store \<Rightarrow> op_error + 'm graph_store" where
  "process_add_vertex emplace real_bytes fresh cmd gs =
     and_then (int_field cmd 0) (\<lambda>write_epoch.
     and_then (vid_field cmd 1) (\<lambda>vid.
     and_then (field_at cmd 2) (\<lambda>external_id.
     if external_id = [] then Inl Assert_Failed
     else and_then (insert_inner_vertex emplace real_bytes fresh write_epoch vid external_id (drop 3 cmd) gs)
       (\<lambda>(ok, gs'). Inr gs'))))"

definition process_update_vertex ::
  "(prop_type \<Rightarrow> string \<Rightarrow> bytes option) \<Rightarrow> (bytes \<Rightarrow> bytes \<Rightarrow> bool) \<Rightarrow> (nat \<Rightarrow> u8) \<Rightarrow>
   string list \<Rightarrow> 'm graph_store \<Rightarrow> op_error + 'm graph_store" where
  "process_update_vertex real_bytes real_ne fresh cmd gs =
     and_then (int_field cmd 0) (\<lambda>write_epoch.
     and_then (vid_field cmd 1) (\<lambda>vid.
     if length cmd < 3 then Inl Out_Of_Range
     else and_then (update_inner_vertex real_bytes real_ne fresh write_epoch vid (drop 3 cmd) gs)
       (\<lambda>(ok, gs'). Inr gs')))"

section \<open>Adding an edge\<close>

definition set_outer_external_id :: "nat \<Rightarrow> nat \<Rightarrow> u64 \<Rightarrow> 'm graph_store \<Rightarrow> op_error + 'm graph_store" where
  "set_outer_external_id label v value gs =
     and_then (demand Out_Of_Range (Option.bind (outer_external_id_stores gs label) (\<lambda>xs. store_at xs v value)))
       (\<lambda>xs. Inr (gs\<lparr>outer_external_id_stores := (outer_external_id_stores gs)(label \<mapsto> xs)\<rparr>))"

text \<open>
  The outer vertex of a vertex of another partition: created, numbered from the top of the offsets
  and entered into all maps when it is seen for the first time.
\<close>

definition outer_vertex ::
  "(int \<Rightarrow> int \<Rightarrow> 'm \<Rightarrow> 'm) \<Rightarrow> nat \<Rightarrow> u64 \<Rightarrow> string \<Rightarrow> 'm graph_store \<Rightarrow> op_error + u64 \<times> 'm graph_store" where
  "outer_vertex emplace label vid external_id gs =
     (let ov = get_lid gs label vid in
      if ov \<noteq> - 1 then Inr (ov, gs)
      else
        and_then (writer_new_vertex Outer label gs) (\<lambda>(v, gs1).
        let ov = of_nat v;
            lid = local_id gs label (max_outer_id_offset gs - ov);
            gs2 = set_ovg2l emplace label vid lid (set_lid label vid ov gs1)
        in
        and_then (on_vtable (add_outer lid) label gs2) (\<lambda>gs3.
        and_then (set_ovl2g label v vid gs3) (\<lambda>gs4.
        and_then (if external_id_dtype gs label = STRING
            then (let (key, b) = put_cstring external_id (string_buffer gs4)
              in set_outer_external_id label v key (gs4\<lparr>string_buffer := b\<rparr>))
            else (case stoll external_id of Inl e \<Rightarrow> Inl (Bad_Number e)
              | Inr oid \<Rightarrow> and_then (set_outer_external_id label v (word_of_int oid) gs4) (\<lambda>gs5.
                  Inr (set_vertex_map emplace label oid vid gs5)))) (\<lambda>gs6.
          Inr (ov, gs6))))))"

definition process_add_edge ::
  "(int \<Rightarrow> int \<Rightarrow> 'm \<Rightarrow> 'm) \<Rightarrow> (prop_type \<Rightarrow> string \<Rightarrow> bytes option) \<Rightarrow>
   string list \<Rightarrow> 'm graph_store \<Rightarrow> op_error + 'm graph_store" where
  "process_add_edge emplace real_bytes cmd gs =
     and_then (int_field cmd 0) (\<lambda>write_epoch.
     and_then (label_field cmd 1) (\<lambda>elabel.
     and_then (vid_field cmd 2) (\<lambda>src_vid.
     and_then (vid_field cmd 3) (\<lambda>dst_vid.
     if \<not> is_local gs src_vid \<and> \<not> is_local gs dst_vid then Inr gs
     else
       let src_label = label_of gs src_vid; dst_label = label_of gs dst_vid;
           src_offset = offset_of gs src_vid; dst_offset = offset_of gs dst_vid
       in
       and_then (create_graph_writer Inner src_label write_epoch gs) (\<lambda>gs1.
       and_then (create_graph_writer Inner dst_label write_epoch gs1) (\<lambda>gs2.
       if length cmd < 6 then Inl Out_Of_Range
       else
         and_then (demand Out_Of_Range (construct_eprop real_bytes (edge_schemas gs2 elabel) (drop 6 cmd)
             (string_buffer gs2))) (\<lambda>(edge_data, b).
         let gs3 = gs2\<lparr>string_buffer := b\<rparr> in
         if is_local gs src_vid \<and> \<not> is_local gs dst_vid then
           and_then (create_graph_writer Outer dst_label write_epoch gs3) (\<lambda>gs4.
           and_then (outer_vertex emplace dst_label dst_vid (cmd ! 5) gs4) (\<lambda>(ov, gs5).
           let src_lid = local_id gs src_label src_offset;
               dst_lid = local_id gs dst_label (max_outer_id_offset gs - ov)
           in
           and_then (writer_put_edge Inner src_label write_epoch (unat src_offset) elabel EOUT dst_lid edge_data gs5)
             (writer_put_edge Outer dst_label write_epoch (unat ov) elabel EIN src_lid edge_data)))
         else if \<not> is_local gs src_vid \<and> is_local gs dst_vid then
           and_then (create_graph_writer Outer src_label write_epoch gs3) (\<lambda>gs4.
           and_then (outer_vertex emplace src_label src_vid (cmd ! 4) gs4) (\<lambda>(ov, gs5).
           let src_lid = local_id gs src_label (max_outer_id_offset gs - ov);
               dst_lid = local_id gs dst_label dst_offset
           in
           and_then (writer_put_edge Outer src_label write_epoch (unat ov) elabel EOUT dst_lid edge_data gs5)
             (writer_put_edge Inner dst_label write_epoch (unat dst_offset) elabel EIN src_lid edge_data)))
         else
           let src_lid = local_id gs src_label src_offset;
               dst_lid = local_id gs dst_label dst_offset
           in
           and_then (writer_put_edge Inner src_label write_epoch (unat src_offset) elabel EOUT dst_lid edge_data gs3)
             (writer_put_edge Inner dst_label write_epoch (unat dst_offset) elabel EIN src_lid edge_data))))))))"

section \<open>Searching the edges of a vertex\<close>

text \<open>The edge blocks of a vertex, newest first. A missing segment or block is dereferenced.\<close>

definition edge_chain :: "nat \<Rightarrow> nat \<Rightarrow> dir_t \<Rightarrow> seg_graph \<Rightarrow> op_error + edge_block list" where
  "edge_chain v elabel dir g =
     and_then (lift_error Edge_Error (locate_segment g (get_vertex_seg_id v) elabel dir)) (\<lambda>p.
     if p = NULLPOINTER then Inl Assert_Failed
     else
       and_then (demand (Edge_Error Fault) (segments g p)) (\<lambda>sg.
       and_then (demand (Edge_Error Fault) (collect_blocks sg (region_ptrs sg (get_vertex_seg_idx v)))) (\<lambda>bs.
       if bs = [] then Inl Assert_Failed else Inr (map snd bs))))"

text \<open>
  \<open>prefix_sum\<close>: first the sizes of the blocks, newest first; then, in place, how many entries lie in
  the older blocks.
\<close>

definition prefix_sums :: "nat list \<Rightarrow> nat list" where
  "prefix_sums sizes =
     (let ps0 = sizes[0 := 0];
          ps1 = fold (\<lambda>i ps. ps[i := sum_list (drop (i + 1) ps)]) [0..<length ps0 - 1] ps0
      in ps1[length ps1 - 1 := 0])"

text \<open>
  The search of the newest entry: the words of a block newest first, the result an index in the block;
  then block by block, the result an index in the whole list of edges.
\<close>

primrec newest_in :: "(u64 \<Rightarrow> bool) \<Rightarrow> u64 list \<Rightarrow> nat option" where
  "newest_in P [] = None"
| "newest_in P (w # ws) = (if P w then Some (length ws) else newest_in P ws)"

fun find_newest :: "(u64 \<Rightarrow> bool) \<Rightarrow> edge_block list \<Rightarrow> nat list \<Rightarrow> nat option" where
  "find_newest P (b # bs) (k # ks) =
     (case newest_in P (rev (eb_entries b)) of
        Some i \<Rightarrow> Some (i + k)
      | None \<Rightarrow> find_newest P bs ks)"
| "find_newest P bs ks = None"

text \<open>Marks the newest entry that satisfies \<open>P\<close> as deleted; tells whether there was one.\<close>

definition mark_newest ::
  "(u64 \<Rightarrow> bool) \<Rightarrow> side \<Rightarrow> nat \<Rightarrow> int \<Rightarrow> nat \<Rightarrow> nat \<Rightarrow> dir_t \<Rightarrow> bytes \<Rightarrow> 'm graph_store \<Rightarrow>
   op_error + bool \<times> 'm graph_store" where
  "mark_newest P s label epoch v elabel dir data gs =
     and_then (get_graph s label gs) (\<lambda>g.
     and_then (edge_chain v elabel dir g) (\<lambda>bs.
     case find_newest P bs (prefix_sums (map get_num_entries bs)) of
       None \<Rightarrow> Inr (False, gs)
     | Some del_loc \<Rightarrow>
         and_then (writer_put_edge s label epoch v elabel dir (mark del_loc) data gs) (\<lambda>gs'. Inr (True, gs'))))"

text \<open>An entry for the vertex with a given offset; the label of the entry is not compared.\<close>

definition entry_for :: "'m graph_store \<Rightarrow> u64 \<Rightarrow> u64 \<Rightarrow> bool" where
  "entry_for gs off w \<longleftrightarrow> offset_of gs w = off \<and> delete_flag w \<noteq> 1"

section \<open>Deleting an edge\<close>

text \<open>
  The property record of the two markers is zeroed, of the size of the properties plus the size of a
  \<^verbatim>\<open>size_t\<close>.
\<close>

definition process_del_edge :: "string list \<Rightarrow> 'm graph_store \<Rightarrow> op_error + 'm graph_store" where
  "process_del_edge cmd gs =
     and_then (int_field cmd 0) (\<lambda>write_epoch.
     and_then (label_field cmd 1) (\<lambda>elabel.
     and_then (vid_field cmd 2) (\<lambda>src_vid.
     and_then (vid_field cmd 3) (\<lambda>dst_vid.
     let edge_data = replicate (prop_total_bytes (edge_schemas gs elabel) + 8) 0 in
     if \<not> is_local gs src_vid \<and> \<not> is_local gs dst_vid then Inr gs
     else
       let src_label = label_of gs src_vid; dst_label = label_of gs dst_vid;
           src_side = (if is_local gs src_vid then Inner else Outer);
           dst_side = (if is_local gs dst_vid then Inner else Outer);
           src_offset_reverse = (if src_side = Inner then offset_of gs src_vid else get_lid gs src_label src_vid);
           dst_offset_reverse = (if dst_side = Inner then offset_of gs dst_vid else get_lid gs dst_label dst_vid);
           src_offset = (if src_side = Inner then src_offset_reverse else max_outer_id_offset gs - src_offset_reverse);
           dst_offset = (if dst_side = Inner then dst_offset_reverse else max_outer_id_offset gs - dst_offset_reverse)
       in if src_side = Outer \<and> src_offset_reverse = - 1 \<or> dst_side = Outer \<and> dst_offset_reverse = - 1
       then Inl Assert_Failed
       else
         and_then (create_graph_writer src_side src_label write_epoch gs) (\<lambda>gs1.
         and_then (create_graph_writer dst_side dst_label write_epoch gs1) (\<lambda>gs2.
         and_then (mark_newest (entry_for gs dst_offset) src_side src_label write_epoch (unat src_offset_reverse)
             elabel EOUT edge_data gs2) (\<lambda>(found, gs3).
         and_then (mark_newest (entry_for gs src_offset) dst_side dst_label write_epoch (unat dst_offset_reverse)
             elabel EIN edge_data gs3) (\<lambda>(found, gs4).
           Inr gs4))))))))"

section \<open>Deleting a vertex\<close>

text \<open>The edges of a vertex with their indices, newest first, and those of them still alive.\<close>

fun numbered :: "edge_block list \<Rightarrow> nat list \<Rightarrow> (nat \<times> u64) list" where
  "numbered (b # bs) (k # ks) =
     map (\<lambda>(i, w). (i + k, w)) (rev (enumerate 0 (eb_entries b))) @ numbered bs ks"
| "numbered bs ks = []"

definition alive_entries :: "edge_block list \<Rightarrow> (nat \<times> u64) list" where
  "alive_entries bs =
     scan max_push hd tl (\<lambda>q. q = []) [] (numbered bs (prefix_sums (map get_num_entries bs)))"

text \<open>
  The edges to delete for one label and direction: none without a segment, an edge block or an epoch
  table.
\<close>

definition edges_to_delete :: "nat \<Rightarrow> nat \<Rightarrow> dir_t \<Rightarrow> seg_graph \<Rightarrow> op_error + (nat \<times> u64) list" where
  "edges_to_delete v elabel dir g =
     and_then (lift_error Edge_Error (locate_segment g (get_vertex_seg_id v) elabel dir)) (\<lambda>p.
     if p = NULLPOINTER then Inr []
     else
       and_then (demand (Edge_Error Fault) (segments g p)) (\<lambda>sg.
       let i = get_vertex_seg_idx v in
       if region_ptrs sg i = NULLPOINTER \<or> epoch_tables sg i = NULLPOINTER then Inr []
       else and_then (demand (Edge_Error Fault) (collect_blocks sg (region_ptrs sg i))) (\<lambda>bs.
         Inr (alive_entries (map snd bs)))))"

text \<open>The loop over the edges to delete: \<open>step\<close> handles one entry, a pair of its index and its word.\<close>

primrec delete_each ::
  "(nat \<times> u64 \<Rightarrow> 'm graph_store \<Rightarrow> op_error + 'm graph_store) \<Rightarrow> (nat \<times> u64) list \<Rightarrow> 'm graph_store \<Rightarrow>
   op_error + 'm graph_store" where
  "delete_each step [] gs = Inr gs"
| "delete_each step (e # es) gs = and_then (step e gs) (delete_each step es)"

text \<open>The other end of an edge of a local vertex: an inner vertex if its offset is below their number.\<close>

definition unlink_other ::
  "dir_t \<Rightarrow> int \<Rightarrow> nat \<Rightarrow> u64 \<Rightarrow> bytes \<Rightarrow> u64 \<Rightarrow> 'm graph_store \<Rightarrow> op_error + 'm graph_store" where
  "unlink_other dir epoch elabel v_offset edge_data w gs =
     (let dst_offset = offset_of gs w; dst_label = label_of gs w in
      if unat dst_offset < get_vtable_max_inner gs dst_label then
        and_then (create_graph_writer Inner dst_label epoch gs) (\<lambda>gs1.
        and_then (mark_newest (entry_for gs v_offset) Inner dst_label epoch (unat dst_offset) elabel dir edge_data gs1)
          (\<lambda>(found, gs2). Inr gs2))
      else
        and_then (create_graph_writer Outer dst_label epoch gs) (\<lambda>gs1.
        and_then (mark_newest (entry_for gs v_offset) Outer dst_label epoch
            (unat (max_outer_id_offset gs - dst_offset)) elabel dir edge_data gs1)
          (\<lambda>(found, gs2). Inr gs2)))"

definition del_inner_out ::
  "int \<Rightarrow> nat \<Rightarrow> u64 \<Rightarrow> nat \<Rightarrow> 'm graph_store \<Rightarrow> op_error + 'm graph_store" where
  "del_inner_out epoch v_label v_offset elabel gs =
     and_then (get_graph Inner v_label gs) (\<lambda>g.
     and_then (edges_to_delete (unat v_offset) elabel EOUT g) (\<lambda>es.
     let edge_data = replicate (prop_total_bytes (edge_schemas gs elabel)) 0 in
     delete_each (\<lambda>(loc, w) gs.
       and_then (writer_put_edge Inner v_label epoch (unat v_offset) elabel EOUT (mark loc) edge_data gs)
         (unlink_other EIN epoch elabel v_offset edge_data w)) es gs))"

definition del_inner_in ::
  "int \<Rightarrow> nat \<Rightarrow> u64 \<Rightarrow> nat \<Rightarrow> 'm graph_store \<Rightarrow> op_error + 'm graph_store" where
  "del_inner_in epoch v_label v_offset elabel gs =
     and_then (get_graph Inner v_label gs) (\<lambda>g.
     and_then (edges_to_delete (unat v_offset) elabel EIN g) (\<lambda>es.
     let edge_data = replicate (prop_total_bytes (edge_schemas gs elabel)) 0 in
     delete_each (\<lambda>(loc, w) gs.
       and_then (writer_put_edge Inner v_label epoch (unat v_offset) elabel EIN (mark loc) edge_data gs)
         (unlink_other EOUT epoch elabel v_offset edge_data w)) es gs))"

text \<open>
  The other end of an edge of an outer vertex \<open>ov\<close>; it is an inner vertex, except that outgoing edges
  to other vertices are passed over while incoming ones fail an assertion.
\<close>

definition outer_entry_for :: "'m graph_store \<Rightarrow> u64 \<Rightarrow> u64 \<Rightarrow> bool" where
  "outer_entry_for gs ov w \<longleftrightarrow> max_outer_id_offset gs - offset_of gs w = ov \<and> delete_flag w \<noteq> 1"

definition unlink_inner ::
  "dir_t \<Rightarrow> int \<Rightarrow> nat \<Rightarrow> u64 \<Rightarrow> bytes \<Rightarrow> u64 \<Rightarrow> 'm graph_store \<Rightarrow> op_error + 'm graph_store" where
  "unlink_inner dir epoch elabel ov edge_data w gs =
     (let dst_offset = offset_of gs w; dst_label = label_of gs w in
      and_then (create_graph_writer Inner dst_label epoch gs) (\<lambda>gs1.
      and_then (mark_newest (outer_entry_for gs ov) Inner dst_label epoch (unat dst_offset) elabel dir edge_data gs1)
        (\<lambda>(found, gs2). Inr gs2)))"

definition del_outer_out ::
  "int \<Rightarrow> nat \<Rightarrow> u64 \<Rightarrow> nat \<Rightarrow> 'm graph_store \<Rightarrow> op_error + 'm graph_store" where
  "del_outer_out epoch v_label ov elabel gs =
     and_then (get_graph Outer v_label gs) (\<lambda>g.
     and_then (edges_to_delete (unat ov) elabel EOUT g) (\<lambda>es.
     let edge_data = replicate (prop_total_bytes (edge_schemas gs elabel)) 0 in
     delete_each (\<lambda>(loc, w) gs.
       and_then (writer_put_edge Outer v_label epoch (unat ov) elabel EOUT (mark loc) edge_data gs) (\<lambda>gs1.
         if unat (offset_of gs1 w) < get_vtable_max_inner gs1 (label_of gs1 w)
         then unlink_inner EIN epoch elabel ov edge_data w gs1
         else Inr gs1)) es gs))"

definition del_outer_in ::
  "int \<Rightarrow> nat \<Rightarrow> u64 \<Rightarrow> nat \<Rightarrow> 'm graph_store \<Rightarrow> op_error + 'm graph_store" where
  "del_outer_in epoch v_label ov elabel gs =
     and_then (get_graph Outer v_label gs) (\<lambda>g.
     and_then (edges_to_delete (unat ov) elabel EIN g) (\<lambda>es.
     let edge_data = replicate (prop_total_bytes (edge_schemas gs elabel)) 0 in
     delete_each (\<lambda>(loc, w) gs.
       and_then (writer_put_edge Outer v_label epoch (unat ov) elabel EIN (mark loc) edge_data gs) (\<lambda>gs1.
         if unat (offset_of gs1 w) < get_vtable_max_inner gs1 (label_of gs1 w)
         then unlink_inner EOUT epoch elabel ov edge_data w gs1
         else Inl Assert_Failed)) es gs))"

primrec each_elabel ::
  "(nat \<Rightarrow> 'm graph_store \<Rightarrow> op_error + 'm graph_store) \<Rightarrow> nat list \<Rightarrow> 'm graph_store \<Rightarrow>
   op_error + 'm graph_store" where
  "each_elabel f [] gs = Inr gs"
| "each_elabel f (l # ls) gs = and_then (f l gs) (each_elabel f ls)"

definition count_deleted :: "(seg_graph \<Rightarrow> seg_graph) \<Rightarrow> side \<Rightarrow> nat \<Rightarrow> 'm graph_store \<Rightarrow> op_error + 'm graph_store" where
  "count_deleted f s label gs = and_then (get_graph s label gs) (\<lambda>g. Inr (set_graph s label (f g) gs))"

definition process_del_vertex :: "string list \<Rightarrow> 'm graph_store \<Rightarrow> op_error + 'm graph_store" where
  "process_del_vertex cmd gs =
     and_then (int_field cmd 0) (\<lambda>write_epoch.
     and_then (vid_field cmd 1) (\<lambda>vid.
     let v_label = label_of gs vid in
     if is_local gs vid then
       let v_offset = offset_of gs vid in
       and_then (on_vtable (delete_inner (parser gs) v_offset) v_label gs) (\<lambda>gs1.
       and_then (count_deleted (add_deleted_inner_num 1) Inner v_label gs1) (\<lambda>gs2.
       and_then (create_graph_writer Inner v_label write_epoch gs2) (\<lambda>gs3.
       and_then (each_elabel (del_inner_out write_epoch v_label v_offset) [0..<edge_relation_size gs] gs3) (\<lambda>gs4.
         each_elabel (del_inner_in write_epoch v_label v_offset) [0..<edge_relation_size gs] gs4))))
     else
       let ov = get_lid gs v_label vid in
       if ov = - 1 then Inr gs
       else
         and_then (on_vtable (delete_outer (local_id gs v_label (max_outer_id_offset gs - ov))) v_label gs) (\<lambda>gs1.
         and_then (count_deleted (add_deleted_outer_num 1) Outer v_label gs1) (\<lambda>gs2.
         and_then (create_graph_writer Outer v_label write_epoch gs2) (\<lambda>gs3.
         and_then (each_elabel (del_outer_out write_epoch v_label ov) [0..<edge_relation_size gs] gs3) (\<lambda>gs4.
           each_elabel (del_outer_in write_epoch v_label ov) [0..<edge_relation_size gs] gs4))))))"

end
