(* ===== verification/Graph_Links.thy ===== *)
theory Graph_Links
  imports Graph_Ops Seg_Snapshot
begin

text \<open>
  What the deletions of \<^verbatim>\<open>graph_ops\<close> do to the edge lists. The search loops find the
  newest matching entry of a vertex through all blocks of its region, the marker they append names it,
  and a reader then gets the edges without it. The lemmas lift the refinement of the edge store to the
  edge stores of all labels of a \<open>graph_store\<close>.
\<close>

section \<open>The search loops\<close>

lemma prefix_sums_eq: "prefix_sums sizes = map (\<lambda>i. sum_list (drop (Suc i) sizes)) [0..<length sizes]"
proof (cases "sizes = []")
  case True
  then show ?thesis by (simp add: prefix_sums_def)
next
  case ne: False
  let ?step = "\<lambda>i ps. ps[i := sum_list (drop (Suc i) ps)]"
  have inv: "length (fold ?step [0..<k] (sizes[0 := 0])) = length sizes \<and>
      (\<forall>j < k. fold ?step [0..<k] (sizes[0 := 0]) ! j = sum_list (drop (Suc j) sizes)) \<and>
      drop (Suc k) (fold ?step [0..<k] (sizes[0 := 0])) = drop (Suc k) sizes" if "k \<le> length sizes - 1" for k
    using that
  proof (induction k)
    case 0
    then show ?case by (cases sizes) simp_all
  next
    case (Suc k)
    let ?ps = "fold ?step [0..<k] (sizes[0 := 0])"
    have IH: "length ?ps = length sizes" "\<forall>j < k. ?ps ! j = sum_list (drop (Suc j) sizes)"
      "drop (Suc k) ?ps = drop (Suc k) sizes" using Suc by simp_all
    have step: "fold ?step [0..<Suc k] (sizes[0 := 0]) = ?ps[k := sum_list (drop (Suc k) sizes)]"
      unfolding upt_Suc_append [OF le0] fold_append o_apply fold.simps id_apply IH(3) ..
    have "drop (Suc (Suc k)) ?ps = drop (Suc (Suc k)) sizes" using IH(3) by (metis drop_drop plus_1_eq_Suc)
    then show ?case
      unfolding step using IH Suc.prems by (auto simp: nth_list_update less_Suc_eq)
  qed
  let ?n = "length sizes - 1"
  let ?ps = "fold ?step [0..<?n] (sizes[0 := 0])"
  have I: "length ?ps = length sizes" "\<forall>j < ?n. ?ps ! j = sum_list (drop (Suc j) sizes)" using inv [of ?n] by auto
  have "prefix_sums sizes = ?ps[?n := 0]" using I(1) by (simp add: prefix_sums_def Let_def)
  also have "\<dots> = map (\<lambda>i. sum_list (drop (Suc i) sizes)) [0..<length sizes]"
  proof (rule nth_equalityI)
    show "length (?ps[?n := 0]) = length (map (\<lambda>i. sum_list (drop (Suc i) sizes)) [0..<length sizes])"
      using I(1) by simp
    fix i
    assume "i < length (?ps[?n := 0])"
    then have i: "i < length sizes" using I(1) by simp
    then show "?ps[?n := 0] ! i = map (\<lambda>i. sum_list (drop (Suc i) sizes)) [0..<length sizes] ! i"
      using I ne by (cases "i = ?n") (auto simp: nth_list_update)
  qed
  finally show ?thesis .
qed

lemma prefix_sums_Cons: "prefix_sums (n # ns) = sum_list ns # prefix_sums ns"
proof -
  have "map (\<lambda>i. sum_list (drop (Suc i) (n # ns))) [0..<Suc (length ns)] =
      sum_list ns # map (\<lambda>i. sum_list (drop (Suc i) ns)) [0..<length ns]"
    by (simp only: upt_conv_Cons [OF zero_less_Suc] list.map map_Suc_upt [symmetric] map_map comp_def drop_Suc_Cons drop0)
  then show ?thesis by (simp add: prefix_sums_eq)
qed

lemma prefix_sums_Nil [simp]: "prefix_sums [] = []"
  by (simp add: prefix_sums_eq)

text \<open>The words of the blocks, oldest first.\<close>

definition block_words :: "edge_block list \<Rightarrow> u64 list" where
  "block_words bs = concat (map eb_entries (rev bs))"

lemma block_words_simps [simp]:
  "block_words [] = []" "block_words (b # bs) = block_words bs @ eb_entries b"
  by (simp_all add: block_words_def)

lemma length_block_words: "length (block_words bs) = sum_list (map get_num_entries bs)"
  by (induction bs) (simp_all add: get_num_entries_def)

text \<open>The newest position of a list with a property.\<close>

definition newest_pos :: "(u64 \<Rightarrow> bool) \<Rightarrow> u64 list \<Rightarrow> nat option" where
  "newest_pos P ws = newest_in P (rev ws)"

lemma newest_pos_Nil [simp]: "newest_pos P [] = None"
  by (simp add: newest_pos_def)

lemma newest_pos_snoc [simp]: "newest_pos P (ws @ [w]) = (if P w then Some (length ws) else newest_pos P ws)"
  by (simp add: newest_pos_def)

lemma newest_pos_append:
  "newest_pos P (xs @ ys) =
    (case newest_pos P ys of Some i \<Rightarrow> Some (i + length xs) | None \<Rightarrow> newest_pos P xs)"
  by (induction ys rule: rev_induct) (simp_all flip: append_assoc)

lemma find_newest_blocks:
  "find_newest P bs (prefix_sums (map get_num_entries bs)) = newest_pos P (block_words bs)"
proof (induction bs)
  case (Cons b bs)
  then show ?case
    by (simp add: prefix_sums_Cons newest_pos_append length_block_words flip: newest_pos_def split: option.splits)
qed simp

lemma newest_posE:
  assumes "newest_pos P ws = Some k"
  obtains as w bs where "ws = as @ w # bs" "length as = k" "P w" "\<forall>x \<in> set bs. \<not> P x"
  using assms
proof (induction ws arbitrary: thesis rule: rev_induct)
  case (snoc w ws)
  show ?case
  proof (cases "P w")
    case True
    then show ?thesis using snoc.prems(1) [of ws w "[]"] snoc.prems(2) by simp
  next
    case False
    then obtain as x bs where "ws = as @ x # bs" "length as = k" "P x" "\<forall>y \<in> set bs. \<not> P y"
      using snoc.IH snoc.prems(2) by auto
    then show ?thesis using snoc.prems(1) [of as x "bs @ [w]"] False by simp
  qed
qed simp

lemma newest_pos_None: "newest_pos P ws = None \<longleftrightarrow> (\<forall>w \<in> set ws. \<not> P w)"
  by (induction ws rule: rev_induct) auto

text \<open>The entries visited by the deletion of a vertex.\<close>

lemma newest_first_append:
  "newest_first (xs @ ys) = map (\<lambda>(i, w). (i + length xs, w)) (newest_first ys) @ newest_first xs"
proof -
  have "enumerate (length xs) ys = map (\<lambda>(i, w). (i + length xs, w)) (enumerate 0 ys)"
    by (rule nth_equalityI) (simp_all add: nth_enumerate_eq)
  then show ?thesis by (simp add: newest_first_def enumerate_append_eq rev_map)
qed

lemma numbered_blocks:
  "numbered bs (prefix_sums (map get_num_entries bs)) = newest_first (block_words bs)"
proof (induction bs)
  case (Cons b bs)
  then show ?case
    by (simp add: prefix_sums_Cons newest_first_append length_block_words flip: newest_first_def)
qed simp

lemma alive_entries_live: "wf_log (block_words bs) \<Longrightarrow> alive_entries bs = rev (live (block_words bs))"
  by (simp add: alive_entries_def numbered_blocks scan_newest_first)

section \<open>What a marker removes\<close>

text \<open>A list of edges, newest first, without its first edge with a property.\<close>

primrec without_newest :: "(u64 \<Rightarrow> bool) \<Rightarrow> edge list \<Rightarrow> edge list" where
  "without_newest P [] = []"
| "without_newest P (x # xs) = (if P (fst x) then xs else x # without_newest P xs)"

lemma without_newest_append:
  "(\<forall>x \<in> set xs. \<not> P (fst x)) \<Longrightarrow> without_newest P (xs @ ys) = xs @ without_newest P ys"
  by (induction xs) auto

text \<open>The newest entry with a property that no marker has: it is still alive, or there is none.\<close>

definition newest_alive :: "(u64 \<Rightarrow> bool) \<Rightarrow> u64 list \<Rightarrow> bool" where
  "newest_alive P ws \<longleftrightarrow> (\<forall>k. newest_pos P ws = Some k \<longrightarrow> k \<notin> set (dead ws))"

lemma live_edges_mark:
  assumes wf: "wf_log (map fst es)" and k: "newest_pos P (map fst es) = Some k" "k \<notin> set (dead (map fst es))"
    and P: "\<And>w. P w \<Longrightarrow> \<not> is_marker w" and small: "length es < 2 ^ 63"
  shows "wf_log (map fst (es @ [(mark k, data)])) \<and>
    rev (live_edges (es @ [(mark k, data)])) = without_newest P (rev (live_edges es))"
proof -
  let ?ws = "map fst es"
  obtain as w bs where ws: "?ws = as @ w # bs" and la: "length as = k" and Pw: "P w" and nP: "\<forall>x \<in> set bs. \<not> P x"
    by (rule newest_posE [OF k(1)])
  have kl: "k < length es"
  proof -
    have "length es = length as + Suc (length bs)" using arg_cong [OF ws, of length] by simp
    then show ?thesis using la by simp
  qed
  have wk: "?ws ! k = w" by (simp add: ws flip: la)
  have off: "delete_offset (mark k) = k" using kl small by (intro delete_offset_mark) simp
  have wf': "wf_log (?ws @ [mark k])"
    using wf kl P [OF Pw] k(2) off wk by (simp add: wf_log_snoc)
  let ?D = "set (dead ?ws)"
  have al: "alive ?D (k, w)" using P [OF Pw] k(2) by (simp add: alive_def)
  have en: "enumerate 0 ?ws = enumerate 0 as @ (k, w) # enumerate (Suc k) bs"
    by (simp add: ws enumerate_append_eq la)
  define A B where "A = filter (alive ?D) (enumerate 0 as)" and "B = filter (alive ?D) (enumerate (Suc k) bs)"
  have lv: "live ?ws = A @ (k, w) # B" using al by (simp add: live_def en A_def B_def)
  have Ak: "fst x \<noteq> k" if "x \<in> set A" for x using that la by (auto simp: A_def in_set_enumerate_eq)
  have Bk: "fst x \<noteq> k" if "x \<in> set B" for x using that by (auto simp: B_def in_set_enumerate_eq)
  have lv': "live (?ws @ [mark k]) = A @ B"
    using Ak Bk by (simp add: live_snoc_mark off lv filter_id_conv)
  have pos: "fst x < length es" if "x \<in> set (live ?ws)" for x
    using that by (auto simp: live_def in_set_enumerate_eq)
  have same: "(es @ [(mark k, data)]) ! fst x = es ! fst x" if "x \<in> set (A @ B)" for x
    using pos [of x] that by (auto simp: lv nth_append)
  have "live_edges (es @ [(mark k, data)]) = map (\<lambda>x. es ! fst x) (A @ B)"
    unfolding live_edges_def using same by (simp add: lv')
  moreover have "live_edges es = map (\<lambda>x. es ! fst x) A @ es ! k # map (\<lambda>x. es ! fst x) B"
    by (simp add: live_edges_def lv)
  moreover have "\<not> P (fst (es ! fst x))" if "x \<in> set B" for x
  proof -
    have "fst x < length es" using pos [of x] that by (simp add: lv)
    moreover have "?ws ! fst x \<in> set bs"
      using that by (auto simp: B_def in_set_enumerate_eq ws nth_append la nth_Cons split: nat.splits)
    ultimately show ?thesis using nP by simp
  qed
  moreover have "P (fst (es ! k))" using Pw wk kl by simp
  ultimately show ?thesis using wf' by (simp add: without_newest_append rev_map)
qed

lemma without_newest_none: "(\<forall>w \<in> set (map fst es). \<not> P w) \<Longrightarrow> without_newest P (rev (live_edges es)) = rev (live_edges es)"
proof -
  assume "\<forall>w \<in> set (map fst es). \<not> P w"
  then have "\<forall>x \<in> set (rev (live_edges es)). \<not> P (fst x)"
    by (auto simp: live_edges_def live_def in_set_enumerate_eq)
  then show ?thesis using without_newest_append [of "rev (live_edges es)" P "[]"] by simp
qed

section \<open>The edges of a vertex\<close>

lemma words_of_chain: "map fst (chain_content sg p bs) = block_words (map snd bs)"
proof (induction bs)
  case (Cons ab bs)
  have "map fst (block_content sg p ab) = eb_entries (snd ab)"
    by (simp add: block_content_def comp_def get_num_entries_def map_nth)
  then show ?case using Cons by simp
qed simp

text \<open>The words of a log.\<close>

definition log_words :: "log \<Rightarrow> u64 list" where
  "log_words lg = map fst (map snd lg)"

lemma vertex_blocks:
  fixes l d
  assumes R: "graph_rel P g lgs A" and v: "verts_ok g" "v < vertex_count g" and h: "heads g {}"
    and ne: "lgs v l d \<noteq> []"
  defines "p \<equiv> sp g (get_vertex_seg_id v) l d" and "i \<equiv> get_vertex_seg_idx v"
  shows "\<exists>sg bs. locate_segment g (get_vertex_seg_id v) l d = Inr p \<and> p \<noteq> 0 \<and> segments g p = Some sg \<and>
    region_ptrs sg i \<noteq> 0 \<and> epoch_tables sg i \<noteq> 0 \<and> collect_blocks sg (region_ptrs sg i) = Some bs \<and> bs \<noteq> [] \<and>
    block_words (map snd bs) = log_words (lgs v l d) \<and> length (lgs v l d) < 2 ^ 63"
proof -
  note vs = vertex_seg [OF v]
  have nz: "p \<noteq> 0" and "\<exists>sg. segments g p = Some sg \<and> seg_ok (P l) sg \<and> region_rel (epoch_blocks g) (P l) sg i (lgs v l d)"
    using vertex_region [OF R v, of l d] ne by (auto simp: p_def i_def split: if_splits)
  then obtain sg where sg: "segments g p = Some sg" "seg_ok (P l) sg"
    "region_rel (epoch_blocks g) (P l) sg i (lgs v l d)" by blast
  have i: "i < VERTEX_PER_SEG" using vs(2) by (simp add: i_def)
  have st: "region_ptrs sg i \<noteq> 0" "epoch_tables sg i \<noteq> 0" "chain sg (region_ptrs sg i) (region sg i)" "region sg i \<noteq> []"
    "length (lgs v l d) = chain_total (region sg i)"
    using region_start [OF sg(2) i sg(3) ne] by auto
  have "sg_order (seg_at g p) \<le> 62"
    using segs_okD(4) [OF graph_relD(4) [OF R] vs(1) nz [unfolded p_def]] graph_relD(2) [OF R]
    by (force simp: orders_ok_def p_def)
  then have "chain_total (region sg i) + 1 < 2 ^ 63" using total_small [OF sg(2) i] sg(1) by simp
  moreover have "block_words (map snd (region sg i)) = log_words (lgs v l d)"
    using sg(3) words_of_chain [of sg "P l" "region sg i"] by (simp add: region_rel_def content_def log_words_def)
  ultimately show ?thesis
    using locate_sp [OF graph_relD(3) [OF R] vs(1), of l d] nz sg(1) st collect_chain [OF st(3)] by (auto simp: p_def)
qed

lemma vertex_no_blocks:
  fixes l d
  assumes R: "graph_rel P g lgs A" and v: "verts_ok g" "v < vertex_count g" and h: "heads g {}"
    and e: "lgs v l d = []"
  defines "p \<equiv> sp g (get_vertex_seg_id v) l d" and "i \<equiv> get_vertex_seg_idx v"
  shows "locate_segment g (get_vertex_seg_id v) l d = Inr p \<and>
    (p = 0 \<or> (\<exists>sg. segments g p = Some sg \<and> region_ptrs sg i = 0))"
proof -
  note vs = vertex_seg [OF v]
  have "\<exists>sg. segments g p = Some sg \<and> region_ptrs sg i = 0" if nz: "p \<noteq> 0"
  proof -
    obtain sg where sg: "segments g p = Some sg" "seg_ok (P l) sg"
      "region_rel (epoch_blocks g) (P l) sg i (lgs v l d)"
      using vertex_region [OF R v, of l d] nz by (auto simp: p_def i_def split: if_splits)
    have ch: "chain sg (region_ptrs sg i) (region sg i)"
      using seg_okD(5) [OF sg(2)] vs(2) by (simp add: i_def)
    have "chain_total (region sg i) = 0"
      using sg(3) e length_chain_content [of sg "P l" "region sg i"] by (simp add: region_rel_def content_def)
    moreover have "region sg i \<noteq> [] \<longrightarrow> 0 < get_num_entries (snd (hd (region sg i)))"
      using h sg(1) vs(2) unfolding heads_def seg_heads_def i_def by blast
    ultimately have "region sg i = []" by (cases "region sg i") auto
    then show ?thesis using ch sg(1) by simp
  qed
  then show ?thesis using locate_sp [OF graph_relD(3) [OF R] vs(1), of l d] by (auto simp: p_def)
qed

lemma edge_chain_rel:
  assumes R: "graph_rel P g lgs A" and v: "verts_ok g" "v < vertex_count g" and h: "heads g {}"
  shows "if lgs v l d = [] then edge_chain v l d g = Inl Assert_Failed
    else \<exists>bs. edge_chain v l d g = Inr bs \<and> block_words bs = log_words (lgs v l d) \<and> length (lgs v l d) < 2 ^ 63"
proof (cases "lgs v l d = []")
  case True
  have "collect_blocks sg 0 = Some []" for sg by (rule collect_chain) simp
  then show ?thesis
    using vertex_no_blocks [OF R v h True] True by (auto simp: edge_chain_def NULLPOINTER_def)
next
  case False
  then show ?thesis
    using vertex_blocks [OF R v h False] by (auto simp: edge_chain_def NULLPOINTER_def)
qed

lemma edges_to_delete_rel:
  assumes R: "graph_rel P g lgs A" and v: "verts_ok g" "v < vertex_count g" and h: "heads g {}"
    and wf: "wf_log (log_words (lgs v l d))"
  shows "edges_to_delete v l d g = Inr (rev (live (log_words (lgs v l d))))"
proof (cases "lgs v l d = []")
  case True
  then show ?thesis
    using vertex_no_blocks [OF R v h True]
    by (auto simp: edges_to_delete_def NULLPOINTER_def log_words_def live_def)
next
  case False
  obtain sg bs where sg: "locate_segment g (get_vertex_seg_id v) l d = Inr (sp g (get_vertex_seg_id v) l d)"
    "sp g (get_vertex_seg_id v) l d \<noteq> 0" "segments g (sp g (get_vertex_seg_id v) l d) = Some sg"
    "region_ptrs sg (get_vertex_seg_idx v) \<noteq> 0" "epoch_tables sg (get_vertex_seg_idx v) \<noteq> 0"
    "collect_blocks sg (region_ptrs sg (get_vertex_seg_idx v)) = Some bs"
    "block_words (map snd bs) = log_words (lgs v l d)"
    using vertex_blocks [OF R v h False] by blast
  have "alive_entries (map snd bs) = rev (live (log_words (lgs v l d)))"
    using alive_entries_live [of "map snd bs"] wf sg(7) by simp
  then show ?thesis using sg by (simp add: edges_to_delete_def NULLPOINTER_def)
qed

end
