(* ===== verification/Graph_Rel.thy ===== *)
theory Graph_Rel
  imports Graph_Links
begin

text \<open>
  The edge stores of all labels of a \<open>graph_store\<close> and the logs they hold. The writers keep the
  relation; what they append is read back by the fragments. On this rest the properties of the
  operations that add and delete edges.
\<close>

section \<open>All edge stores\<close>

type_synonym store_logs = "side \<Rightarrow> nat \<Rightarrow> logs"

definition store_ok :: "(nat \<Rightarrow> nat) \<Rightarrow> seg_graph \<Rightarrow> logs \<Rightarrow> bool" where
  "store_ok P g lgs \<longleftrightarrow> (\<exists>A. graph_rel P g lgs A) \<and> verts_ok g \<and> heads g {}"

definition stores_ok :: "(nat \<Rightarrow> nat) \<Rightarrow> 'm graph_store \<Rightarrow> store_logs \<Rightarrow> bool" where
  "stores_ok P gs L \<longleftrightarrow> (\<forall>s label g. get_graph s label gs = Inr g \<longrightarrow> store_ok P g (L s label))"

definition log_at ::
  "side \<Rightarrow> nat \<Rightarrow> bool \<Rightarrow> nat \<Rightarrow> nat \<Rightarrow> dir_t \<Rightarrow> int \<times> edge \<Rightarrow> store_logs \<Rightarrow> store_logs" where
  "log_at s label u v l d x L = L(s := (L s)(label := log_edge u v l d x (L s label)))"

lemma log_at_same: "log_at s label u v l d x L s label v l d = L s label v l d @ [x]"
  by (simp add: log_at_def log_edge_def)

lemma log_at_other:
  "\<not> (s' = s \<and> label' = label \<and> v' = v \<and> l' = l \<and> (d' = d \<or> u)) \<Longrightarrow>
     log_at s label u v l d x L s' label' v' l' d' = L s' label' v' l' d'"
  by (auto simp: log_at_def log_edge_def)

lemma get_set_graph [simp]:
  "get_graph s label (set_graph s' label' g gs) =
     (if s = s' \<and> label = label' then Inr g else get_graph s label gs)"
  by (cases s; cases s') (auto simp: get_graph_def set_graph_def)

lemma get_graph_rands [simp]: "get_graph s label (gs\<lparr>rands := r\<rparr>) = get_graph s label gs"
  by (simp add: get_graph_def cong: side.case_cong)

text \<open>What the writers leave as it is: all but the edge stores, and the shapes of those.\<close>

definition keeps :: "'m graph_store \<Rightarrow> 'm graph_store \<Rightarrow> bool" where
  "keeps gs gs' \<longleftrightarrow>
     (\<exists>a b r. gs' = gs\<lparr>seg_graphs := a, ov_seg_graphs := b, rands := r\<rparr>) \<and>
     (\<forall>s label g. get_graph s label gs = Inr g \<longrightarrow> (\<exists>g'. get_graph s label gs' = Inr g' \<and> same_shape g g'))"

lemma same_shape_trans: "same_shape a b \<Longrightarrow> same_shape b c \<Longrightarrow> same_shape a c"
  by (simp add: same_shape_def)

lemma keeps_refl: "keeps gs gs"
proof -
  have "gs = gs\<lparr>seg_graphs := seg_graphs gs, ov_seg_graphs := ov_seg_graphs gs, rands := rands gs\<rparr>" by simp
  then show ?thesis unfolding keeps_def same_shape_def by blast
qed

lemma keeps_trans:
  assumes "keeps a b" and "keeps b c"
  shows "keeps a c"
proof -
  obtain x y z x' y' z' where "b = a\<lparr>seg_graphs := x, ov_seg_graphs := y, rands := z\<rparr>"
    "c = b\<lparr>seg_graphs := x', ov_seg_graphs := y', rands := z'\<rparr>"
    using assms unfolding keeps_def by blast
  then have "c = a\<lparr>seg_graphs := x', ov_seg_graphs := y', rands := z'\<rparr>" by simp
  moreover have "\<exists>g'. get_graph s label c = Inr g' \<and> same_shape g g'" if "get_graph s label a = Inr g" for s label g
    using assms that same_shape_trans unfolding keeps_def by meson
  ultimately show ?thesis unfolding keeps_def by blast
qed

lemma keepsD:
  assumes "keeps gs gs'"
  shows "parser gs' = parser gs" "local_pid gs' = local_pid gs" "edge_schemas gs' = edge_schemas gs"
    "vertex_tables gs' = vertex_tables gs" "key_lid_map gs' = key_lid_map gs"
    "edge_relation_size gs' = edge_relation_size gs" "string_buffer gs' = string_buffer gs"
    "label_of gs' v = label_of gs v" "offset_of gs' v = offset_of gs v" "is_local gs' v = is_local gs v"
    "max_outer_id_offset gs' = max_outer_id_offset gs" "local_id gs' l q = local_id gs l q"
    "entry_for gs' q w = entry_for gs q w" "get_vtable_max_inner gs' l = get_vtable_max_inner gs l"
  using assms
  by (auto simp: keeps_def label_of_def offset_of_def is_local_def max_outer_id_offset_def local_id_def
      entry_for_def get_vtable_max_inner_def)

lemma keeps_graph:
  assumes "keeps gs gs'" and "get_graph s label gs = Inr g"
  obtains g' where "get_graph s label gs' = Inr g'" "vertex_count g' = vertex_count g"
    "is_edge_undirected g' l = is_edge_undirected g l"
  using assms unfolding keeps_def same_shape_def is_edge_undirected_def by metis

lemma keeps_set:
  assumes "get_graph s label gs = Inr g" and "same_shape g g'"
  shows "keeps gs (set_graph s label g' gs)"
proof -
  have "\<exists>a b r. set_graph s label g' gs = gs\<lparr>seg_graphs := a, ov_seg_graphs := b, rands := r\<rparr>"
  proof (cases s)
    case Inner
    have "set_graph s label g' gs = gs\<lparr>seg_graphs := (seg_graphs gs)(label \<mapsto> g'),
        ov_seg_graphs := ov_seg_graphs gs, rands := rands gs\<rparr>" by (simp add: set_graph_def Inner)
    then show ?thesis by blast
  next
    case Outer
    have "set_graph s label g' gs = gs\<lparr>seg_graphs := seg_graphs gs,
        ov_seg_graphs := (ov_seg_graphs gs)(label \<mapsto> g'), rands := rands gs\<rparr>" by (simp add: set_graph_def Outer)
    then show ?thesis by blast
  qed
  moreover have "same_shape x x" for x by (simp add: same_shape_def)
  ultimately show ?thesis using assms unfolding keeps_def by auto
qed

lemma stores_okD: "stores_ok P gs L \<Longrightarrow> get_graph s label gs = Inr g \<Longrightarrow> store_ok P g (L s label)"
  by (simp add: stores_ok_def)

lemma stores_ok_set:
  assumes "stores_ok P gs L" and "store_ok P g (L' s label)"
    and "\<And>s' label'. (s', label') \<noteq> (s, label) \<Longrightarrow> L' s' label' = L s' label'"
  shows "stores_ok P (set_graph s label g gs) L'"
  unfolding stores_ok_def
proof (intro allI impI)
  fix s' label' g'
  assume "get_graph s' label' (set_graph s label g gs) = Inr g'"
  then show "store_ok P g' (L' s' label')"
    using assms(2) assms(3) [of s' label'] stores_okD [OF assms(1), of s' label' g'] by (auto split: if_splits)
qed

section \<open>Writers\<close>

lemma recycle_ok: "store_ok P g lgs \<Longrightarrow> store_ok P (recycle_segments e g) lgs \<and> same_shape g (recycle_segments e g)"
proof -
  assume ok: "store_ok P g lgs"
  have f: "edge_label_ptrs (recycle_segments e g) = edge_label_ptrs g" "vertex_count (recycle_segments e g) = vertex_count g"
    "seg_count (recycle_segments e g) = seg_count g" "segments (recycle_segments e g) = segments g"
    "edge_is_undirected (recycle_segments e g) = edge_is_undirected g"
    by (simp_all add: recycle_segments_def Let_def)
  show ?thesis
    using ok recycle_rel [of P g lgs _ e] unfolding store_ok_def
    by (auto simp: verts_ok_def heads_def same_shape_def f)
qed

lemma create_graph_writer_ok:
  assumes "stores_ok P gs L" and "get_graph s label gs = Inr g"
  shows "\<exists>gs'. create_graph_writer s label e gs = Inr gs' \<and> stores_ok P gs' L \<and> keeps gs gs'"
proof -
  let ?gs = "gs\<lparr>rands := (\<lambda>i. rands gs (Suc i))\<rparr>"
  have ok: "stores_ok P ?gs L" using assms(1) by (simp add: stores_ok_def)
  have "?gs = gs\<lparr>seg_graphs := seg_graphs gs, ov_seg_graphs := ov_seg_graphs gs, rands := (\<lambda>i. rands gs (Suc i))\<rparr>" by simp
  moreover have "same_shape x x" for x by (simp add: same_shape_def)
  ultimately have k: "keeps gs ?gs" unfolding keeps_def get_graph_rands by blast
  note re = recycle_ok [OF stores_okD [OF assms], of e]
  have "stores_ok P (set_graph s label (recycle_segments e g) ?gs) L"
    using ok re by (intro stores_ok_set) auto
  moreover have "keeps gs (set_graph s label (recycle_segments e g) ?gs)"
    using assms(2) re by (intro keeps_trans [OF k] keeps_set) auto
  ultimately show ?thesis
    using ok k assms(2) by (simp add: create_graph_writer_def Let_def)
qed

definition no_memory :: "op_error \<Rightarrow> bool" where
  "no_memory e \<longleftrightarrow> e = Edge_Error Out_of_memory \<or> e = Edge_Error Null_block"

lemma writer_put_edge_ok:
  assumes ok: "stores_ok P gs L" and g: "get_graph s label gs = Inr g" "v < vertex_count g"
    and len: "length data = P l" and ep: "\<forall>x \<in> set (L s label v l d). fst x \<le> epoch"
  shows "case writer_put_edge s label epoch v l d dst data gs of
      Inl e \<Rightarrow> no_memory e
    | Inr gs' \<Rightarrow> keeps gs gs' \<and>
        stores_ok P gs' (log_at s label (is_edge_undirected g l) v l d (epoch, dst, data) L)"
proof -
  obtain A where R: "graph_rel P g (L s label) A" and v: "verts_ok g" and h: "heads g {}"
    using stores_okD [OF ok g(1)] by (auto simp: store_ok_def)
  have "L s label v l d \<noteq> [] \<longrightarrow> fst (last (L s label v l d)) \<le> epoch" using ep by simp
  note put = put_edge_ok [OF R len vertex_seg(1) [OF v g(2)] this, of dst]
  show ?thesis
  proof (cases "put_edge epoch v l d dst data g")
    case (Inl e)
    then show ?thesis using put g by (auto simp: writer_put_edge_def no_memory_def)
  next
    case (Inr g')
    then have sh: "same_shape g g'" and h': "heads g' {}"
      and R': "\<exists>A. graph_rel P g' (log_edge (is_edge_undirected g l) v l d (epoch, dst, data) (L s label)) A"
      using put h by auto
    have "verts_ok g'" by (rule put_edge_verts_ok [OF v g(2) Inr sh])
    then have "stores_ok P (set_graph s label g' gs) (log_at s label (is_edge_undirected g l) v l d (epoch, dst, data) L)"
      using R' h' by (intro stores_ok_set [OF ok]) (auto simp: store_ok_def log_at_def)
    then show ?thesis using keeps_set [OF g(1) sh] g Inr by (simp add: writer_put_edge_def)
  qed
qed

lemma mark_newest_ok:
  assumes ok: "stores_ok P gs L" and g: "get_graph s label gs = Inr g" "v < vertex_count g"
    and len: "length data = P l" and ep: "\<forall>x \<in> set (L s label v l d). fst x \<le> epoch"
    and ne: "L s label v l d \<noteq> []"
  shows "case mark_newest Q s label epoch v l d data gs of
      Inl e \<Rightarrow> no_memory e
    | Inr (found, gs') \<Rightarrow> keeps gs gs' \<and>
        (case newest_pos Q (log_words (L s label v l d)) of
           None \<Rightarrow> \<not> found \<and> gs' = gs
         | Some k \<Rightarrow> found \<and> k < 2 ^ 63 \<and>
             stores_ok P gs' (log_at s label (is_edge_undirected g l) v l d (epoch, mark k, data) L))"
proof -
  obtain A where R: "graph_rel P g (L s label) A" and v: "verts_ok g" and h: "heads g {}"
    using stores_okD [OF ok g(1)] by (auto simp: store_ok_def)
  obtain bs where bs: "edge_chain v l d g = Inr bs" "block_words bs = log_words (L s label v l d)"
    "length (L s label v l d) < 2 ^ 63"
    using edge_chain_rel [OF R v g(2) h, of l d] ne by auto
  show ?thesis
  proof (cases "newest_pos Q (log_words (L s label v l d))")
    case None
    then show ?thesis using g(1) bs by (simp add: mark_newest_def find_newest_blocks keeps_refl)
  next
    case (Some k)
    then have "k < length (L s label v l d)" by (elim newest_posE) (auto simp: log_words_def dest: arg_cong [of _ _ length])
    then have k: "k < 2 ^ 63" using bs(3) by simp
    have "mark_newest Q s label epoch v l d data gs =
        and_then (writer_put_edge s label epoch v l d (mark k) data gs) (\<lambda>gs'. Inr (True, gs'))"
      using g(1) bs Some by (simp add: mark_newest_def find_newest_blocks)
    then show ?thesis
      using writer_put_edge_ok [OF ok g len ep, of "mark k"] Some k
      by (cases "writer_put_edge s label epoch v l d (mark k) data gs") simp_all
  qed
qed

text \<open>The runs of a writer, given that of the edge store.\<close>

lemma writer_put_edge_run:
  "get_graph s label gs = Inr g \<Longrightarrow> put_edge epoch v l d dst data g = Inr g' \<Longrightarrow>
     writer_put_edge s label epoch v l d dst data gs = Inr (set_graph s label g' gs)"
  by (simp add: writer_put_edge_def)

lemma mark_newest_run:
  assumes ok: "stores_ok P gs L" and g: "get_graph s label gs = Inr g" "v < vertex_count g"
    and k: "newest_pos Q (log_words (L s label v l d)) = Some k"
    and run: "put_edge epoch v l d (mark k) data g = Inr g'"
  shows "mark_newest Q s label epoch v l d data gs = Inr (True, set_graph s label g' gs)"
proof -
  obtain A where R: "graph_rel P g (L s label) A" and v: "verts_ok g" and h: "heads g {}"
    using stores_okD [OF ok g(1)] by (auto simp: store_ok_def)
  have "L s label v l d \<noteq> []" using k by (auto simp: log_words_def)
  then obtain bs where "edge_chain v l d g = Inr bs" "block_words bs = log_words (L s label v l d)"
    using edge_chain_rel [OF R v g(2) h, of l d] by auto
  then show ?thesis
    using g(1) k writer_put_edge_run [OF g(1) run] by (simp add: mark_newest_def find_newest_blocks)
qed

lemma keeps_shape:
  "keeps gs gs' \<Longrightarrow> get_graph s label gs = Inr g \<Longrightarrow> get_graph s label gs' = Inr g' \<Longrightarrow> same_shape g g'"
  unfolding keeps_def by (metis sum.inject(2))

section \<open>Reading\<close>

lemma store_read:
  assumes "store_ok P g lgs" and "v < vertex_count g" and "wf_log (map fst (visible e (lgs v l d)))"
  shows "fragment_edges g (P l) e v l d = Some (rev (live_edges (visible e (lgs v l d))))"
  using assms fragment_edges_rel by (auto simp: store_ok_def)

lemma store_sorted:
  assumes "store_ok P g lgs" and "v < vertex_count g"
  shows "sorted (map fst (lgs v l d))"
proof -
  obtain A where R: "graph_rel P g lgs A" and v: "verts_ok g" using assms(1) by (auto simp: store_ok_def)
  show ?thesis
    using vertex_region [OF R v assms(2), of l d]
    by (auto simp: region_rel_def table_ok_def split: if_splits)
qed

text \<open>A well-formed log is well formed at every epoch.\<close>

lemma visible_wf:
  assumes "sorted (map fst lg)" and "wf_log (log_words lg)"
  shows "wf_log (map fst (visible e lg))"
  using wf_log_take [OF assms(2), of "seen e (map fst lg)"] visible_take [OF assms(1)]
  by (simp add: log_words_def take_map)

lemma visible_all: "\<forall>x \<in> set lg. fst x \<le> epoch \<Longrightarrow> epoch \<le> e \<Longrightarrow> visible e lg = map snd lg"
proof -
  assume "\<forall>x \<in> set lg. fst x \<le> epoch" and "epoch \<le> e"
  then have "filter (\<lambda>x. fst x \<le> e) lg = lg" by (intro filter_True) auto
  then show ?thesis by (simp only: visible_def)
qed

lemma visible_snoc: "visible e (lg @ [(epoch, x)]) = visible e lg @ (if epoch \<le> e then [x] else [])"
  by (simp add: visible_def)

text \<open>What is read after one more entry: a plain one comes first, a marker removes one.\<close>

lemma read_plain:
  assumes wf: "wf_log (log_words lg)" and up: "\<forall>x \<in> set lg. fst x \<le> epoch" and plain: "\<not> is_marker w"
  shows "wf_log (log_words (lg @ [(epoch, w, data)])) \<and>
    (epoch \<le> e \<longrightarrow> rev (live_edges (visible e (lg @ [(epoch, w, data)]))) =
      (w, data) # rev (live_edges (visible e lg)))"
proof (intro conjI impI)
  let ?es = "map snd lg"
  have words: "log_words (lg @ [(epoch, w, data)]) = log_words lg @ [w]" "log_words lg = map fst ?es"
    by (simp_all add: log_words_def)
  show "wf_log (log_words (lg @ [(epoch, w, data)]))" using wf plain by (simp add: words(1) wf_log_snoc)
  assume e: "epoch \<le> e"
  have wf': "wf_log (map fst ?es)" using wf by (simp only: words(2))
  have "live (map fst (?es @ [(w, data)])) = live (map fst ?es) @ [(length ?es, w)]"
    using live_snoc_plain [OF wf' plain] by simp
  moreover have "(?es @ [(w, data)]) ! fst x = ?es ! fst x" if "x \<in> set (live (map fst ?es))" for x
    using that by (auto simp: live_def in_set_enumerate_eq nth_append)
  ultimately have "live_edges (?es @ [(w, data)]) = live_edges ?es @ [(w, data)]"
    unfolding live_edges_def by (simp add: nth_append cong: map_cong)
  then show "rev (live_edges (visible e (lg @ [(epoch, w, data)]))) = (w, data) # rev (live_edges (visible e lg))"
    using visible_all [OF up e] e by (simp add: visible_snoc)
qed

lemma read_marked:
  assumes wf: "wf_log (log_words lg)" and up: "\<forall>x \<in> set lg. fst x \<le> epoch"
    and k: "newest_pos Q (log_words lg) = Some k" and al: "newest_alive Q (log_words lg)"
    and Q: "\<And>w. Q w \<Longrightarrow> \<not> is_marker w" and small: "length lg < 2 ^ 63"
  shows "wf_log (log_words (lg @ [(epoch, mark k, data)])) \<and>
    (epoch \<le> e \<longrightarrow> rev (live_edges (visible e (lg @ [(epoch, mark k, data)]))) =
      without_newest Q (rev (live_edges (visible e lg))))"
proof -
  have "wf_log (map fst (map snd lg @ [(mark k, data)])) \<and>
    rev (live_edges (map snd lg @ [(mark k, data)])) = without_newest Q (rev (live_edges (map snd lg)))"
    using wf k al Q small by (intro live_edges_mark) (auto simp: log_words_def newest_alive_def)
  then show ?thesis using visible_all [OF up] by (auto simp: log_words_def visible_snoc)
qed

text \<open>The newest matching entry of a log without one.\<close>

lemma read_unmatched:
  assumes "newest_pos Q (log_words lg) = None"
  shows "without_newest Q (rev (live_edges (visible e lg))) = rev (live_edges (visible e lg))"
  using assms by (intro without_newest_none) (auto simp: newest_pos_None log_words_def visible_def)

end
