(* ===== verification/Graph_Edges.thy ===== *)
theory Graph_Edges
  imports Graph_Rel
begin

text \<open>
  The properties of adding and deleting one edge: what the fragments read of the two vertices before
  and after.
\<close>

section \<open>One deleted entry\<close>

text \<open>The log has lost the newest entry with a property, for the readers from an epoch on.\<close>

definition shrunk :: "(u64 \<Rightarrow> bool) \<Rightarrow> int \<Rightarrow> log \<Rightarrow> log \<Rightarrow> bool" where
  "shrunk Q epoch lg lg' \<longleftrightarrow> wf_log (log_words lg') \<and> (\<forall>x \<in> set lg'. fst x \<le> epoch) \<and>
     (\<forall>e. rev (live_edges (visible e lg')) =
        (if epoch \<le> e then without_newest Q (rev (live_edges (visible e lg))) else rev (live_edges (visible e lg))))"

text \<open>Only the logs of one vertex, label and direction differ.\<close>

definition same_but :: "side \<Rightarrow> nat \<Rightarrow> bool \<Rightarrow> nat \<Rightarrow> nat \<Rightarrow> dir_t \<Rightarrow> store_logs \<Rightarrow> store_logs \<Rightarrow> bool" where
  "same_but s label u v l d L L' \<longleftrightarrow> (\<forall>s' label' v' l' d'.
     \<not> (s' = s \<and> label' = label \<and> v' = v \<and> l' = l \<and> (d' = d \<or> u)) \<longrightarrow> L' s' label' v' l' d' = L s' label' v' l' d')"

lemma same_but_log_at: "same_but s label u v l d L (log_at s label u v l d x L)"
  by (simp add: same_but_def log_at_other)

lemma same_but_refl: "same_but s label u v l d L L"
  by (simp add: same_but_def)

lemma same_butD:
  "same_but s label u v l d L L' \<Longrightarrow> \<not> (s' = s \<and> label' = label \<and> v' = v \<and> l' = l \<and> (d' = d \<or> u)) \<Longrightarrow>
     L' s' label' v' l' d' = L s' label' v' l' d'"
  by (simp add: same_but_def)

lemma mark_newest_read:
  assumes ok: "stores_ok P gs L" and g: "get_graph s label gs = Inr g" "v < vertex_count g"
    and len: "length data = P l" and up: "\<forall>x \<in> set (L s label v l d). fst x \<le> epoch"
    and ne: "L s label v l d \<noteq> []" and wf: "wf_log (log_words (L s label v l d))"
    and al: "newest_alive Q (log_words (L s label v l d))" and Q: "\<forall>w. Q w \<longrightarrow> \<not> is_marker w"
  shows "case mark_newest Q s label epoch v l d data gs of
      Inl e \<Rightarrow> no_memory e
    | Inr (found, gs') \<Rightarrow> keeps gs gs' \<and> (\<exists>L'. stores_ok P gs' L' \<and>
        same_but s label (is_edge_undirected g l) v l d L L' \<and> shrunk Q epoch (L s label v l d) (L' s label v l d))"
proof -
  let ?lg = "L s label v l d"
  have "length ?lg < 2 ^ 63"
    using stores_okD [OF ok g(1)] edge_chain_rel [of P g "L s label" _ v l d] g(2) ne by (auto simp: store_ok_def)
  note read = read_marked [OF wf up _ al _ this, where data = data]
  note mk = mark_newest_ok [OF ok g len up ne, of Q]
  show ?thesis
  proof (cases "mark_newest Q s label epoch v l d data gs")
    case (Inl e)
    then show ?thesis using mk by simp
  next
    case (Inr r)
    obtain found gs' where r: "r = (found, gs')" by (cases r)
    show ?thesis
    proof (cases "newest_pos Q (log_words ?lg)")
      case None
      then have "shrunk Q epoch ?lg ?lg" using wf up read_unmatched [OF None] by (simp add: shrunk_def)
      then show ?thesis using mk None ok same_but_refl by (auto simp: Inr r)
    next
      case (Some k)
      let ?L = "log_at s label (is_edge_undirected g l) v l d (epoch, mark k, data) L"
      have "shrunk Q epoch ?lg (?L s label v l d)"
        using read [OF Some] Q up by (simp add: shrunk_def log_at_same visible_snoc)
      then show ?thesis
        using mk Some same_but_log_at [of s label "is_edge_undirected g l" v l d L] by (auto simp: Inr r)
    qed
  qed
qed

section \<open>Reading a label's edge store\<close>

text \<open>What a fragment of the store reads of a vertex.\<close>

definition vertex_edges ::
  "'m graph_store \<Rightarrow> nat \<Rightarrow> int \<Rightarrow> side \<Rightarrow> nat \<Rightarrow> nat \<Rightarrow> nat \<Rightarrow> dir_t \<Rightarrow> edge list option" where
  "vertex_edges gs width e s label v l d =
     (case get_graph s label gs of Inl _ \<Rightarrow> None | Inr g \<Rightarrow> fragment_edges g width e v l d)"

lemma vertex_edges_rel:
  assumes "stores_ok P gs L" and "get_graph s label gs = Inr g" and "v < vertex_count g"
    and "wf_log (log_words (L s label v l d))"
  shows "vertex_edges gs (P l) e s label v l d = Some (rev (live_edges (visible e (L s label v l d))))"
proof -
  note ok = stores_okD [OF assms(1,2)]
  show ?thesis
    using store_read [OF ok assms(3) visible_wf [OF store_sorted [OF ok assms(3)] assms(4)]] assms(2)
    by (simp add: vertex_edges_def)
qed

section \<open>Local identifiers\<close>

lemma local_id_bit:
  assumes "layout (parser gs) w"
  shows "\<not> bit (local_id gs label off) 63"
  using layout_fields [OF assms]
  by (simp add: local_id_def GenerateId_def bit_or_iff bit_and_iff bit_mask_shift bit_mask_iff)

lemma local_id_plain: "layout (parser gs) w \<Longrightarrow> \<not> is_marker (local_id gs label off)"
  by (simp add: is_marker_iff_bit local_id_bit)

text \<open>The parts of an identifier and of the local one built from them.\<close>

lemma offset_of_word:
  assumes "layout (parser gs) w"
  shows "offset_of gs v = drop_bit w (v AND push_bit w (mask (56 - w)))"
  using layout_fields [OF assms] by (simp add: offset_of_def GetOffset_def)

lemma bit_offset_of:
  assumes "layout (parser gs) w"
  shows "bit (offset_of gs v) i \<longleftrightarrow> i < 56 - w \<and> bit v (i + w)"
  using layout_fields(8,9) [OF assms]
  by (auto simp: offset_of_word [OF assms] bit_drop_bit_eq bit_and_iff bit_mask_shift ac_simps dest: bit_imp_le_length)

lemma offset_of_local_id:
  assumes "layout (parser gs) w"
  shows "offset_of gs (local_id gs label (offset_of gs v)) = offset_of gs v"
proof (rule bit_word_eqI)
  fix i :: nat
  assume "i < LENGTH(64)"
  have "bit (local_id gs label (offset_of gs v)) (i + w) \<longleftrightarrow> bit (offset_of gs v) i" if "i < 56 - w"
    using that layout_fields [OF assms]
    by (auto simp: local_id_def GenerateId_def bit_or_iff bit_and_iff bit_mask_shift bit_mask_iff bit_push_bit_iff)
  then show "bit (offset_of gs (local_id gs label (offset_of gs v))) i \<longleftrightarrow> bit (offset_of gs v) i"
    by (auto simp: bit_offset_of [OF assms])
qed

lemma entry_for_local_id: "layout (parser gs) w \<Longrightarrow> entry_for gs (offset_of gs v) (local_id gs label (offset_of gs v))"
  using local_id_plain by (simp add: entry_for_def offset_of_local_id is_marker_def)

section \<open>Deleting an edge\<close>

text \<open>The fields of a line that adds or deletes an edge.\<close>

definition edge_line :: "string list \<Rightarrow> int \<Rightarrow> nat \<Rightarrow> u64 \<Rightarrow> u64 \<Rightarrow> bool" where
  "edge_line cmd epoch l src dst \<longleftrightarrow> int_field cmd 0 = Inr epoch \<and> label_field cmd 1 = Inr l \<and>
     vid_field cmd 2 = Inr src \<and> vid_field cmd 3 = Inr dst"

text \<open>A log whose newest entry with a property can be deleted at an epoch.\<close>

definition deletable :: "(u64 \<Rightarrow> bool) \<Rightarrow> int \<Rightarrow> log \<Rightarrow> bool" where
  "deletable Q epoch lg \<longleftrightarrow> lg \<noteq> [] \<and> wf_log (log_words lg) \<and> (\<forall>x \<in> set lg. fst x \<le> epoch) \<and>
     newest_alive Q (log_words lg)"

lemma entry_plain: "\<forall>w. entry_for gs q w \<longrightarrow> \<not> is_marker w"
  by (simp add: entry_for_def is_marker_def)

lemma del_edge_logs:
  fixes gs :: "'m graph_store"
  assumes ok: "stores_ok P gs L" and cmd: "edge_line cmd epoch l src dst"
    and loc: "is_local gs src" "is_local gs dst"
    and sl: "sl = label_of gs src" "so = offset_of gs src" and dl: "dl = label_of gs dst" "do = offset_of gs dst"
    and g: "get_graph Inner sl gs = Inr g" "unat so < vertex_count g"
    and h: "get_graph Inner dl gs = Inr h" "unat do < vertex_count h"
    and width: "P l = prop_total_bytes (edge_schemas gs l) + 8"
    and apart: "(sl, so) \<noteq> (dl, do) \<or> \<not> is_edge_undirected g l"
    and out: "deletable (entry_for gs do) epoch (L Inner sl (unat so) l EOUT)"
    and inn: "deletable (entry_for gs so) epoch (L Inner dl (unat do) l EIN)"
  shows "case process_del_edge cmd gs of
      Inl e \<Rightarrow> no_memory e
    | Inr gs' \<Rightarrow> keeps gs gs' \<and> (\<exists>L'. stores_ok P gs' L' \<and>
        shrunk (entry_for gs do) epoch (L Inner sl (unat so) l EOUT) (L' Inner sl (unat so) l EOUT) \<and>
        shrunk (entry_for gs so) epoch (L Inner dl (unat do) l EIN) (L' Inner dl (unat do) l EIN) \<and>
        (\<forall>s label v l' d. l' \<noteq> l \<or> (s, label, v) \<notin> {(Inner, sl, unat so), (Inner, dl, unat do)} \<longrightarrow>
           L' s label v l' d = L s label v l' d))"
proof -
  let ?data = "replicate (prop_total_bytes (edge_schemas gs l) + 8) (0 :: u8)"
  let ?lo = "L Inner sl (unat so) l EOUT" and ?li = "L Inner dl (unat do) l EIN"
  let ?Q1 = "entry_for gs do" and ?Q2 = "entry_for gs so"
  have len: "length ?data = P l" using width by simp
  have un: "unat so = unat do \<longleftrightarrow> so = do" by (simp add: word_unat_eq_iff)
  obtain gs1 where gs1: "create_graph_writer Inner sl epoch gs = Inr gs1" "stores_ok P gs1 L" "keeps gs gs1"
    using create_graph_writer_ok [OF ok g(1)] by blast
  obtain h1 where "get_graph Inner dl gs1 = Inr h1" by (rule keeps_graph [OF gs1(3) h(1)])
  then obtain gs2 where gs2: "create_graph_writer Inner dl epoch gs1 = Inr gs2" "stores_ok P gs2 L" "keeps gs1 gs2"
    using create_graph_writer_ok [OF gs1(2)] by blast
  have k2: "keeps gs gs2" by (rule keeps_trans [OF gs1(3) gs2(3)])
  obtain g2 where g2: "get_graph Inner sl gs2 = Inr g2" "vertex_count g2 = vertex_count g"
    "is_edge_undirected g2 l = is_edge_undirected g l" by (rule keeps_graph [OF k2 g(1)])
  have v2: "unat so < vertex_count g2" using g(2) g2(2) by simp
  let ?m1 = "mark_newest ?Q1 Inner sl epoch (unat so) l EOUT ?data gs2"
  have run: "process_del_edge cmd gs =
      and_then ?m1 (\<lambda>(found, gs3). and_then (mark_newest ?Q2 Inner dl epoch (unat do) l EIN ?data gs3) (\<lambda>(found, gs4). Inr gs4))"
    using cmd loc gs1(1) gs2(1) by (simp add: process_del_edge_def Let_def sl dl edge_line_def)
  have out': "?lo \<noteq> []" "wf_log (log_words ?lo)" "\<forall>x \<in> set ?lo. fst x \<le> epoch" "newest_alive ?Q1 (log_words ?lo)"
    and inn': "?li \<noteq> []" "wf_log (log_words ?li)" "\<forall>x \<in> set ?li. fst x \<le> epoch" "newest_alive ?Q2 (log_words ?li)"
    using out inn by (simp_all add: deletable_def)
  note m1 = mark_newest_read [OF gs2(2) g2(1) v2 len out'(3,1,2,4) entry_plain]
  show ?thesis
  proof (cases ?m1)
    case (Inl e)
    then show ?thesis using m1 by (simp add: run)
  next
    case (Inr r)
    obtain f gs3 where r: "r = (f, gs3)" by (cases r)
    obtain L3 where L3: "stores_ok P gs3 L3" "keeps gs2 gs3" "same_but Inner sl (is_edge_undirected g2 l) (unat so) l EOUT L L3"
      "shrunk ?Q1 epoch ?lo (L3 Inner sl (unat so) l EOUT)"
      using m1 by (auto simp: Inr r)
    have k3: "keeps gs gs3" by (rule keeps_trans [OF k2 L3(2)])
    obtain h3 where h3: "get_graph Inner dl gs3 = Inr h3" "vertex_count h3 = vertex_count h"
      "is_edge_undirected h3 l = is_edge_undirected h l" by (rule keeps_graph [OF k3 h(1)])
    have v3: "unat do < vertex_count h3" using h(2) h3(2) by simp
    have li3: "L3 Inner dl (unat do) l EIN = ?li"
      using apart g2(3) un by (intro same_butD [OF L3(3)]) auto
    let ?m2 = "mark_newest ?Q2 Inner dl epoch (unat do) l EIN ?data gs3"
    note m2 = mark_newest_read [OF L3(1) h3(1) v3 len, where d = EIN and Q = ?Q2 and epoch = epoch, unfolded li3,
        OF inn'(3,1,2,4) entry_plain]
    show ?thesis
    proof (cases ?m2)
      case (Inl e)
      then show ?thesis using m2 \<open>?m1 = Inr r\<close> by (simp add: run r)
    next
      case (Inr r2)
      obtain f2 gs4 where r2: "r2 = (f2, gs4)" by (cases r2)
      obtain L4 where L4: "stores_ok P gs4 L4" "keeps gs3 gs4" "same_but Inner dl (is_edge_undirected h3 l) (unat do) l EIN L3 L4"
        "shrunk ?Q2 epoch ?li (L4 Inner dl (unat do) l EIN)"
        using m2 by (auto simp: Inr r2)
      have und: "sl = dl \<Longrightarrow> is_edge_undirected h l = is_edge_undirected g l" using g(1) h(1) by simp
      have "L4 Inner sl (unat so) l EOUT = L3 Inner sl (unat so) l EOUT"
        using apart h3(3) und un by (intro same_butD [OF L4(3)]) auto
      moreover have "L4 s label v l' d = L s label v l' d"
        if "l' \<noteq> l \<or> (s, label, v) \<notin> {(Inner, sl, unat so), (Inner, dl, unat do)}" for s label v l' d
      proof -
        have "L4 s label v l' d = L3 s label v l' d" using that by (intro same_butD [OF L4(3)]) auto
        also have "\<dots> = L s label v l' d" using that by (intro same_butD [OF L3(3)]) auto
        finally show ?thesis .
      qed
      ultimately show ?thesis
        using L3(4) L4(1,4) keeps_trans [OF k3 L4(2)] \<open>?m1 = Inr r\<close> Inr by (auto simp: run r r2)
    qed
  qed
qed

text \<open>Reading a log that has lost an entry.\<close>

lemma shrunk_read:
  assumes "stores_ok P gs L" and "stores_ok P gs' L'" and "keeps gs gs'"
    and "get_graph s label gs = Inr g" and "v < vertex_count g" and "wf_log (log_words (L s label v l d))"
    and "shrunk Q epoch (L s label v l d) (L' s label v l d)"
  shows "vertex_edges gs' (P l) e s label v l d =
    (if epoch \<le> e then map_option (without_newest Q) (vertex_edges gs (P l) e s label v l d)
     else vertex_edges gs (P l) e s label v l d)"
proof -
  obtain g' where g': "get_graph s label gs' = Inr g'" "vertex_count g' = vertex_count g"
    by (rule keeps_graph [OF assms(3,4)])
  have "wf_log (log_words (L' s label v l d))" using assms(7) by (simp add: shrunk_def)
  then show ?thesis
    using vertex_edges_rel [OF assms(1,4,5,6)] vertex_edges_rel [OF assms(2) g'(1)] assms(5,7) g'(2)
    by (simp add: shrunk_def)
qed


text \<open>
Deleting an edge between two vertices of the partition leaves all other vertices as they are, inner
and outer, and the two vertices themselves for all other edge labels: a fragment reads the same edges
of them at every epoch.
\<close>

theorem del_edge_keeps_rest:
  fixes gs :: "'m graph_store"
  assumes ok: "stores_ok P gs L" and cmd: "edge_line cmd epoch l src dst"
    and loc: "is_local gs src" "is_local gs dst"
    and sl: "sl = label_of gs src" "so = offset_of gs src" and dl: "dl = label_of gs dst" "do = offset_of gs dst"
    and g: "get_graph Inner sl gs = Inr g" "unat so < vertex_count g"
    and h: "get_graph Inner dl gs = Inr h" "unat do < vertex_count h"
    and width: "P l = prop_total_bytes (edge_schemas gs l) + 8"
    and apart: "(sl, so) \<noteq> (dl, do) \<or> \<not> is_edge_undirected g l"
    and out: "deletable (entry_for gs do) epoch (L Inner sl (unat so) l EOUT)"
    and inn: "deletable (entry_for gs so) epoch (L Inner dl (unat do) l EIN)"
    and run: "process_del_edge cmd gs = Inr gs'"
    and other: "l' \<noteq> l \<or> (s, label, v) \<notin> {(Inner, sl, unat so), (Inner, dl, unat do)}"
      "get_graph s label gs = Inr k" "v < vertex_count k" "wf_log (log_words (L s label v l' d))"
  shows "vertex_edges gs' (P l') e s label v l' d = vertex_edges gs (P l') e s label v l' d"
proof -
  obtain L' where kp: "keeps gs gs'" and L': "stores_ok P gs' L'" "L' s label v l' d = L s label v l' d"
    using del_edge_logs [OF assms(1-16)] run other(1) by auto
  obtain k' where k': "get_graph s label gs' = Inr k'" "vertex_count k' = vertex_count k"
    by (rule keeps_graph [OF kp other(2)])
  show ?thesis
    using vertex_edges_rel [OF ok other(2-4)] vertex_edges_rel [OF L'(1) k'(1)] other(3,4) k'(2) L'(2) by simp
qed

section \<open>Adding an edge\<close>

lemma get_graph_buffer [simp]: "get_graph s label (gs\<lparr>string_buffer := b\<rparr>) = get_graph s label gs"
  by (cases s) (simp_all add: get_graph_def)

lemma add_edge_logs:
  fixes gs :: "'m graph_store"
  assumes ok: "stores_ok P gs L" and cmd: "edge_line cmd epoch l src dst" and six: "6 \<le> length cmd"
    and loc: "is_local gs src" "is_local gs dst"
    and sl: "sl = label_of gs src" "so = offset_of gs src" and dl: "dl = label_of gs dst" "do = offset_of gs dst"
    and g: "get_graph Inner sl gs = Inr g" "unat so < vertex_count g"
    and h: "get_graph Inner dl gs = Inr h" "unat do < vertex_count h"
    and data: "construct_eprop f (edge_schemas gs l) (drop 6 cmd) (string_buffer gs) = Some (data, b)" "length data = P l"
    and apart: "(sl, so) \<noteq> (dl, do) \<or> \<not> is_edge_undirected g l"
    and up: "\<forall>x \<in> set (L Inner sl (unat so) l EOUT). fst x \<le> epoch" "\<forall>x \<in> set (L Inner dl (unat do) l EIN). fst x \<le> epoch"
  shows "case process_add_edge em f cmd gs of
      Inl e \<Rightarrow> no_memory e
    | Inr gs' \<Rightarrow> keeps (gs\<lparr>string_buffer := b\<rparr>) gs' \<and> stores_ok P gs'
        (log_at Inner dl (is_edge_undirected h l) (unat do) l EIN (epoch, local_id gs sl so, data)
          (log_at Inner sl (is_edge_undirected g l) (unat so) l EOUT (epoch, local_id gs dl do, data) L))"
proof -
  have un: "unat so = unat do \<longleftrightarrow> so = do" by (simp add: word_unat_eq_iff)
  obtain gs1 where gs1: "create_graph_writer Inner sl epoch gs = Inr gs1" "stores_ok P gs1 L" "keeps gs gs1"
    using create_graph_writer_ok [OF ok g(1)] by blast
  obtain h1 where "get_graph Inner dl gs1 = Inr h1" by (rule keeps_graph [OF gs1(3) h(1)])
  then obtain gs2 where gs2: "create_graph_writer Inner dl epoch gs1 = Inr gs2" "stores_ok P gs2 L" "keeps gs1 gs2"
    using create_graph_writer_ok [OF gs1(2)] by blast
  have k2: "keeps gs gs2" by (rule keeps_trans [OF gs1(3) gs2(3)])
  let ?gs0 = "gs\<lparr>string_buffer := b\<rparr>" and ?gs3 = "gs2\<lparr>string_buffer := b\<rparr>"
  have k3: "keeps ?gs0 ?gs3"
  proof -
    obtain x y z where "gs2 = gs\<lparr>seg_graphs := x, ov_seg_graphs := y, rands := z\<rparr>" using k2 unfolding keeps_def by blast
    then have "?gs3 = ?gs0\<lparr>seg_graphs := x, ov_seg_graphs := y, rands := z\<rparr>" by simp
    then show ?thesis using k2 unfolding keeps_def get_graph_buffer by blast
  qed
  have ok3: "stores_ok P ?gs3 L" using gs2(2) by (simp add: stores_ok_def)
  obtain g2 where g2: "get_graph Inner sl ?gs3 = Inr g2" "vertex_count g2 = vertex_count g"
    "is_edge_undirected g2 l = is_edge_undirected g l" using keeps_graph [OF k3, of Inner sl g l] g(1) by auto
  have v2: "unat so < vertex_count g2" using g(2) g2(2) by simp
  let ?w1 = "writer_put_edge Inner sl epoch (unat so) l EOUT (local_id gs dl do) data ?gs3"
  let ?w2 = "writer_put_edge Inner dl epoch (unat do) l EIN (local_id gs sl so) data"
  have run: "process_add_edge em f cmd gs = and_then ?w1 ?w2"
    using cmd six loc gs1(1) gs2(1) data(1) keepsD(3,7) [OF k2]
    by (simp add: process_add_edge_def Let_def sl dl edge_line_def)
  let ?L1 = "log_at Inner sl (is_edge_undirected g l) (unat so) l EOUT (epoch, local_id gs dl do, data) L"
  note w1 = writer_put_edge_ok [OF ok3 g2(1) v2 data(2) up(1), of "local_id gs dl do", unfolded g2(3)]
  show ?thesis
  proof (cases ?w1)
    case (Inl e)
    then show ?thesis using w1 by (simp add: run)
  next
    case (Inr gs4)
    then have k4: "keeps ?gs3 gs4" and ok4: "stores_ok P gs4 ?L1" using w1 by simp_all
    have k: "keeps ?gs0 gs4" by (rule keeps_trans [OF k3 k4])
    obtain h4 where h4: "get_graph Inner dl gs4 = Inr h4" "vertex_count h4 = vertex_count h"
      "is_edge_undirected h4 l = is_edge_undirected h l" using keeps_graph [OF k, of Inner dl h l] h(1) by auto
    have "?L1 Inner dl (unat do) l EIN = L Inner dl (unat do) l EIN"
      using apart un by (intro log_at_other) auto
    then have "\<forall>x \<in> set (?L1 Inner dl (unat do) l EIN). fst x \<le> epoch" using up(2) by simp
    from writer_put_edge_ok [OF ok4 h4(1) _ data(2) this, of "local_id gs sl so", unfolded h4(3)] h(2) h4(2)
    show ?thesis using Inr keeps_trans [OF k] by (auto simp: run split: sum.splits)
  qed
qed

lemma keeps_buffer_graph:
  assumes "keeps (gs\<lparr>string_buffer := b\<rparr>) gs'" and "get_graph s label gs = Inr g"
  obtains g' where "get_graph s label gs' = Inr g'" "vertex_count g' = vertex_count g"
    "is_edge_undirected g' l = is_edge_undirected g l"
  using keeps_graph [OF assms(1), of s label g l] assms(2) by auto

text \<open>
C17: Adding an edge between two vertices of the partition: from its epoch on a fragment reads the source
with the edge to the destination as its first outgoing edge and the destination with the edge from the
source as its first incoming edge, both with the property record built from the line, and the older
edges after them; earlier epochs read what they read before. Adding the edge can only fail when memory
runs out.
\<close>

theorem add_edge_adds:
  fixes gs :: "'m graph_store"
  assumes ok: "stores_ok P gs L" and cmd: "edge_line cmd epoch l src dst" and six: "6 \<le> length cmd"
    and loc: "is_local gs src" "is_local gs dst"
    and sl: "sl = label_of gs src" "so = offset_of gs src" and dl: "dl = label_of gs dst" "do = offset_of gs dst"
    and g: "get_graph Inner sl gs = Inr g" "unat so < vertex_count g"
    and h: "get_graph Inner dl gs = Inr h" "unat do < vertex_count h"
    and data: "construct_eprop f (edge_schemas gs l) (drop 6 cmd) (string_buffer gs) = Some (data, b)" "length data = P l"
    and apart: "(sl, so) \<noteq> (dl, do) \<or> \<not> is_edge_undirected g l"
    and up: "\<forall>x \<in> set (L Inner sl (unat so) l EOUT). fst x \<le> epoch" "\<forall>x \<in> set (L Inner dl (unat do) l EIN). fst x \<le> epoch"
    and wf: "wf_log (log_words (L Inner sl (unat so) l EOUT))" "wf_log (log_words (L Inner dl (unat do) l EIN))"
    and ids: "layout (parser gs) w"
  shows "case process_add_edge em f cmd gs of
      Inl e \<Rightarrow> no_memory e
    | Inr gs' \<Rightarrow>
        (\<forall>e. vertex_edges gs' (P l) e Inner sl (unat so) l EOUT =
          map_option (\<lambda>es. if epoch \<le> e then (local_id gs dl do, data) # es else es)
            (vertex_edges gs (P l) e Inner sl (unat so) l EOUT)) \<and>
        (\<forall>e. vertex_edges gs' (P l) e Inner dl (unat do) l EIN =
          map_option (\<lambda>es. if epoch \<le> e then (local_id gs sl so, data) # es else es)
            (vertex_edges gs (P l) e Inner dl (unat do) l EIN))"
proof (cases "process_add_edge em f cmd gs")
  case (Inl e)
  then show ?thesis using add_edge_logs [OF assms(1-18), of em] by simp
next
  case (Inr gs')
  let ?L1 = "log_at Inner sl (is_edge_undirected g l) (unat so) l EOUT (epoch, local_id gs dl do, data) L"
  let ?L2 = "log_at Inner dl (is_edge_undirected h l) (unat do) l EIN (epoch, local_id gs sl so, data) ?L1"
  have k: "keeps (gs\<lparr>string_buffer := b\<rparr>) gs'" and L2: "stores_ok P gs' ?L2"
    using add_edge_logs [OF assms(1-18), of em] Inr by simp_all
  obtain g' where g': "get_graph Inner sl gs' = Inr g'" "vertex_count g' = vertex_count g"
    by (rule keeps_buffer_graph [OF k g(1)])
  obtain h' where h': "get_graph Inner dl gs' = Inr h'" "vertex_count h' = vertex_count h"
    by (rule keeps_buffer_graph [OF k h(1)])
  have un: "unat so = unat do \<longleftrightarrow> so = do" by (simp add: word_unat_eq_iff)
  have und: "sl = dl \<Longrightarrow> is_edge_undirected h l = is_edge_undirected g l" using g(1) h(1) by simp
  have lo: "?L2 Inner sl (unat so) l EOUT = L Inner sl (unat so) l EOUT @ [(epoch, local_id gs dl do, data)]"
    using apart un und by (subst log_at_other) (auto simp: log_at_same)
  have li: "?L2 Inner dl (unat do) l EIN = L Inner dl (unat do) l EIN @ [(epoch, local_id gs sl so, data)]"
    using apart un by (subst log_at_same, subst log_at_other) auto
  note r1 = read_plain [OF wf(1) up(1) local_id_plain [OF ids, of dl do]] 
  note r2 = read_plain [OF wf(2) up(2) local_id_plain [OF ids, of sl so]]
  have "vertex_edges gs' (P l) e Inner sl (unat so) l EOUT =
      map_option (\<lambda>es. if epoch \<le> e then (local_id gs dl do, data) # es else es)
        (vertex_edges gs (P l) e Inner sl (unat so) l EOUT)" for e
    using vertex_edges_rel [OF L2 g'(1), of "unat so" l EOUT e] vertex_edges_rel [OF ok g wf(1)] g(2) g'(2)
      r1 [of data e] unfolding lo by (simp add: visible_snoc)
  moreover have "vertex_edges gs' (P l) e Inner dl (unat do) l EIN =
      map_option (\<lambda>es. if epoch \<le> e then (local_id gs sl so, data) # es else es)
        (vertex_edges gs (P l) e Inner dl (unat do) l EIN)" for e
    using vertex_edges_rel [OF L2 h'(1), of "unat do" l EIN e] vertex_edges_rel [OF ok h wf(2)] h(2) h'(2)
      r2 [of data e] unfolding li by (simp add: visible_snoc)
  ultimately show ?thesis by (simp add: Inr)
qed

section \<open>Adding and deleting\<close>

lemma dead_bound: "wf_log ws \<Longrightarrow> k \<in> set (dead ws) \<Longrightarrow> k < length ws"
proof (induction ws rule: rev_induct)
  case (snoc w ws)
  then show ?case by (auto simp: wf_log_snoc split: if_splits)
qed simp

lemma deletable_snoc:
  assumes "wf_log (log_words lg)" and "\<forall>x \<in> set lg. fst x \<le> epoch" and "Q w" and "\<not> is_marker w" and "epoch \<le> epoch'"
  shows "deletable Q epoch' (lg @ [(epoch, w, data)])"
proof -
  have words: "log_words (lg @ [(epoch, w, data)]) = log_words lg @ [w]" by (simp add: log_words_def)
  have "length (log_words lg) \<notin> set (dead (log_words lg))" using dead_bound [OF assms(1)] by blast
  then have "newest_alive Q (log_words lg @ [w])" using assms(3,4) by (simp add: newest_alive_def)
  then show ?thesis using assms by (auto simp: deletable_def words wf_log_snoc)
qed


section \<open>A store evaluated\<close>

definition small_parser :: id_parser where
  "small_parser = the (Init 1 1)"

lemma demo_layout: "layout small_parser 1"
proof -
  have "Init 1 1 = Some small_parser" using Init_total [of 1 1] by (auto simp: small_parser_def)
  moreover have "fid_width_of 1 = 1" by (simp add: fid_width_of_def num_to_bitwidth_def)
  ultimately show ?thesis using Init_imp_layout by metis
qed

definition demo_cmd :: "string list" where
  "demo_cmd = [''1'', ''0'', ''0'', ''2'', ''7'', ''8'']"

lemma demo_line: "edge_line demo_cmd 1 0 0 2"
  by code_simp

lemma demo_ids: "GetOffset small_parser 0 = 0" "GetOffset small_parser 2 = 1" "GetLabelId small_parser 0 = 0"
  "GetLabelId small_parser 2 = 0" "GetFid small_parser 0 = 0" "GetFid small_parser 2 = 0"
  by code_simp+

definition two_vertices :: seg_graph where
  "two_vertices = (let g = new_seg_graph 67108864 8192 [False] in g\<lparr>vertex_count := 2, seg_count := 1\<rparr>)"

lemma two_vertices_run: "run_store [New_Vertex, New_Vertex] (new_seg_graph 67108864 8192 [False]) = Inr two_vertices"
  by (simp add: store_eval two_vertices_def cong: if_cong)

lemma two_puts: 
  assumes "length d1 = 65" "length d2 = 65"
  shows "\<exists>g1 g2. put_edge 1 0 0 EOUT w1 d1 two_vertices = Inr g1 \<and> put_edge 1 1 0 EIN w2 d2 g1 = Inr g2"
  using assms by (simp add: two_vertices_def store_eval cong: if_cong)

text \<open>A store with one label of two vertices; its edges have 57 one-character properties, so that the null
  bitmap has the eight bytes the deletion of an edge assumes.\<close>

definition wide_schema :: eprop_schema where
  "wide_schema = \<lparr>prop_total_bytes = 57, edge_bitmap_size = 8, prop_dtype = (\<lambda>i. CHAR_T), prop_prefix_bytes = (\<lambda>i. i)\<rparr>"

definition demo_gs :: "unit graph_store" where
  "demo_gs = \<lparr>local_pid = 0, parser = small_parser, edge_relation_size = 1,
     seg_graphs = [0 \<mapsto> two_vertices], ov_seg_graphs = (\<lambda>l. None), vertex_tables = (\<lambda>l. None),
     property_stores = (\<lambda>l. None), vprop_schemas = undefined, vprop_buffer = init_capacity 0 (\<lambda>a. 0),
     string_buffer = init_capacity 0 (\<lambda>a. 0), edge_schemas = (\<lambda>l. wide_schema), ovl2gs = (\<lambda>l. None),
     ovg2ls = (\<lambda>l. ()), vertex_maps = (\<lambda>l. ()), key_lid_map = (\<lambda>l k. None), external_id_dtype = (\<lambda>l. LONG),
     external_id_stores = (\<lambda>l. None), outer_external_id_stores = (\<lambda>l. None), rands = (\<lambda>i. 1)\<rparr>"

definition demo_width :: "nat \<Rightarrow> nat" where
  "demo_width l = 65"

lemma demo_stores: "stores_ok demo_width demo_gs (\<lambda>s label v l d. [])"
proof -
  have "store_ok demo_width two_vertices (\<lambda>v l d. [])"
    using new_store_run [of 67108864 demo_width "[New_Vertex, New_Vertex]" 8192 "[False]", unfolded two_vertices_run]
    by (simp add: demo_width_def MAX_PROP_def store_ok_def)
  then show ?thesis
    by (auto simp: stores_ok_def get_graph_def demo_gs_def demand_Inr split: side.splits if_splits)
qed

lemma demo_parts: "label_of demo_gs 0 = 0" "label_of demo_gs 2 = 0" "offset_of demo_gs 0 = 0" "offset_of demo_gs 2 = 1"
  "is_local demo_gs 0" "is_local demo_gs 2" "get_graph Inner 0 demo_gs = Inr two_vertices" "vertex_count two_vertices = 2"
  "\<not> is_edge_undirected two_vertices 0" "layout (parser demo_gs) 1"
  "construct_eprop f (edge_schemas demo_gs 0) (drop 6 demo_cmd) (string_buffer demo_gs) =
     Some (replicate 65 0, string_buffer demo_gs)" "6 \<le> length demo_cmd"
  by (simp_all add: demo_gs_def label_of_def offset_of_def is_local_def demo_ids get_graph_def two_vertices_def
      new_seg_graph_def Let_def is_edge_undirected_def demo_layout [simplified] construct_eprop_def demo_cmd_def wide_schema_def)


definition demo_del :: "string list" where
  "demo_del = [''2'', ''0'', ''0'', ''2'']"

lemma demo_del_line: "edge_line demo_del 2 0 0 2"
  by code_simp

definition demo_logs :: store_logs where
  "demo_logs = log_at Inner 0 False 1 0 EIN (1, local_id demo_gs 0 0, replicate 65 0)
     (log_at Inner 0 False 0 0 EOUT (1, local_id demo_gs 0 1, replicate 65 0) (\<lambda>s label v l d. []))"

lemma demo_log_cases: "demo_logs Inner 0 0 0 EOUT = [(1, local_id demo_gs 0 1, replicate 65 0)]"
  "demo_logs Inner 0 1 0 EIN = [(1, local_id demo_gs 0 0, replicate 65 0)]"
  "demo_logs Inner 0 1 0 EOUT = []"
  by (simp_all add: demo_logs_def log_at_def log_edge_def)

lemma demo_rel: "process_add_edge em f demo_cmd demo_gs = Inr gs1 \<Longrightarrow>
    keeps demo_gs gs1 \<and> stores_ok demo_width gs1 demo_logs"
  using add_edge_logs [OF demo_stores demo_line demo_parts(12) demo_parts(5,6), of 0 0 0 1 two_vertices two_vertices f
      "replicate 65 0" "string_buffer demo_gs" em]
  by (simp add: demo_parts [simplified] demo_width_def demo_logs_def)

lemma demo_entries: "entry_for demo_gs 1 (local_id demo_gs 0 1)" "entry_for demo_gs 0 (local_id demo_gs 0 0)"
  using entry_for_local_id [OF demo_parts(10), of 2 0] entry_for_local_id [OF demo_parts(10), of 0 0]
  by (simp_all add: demo_parts [simplified])

lemma four_puts:
  assumes "length d1 = 65" "length d2 = 65" "length d3 = 65" "length d4 = 65"
  shows "\<exists>g1 g2 g3 g4. put_edge 1 0 0 EOUT w1 d1 two_vertices = Inr g1 \<and> put_edge 1 1 0 EIN w2 d2 g1 = Inr g2 \<and>
    put_edge 2 0 0 EOUT w3 d3 g2 = Inr g3 \<and> put_edge 2 1 0 EIN w4 d4 g3 = Inr g4"
  using assms by (simp add: two_vertices_def store_eval cong: if_cong)

lemma demo_writer:
  "create_graph_writer Inner 0 e (set_graph Inner 0 g demo_gs) = Inr (set_graph Inner 0 g demo_gs)"
proof -
  have "set_graph Inner 0 g demo_gs\<lparr>rands := \<lambda>i. rands (set_graph Inner 0 g demo_gs) (Suc i)\<rparr> = set_graph Inner 0 g demo_gs"
    by (simp add: demo_gs_def set_graph_def)
  moreover have "rands (set_graph Inner 0 g demo_gs) 0 mod RECYCLE_FREQ \<noteq> 0"
    by (simp add: demo_gs_def set_graph_def RECYCLE_FREQ_def)
  ultimately show ?thesis by (simp add: create_graph_writer_def Let_def)
qed

lemma demo_set: "set_graph Inner 0 two_vertices demo_gs = demo_gs"
  "set_graph Inner 0 a (set_graph Inner 0 b demo_gs) = set_graph Inner 0 a demo_gs"
  by (simp_all add: set_graph_def demo_gs_def)

lemma demo_add:
  assumes "put_edge 1 0 0 EOUT (local_id demo_gs 0 1) (replicate 65 0) two_vertices = Inr g1"
    and "put_edge 1 1 0 EIN (local_id demo_gs 0 0) (replicate 65 0) g1 = Inr g2"
  shows "process_add_edge em f demo_cmd demo_gs = Inr (set_graph Inner 0 g2 demo_gs)"
proof -
  have "demo_gs\<lparr>string_buffer := string_buffer demo_gs\<rparr> = demo_gs" by simp
  then show ?thesis
    using demo_line [unfolded edge_line_def] demo_writer [of 1 two_vertices, unfolded demo_set(1)] assms demo_parts
    by (simp add: process_add_edge_def Let_def writer_put_edge_run demo_set)
qed

lemma demo_same:
  "label_of (set_graph Inner 0 g demo_gs) v = label_of demo_gs v"
  "offset_of (set_graph Inner 0 g demo_gs) v = offset_of demo_gs v"
  "is_local (set_graph Inner 0 g demo_gs) v = is_local demo_gs v"
  "entry_for (set_graph Inner 0 g demo_gs) q = entry_for demo_gs q"
  "edge_schemas (set_graph Inner 0 g demo_gs) l = wide_schema"
  by (simp_all add: label_of_def offset_of_def is_local_def entry_for_def set_graph_def fun_eq_iff demo_gs_def)

lemma demo_run: "\<exists>gs1 gs2. process_add_edge em f demo_cmd demo_gs = Inr gs1 \<and> process_del_edge demo_del gs1 = Inr gs2"
proof -
  let ?z = "replicate 65 (0 :: u8)" and ?gs = "\<lambda>g. set_graph Inner 0 g demo_gs"
  have len: "length ?z = 65" by simp
  obtain g1 g2 g3 g4 where g: "put_edge 1 0 0 EOUT (local_id demo_gs 0 1) ?z two_vertices = Inr g1"
    "put_edge 1 1 0 EIN (local_id demo_gs 0 0) ?z g1 = Inr g2"
    "put_edge 2 0 0 EOUT (mark 0) ?z g2 = Inr g3" "put_edge 2 1 0 EIN (mark 0) ?z g3 = Inr g4"
    using four_puts [OF len len len len] by blast
  note add = demo_add [OF g(1,2), of em f]
  have rel: "keeps demo_gs (?gs g2)" "stores_ok demo_width (?gs g2) demo_logs" using demo_rel [OF add] by simp_all
  have sh: "same_shape two_vertices g2" by (rule keeps_shape [OF rel(1) demo_parts(7)]) simp
  then have vc: "0 < vertex_count g2" by (simp add: same_shape_def demo_parts)
  have g2: "get_graph Inner 0 (?gs g2) = Inr g2" by simp
  have k1: "newest_pos (entry_for demo_gs 1) (log_words (demo_logs Inner 0 0 0 EOUT)) = Some 0"
    and k2: "newest_pos (entry_for demo_gs 0) (log_words (demo_logs Inner 0 1 0 EIN)) = Some 0"
    using newest_pos_snoc [of _ "[]"] demo_entries by (simp_all add: demo_log_cases [simplified] log_words_def)
  have m1: "mark_newest (entry_for demo_gs 1) Inner 0 2 0 0 EOUT ?z (?gs g2) = Inr (True, ?gs g3)"
    using mark_newest_run [OF rel(2) g2 vc k1 g(3)] by (simp add: demo_set)
  let ?L3 = "log_at Inner 0 (is_edge_undirected g2 0) 0 0 EOUT (2, mark 0, ?z) demo_logs"
  have r3: "keeps (?gs g2) (?gs g3)" "stores_ok demo_width (?gs g3) ?L3"
    using writer_put_edge_ok [OF rel(2) g2 vc, of ?z 0 EOUT 2 "mark 0"] g(3)
    by (simp_all add: writer_put_edge_run demo_log_cases [simplified] demo_width_def demo_set)
  have "same_shape g2 g3" by (rule keeps_shape [OF r3(1) g2]) simp
  then have vc3: "1 < vertex_count g3" using sh by (simp add: same_shape_def demo_parts)
  have "?L3 Inner 0 1 0 EIN = demo_logs Inner 0 1 0 EIN" by (rule log_at_other) simp
  then have k3: "newest_pos (entry_for demo_gs 0) (log_words (?L3 Inner 0 1 0 EIN)) = Some 0" using k2 by simp
  have "get_graph Inner 0 (?gs g3) = Inr g3" by simp
  from mark_newest_run [OF r3(2) this vc3 k3 g(4)]
  have m2: "mark_newest (entry_for demo_gs 0) Inner 0 2 1 0 EIN ?z (?gs g3) = Inr (True, ?gs g4)" by (simp add: demo_set)
  have z: "replicate (prop_total_bytes wide_schema + 8) 0 = ?z" by (simp add: wide_schema_def)
  have "process_del_edge demo_del (?gs g2) = Inr (?gs g4)"
    using demo_del_line [unfolded edge_line_def] m1 m2
    by (simp add: process_del_edge_def Let_def demo_writer demo_same demo_parts z del: replicate.simps)
  then show ?thesis using add by blast
qed

lemma no_logs: "live_edges (visible e []) = []"
  by (simp add: visible_def live_edges_def live_def)

lemma demo_fresh: "vertex_edges demo_gs 65 e Inner 0 0 0 EOUT = Some []" "vertex_edges demo_gs 65 e Inner 0 1 0 EIN = Some []"
  using vertex_edges_rel [OF demo_stores demo_parts(7), where v = 0 and l = 0 and d = EOUT and e = e]
    vertex_edges_rel [OF demo_stores demo_parts(7), where v = 1 and l = 0 and d = EIN and e = e]
  by (simp_all add: demo_parts demo_width_def no_logs log_words_def)

lemmas demo_hyps = demo_parts [simplified]

lemma demo_width_ok: "length (replicate 65 (0 :: u8)) = demo_width 0" "demo_width 0 = prop_total_bytes (edge_schemas demo_gs 0) + 8"
  by (simp_all add: demo_width_def demo_gs_def wide_schema_def)

lemma add_edge_adds_witness:
  "\<exists>gs1. process_add_edge (\<lambda>a b m. m) (\<lambda>t s. None) demo_cmd demo_gs = Inr gs1 \<and>
     vertex_edges gs1 65 1 Inner 0 0 0 EOUT = Some [(local_id demo_gs 0 1, replicate 65 0)] \<and>
     vertex_edges gs1 65 0 Inner 0 0 0 EOUT = Some [] \<and>
     vertex_edges gs1 65 1 Inner 0 1 0 EIN = Some [(local_id demo_gs 0 0, replicate 65 0)]"
proof -
  obtain gs1 where run: "process_add_edge (\<lambda>a b m. m) (\<lambda>t s. None) demo_cmd demo_gs = Inr gs1" using demo_run by blast
  show ?thesis
    using add_edge_adds [OF demo_stores demo_line demo_parts(12) demo_parts(5,6), of 0 0 0 1 two_vertices two_vertices
        "\<lambda>t s. None" "replicate 65 0" "string_buffer demo_gs" 1 "\<lambda>a b m. m"] run
    by (simp add: demo_hyps demo_width_def demo_fresh [simplified] log_words_def)
qed


lemma demo_after:
  assumes "process_add_edge em f demo_cmd demo_gs = Inr gs1"
  obtains g1 where "stores_ok demo_width gs1 demo_logs" "is_local gs1 0" "is_local gs1 2"
    "label_of gs1 0 = 0" "label_of gs1 2 = 0" "offset_of gs1 0 = 0" "offset_of gs1 2 = 1"
    "get_graph Inner 0 gs1 = Inr g1" "vertex_count g1 = 2" "\<not> is_edge_undirected g1 0"
    "demo_width 0 = prop_total_bytes (edge_schemas gs1 0) + 8"
    "deletable (entry_for gs1 1) 2 (demo_logs Inner 0 0 0 EOUT)" "deletable (entry_for gs1 0) 2 (demo_logs Inner 0 1 0 EIN)"
proof -
  have k: "keeps demo_gs gs1" and ok: "stores_ok demo_width gs1 demo_logs" using demo_rel [OF assms] by simp_all
  obtain g1 where g1: "get_graph Inner 0 gs1 = Inr g1" "vertex_count g1 = vertex_count two_vertices"
    "is_edge_undirected g1 0 = is_edge_undirected two_vertices 0" by (rule keeps_graph [OF k demo_parts(7)])
  have e: "entry_for gs1 q = entry_for demo_gs q" for q using keepsD(13) [OF k] by (simp add: fun_eq_iff)
  have "deletable (entry_for demo_gs 1) 2 ([] @ [(1, local_id demo_gs 0 1, replicate 65 0)])"
    using demo_entries(1) local_id_plain [OF demo_parts(10)]
    by (intro deletable_snoc [where epoch = 1]) (simp_all add: log_words_def)
  moreover have "deletable (entry_for demo_gs 0) 2 ([] @ [(1, local_id demo_gs 0 0, replicate 65 0)])"
    using demo_entries(2) local_id_plain [OF demo_parts(10)]
    by (intro deletable_snoc [where epoch = 1]) (simp_all add: log_words_def)
  ultimately show thesis
    using g1 ok keepsD(8-10) [OF k] keepsD(3) [OF k] demo_width_ok(2)
    by (intro that) (simp_all add: demo_hyps e demo_log_cases [simplified])
qed


lemma del_edge_keeps_rest_witness:
  "\<exists>gs1 gs2. process_add_edge (\<lambda>a b m. m) (\<lambda>t s. None) demo_cmd demo_gs = Inr gs1 \<and>
     process_del_edge demo_del gs1 = Inr gs2 \<and>
     vertex_edges gs2 (demo_width 1) 2 Inner 0 0 1 EOUT = vertex_edges gs1 (demo_width 1) 2 Inner 0 0 1 EOUT"
proof -
  obtain gs1 gs2 where run: "process_add_edge (\<lambda>a b m. m) (\<lambda>t s. None) demo_cmd demo_gs = Inr gs1"
    "process_del_edge demo_del gs1 = Inr gs2" using demo_run by blast
  obtain g1 where D: "stores_ok demo_width gs1 demo_logs" "is_local gs1 0" "is_local gs1 2"
    "label_of gs1 0 = 0" "label_of gs1 2 = 0" "offset_of gs1 0 = 0" "offset_of gs1 2 = 1"
    "get_graph Inner 0 gs1 = Inr g1" "vertex_count g1 = 2" "\<not> is_edge_undirected g1 0"
    "demo_width 0 = prop_total_bytes (edge_schemas gs1 0) + 8"
    "deletable (entry_for gs1 1) 2 (demo_logs Inner 0 0 0 EOUT)" "deletable (entry_for gs1 0) 2 (demo_logs Inner 0 1 0 EIN)"
    by (rule demo_after [OF run(1)])
  have "demo_logs Inner 0 0 1 EOUT = []" by (simp add: demo_logs_def log_at_def log_edge_def)
  then show ?thesis
    using del_edge_keeps_rest [OF D(1) demo_del_line D(2,3), where sl = 0 and so = 0 and dl = 0 and do = 1 and g = g1 and h = g1 and gs' = gs2 and l' = 1 and s = Inner and label = 0
        and v = 0 and k = g1 and d = EOUT] D(4-13) run
    by (auto simp: log_words_def)
qed

end
