(* ===== verification/Graph_Widths.thy ===== *)
theory Graph_Widths
  imports Graph_Edges
begin

text \<open>
  A run of two additions and a deletion of edges evaluated, in a store whose edges have one property of
  one character: the record of such an edge has two bytes, the markers \<open>process_del_edge\<close>
  appends have nine.
\<close>

section \<open>The width of the markers\<close>

lemma narrow_puts:
  assumes "\<not> is_marker w0"
  shows "\<exists>g1 g2 g3 g4 g5 g6. put_edge 1 0 0 EOUT w1 [0, 65] two_vertices = Inr g1 \<and> put_edge 1 1 0 EIN w0 [0, 65] g1 = Inr g2 \<and>
    put_edge 1 1 0 EOUT w0 [0, 66] g2 = Inr g3 \<and> put_edge 1 0 0 EIN w1 [0, 66] g3 = Inr g4 \<and>
    put_edge 2 0 0 EOUT (mark 0) [0,0,0,0,0,0,0,0,0] g4 = Inr g5 \<and> put_edge 2 1 0 EIN (mark 0) [0,0,0,0,0,0,0,0,0] g5 = Inr g6 \<and>
    (\<exists>bs. edge_chain 0 0 EOUT g4 = Inr bs \<and> block_words bs = [w1]) \<and>
    (\<exists>bs. edge_chain 1 0 EIN g5 = Inr bs \<and> block_words bs = [w0]) \<and>
    fragment_edges g4 2 1 1 0 EOUT = Some [(w0, [0, 66])] \<and> fragment_edges g6 2 1 1 0 EOUT = Some [(w0, [0, 0])]"
  apply (simp add: two_vertices_def store_eval cong: if_cong)
  apply (simp add: edge_chain_def fragment_edges_def init_cursor_def EdgeIterator_def locate_segment_def NULLPOINTER_def Let_def get_vertex_seg_id_def get_vertex_seg_idx_def find_label_def get_pointer_def get_num_entries_def VERTEX_PER_SEG_def)
  apply (subst collect_blocks.simps, simp add: NULLPOINTER_def)
  apply (subst collect_blocks.simps, simp add: NULLPOINTER_def)
  apply (subst collect_blocks.simps, simp add: NULLPOINTER_def)
  apply (subst collect_blocks.simps, simp add: NULLPOINTER_def)
  apply (subst next_valid_edge.simps, simp add: NULLPOINTER_def Let_def assms)
  apply (subst edge_visit.simps, simp add: edge_iter_valid_def edge_iter_edge_def edge_iter_next_def)
  apply (subst next_valid_edge.simps, simp add: NULLPOINTER_def Let_def assms)
  apply (subst edge_visit.simps, simp add: edge_iter_valid_def edge_iter_edge_def edge_iter_next_def)
  apply (subst next_valid_edge.simps, simp add: NULLPOINTER_def Let_def assms)
  apply (subst edge_visit.simps, simp add: edge_iter_valid_def edge_iter_edge_def edge_iter_next_def)
  apply (subst next_valid_edge.simps, simp add: NULLPOINTER_def Let_def assms)
  apply (subst edge_visit.simps, simp add: edge_iter_valid_def edge_iter_edge_def edge_iter_next_def)
  apply (simp add: get_property_def get_allocated_edge_num_def property_start_def size_defs get_block_size_def upt_conv_Cons)
  done
definition narrow_gs :: "unit graph_store" where
  "narrow_gs = demo_gs\<lparr>edge_schemas := (\<lambda>l. \<lparr>prop_total_bytes = 1, edge_bitmap_size = 1,
     prop_dtype = (\<lambda>i. CHAR_T), prop_prefix_bytes = (\<lambda>i. i)\<rparr>)\<rparr>"

definition line_there :: "string list" where
  "line_there = [''1'', ''0'', ''0'', ''2'', ''7'', ''8'', ''A'']"

definition line_back :: "string list" where
  "line_back = [''1'', ''0'', ''2'', ''0'', ''8'', ''7'', ''B'']"

lemma narrow_lines: "edge_line line_there 1 0 0 2" "edge_line line_back 1 0 2 0"
  by code_simp+

abbreviation narrow_with :: "seg_graph \<Rightarrow> unit graph_store" where
  "narrow_with g \<equiv> set_graph Inner 0 g narrow_gs"

lemma narrow_parts:
  "label_of (narrow_with g) v = label_of demo_gs v" "offset_of (narrow_with g) v = offset_of demo_gs v"
  "is_local (narrow_with g) v = is_local demo_gs v" "entry_for (narrow_with g) q = entry_for demo_gs q"
  "local_id (narrow_with g) l p = local_id demo_gs l p" "prop_total_bytes (edge_schemas (narrow_with g) l) = 1"
  "construct_eprop f (edge_schemas (narrow_with g) l) [[c]] b = Some ([0, of_char c], b)"
  by (simp_all add: narrow_gs_def label_of_def offset_of_def is_local_def entry_for_def local_id_def set_graph_def
      fun_eq_iff demo_gs_def construct_eprop_def eprop_step_def assign_prop_def put_bytes_def)

lemma narrow_set: "set_graph Inner 0 two_vertices narrow_gs = narrow_gs"
  "set_graph Inner 0 a (narrow_with b) = narrow_with a" "narrow_with g\<lparr>string_buffer := string_buffer (narrow_with h)\<rparr> = narrow_with g"
  by (simp_all add: set_graph_def narrow_gs_def demo_gs_def)

lemma narrow_writer: "create_graph_writer Inner 0 e (narrow_with g) = Inr (narrow_with g)"
proof -
  have "narrow_with g\<lparr>rands := \<lambda>i. rands (narrow_with g) (Suc i)\<rparr> = narrow_with g"
    by (simp add: narrow_gs_def demo_gs_def set_graph_def)
  moreover have "rands (narrow_with g) 0 mod RECYCLE_FREQ \<noteq> 0"
    by (simp add: narrow_gs_def demo_gs_def set_graph_def RECYCLE_FREQ_def)
  ultimately show ?thesis by (simp add: create_graph_writer_def Let_def)
qed

lemma narrow_get: "get_graph Inner 0 narrow_gs = Inr two_vertices"
  by (simp add: narrow_gs_def demo_gs_def get_graph_def)

lemma narrow_add:
  assumes "put_edge 1 a 0 EOUT (local_id demo_gs 0 (of_nat b)) [0, of_char c] g = Inr g1"
    and "put_edge 1 b 0 EIN (local_id demo_gs 0 (of_nat a)) [0, of_char c] g1 = Inr g2"
    and "edge_line cmd 1 0 src dst" "6 \<le> length cmd" "drop 6 cmd = [[c]]"
    and "is_local demo_gs src" "is_local demo_gs dst" "label_of demo_gs src = 0" "label_of demo_gs dst = 0"
      "offset_of demo_gs src = of_nat a" "offset_of demo_gs dst = of_nat b" "a < 2 ^ 60" "b < 2 ^ 60"
  shows "process_add_edge em f cmd (narrow_with g) = Inr (narrow_with g2)"
proof -
  have "unat (of_nat a :: u64) = a" "unat (of_nat b :: u64) = b" using assms(12,13) by (simp_all add: unat_of_nat)
  then show ?thesis
    using assms(1-11) [unfolded edge_line_def]
    by (simp add: process_add_edge_def Let_def narrow_writer narrow_parts narrow_set writer_put_edge_run)
qed

text \<open>
C37: The markers of a deleted edge have the width of the properties plus eight bytes, the size of a
variable of the code, instead of the width of the null bitmap. Where the two differ, the zeros of a marker
fall into the records of other edges: after two edges with a one-character property between two vertices,
one in each direction, deleting one at epoch 2 erases the property of the other, also for a
fragment that reads at epoch 1.
\<close>

theorem del_edge_erases_others:
  "\<exists>gs1 gs2 gs3. process_add_edge em f line_there narrow_gs = Inr gs1 \<and> process_add_edge em f line_back gs1 = Inr gs2 \<and>
     vertex_edges gs2 2 1 Inner 0 1 0 EOUT = Some [(local_id demo_gs 0 0, [0, 66])] \<and>
     process_del_edge demo_del gs2 = Inr gs3 \<and>
     vertex_edges gs3 2 1 Inner 0 1 0 EOUT = Some [(local_id demo_gs 0 0, [0, 0])]"
proof -
  let ?w0 = "local_id demo_gs 0 0" and ?w1 = "local_id demo_gs 0 1"
  obtain g1 g2 g3 g4 g5 g6 b1 b2 where g: "put_edge 1 0 0 EOUT ?w1 [0, 65] two_vertices = Inr g1" "put_edge 1 1 0 EIN ?w0 [0, 65] g1 = Inr g2"
      "put_edge 1 1 0 EOUT ?w0 [0, 66] g2 = Inr g3" "put_edge 1 0 0 EIN ?w1 [0, 66] g3 = Inr g4"
      "put_edge 2 0 0 EOUT (mark 0) [0,0,0,0,0,0,0,0,0] g4 = Inr g5" "put_edge 2 1 0 EIN (mark 0) [0,0,0,0,0,0,0,0,0] g5 = Inr g6"
    and b: "edge_chain 0 0 EOUT g4 = Inr b1" "block_words b1 = [?w1]" "edge_chain 1 0 EIN g5 = Inr b2" "block_words b2 = [?w0]"
    and r: "fragment_edges g4 2 1 1 0 EOUT = Some [(?w0, [0, 66])]" "fragment_edges g6 2 1 1 0 EOUT = Some [(?w0, [0, 0])]"
    using narrow_puts [OF local_id_plain [OF demo_parts(10)], of ?w1 0 0] by blast
  have add1: "process_add_edge em f line_there narrow_gs = Inr (narrow_with g2)"
    using narrow_add [of 0 1 "CHR ''A''" two_vertices g1 g2 line_there 0 2 em f] g narrow_lines(1)
    by (simp add: demo_hyps narrow_set line_there_def)
  have add2: "process_add_edge em f line_back (narrow_with g2) = Inr (narrow_with g4)"
    using narrow_add [of 1 0 "CHR ''B''" g2 g3 g4 line_back 2 0 em f] g narrow_lines(2)
    by (simp add: demo_hyps line_back_def)
  have k: "newest_pos (entry_for demo_gs 1) [?w1] = Some 0" "newest_pos (entry_for demo_gs 0) [?w0] = Some 0"
    using newest_pos_snoc [of _ "[]"] demo_entries by simp_all
  have z: "replicate 9 (0 :: u8) = [0,0,0,0,0,0,0,0,0]" by (simp add: numeral_eq_Suc)
  have m: "mark_newest (entry_for demo_gs 1) Inner 0 2 0 0 EOUT [0,0,0,0,0,0,0,0,0] (narrow_with g4) = Inr (True, narrow_with g5)"
    "mark_newest (entry_for demo_gs 0) Inner 0 2 1 0 EIN [0,0,0,0,0,0,0,0,0] (narrow_with g5) = Inr (True, narrow_with g6)"
    using b g(5,6) k by (simp_all add: mark_newest_def find_newest_blocks writer_put_edge_run narrow_set)
  have "process_del_edge demo_del (narrow_with g4) = Inr (narrow_with g6)"
    using demo_del_line [unfolded edge_line_def] m
    by (simp add: process_del_edge_def Let_def narrow_writer narrow_parts demo_hyps z [simplified])
  then show ?thesis using add1 add2 r by (auto simp: vertex_edges_def)
qed

end
