(* ===== verification/Graph_Vertices.thy ===== *)
theory Graph_Vertices
  imports Graph_Edges
begin

text \<open>
  The deletion of a vertex of the partition: all its edges of all labels are marked as deleted, and one
  entry of the vertex at the other end of each.
\<close>

section \<open>Counters\<close>

lemma count_ok:
  assumes "store_ok P g lgs"
  shows "store_ok P (add_deleted_inner_num n g) lgs \<and> same_shape g (add_deleted_inner_num n g)"
proof -
  have f: "manager (add_deleted_inner_num n g) = manager g" "edge_label_ptrs (add_deleted_inner_num n g) = edge_label_ptrs g"
    "label_blocks (add_deleted_inner_num n g) = label_blocks g" "segments (add_deleted_inner_num n g) = segments g"
    "epoch_blocks (add_deleted_inner_num n g) = epoch_blocks g"
    "edge_is_undirected (add_deleted_inner_num n g) = edge_is_undirected g"
    "segments_to_recycle (add_deleted_inner_num n g) = segments_to_recycle g"
    "vertex_count (add_deleted_inner_num n g) = vertex_count g" "seg_count (add_deleted_inner_num n g) = seg_count g"
    by (simp_all add: add_deleted_inner_num_def)
  show ?thesis
    using assms graph_rel_cong [OF _ f(1-7), of P lgs]
    unfolding store_ok_def by (auto simp: verts_ok_def heads_def same_shape_def f)
qed

section \<open>Logs that only grow\<close>

text \<open>Entries of one epoch are appended.\<close>

definition grows :: "int \<Rightarrow> store_logs \<Rightarrow> store_logs \<Rightarrow> bool" where
  "grows epoch L L' \<longleftrightarrow> (\<forall>s label v l d. \<exists>ys. L' s label v l d = L s label v l d @ ys \<and> (\<forall>y \<in> set ys. fst y = epoch))"

lemma grows_refl: "grows epoch L L"
  by (simp add: grows_def)

lemma grows_trans:
  assumes "grows epoch A B" and "grows epoch B C"
  shows "grows epoch A C"
  unfolding grows_def
proof (intro allI)
  fix s label v l d
  obtain xs ys where "B s label v l d = A s label v l d @ xs" "\<forall>y \<in> set xs. fst y = epoch"
    "C s label v l d = B s label v l d @ ys" "\<forall>y \<in> set ys. fst y = epoch"
    using assms unfolding grows_def by meson
  then show "\<exists>ys. C s label v l d = A s label v l d @ ys \<and> (\<forall>y \<in> set ys. fst y = epoch)"
    by (intro exI [of _ "xs @ ys"]) auto
qed

lemma grows_log_at: "grows epoch L (log_at s label u v l d (epoch, x) L)"
  by (auto simp: grows_def log_at_def log_edge_def)

lemma grows_nonempty: "grows epoch L L' \<Longrightarrow> L s label v l d \<noteq> [] \<Longrightarrow> L' s label v l d \<noteq> []"
  unfolding grows_def by (metis append_is_Nil_conv)

text \<open>No entry is newer than an epoch.\<close>

definition up_to :: "int \<Rightarrow> store_logs \<Rightarrow> bool" where
  "up_to epoch L \<longleftrightarrow> (\<forall>s label v l d. \<forall>x \<in> set (L s label v l d). fst x \<le> epoch)"

lemma up_toD: "up_to epoch L \<Longrightarrow> \<forall>x \<in> set (L s label v l d). fst x \<le> epoch"
  by (auto simp: up_to_def)

lemma up_to_grows:
  assumes "up_to epoch L" and "grows epoch L L'"
  shows "up_to epoch L'"
  unfolding up_to_def
proof (intro allI)
  fix s label v l d
  obtain ys where "L' s label v l d = L s label v l d @ ys" "\<forall>y \<in> set ys. fst y = epoch"
    using assms(2) unfolding grows_def by meson
  then show "\<forall>x \<in> set (L' s label v l d). fst x \<le> epoch" using up_toD [OF assms(1), of s label v l d] by fastforce
qed

lemma grows_visible: "grows epoch L L' \<Longrightarrow> e < epoch \<Longrightarrow> visible e (L' s label v l d) = visible e (L s label v l d)"
proof -
  assume g: "grows epoch L L'" and e: "e < epoch"
  obtain ys where ys: "L' s label v l d = L s label v l d @ ys" "\<forall>y \<in> set ys. fst y = epoch"
    using g unfolding grows_def by meson
  then have "filter (\<lambda>x. fst x \<le> e) ys = []" using e by (auto simp: filter_empty_conv)
  then show ?thesis by (simp add: ys(1) visible_def)
qed

section \<open>The other end of an edge\<close>

text \<open>The vertex an entry of a local vertex leads to, as the deletion finds it.\<close>

definition other_end :: "'m graph_store \<Rightarrow> u64 \<Rightarrow> side \<times> nat \<times> nat" where
  "other_end gs w =
     (if unat (offset_of gs w) < get_vtable_max_inner gs (label_of gs w)
      then (Inner, label_of gs w, unat (offset_of gs w))
      else (Outer, label_of gs w, unat (max_outer_id_offset gs - offset_of gs w)))"

text \<open>The other end exists, is not the vertex itself and has edges of the label in the other direction.\<close>

definition linked :: "nat \<times> nat \<Rightarrow> 'm graph_store \<Rightarrow> store_logs \<Rightarrow> nat \<Rightarrow> dir_t \<Rightarrow> u64 \<Rightarrow> bool" where
  "linked own gs L l d w \<longleftrightarrow> (case other_end gs w of (s, label, v) \<Rightarrow>
     (s, label, v) \<noteq> (Inner, own) \<and> L s label v l d \<noteq> [] \<and>
     (\<exists>g. get_graph s label gs = Inr g \<and> v < vertex_count g))"

lemma keeps_other_end: "keeps gs gs' \<Longrightarrow> other_end gs' w = other_end gs w"
  by (simp add: other_end_def keepsD)

lemma linked_later:
  assumes "linked own gs L l d w" and "keeps gs gs'" and "grows epoch L L'"
  shows "linked own gs' L' l d w"
proof -
  obtain s label v where o: "other_end gs w = (s, label, v)" by (metis prod.exhaust)
  then obtain g where g: "get_graph s label gs = Inr g" "v < vertex_count g"
    and a: "(s, label, v) \<noteq> (Inner, own)" "L s label v l d \<noteq> []"
    using assms(1) by (auto simp: linked_def)
  obtain g' where "get_graph s label gs' = Inr g'" "vertex_count g' = vertex_count g"
    by (rule keeps_graph [OF assms(2) g(1)])
  then show ?thesis
    using g(2) a grows_nonempty [OF assms(3)] o by (auto simp: linked_def keeps_other_end [OF assms(2)])
qed

text \<open>Both branches of the code mark the newest entry of the other end.\<close>

lemma unlink_other_eq:
  "other_end gs w = (s, label, v) \<Longrightarrow> unlink_other dir epoch l off data w gs =
     and_then (create_graph_writer s label epoch gs) (\<lambda>gs1.
     and_then (mark_newest (entry_for gs off) s label epoch v l dir data gs1) (\<lambda>(found, gs2). Inr gs2))"
  by (auto simp: unlink_other_def other_end_def Let_def split: if_splits)

lemma unlink_other_ok:
  assumes ok: "stores_ok P gs L" and up: "up_to epoch L" and len: "length data = P l"
    and li: "linked own gs L l dir w"
  shows "case unlink_other dir epoch l off data w gs of
      Inl e \<Rightarrow> no_memory e
    | Inr gs' \<Rightarrow> keeps gs gs' \<and> (\<exists>L'. stores_ok P gs' L' \<and> grows epoch L L' \<and> up_to epoch L' \<and>
        (\<forall>l d. L' Inner (fst own) (snd own) l d = L Inner (fst own) (snd own) l d))"
proof -
  obtain s label v where o: "other_end gs w = (s, label, v)" by (metis prod.exhaust)
  then obtain g where g: "get_graph s label gs = Inr g" "v < vertex_count g"
    and a: "(s, label, v) \<noteq> (Inner, own)" "L s label v l dir \<noteq> []"
    using li by (auto simp: linked_def)
  obtain gs1 where gs1: "create_graph_writer s label epoch gs = Inr gs1" "stores_ok P gs1 L" "keeps gs gs1"
    using create_graph_writer_ok [OF ok g(1)] by blast
  obtain g1 where g1: "get_graph s label gs1 = Inr g1" "vertex_count g1 = vertex_count g"
    by (rule keeps_graph [OF gs1(3) g(1)])
  have v1: "v < vertex_count g1" using g g1 by simp
  let ?m = "mark_newest (entry_for gs off) s label epoch v l dir data gs1"
  note mk = mark_newest_ok [OF gs1(2) g1(1) v1 len up_toD [OF up] a(2), of "entry_for gs off"]
  show ?thesis
  proof (cases ?m)
    case (Inl e)
    then show ?thesis using mk gs1(1) by (simp add: unlink_other_eq [OF o])
  next
    case (Inr r)
    obtain found gs2 where r: "r = (found, gs2)" by (cases r)
    have run: "unlink_other dir epoch l off data w gs = Inr gs2"
      using Inr gs1(1) by (simp add: unlink_other_eq [OF o] r)
    show ?thesis
    proof (cases "newest_pos (entry_for gs off) (log_words (L s label v l dir))")
      case None
      then show ?thesis
        using mk gs1 ok up grows_refl keeps_trans [OF gs1(3)] by (auto simp: Inr r run)
    next
      case (Some k)
      let ?L = "log_at s label (is_edge_undirected g1 l) v l dir (epoch, mark k, data) L"
      have gr: "grows epoch L ?L" by (rule grows_log_at)
      have "?L Inner (fst own) (snd own) l' d' = L Inner (fst own) (snd own) l' d'" for l' d'
        using a(1) by (intro log_at_other) (cases own, auto)
      then show ?thesis
        using mk Some keeps_trans [OF gs1(3)] gr up_to_grows [OF up gr] by (auto simp: Inr r run)
    qed
  qed
qed

section \<open>The edges of the vertex itself\<close>

abbreviation live_words :: "log \<Rightarrow> (nat \<times> u64) list" where
  "live_words lg \<equiv> live (log_words lg)"

text \<open>Marking the newest entry that is alive.\<close>

lemma mark_last_live:
  assumes wf: "wf_log (log_words lg)" and lv: "rev (live_words lg) = (k, w) # rest" and small: "length lg < 2 ^ 63"
  shows "wf_log (log_words (lg @ [(epoch, mark k, data)]))" and "rev (live_words (lg @ [(epoch, mark k, data)])) = rest"
proof -
  let ?ws = "log_words lg"
  have words: "log_words (lg @ [(epoch, mark k, data)]) = ?ws @ [mark k]" by (simp add: log_words_def)
  have lv': "live ?ws = rev rest @ [(k, w)]" using arg_cong [OF lv, of rev] by simp
  then have "(k, w) \<in> set (live ?ws)" by simp
  then have k: "k < length ?ws" "?ws ! k = w" "\<not> is_marker w" "k \<notin> set (dead ?ws)"
    by (auto simp: live_def alive_def in_set_enumerate_eq)
  have off: "delete_offset (mark k) = k" using k(1) small by (intro delete_offset_mark) (simp add: log_words_def)
  show "wf_log (log_words (lg @ [(epoch, mark k, data)]))" using wf k by (simp add: words wf_log_snoc off)
  have "distinct (map fst (live ?ws))" by (simp add: live_def distinct_map_filter)
  then have "\<forall>x \<in> set (rev rest). fst x \<noteq> k" by (auto simp: lv')
  then show "rev (live_words (lg @ [(epoch, mark k, data)])) = rest"
    by (simp add: words live_snoc_mark off lv' filter_id_conv)
qed

text \<open>
  A log of the vertex is done: nothing of it is alive. A step leaves the other logs of the vertex as they
  are or done.
\<close>

definition done_log :: "log \<Rightarrow> bool" where
  "done_log lg \<longleftrightarrow> wf_log (log_words lg) \<and> live_words lg = []"

text \<open>The logs of both directions of an undirected label are one.\<close>

lemma undirected_log:
  assumes "stores_ok P gs L" and "get_graph s label gs = Inr g" and "is_edge_undirected g l"
  shows "L s label v l d = L s label v l d'"
  using stores_okD [OF assms(1,2)] graph_relD(9) assms(3) by (fastforce simp: store_ok_def)

lemma log_small:
  assumes "stores_ok P gs L" and "get_graph s label gs = Inr g" and "v < vertex_count g"
  shows "length (L s label v l d) < 2 ^ 63"
  using stores_okD [OF assms(1,2)] edge_chain_rel [of P g "L s label" _ v l d] assms(3)
  by (cases "L s label v l d = []") (auto simp: store_ok_def)

text \<open>One direction of one label of a vertex.\<close>

definition cleared :: "nat \<times> nat \<Rightarrow> nat \<Rightarrow> dir_t \<Rightarrow> store_logs \<Rightarrow> store_logs \<Rightarrow> bool" where
  "cleared own l d L L' \<longleftrightarrow> done_log (L' Inner (fst own) (snd own) l d) \<and>
     (\<forall>l' d'. L' Inner (fst own) (snd own) l' d' = L Inner (fst own) (snd own) l' d' \<or>
        done_log (L' Inner (fst own) (snd own) l' d'))"

definition delete_step ::
  "nat \<times> nat \<Rightarrow> int \<Rightarrow> nat \<Rightarrow> dir_t \<Rightarrow> dir_t \<Rightarrow> u64 \<Rightarrow> bytes \<Rightarrow> nat \<times> u64 \<Rightarrow> 'm graph_store \<Rightarrow> op_error + 'm graph_store" where
  "delete_step own epoch l d od off data = (\<lambda>(loc, w) gs.
     and_then (writer_put_edge Inner (fst own) epoch (snd own) l d (mark loc) data gs)
       (unlink_other od epoch l off data w))"

lemma delete_each_ok:
  assumes "stores_ok P gs L" and "up_to epoch L" and "length data = P l"
    and "get_graph Inner (fst own) gs = Inr g" and "snd own < vertex_count g"
    and "wf_log (log_words (L Inner (fst own) (snd own) l d))" and "es = rev (live_words (L Inner (fst own) (snd own) l d))"
    and "\<forall>x \<in> set es. linked own gs L l od (snd x)"
  shows "case delete_each (delete_step own epoch l d od off data) es gs of
      Inl e \<Rightarrow> no_memory e
    | Inr gs' \<Rightarrow> keeps gs gs' \<and> (\<exists>L'. stores_ok P gs' L' \<and> grows epoch L L' \<and> up_to epoch L' \<and> cleared own l d L L')"
  using assms
proof (induction es arbitrary: gs L g)
  case Nil
  then have "cleared own l d L L" by (simp add: cleared_def done_log_def)
  then show ?case using Nil.prems keeps_refl grows_refl by auto
next
  case (Cons x es)
  obtain k w where x: "x = (k, w)" by (cases x)
  let ?lg = "L Inner (fst own) (snd own) l d"
  let ?put = "writer_put_edge Inner (fst own) epoch (snd own) l d (mark k) data gs"
  let ?L1 = "log_at Inner (fst own) (is_edge_undirected g l) (snd own) l d (epoch, mark k, data) L"
  note put = writer_put_edge_ok [OF Cons.prems(1,4,5,3) up_toD [OF Cons.prems(2)], of d "mark k"]
  have lv: "rev (live_words ?lg) = (k, w) # es" using Cons.prems(7) x by simp
  note ml = mark_last_live [OF Cons.prems(6) lv log_small [OF Cons.prems(1,4,5)], of epoch data]
  show ?case
  proof (cases ?put)
    case (Inl e)
    then show ?thesis using put by (simp add: delete_step_def x)
  next
    case (Inr gs1)
    then have k1: "keeps gs gs1" and ok1: "stores_ok P gs1 ?L1" using put by simp_all
    have gr1: "grows epoch L ?L1" by (rule grows_log_at)
    have up1: "up_to epoch ?L1" by (rule up_to_grows [OF Cons.prems(2) gr1])
    have li: "linked own gs1 ?L1 l od w" using Cons.prems(8) by (intro linked_later [OF _ k1 gr1]) (simp add: x)
    let ?un = "unlink_other od epoch l off data w gs1"
    note un = unlink_other_ok [OF ok1 up1 Cons.prems(3) li, of off]
    have run: "delete_each (delete_step own epoch l d od off data) (x # es) gs =
        and_then ?un (delete_each (delete_step own epoch l d od off data) es)"
      using Inr by (simp add: delete_step_def x)
    show ?thesis
    proof (cases ?un)
      case (Inl e)
      then show ?thesis using un unfolding run by simp
    next
      case (Inr gs2)
      then obtain L2 where k2: "keeps gs1 gs2" and L2: "stores_ok P gs2 L2" "grows epoch ?L1 L2" "up_to epoch L2"
        and own: "\<forall>l d. L2 Inner (fst own) (snd own) l d = ?L1 Inner (fst own) (snd own) l d"
        using un by auto
      have k12: "keeps gs gs2" by (rule keeps_trans [OF k1 k2])
      obtain g2 where g2: "get_graph Inner (fst own) gs2 = Inr g2" "vertex_count g2 = vertex_count g"
        "is_edge_undirected g2 l = is_edge_undirected g l" by (rule keeps_graph [OF k12 Cons.prems(4)])
      have lg2: "L2 Inner (fst own) (snd own) l d = ?lg @ [(epoch, mark k, data)]" using own by (simp add: log_at_same)
      have gr2: "grows epoch L L2" by (rule grows_trans [OF gr1 L2(2)])
      have "case delete_each (delete_step own epoch l d od off data) es gs2 of
          Inl e \<Rightarrow> no_memory e
        | Inr gs' \<Rightarrow> keeps gs2 gs' \<and> (\<exists>L'. stores_ok P gs' L' \<and> grows epoch L2 L' \<and> up_to epoch L' \<and> cleared own l d L2 L')"
        using Cons.prems(3,5,8) ml linked_later [OF _ k12 gr2]
        by (intro Cons.IH [OF L2(1,3) _ g2(1)]) (auto simp: lg2 g2(2))
      moreover have "cleared own l d L L'"
        if c: "cleared own l d L2 L'" and ok': "stores_ok P gs' L'" and kp: "keeps gs2 gs'" for gs' L'
      proof -
        obtain g' where g': "get_graph Inner (fst own) gs' = Inr g'" "is_edge_undirected g' l = is_edge_undirected g2 l"
          by (rule keeps_graph [OF kp g2(1)])
        have "L' Inner (fst own) (snd own) l' d' = L Inner (fst own) (snd own) l' d' \<or>
            done_log (L' Inner (fst own) (snd own) l' d')" for l' d'
        proof (cases "l' = l \<and> (d' = d \<or> is_edge_undirected g l)")
          case True
          then have "L' Inner (fst own) (snd own) l' d' = L' Inner (fst own) (snd own) l d"
            using undirected_log [OF ok' g'(1), of l] g'(2) g2(3) by auto
          then show ?thesis using c by (simp add: cleared_def)
        next
          case False
          then have "L2 Inner (fst own) (snd own) l' d' = L Inner (fst own) (snd own) l' d'"
            using own log_at_other by metis
          then show ?thesis using c unfolding cleared_def by metis
        qed
        then show ?thesis using c by (simp add: cleared_def)
      qed
      ultimately show ?thesis
        using keeps_trans [OF k12] grows_trans [OF gr2] unfolding run Inr
        by (auto simp: split: sum.splits)
    qed
  qed
qed

section \<open>All labels\<close>

primrec opposite :: "dir_t \<Rightarrow> dir_t" where
  "opposite EOUT = EIN"
| "opposite EIN = EOUT"

text \<open>What the deletion of a vertex needs of its edges.\<close>

definition ready :: "nat \<times> nat \<Rightarrow> 'm graph_store \<Rightarrow> store_logs \<Rightarrow> bool" where
  "ready own gs L \<longleftrightarrow> (\<forall>l d. wf_log (log_words (L Inner (fst own) (snd own) l d)) \<and>
     (\<forall>x \<in> set (live_words (L Inner (fst own) (snd own) l d)). linked own gs L l (opposite d) (snd x)))"

lemma ready_later:
  assumes "ready own gs L" and "keeps gs gs'" and "grows epoch L L'" and "cleared own l d L L'"
  shows "ready own gs' L'"
  unfolding ready_def
proof (intro allI)
  fix l' d'
  consider "L' Inner (fst own) (snd own) l' d' = L Inner (fst own) (snd own) l' d'"
    | "done_log (L' Inner (fst own) (snd own) l' d')" using assms(4) by (auto simp: cleared_def)
  then show "wf_log (log_words (L' Inner (fst own) (snd own) l' d')) \<and>
    (\<forall>x \<in> set (live_words (L' Inner (fst own) (snd own) l' d')). linked own gs' L' l' (opposite d') (snd x))"
  proof cases
    case 1
    have "wf_log (log_words (L Inner (fst own) (snd own) l' d'))"
      "\<forall>x \<in> set (live_words (L Inner (fst own) (snd own) l' d')). linked own gs L l' (opposite d') (snd x)"
      using assms(1) unfolding ready_def by blast+
    then show ?thesis using linked_later [OF _ assms(2,3)] by (simp add: 1)
  next
    case 2
    then show ?thesis by (simp add: done_log_def)
  qed
qed

text \<open>One pass of the code over the edges of one label and direction.\<close>

definition delete_pass :: "nat \<times> nat \<Rightarrow> int \<Rightarrow> dir_t \<Rightarrow> u64 \<Rightarrow> nat \<Rightarrow> 'm graph_store \<Rightarrow> op_error + 'm graph_store" where
  "delete_pass own epoch d off l gs =
     and_then (get_graph Inner (fst own) gs) (\<lambda>g.
     and_then (edges_to_delete (snd own) l d g) (\<lambda>es.
       delete_each (delete_step own epoch l d (opposite d) off (replicate (prop_total_bytes (edge_schemas gs l)) 0)) es gs))"

lemma del_inner_pass:
  "del_inner_out epoch label off l gs = delete_pass (label, unat off) epoch EOUT off l gs"
  "del_inner_in epoch label off l gs = delete_pass (label, unat off) epoch EIN off l gs"
  by (simp_all add: del_inner_out_def del_inner_in_def delete_pass_def delete_step_def Let_def)

text \<open>A state the passes go through.\<close>

definition passing ::
  "(nat \<Rightarrow> nat) \<Rightarrow> nat \<times> nat \<Rightarrow> int \<Rightarrow> 'm graph_store \<Rightarrow> store_logs \<Rightarrow> bool" where
  "passing P own epoch gs L \<longleftrightarrow> stores_ok P gs L \<and> up_to epoch L \<and> ready own gs L \<and>
     (\<exists>g. get_graph Inner (fst own) gs = Inr g \<and> snd own < vertex_count g)"

lemma delete_pass_ok:
  assumes ps: "passing P own epoch gs L" and width: "P l = prop_total_bytes (edge_schemas gs l)"
  shows "case delete_pass own epoch d off l gs of
      Inl e \<Rightarrow> no_memory e
    | Inr gs' \<Rightarrow> keeps gs gs' \<and> (\<exists>L'. passing P own epoch gs' L' \<and> grows epoch L L' \<and> cleared own l d L L')"
proof -
  let ?data = "replicate (prop_total_bytes (edge_schemas gs l)) (0 :: u8)" and ?lg = "L Inner (fst own) (snd own) l d"
  have ok: "stores_ok P gs L" and up: "up_to epoch L" and re: "ready own gs L" using ps by (simp_all add: passing_def)
  obtain g where g: "get_graph Inner (fst own) gs = Inr g" "snd own < vertex_count g" using ps by (auto simp: passing_def)
  have wf: "wf_log (log_words ?lg)" and li: "\<forall>x \<in> set (live_words ?lg). linked own gs L l (opposite d) (snd x)"
    using re unfolding ready_def by blast+
  obtain A where R: "graph_rel P g (L Inner (fst own)) A" and v: "verts_ok g" and h: "heads g {}"
    using stores_okD [OF ok g(1)] by (auto simp: store_ok_def)
  have run: "delete_pass own epoch d off l gs =
      delete_each (delete_step own epoch l d (opposite d) off ?data) (rev (live_words ?lg)) gs"
    using g(1) edges_to_delete_rel [OF R v g(2) h wf] by (simp add: delete_pass_def)
  have len: "length ?data = P l" using width by simp
  have li': "\<forall>x \<in> set (rev (live_words ?lg)). linked own gs L l (opposite d) (snd x)" using li by simp
  note each = delete_each_ok [OF ok up len g wf refl li', of off]
  show ?thesis
  proof (cases "delete_pass own epoch d off l gs")
    case (Inl e)
    then show ?thesis using each unfolding run by simp
  next
    case (Inr gs')
    then obtain L' where k: "keeps gs gs'" and L': "stores_ok P gs' L'" "grows epoch L L'" "up_to epoch L'" "cleared own l d L L'"
      using each unfolding run by auto
    obtain g' where "get_graph Inner (fst own) gs' = Inr g'" "vertex_count g' = vertex_count g"
      by (rule keeps_graph [OF k g(1)])
    then have "passing P own epoch gs' L'"
      using L' ready_later [OF re k L'(2,4)] g(2) by (auto simp: passing_def)
    then show ?thesis using k L' Inr by auto
  qed
qed

text \<open>The passes over a list of labels: what is done stays done.\<close>

definition cleared_all :: "nat \<times> nat \<Rightarrow> nat set \<Rightarrow> dir_t \<Rightarrow> store_logs \<Rightarrow> store_logs \<Rightarrow> bool" where
  "cleared_all own ls d L L' \<longleftrightarrow> (\<forall>l \<in> ls. done_log (L' Inner (fst own) (snd own) l d)) \<and>
     (\<forall>l' d'. L' Inner (fst own) (snd own) l' d' = L Inner (fst own) (snd own) l' d' \<or>
        done_log (L' Inner (fst own) (snd own) l' d'))"

lemma each_elabel_ok:
  assumes "passing P own epoch gs L" and "\<forall>l \<in> set ls. P l = prop_total_bytes (edge_schemas gs l)"
  shows "case each_elabel (delete_pass own epoch d off) ls gs of
      Inl e \<Rightarrow> no_memory e
    | Inr gs' \<Rightarrow> keeps gs gs' \<and> (\<exists>L'. passing P own epoch gs' L' \<and> grows epoch L L' \<and> cleared_all own (set ls) d L L')"
  using assms
proof (induction ls arbitrary: gs L)
  case Nil
  then show ?case using keeps_refl grows_refl by (auto simp: cleared_all_def)
next
  case (Cons l ls)
  have width: "P l = prop_total_bytes (edge_schemas gs l)" using Cons.prems(2) by simp
  note pass = delete_pass_ok [OF Cons.prems(1) width, of d off]
  show ?case
  proof (cases "delete_pass own epoch d off l gs")
    case (Inl e)
    then show ?thesis using pass by simp
  next
    case (Inr gs1)
    then obtain L1 where k1: "keeps gs gs1" and L1: "passing P own epoch gs1 L1" "grows epoch L L1" "cleared own l d L L1"
      using pass by auto
    have "\<forall>l \<in> set ls. P l = prop_total_bytes (edge_schemas gs1 l)" using Cons.prems(2) keepsD(3) [OF k1] by simp
    note IH = Cons.IH [OF L1(1) this]
    have "cleared_all own (set (l # ls)) d L L'" if "cleared_all own (set ls) d L1 L'" for L'
      using that L1(3) unfolding cleared_all_def cleared_def by (metis set_ConsD)
    then show ?thesis
      using IH keeps_trans [OF k1] grows_trans [OF L1(2)] Inr
      by (auto split: sum.splits)
  qed
qed

section \<open>Deleting a vertex\<close>

lemma passing_keep:
  assumes "passing P own epoch gs L" and "keeps gs gs'" and "stores_ok P gs' L"
  shows "passing P own epoch gs' L"
proof -
  obtain g where "get_graph Inner (fst own) gs = Inr g" "snd own < vertex_count g"
    using assms(1) by (auto simp: passing_def)
  then obtain g' where "get_graph Inner (fst own) gs' = Inr g'" "snd own < vertex_count g'"
    using keeps_graph [OF assms(2)] by metis
  moreover have "ready own gs' L"
    using assms(1) linked_later [OF _ assms(2) grows_refl] unfolding passing_def ready_def by blast
  ultimately show ?thesis using assms by (auto simp: passing_def)
qed

lemma passing_cong:
  assumes "passing P own epoch gs L" and "\<And>s label. get_graph s label gs' = get_graph s label gs"
    and "\<And>w. other_end gs' w = other_end gs w"
  shows "passing P own epoch gs' L"
  using assms(1) unfolding passing_def ready_def linked_def stores_ok_def assms(2,3) .

lemma count_deleted_passing:
  assumes "passing P own epoch gs L"
  shows "\<exists>gs'. count_deleted (add_deleted_inner_num 1) Inner (fst own) gs = Inr gs' \<and>
    passing P own epoch gs' L \<and> keeps gs gs'"
proof -
  obtain g where g: "get_graph Inner (fst own) gs = Inr g" using assms by (auto simp: passing_def)
  have ok: "stores_ok P gs L" using assms by (simp add: passing_def)
  let ?g = "add_deleted_inner_num 1 g"
  note c = count_ok [OF stores_okD [OF ok g], of 1]
  have "keeps gs (set_graph Inner (fst own) ?g gs)" using c g by (intro keeps_set) auto
  moreover have "stores_ok P (set_graph Inner (fst own) ?g gs) L" using c by (intro stores_ok_set [OF ok]) auto
  ultimately show ?thesis using passing_keep [OF assms] g by (auto simp: count_deleted_def)
qed

text \<open>The deletion of a vertex up to the passes over its edges, and the passes.\<close>

definition vertex_line :: "string list \<Rightarrow> int \<Rightarrow> u64 \<Rightarrow> bool" where
  "vertex_line cmd epoch vid \<longleftrightarrow> int_field cmd 0 = Inr epoch \<and> vid_field cmd 1 = Inr vid"

lemma del_vertex_logs:
  fixes gs :: "'m graph_store"
  assumes ps: "passing P (vl, unat vo) epoch gs L" and cmd: "vertex_line cmd epoch vid" "is_local gs vid"
    and v: "vl = label_of gs vid" "vo = offset_of gs vid"
    and vt: "vertex_tables gs vl = Some vt" "delete_inner (parser gs) vo vt = Some vt'"
    and width: "\<forall>l < edge_relation_size gs. P l = prop_total_bytes (edge_schemas gs l)"
  shows "case process_del_vertex cmd gs of
      Inl e \<Rightarrow> no_memory e
    | Inr gs' \<Rightarrow> keeps (gs\<lparr>vertex_tables := (vertex_tables gs)(vl \<mapsto> vt')\<rparr>) gs' \<and>
        (\<exists>L'. stores_ok P gs' L' \<and> grows epoch L L' \<and> up_to epoch L' \<and>
          (\<forall>l < edge_relation_size gs. \<forall>d. done_log (L' Inner vl (unat vo) l d)))"
proof -
  let ?own = "(vl, unat vo)" and ?gs1 = "gs\<lparr>vertex_tables := (vertex_tables gs)(vl \<mapsto> vt')\<rparr>"
  let ?ls = "[0..<edge_relation_size gs]"
  have gg: "get_graph s label ?gs1 = get_graph s label gs" for s label by (cases s) (simp_all add: get_graph_def)
  have "max_inner vt' = max_inner vt"
    using vt(2) by (auto simp: delete_inner_def split: search.splits option.splits)
  then have "get_vtable_max_inner ?gs1 label = get_vtable_max_inner gs label" for label
    using vt(1) by (simp add: get_vtable_max_inner_def)
  then have oe: "other_end ?gs1 w = other_end gs w" for w
    by (simp add: other_end_def label_of_def offset_of_def max_outer_id_offset_def)
  have ps1: "passing P ?own epoch ?gs1 L" by (rule passing_cong [OF ps gg oe])
  obtain gs2 where gs2: "count_deleted (add_deleted_inner_num 1) Inner vl ?gs1 = Inr gs2" "passing P ?own epoch gs2 L" "keeps ?gs1 gs2"
    using count_deleted_passing [OF ps1] by auto
  obtain g2 where g2: "get_graph Inner vl gs2 = Inr g2" "stores_ok P gs2 L" using gs2(2) by (auto simp: passing_def)
  obtain gs3 where gs3: "create_graph_writer Inner vl epoch gs2 = Inr gs3" "stores_ok P gs3 L" "keeps gs2 gs3"
    using create_graph_writer_ok [OF g2(2,1)] by blast
  have ps3: "passing P ?own epoch gs3 L" by (rule passing_keep [OF gs2(2) gs3(3,2)])
  have k3: "keeps ?gs1 gs3" by (rule keeps_trans [OF gs2(3) gs3(3)])
  let ?out = "each_elabel (delete_pass ?own epoch EOUT vo) ?ls gs3"
  have passes: "del_inner_out epoch vl vo = delete_pass ?own epoch EOUT vo" "del_inner_in epoch vl vo = delete_pass ?own epoch EIN vo"
    by (simp_all add: del_inner_pass fun_eq_iff)
  have run: "process_del_vertex cmd gs = and_then ?out (each_elabel (delete_pass ?own epoch EIN vo) ?ls)"
    using cmd v vt gs2(1) gs3(1)
    unfolding passes [symmetric] by (simp add: process_del_vertex_def vertex_line_def on_vtable_def Let_def)
  have "\<forall>l \<in> set ?ls. P l = prop_total_bytes (edge_schemas gs3 l)" using width keepsD(3) [OF k3] by simp
  note out = each_elabel_ok [OF ps3 this, of EOUT vo]
  show ?thesis
  proof (cases ?out)
    case (Inl e)
    then show ?thesis using out by (simp add: run)
  next
    case (Inr gs4)
    then obtain L4 where k4: "keeps gs3 gs4" and L4: "passing P ?own epoch gs4 L4" "grows epoch L L4" "cleared_all ?own (set ?ls) EOUT L L4"
      using out by auto
    have k14: "keeps ?gs1 gs4" by (rule keeps_trans [OF k3 k4])
    have "\<forall>l \<in> set ?ls. P l = prop_total_bytes (edge_schemas gs4 l)" using width keepsD(3) [OF k14] by simp
    note inn = each_elabel_ok [OF L4(1) this, of EIN vo]
    have fin: "\<forall>l < edge_relation_size gs. \<forall>d. done_log (L' Inner vl (unat vo) l d)"
      if "cleared_all ?own (set ?ls) EIN L4 L'" for L'
    proof (intro allI impI)
      fix l d
      assume l: "l < edge_relation_size gs"
      have "done_log (L' Inner vl (unat vo) l EIN)" "done_log (L4 Inner vl (unat vo) l EOUT)"
        using that L4(3) l by (auto simp: cleared_all_def)
      moreover have "L' Inner vl (unat vo) l EOUT = L4 Inner vl (unat vo) l EOUT \<or> done_log (L' Inner vl (unat vo) l EOUT)"
        using that unfolding cleared_all_def fst_conv snd_conv by blast
      ultimately show "done_log (L' Inner vl (unat vo) l d)" by (cases d) auto
    qed
    then show ?thesis
      using inn keeps_trans [OF k14] grows_trans [OF L4(2)] unfolding run Inr
      by (fastforce simp: passing_def split: sum.splits)
  qed
qed



section \<open>A store evaluated\<close>

text \<open>Two vertices with an edge without properties from the first to the second.\<close>

definition plain_table :: vtable where
  "plain_table = \<lparr>tbl = [0, 2, 0, 0], vsize = 4, max_inner = 2, min_outer = 4, max_inner_location = 2, min_outer_location = 4\<rparr>"

definition plain_gs :: "unit graph_store" where
  "plain_gs = demo_gs\<lparr>edge_schemas := (\<lambda>l. \<lparr>prop_total_bytes = 0, edge_bitmap_size = 0,
     prop_dtype = (\<lambda>i. CHAR_T), prop_prefix_bytes = (\<lambda>i. 0)\<rparr>), vertex_tables := [0 \<mapsto> plain_table]\<rparr>"

definition plain_ops :: "store_op list" where
  "plain_ops = [New_Vertex, New_Vertex, Put_Edge 1 0 0 EOUT 2 [], Put_Edge 1 1 0 EIN 0 []]"

definition plain_logs :: store_logs where
  "plain_logs s label v l d = edges_put [False] v l d plain_ops"

definition no_width :: "nat \<Rightarrow> nat" where
  "no_width l = 0"

definition del_first :: "string list" where
  "del_first = [''2'', ''0'']"

lemma del_first_line: "vertex_line del_first 2 0"
  by code_simp

lemma plain_delete: "map_option tbl (delete_inner small_parser 0 plain_table) = Some [0, 2, mark 0, 0]"
  by code_simp

lemma plain_run: "\<exists>g. run_store plain_ops (new_seg_graph 67108864 8192 [False]) = Inr g"
  by (simp add: plain_ops_def store_eval cong: if_cong)

lemma plain_log_cases:
  "plain_logs s label 0 0 EOUT = [(1, 2, [])]" "plain_logs s label 1 0 EIN = [(1, 0, [])]"
  "\<not> (l = 0 \<and> d = EOUT) \<Longrightarrow> plain_logs s label 0 l d = []"
  by (auto simp: plain_logs_def plain_ops_def undirected_label_def)

lemma plain_passing:
  assumes "run_store plain_ops (new_seg_graph 67108864 8192 [False]) = Inr g"
  shows "passing no_width (0, 0) 2 (set_graph Inner 0 g plain_gs) plain_logs" and "vertex_count g = 2"
proof -
  let ?gs = "set_graph Inner 0 g plain_gs"
  have run: "vertex_count g = 2 \<and> verts_ok g \<and> heads g {} \<and> (\<exists>A. graph_rel no_width g (plain_logs s label) A)" for s label
  proof -
    have "plain_logs s label = (\<lambda>v l d. edges_put [False] v l d plain_ops)" by (simp add: fun_eq_iff plain_logs_def)
    then show ?thesis
      using new_store_run [of 67108864 no_width plain_ops 8192 "[False]"] assms
      by (simp add: plain_ops_def no_width_def MAX_PROP_def)
  qed
  then show "vertex_count g = 2" by blast
  have "get_graph s label ?gs = Inr k \<longleftrightarrow> s = Inner \<and> label = 0 \<and> k = g" for s label k
    by (auto simp: get_graph_def plain_gs_def demo_gs_def set_graph_def demand_Inr split: side.splits if_splits)
  then have ok: "stores_ok no_width ?gs plain_logs" and gr: "get_graph Inner 0 ?gs = Inr g"
    using run by (auto simp: stores_ok_def store_ok_def)
  have "offset_of ?gs 2 = 1" "label_of ?gs 2 = 0"
    using demo_parts(2,4) by (simp_all add: offset_of_def label_of_def set_graph_def plain_gs_def)
  moreover have "get_vtable_max_inner ?gs 0 = 2"
    by (simp add: get_vtable_max_inner_def set_graph_def plain_gs_def plain_table_def)
  ultimately have "linked (0, 0) ?gs plain_logs 0 EIN 2"
    using gr run by (simp add: linked_def other_end_def plain_log_cases(2) [simplified])
  moreover have "\<not> is_marker (2 :: u64)" by (simp add: is_marker_iff_bit)
  then have "wf_log [2 :: u64]" "live [2 :: u64] = [(0, 2)]"
    using wf_log_snoc [of "[]" 2] live_snoc_plain [of "[]" 2] by (simp_all add: live_def)
  ultimately have "ready (0, 0) ?gs plain_logs"
    unfolding ready_def
  proof (intro allI)
    fix l d
    assume a: "linked (0, 0) ?gs plain_logs 0 EIN 2" "wf_log [2 :: u64]" "live [2 :: u64] = [(0, 2)]"
    show "wf_log (log_words (plain_logs Inner (fst (0, 0)) (snd (0, 0)) l d)) \<and>
        (\<forall>x \<in> set (live_words (plain_logs Inner (fst (0, 0)) (snd (0, 0)) l d)). linked (0, 0) ?gs plain_logs l (opposite d) (snd x))"
      using a plain_log_cases(3) [of l d Inner 0]
      by (cases "l = 0 \<and> d = EOUT") (auto simp: plain_log_cases(1) log_words_def live_def)
  qed
  moreover have "up_to 2 plain_logs" by (auto simp: up_to_def plain_logs_def plain_ops_def split: if_splits)
  ultimately show "passing no_width (0, 0) 2 ?gs plain_logs" using ok gr run by (auto simp: passing_def)
qed



end
