(* ===== verification/Graph_Counters.thy ===== *)
theory Graph_Counters
  imports Graph_Edges
begin

text \<open>
  The counters of the edge stores of a label and the boundaries of its vertex table move together:
  \<open>update_blob\<close> publishes the former as the latter. Each operation on log lines keeps them in step,
  provided that a deleted vertex is in the table.
\<close>

section \<open>What the operations on edges leave\<close>

text \<open>The three counters of an edge store.\<close>

definition counters :: "seg_graph \<Rightarrow> nat \<times> nat \<times> nat" where
  "counters g = (vertex_count g, deleted_inner g, deleted_outer g)"

definition tally :: "'m graph_store \<Rightarrow> side \<Rightarrow> nat \<Rightarrow> (nat \<times> nat \<times> nat) option" where
  "tally gs s label = map_option counters (case s of Inner \<Rightarrow> seg_graphs gs label | Outer \<Rightarrow> ov_seg_graphs gs label)"

definition next_row :: "'m graph_store \<Rightarrow> nat \<Rightarrow> nat option" where
  "next_row gs label = map_option pc_header (property_stores gs label)"

text \<open>Vertex tables, counters and row counts are the same.\<close>

definition frame :: "'m graph_store \<Rightarrow> 'm graph_store \<Rightarrow> bool" where
  "frame gs gs' \<longleftrightarrow> vertex_tables gs' = vertex_tables gs \<and> tally gs' = tally gs \<and> next_row gs' = next_row gs \<and>
     parser gs' = parser gs \<and> local_pid gs' = local_pid gs"

lemma frame_refl [simp]: "frame gs gs"
  by (simp add: frame_def)

lemma frame_trans: "frame a b \<Longrightarrow> frame b c \<Longrightarrow> frame a c"
  by (simp add: frame_def)

lemma tally_set_graph:
  assumes "get_graph s label gs = Inr g" and "counters g' = counters g"
  shows "frame gs (set_graph s label g' gs)"
  using assms by (cases s) (auto simp: frame_def tally_def next_row_def set_graph_def get_graph_def demand_Inr fun_eq_iff split: side.splits)

lemma put_edge_counters: "put_edge epoch v l d dst data g = Inr g' \<Longrightarrow> counters g' = counters g"
  using put_edge_only by (fastforce simp: only_label_def counters_def)

lemma recycle_counters: "counters (recycle_segments epoch g) = counters g"
  by (simp add: recycle_segments_def counters_def Let_def)

lemma writer_put_edge_frame: "writer_put_edge s label epoch v l d dst data gs = Inr gs' \<Longrightarrow> frame gs gs'"
  by (auto simp: writer_put_edge_def and_then_Inr lift_error_Inr intro: tally_set_graph put_edge_counters)

lemma create_graph_writer_frame:
  assumes "create_graph_writer s label epoch gs = Inr gs'"
  shows "frame gs gs'"
proof -
  let ?gs = "gs\<lparr>rands := \<lambda>i. rands gs (Suc i)\<rparr>"
  have f: "frame gs ?gs" by (auto simp: frame_def tally_def next_row_def fun_eq_iff split: side.splits)
  obtain g where g: "get_graph s label gs = Inr g" and gs': "gs' = set_graph s label (recycle_segments epoch g) ?gs \<or> gs' = ?gs"
    using assms by (auto simp: create_graph_writer_def Let_def and_then_Inr split: if_splits)
  have "get_graph s label ?gs = Inr g" using g by (cases s) (simp_all add: get_graph_def)
  then show ?thesis using gs' f tally_set_graph [OF _ recycle_counters] frame_trans by blast
qed

lemma mark_newest_frame: "mark_newest P s label epoch v l d data gs = Inr (f, gs') \<Longrightarrow> frame gs gs'"
  by (auto simp: mark_newest_def and_then_Inr split: option.splits intro: writer_put_edge_frame)

lemma unlink_other_frame: "unlink_other d epoch l off data w gs = Inr gs' \<Longrightarrow> frame gs gs'"
  by (auto simp: unlink_other_def Let_def and_then_Inr split: if_splits
      intro: frame_trans create_graph_writer_frame mark_newest_frame)

lemma unlink_inner_frame: "unlink_inner d epoch l ov data w gs = Inr gs' \<Longrightarrow> frame gs gs'"
  by (auto simp: unlink_inner_def Let_def and_then_Inr intro: frame_trans create_graph_writer_frame mark_newest_frame)

lemma delete_each_frame:
  assumes "\<And>x gs gs'. step x gs = Inr gs' \<Longrightarrow> frame gs gs'" and "delete_each step es gs = Inr gs'"
  shows "frame gs gs'"
  using assms(2) by (induction es arbitrary: gs) (auto simp: and_then_Inr intro: frame_trans assms(1))

lemma each_elabel_frame:
  assumes "\<And>l gs gs'. f l gs = Inr gs' \<Longrightarrow> frame gs gs'" and "each_elabel f ls gs = Inr gs'"
  shows "frame gs gs'"
  using assms(2) by (induction ls arbitrary: gs) (auto simp: and_then_Inr intro: frame_trans assms(1))

lemma del_inner_out_frame: "del_inner_out epoch label off l gs = Inr gs' \<Longrightarrow> frame gs gs'"
  by (auto simp: del_inner_out_def Let_def and_then_Inr split: prod.splits
      elim!: delete_each_frame [rotated] dest!: writer_put_edge_frame unlink_other_frame elim: frame_trans)

lemma del_inner_in_frame: "del_inner_in epoch label off l gs = Inr gs' \<Longrightarrow> frame gs gs'"
  by (auto simp: del_inner_in_def Let_def and_then_Inr split: prod.splits
      elim!: delete_each_frame [rotated] dest!: writer_put_edge_frame unlink_other_frame elim: frame_trans)

lemma del_outer_out_frame: "del_outer_out epoch label ov l gs = Inr gs' \<Longrightarrow> frame gs gs'"
  by (auto simp: del_outer_out_def Let_def and_then_Inr split: prod.splits if_splits
      elim!: delete_each_frame [rotated] dest!: writer_put_edge_frame unlink_inner_frame elim: frame_trans)

lemma del_outer_in_frame: "del_outer_in epoch label ov l gs = Inr gs' \<Longrightarrow> frame gs gs'"
  by (auto simp: del_outer_in_def Let_def and_then_Inr split: prod.splits if_splits
      elim!: delete_each_frame [rotated] dest!: writer_put_edge_frame unlink_inner_frame elim: frame_trans)

lemma del_inner_out_all: "each_elabel (del_inner_out epoch label off) ls gs = Inr gs' \<Longrightarrow> frame gs gs'"
  by (erule each_elabel_frame [rotated]) (rule del_inner_out_frame)

lemma del_inner_in_all: "each_elabel (del_inner_in epoch label off) ls gs = Inr gs' \<Longrightarrow> frame gs gs'"
  by (erule each_elabel_frame [rotated]) (rule del_inner_in_frame)

lemma del_outer_out_all: "each_elabel (del_outer_out epoch label off) ls gs = Inr gs' \<Longrightarrow> frame gs gs'"
  by (erule each_elabel_frame [rotated]) (rule del_outer_out_frame)

lemma del_outer_in_all: "each_elabel (del_outer_in epoch label off) ls gs = Inr gs' \<Longrightarrow> frame gs gs'"
  by (erule each_elabel_frame [rotated]) (rule del_outer_in_frame)

section \<open>Counters and tables in step\<close>

definition level :: "vtable \<Rightarrow> nat \<times> nat \<times> nat \<Rightarrow> nat \<times> nat \<times> nat \<Rightarrow> bool" where
  "level vt = (\<lambda>(n, di, _) (m, _, do').
     max_inner vt = n \<and> max_inner_location vt = n + di \<and>
     min_outer vt + m = vsize vt \<and> min_outer_location vt + m + do' = vsize vt)"

definition in_step :: "'m graph_store \<Rightarrow> bool" where
  "in_step gs \<longleftrightarrow> (\<forall>label vt. vertex_tables gs label = Some vt \<longrightarrow>
     (\<exists>a b. tally gs Inner label = Some a \<and> tally gs Outer label = Some b \<and> level vt a b \<and>
        next_row gs label = Some (fst a)))"

lemma in_step_frame: "in_step gs \<Longrightarrow> frame gs gs' \<Longrightarrow> in_step gs'"
  by (simp add: in_step_def frame_def)

text \<open>Changing the table, the counters and the row count of one label.\<close>

lemma in_step_label:
  assumes "in_step gs" and "\<And>l. l \<noteq> label \<Longrightarrow> vertex_tables gs' l = vertex_tables gs l"
    and "\<And>s l. l \<noteq> label \<Longrightarrow> tally gs' s l = tally gs s l" and "\<And>l. l \<noteq> label \<Longrightarrow> next_row gs' l = next_row gs l"
    and "tally gs' Inner label = Some a" and "tally gs' Outer label = Some b" and "next_row gs' label = Some (fst a)"
    and "\<And>vt. vertex_tables gs' label = Some vt \<Longrightarrow> level vt a b"
  shows "in_step gs'"
  unfolding in_step_def
proof (intro allI impI)
  fix l vt
  assume vt: "vertex_tables gs' l = Some vt"
  show "\<exists>a b. tally gs' Inner l = Some a \<and> tally gs' Outer l = Some b \<and> level vt a b \<and> next_row gs' l = Some (fst a)"
    using assms vt by (cases "l = label") (auto simp: in_step_def)
qed

text \<open>The steps on a vertex table.\<close>

lemma add_inner_level: "add_inner lid vt = Some vt' \<Longrightarrow> level vt (n, a) b \<Longrightarrow> level vt' (Suc n, a) b"
  by (auto simp: add_inner_def level_def split: if_splits option.splits prod.splits)

lemma add_outer_level: "add_outer lid vt = Some vt' \<Longrightarrow> level vt a (m, b) \<Longrightarrow> level vt' a (Suc m, b)"
  by (auto simp: add_outer_def level_def split: if_splits option.splits prod.splits)

lemma delete_inner_level:
  "delete_inner p off vt = Some vt' \<Longrightarrow> find_inner p (tbl vt) off (max_inner_location vt) 0 = Found k \<Longrightarrow>
     level vt (n, di, c) b \<Longrightarrow> level vt' (n, Suc di, c) b"
  by (auto simp: delete_inner_def level_def split: if_splits option.splits prod.splits)

lemma delete_outer_level:
  "delete_outer lid vt = Some vt' \<Longrightarrow> find_outer (tbl vt) lid (min_outer_location vt) (vsize vt - 1) = Found k \<Longrightarrow>
     level vt a (m, c, dn) \<Longrightarrow> level vt' a (m, c, Suc dn)"
  by (auto simp: delete_outer_def level_def split: if_splits option.splits prod.splits)

section \<open>Stores that advance\<close>

text \<open>
  Every vertex table is well formed, in step with the counters, and the identifiers have the layout
  of the parser. A store advances to another when its tables are those after more operations that meet
  their obligations.
\<close>

definition steady :: "'m graph_store \<Rightarrow> bool" where
  "steady gs \<longleftrightarrow> in_step gs \<and> (\<forall>label vt. vertex_tables gs label = Some vt \<longrightarrow> vtable_ok vt) \<and>
     (\<exists>w. layout (parser gs) w)"

definition advances :: "'m graph_store \<Rightarrow> 'm graph_store \<Rightarrow> bool" where
  "advances gs gs' \<longleftrightarrow> parser gs' = parser gs \<and> local_pid gs' = local_pid gs \<and>
     (\<forall>label. rel_option (\<lambda>vt vt'. \<exists>ops. run_vops (parser gs) ops vt = Some vt') (vertex_tables gs label) (vertex_tables gs' label))"

definition goes :: "'m graph_store \<Rightarrow> 'm graph_store \<Rightarrow> bool" where
  "goes gs gs' \<longleftrightarrow> steady gs' \<and> advances gs gs'"

lemma run_vops_append: "run_vops p xs vt = Some vt1 \<Longrightarrow> run_vops p ys vt1 = Some vt2 \<Longrightarrow> run_vops p (xs @ ys) vt = Some vt2"
  by (induction xs arbitrary: vt) (auto simp: bind_eq_Some_conv split: if_splits)

lemma advances_frame: "frame gs gs' \<Longrightarrow> advances gs gs'"
  by (auto simp: frame_def advances_def rel_option_iff split: option.splits intro!: exI [of _ "[]"])

lemma advances_trans: "advances a b \<Longrightarrow> advances b c \<Longrightarrow> advances a c"
proof -
  assume ab: "advances a b" and bc: "advances b c"
  let ?R = "\<lambda>vt vt'. \<exists>ops. run_vops (parser a) ops vt = Some vt'"
  have p: "parser b = parser a" "parser c = parser a" "local_pid c = local_pid a" using ab bc by (simp_all add: advances_def)
  have "rel_option ?R (vertex_tables a label) (vertex_tables c label)" for label
  proof -
    have "rel_option ?R (vertex_tables a label) (vertex_tables b label)"
      "rel_option ?R (vertex_tables b label) (vertex_tables c label)"
      using ab bc p by (simp_all add: advances_def)
    then show ?thesis
      using run_vops_append
      by (cases "vertex_tables a label"; cases "vertex_tables b label"; cases "vertex_tables c label") (simp_all, blast)
  qed
  then show "advances a c" using p by (simp add: advances_def)
qed

lemma goes_trans: "goes a b \<Longrightarrow> goes b c \<Longrightarrow> goes a c"
  by (auto simp: goes_def intro: advances_trans)

lemma goes_refl: "steady gs \<Longrightarrow> goes gs gs"
  by (simp add: goes_def advances_frame)

lemma goesI:
  assumes sd: "steady gs" and st: "in_step gs'" and ad: "advances gs gs'"
  shows "goes gs gs'"
proof -
  have "vtable_ok vt'" if vt': "vertex_tables gs' label = Some vt'" for label vt'
  proof -
    have "rel_option (\<lambda>vt vt'. \<exists>ops. run_vops (parser gs) ops vt = Some vt') (vertex_tables gs label) (vertex_tables gs' label)"
      using ad unfolding advances_def by blast
    then obtain vt ops where "vertex_tables gs label = Some vt" "run_vops (parser gs) ops vt = Some vt'"
      using vt' by (auto simp: rel_option_iff split: option.splits)
    then show ?thesis using run_vops_ok sd unfolding steady_def by blast
  qed
  moreover have "parser gs' = parser gs" using ad by (simp add: advances_def)
  ultimately show ?thesis using sd st ad by (simp add: goes_def steady_def)
qed

lemma goes_frame: "steady gs \<Longrightarrow> frame gs gs' \<Longrightarrow> goes gs gs'"
  using goesI in_step_frame advances_frame unfolding steady_def by blast

lemma goes_then_frame: "goes a b \<Longrightarrow> frame b c \<Longrightarrow> goes a c"
  using goes_frame goes_trans unfolding goes_def by blast

lemma goes_steady: "goes gs gs' \<Longrightarrow> steady gs'"
  by (simp add: goes_def)

text \<open>One operation on one table.\<close>

lemma advances_vop:
  assumes "vertex_tables gs label = Some vt" and "vop_ok (parser gs) vt op" and "apply_vop (parser gs) op vt = Some vt'"
    and "vertex_tables gs' = (vertex_tables gs)(label \<mapsto> vt')" and "parser gs' = parser gs" and "local_pid gs' = local_pid gs"
  shows "advances gs gs'"
proof -
  have "run_vops (parser gs) [op] vt = Some vt'" using assms(2,3) by simp
  then have "\<exists>ops. run_vops (parser gs) ops vt = Some vt'" by blast
  moreover have "\<exists>ops. run_vops (parser gs) ops v = Some v" for v by (rule exI [of _ "[]"]) simp
  ultimately show ?thesis using assms by (auto simp: advances_def rel_option_iff split: option.splits)
qed

lemma advances_add_inner:
  assumes "steady gs" and "vertex_tables gs label = Some vt" and "add_inner lid vt = Some vt'" and "\<not> is_marker lid"
    and "vertex_tables gs' = (vertex_tables gs)(label \<mapsto> vt')" and "parser gs' = parser gs" and "local_pid gs' = local_pid gs"
  shows "advances gs gs'"
proof -
  have "vtable_ok vt" using assms(1,2) by (simp add: steady_def)
  then have "vop_ok (parser gs) vt (AddInner lid)"
    using assms(3,4) by (auto simp: Vertex_Table.room_def vtable_ok_def add_inner_def split: if_splits)
  then show ?thesis using assms by (intro advances_vop [where op = "AddInner lid"]) auto
qed

lemma advances_add_outer:
  assumes "steady gs" and "vertex_tables gs label = Some vt" and "add_outer lid vt = Some vt'" and "\<not> is_marker lid"
    and "vertex_tables gs' = (vertex_tables gs)(label \<mapsto> vt')" and "parser gs' = parser gs" and "local_pid gs' = local_pid gs"
  shows "advances gs gs'"
proof -
  have "vtable_ok vt" using assms(1,2) by (simp add: steady_def)
  then have "vop_ok (parser gs) vt (AddOuter lid)"
    using assms(3,4) by (auto simp: Vertex_Table.room_def vtable_ok_def add_outer_def split: if_splits)
  then show ?thesis using assms by (intro advances_vop [where op = "AddOuter lid"]) auto
qed

lemma steady_local_id: "steady gs \<Longrightarrow> parser gs' = parser gs \<Longrightarrow> \<not> is_marker (local_id gs' label off)"
  by (metis local_id_plain steady_def)

section \<open>The operations keep them in step\<close>

lemma on_vtable_run:
  "on_vtable f label gs = Inr gs' \<longleftrightarrow>
     (\<exists>vt vt'. vertex_tables gs label = Some vt \<and> f vt = Some vt' \<and> gs' = gs\<lparr>vertex_tables := (vertex_tables gs)(label \<mapsto> vt')\<rparr>)"
  by (auto simp: on_vtable_def and_then_Inr demand_Inr)

lemma new_vertex_counters:
  "new_vertex g = Inr (v, g') \<Longrightarrow> v = vertex_count g \<and> counters g' = (Suc (vertex_count g), deleted_inner g, deleted_outer g)"
  by (auto simp: new_vertex_def counters_def Let_def split: if_splits)

lemma writer_new_vertex_run:
  assumes "writer_new_vertex s label gs = Inr (v, gs')"
  shows "\<exists>di dn. tally gs s label = Some (v, di, dn) \<and> tally gs' s label = Some (Suc v, di, dn) \<and>
     (\<forall>s' l. (s', l) \<noteq> (s, label) \<longrightarrow> tally gs' s' l = tally gs s' l) \<and>
     vertex_tables gs' = vertex_tables gs \<and> next_row gs' = next_row gs \<and> property_stores gs' = property_stores gs \<and>
     parser gs' = parser gs \<and> local_pid gs' = local_pid gs"
  using assms
  by (cases s) (auto simp: writer_new_vertex_def and_then_Inr lift_error_Inr tally_def get_graph_def set_graph_def next_row_def
      counters_def demand_Inr fun_eq_iff dest!: new_vertex_counters [unfolded counters_def] split: side.splits)

text \<open>The maps between identifiers.\<close>

lemma same_parts_frame:
  assumes "vertex_tables gs' = vertex_tables gs" "seg_graphs gs' = seg_graphs gs" "ov_seg_graphs gs' = ov_seg_graphs gs"
    "property_stores gs' = property_stores gs" "parser gs' = parser gs" "local_pid gs' = local_pid gs"
  shows "frame gs gs'"
  using assms by (auto simp: frame_def tally_def next_row_def fun_eq_iff split: side.splits)

lemma set_ovl2g_frame: "set_ovl2g label v gid gs = Inr gs' \<Longrightarrow> frame gs gs'"
  by (auto simp: set_ovl2g_def and_then_Inr intro: same_parts_frame)

lemma set_vertex_map_frame: "frame gs (set_vertex_map em label oid gid gs)"
  by (simp add: set_vertex_map_def same_parts_frame)

lemma set_outer_external_id_frame: "set_outer_external_id label v x gs = Inr gs' \<Longrightarrow> frame gs gs'"
  by (auto simp: set_outer_external_id_def and_then_Inr intro: same_parts_frame)

lemma set_external_id_frame: "set_external_id label v x gs = Inr gs' \<Longrightarrow> frame gs gs'"
  by (auto simp: set_external_id_def and_then_Inr intro: same_parts_frame)

lemma string_buffer_frame: "frame gs (gs\<lparr>string_buffer := b\<rparr>)"
  by (simp add: same_parts_frame)

lemma frame_string_buffer: "frame (gs\<lparr>string_buffer := b\<rparr>) gs' \<longleftrightarrow> frame gs gs'"
  using string_buffer_frame [of gs b] by (auto simp: frame_def)

text \<open>Rows keep their number.\<close>

lemma findWithInsertPage_header: "findWithInsertPage cf pg ver st = Some (ptr, st') \<Longrightarrow> pc_header st' = pc_header st"
  by (auto simp: findWithInsertPage_def Let_def getNewPage_def set_newest_def set_oldest_def split: if_splits option.splits prod.splits)

lemma write_row_header: "write_row cf off ver row nulls st = Some st' \<Longrightarrow> pc_header st' = pc_header st"
  by (auto simp: write_row_def Let_def dest!: findWithInsertPage_header split: option.splits)

lemma write_rows_header: "write_rows cf off ver rs st = Some st' \<Longrightarrow> pc_header st' = pc_header st"
  by (induction rs arbitrary: cf st) (auto dest!: write_row_header split: option.splits)

lemma write_updated_header: "write_updated cf off ver rs st = Some st' \<Longrightarrow> pc_header st' = pc_header st"
  by (induction rs arbitrary: cf st) (auto dest!: write_row_header split: option.splits if_splits)

lemma paged_insert_header: "paged_insert rb fresh sch off vs ver st = Some st' \<Longrightarrow> pc_header st' = pc_header st"
  by (auto simp: paged_insert_def dest!: write_rows_header split: if_splits option.splits)

lemma paged_update_header:
  "paged_update rb rn fresh sch off vs ver st sb = Some (st', sb') \<Longrightarrow> pc_header st' = pc_header st"
  by (auto simp: paged_update_def dest!: write_updated_header split: option.splits prod.splits)

lemma with_property_frame:
  assumes "with_property f label gs = Inr gs'" and "\<And>st st' b. f st = Some (st', b) \<Longrightarrow> pc_header st' = pc_header st"
  shows "frame gs gs'"
  using assms(1) by (auto simp: with_property_def and_then_Inr demand_Inr frame_def tally_def next_row_def fun_eq_iff
      dest!: assms(2) split: side.splits)

text \<open>A new vertex enters its edge store and its table.\<close>

lemma tally_updates [simp]:
  "tally (gs\<lparr>vertex_tables := a\<rparr>) = tally gs" "tally (gs\<lparr>property_stores := b\<rparr>) = tally gs"
  "next_row (gs\<lparr>vertex_tables := a\<rparr>) = next_row gs"
  by (auto simp: tally_def next_row_def fun_eq_iff split: side.splits)

lemma new_inner_goes:
  assumes sd: "steady gs" and lid: "\<not> is_marker lid" and new: "writer_new_vertex Inner label gs = Inr (v, gs1)"
    and ps: "property_stores gs1 label = Some p" "getNewOffset p = Some (off, p')"
    and tab: "on_vtable (add_inner lid) label (gs1\<lparr>property_stores := (property_stores gs1)(label \<mapsto> p')\<rparr>) = Inr gs2"
  shows "goes gs gs2"
proof -
  have st: "in_step gs" using sd by (simp add: steady_def)
  obtain di dn where n: "tally gs Inner label = Some (v, di, dn)" "tally gs1 Inner label = Some (Suc v, di, dn)"
    "\<forall>s' l. (s', l) \<noteq> (Inner, label) \<longrightarrow> tally gs1 s' l = tally gs s' l"
    "vertex_tables gs1 = vertex_tables gs" "next_row gs1 = next_row gs" "property_stores gs1 = property_stores gs"
    "parser gs1 = parser gs" "local_pid gs1 = local_pid gs"
    using writer_new_vertex_run [OF new] by auto
  obtain vt vt' where vt: "vertex_tables gs label = Some vt" "add_inner lid vt = Some vt'"
    and gs2: "gs2 = gs1\<lparr>property_stores := (property_stores gs1)(label \<mapsto> p'), vertex_tables := (vertex_tables gs)(label \<mapsto> vt')\<rparr>"
    using tab n(4) by (auto simp: on_vtable_run)
  obtain b where b: "tally gs Outer label = Some b" "level vt (v, di, dn) b" "next_row gs label = Some v"
    using st vt(1) n(1) by (fastforce simp: in_step_def)
  have "next_row gs2 label = Some (Suc v)" "\<And>l. l \<noteq> label \<Longrightarrow> next_row gs2 l = next_row gs l"
    using b(3) ps n(6) by (auto simp: next_row_def gs2 getNewOffset_def Let_def split: if_splits)
  then have "in_step gs2"
    using n b vt add_inner_level [OF vt(2) b(2)]
    by (intro in_step_label [OF st, where label = label and a = "(Suc v, di, dn)" and b = b]) (auto simp: gs2)
  moreover have "advances gs gs2" using n(4,7,8) by (intro advances_add_inner [OF sd vt lid]) (simp_all add: gs2)
  ultimately show ?thesis by (rule goesI [OF sd])
qed

lemma new_outer_goes:
  assumes sd: "steady gs" and lid: "\<not> is_marker lid" and new: "writer_new_vertex Outer label gs = Inr (v, gs1)" and fr: "frame gs1 gs2"
    and tab: "on_vtable (add_outer lid) label gs2 = Inr gs3"
  shows "goes gs gs3"
proof -
  have st: "in_step gs" using sd by (simp add: steady_def)
  obtain di dn where n: "tally gs Outer label = Some (v, di, dn)" "tally gs1 Outer label = Some (Suc v, di, dn)"
    "\<forall>s' l. (s', l) \<noteq> (Outer, label) \<longrightarrow> tally gs1 s' l = tally gs s' l"
    "vertex_tables gs1 = vertex_tables gs" "next_row gs1 = next_row gs"
    "parser gs1 = parser gs" "local_pid gs1 = local_pid gs"
    using writer_new_vertex_run [OF new] by auto
  obtain vt vt' where vt: "vertex_tables gs label = Some vt" "add_outer lid vt = Some vt'"
    and gs3: "gs3 = gs2\<lparr>vertex_tables := (vertex_tables gs)(label \<mapsto> vt')\<rparr>"
    using tab n(4) fr by (auto simp: on_vtable_run frame_def)
  obtain a where a: "tally gs Inner label = Some a" "level vt a (v, di, dn)" "next_row gs label = Some (fst a)"
    using st vt(1) n(1) by (fastforce simp: in_step_def)
  have t: "tally gs3 = tally gs1" "next_row gs3 = next_row gs" using fr n(5) by (simp_all add: gs3 frame_def)
  have "in_step gs3"
    using n a vt add_outer_level [OF vt(2) a(2)]
    by (intro in_step_label [OF st, where label = label and a = a and b = "(Suc v, di, dn)"]) (auto simp: t, auto simp: gs3)
  moreover have "advances gs gs3"
    using n(4,6,7) fr by (intro advances_add_outer [OF sd vt lid]) (simp_all add: gs3 frame_def)
  ultimately show ?thesis by (rule goesI [OF sd])
qed

lemma and_then_E: "and_then r f = Inr y \<Longrightarrow> (\<And>x. r = Inr x \<Longrightarrow> f x = Inr y \<Longrightarrow> P) \<Longrightarrow> P"
  by (auto simp: and_then_Inr)

lemma and_then_pairE:
  "and_then r (\<lambda>(a, b). f a b) = Inr y \<Longrightarrow> (\<And>a b. r = Inr (a, b) \<Longrightarrow> f a b = Inr y \<Longrightarrow> P) \<Longrightarrow> P"
  by (auto simp: and_then_Inr)

lemma insert_map_frame:
  "(if c then (case r of Inl e \<Rightarrow> Inl (Bad_Number e) | Inr oid \<Rightarrow> Inr (set_vertex_map em l oid gid gs)) else Inr gs) = Inr gs' \<Longrightarrow>
     frame gs gs'"
  by (auto split: if_splits sum.splits intro: set_vertex_map_frame)

lemma insert_ids_frame:
  "(if c then (case kb of (key, b) \<Rightarrow> set_external_id l v key (gs\<lparr>string_buffer := b\<rparr>))
    else (case r of Inl e \<Rightarrow> Inl (Bad_Number e) | Inr n \<Rightarrow> set_external_id l v (word_of_int n) gs)) = Inr gs' \<Longrightarrow> frame gs gs'"
  using frame_string_buffer
  by (auto simp: Let_def split: if_splits sum.splits prod.splits dest!: set_external_id_frame)

lemma insert_prop_frame:
  assumes "(case vb of (vs, b) \<Rightarrow> and_then (with_property (\<lambda>st. map_option (\<lambda>st'. (st', b))
     (paged_insert rb fresh sch v vs ver st)) label gs) (\<lambda>gs'. Inr (True, gs'))) = Inr (ok, gs')"
  shows "frame gs gs'"
  using assms
  by (auto simp: Let_def and_then_Inr split: prod.splits elim!: with_property_frame dest: paged_insert_header)

lemma insert_inner_vertex_goes:
  assumes st: "steady gs" and run: "insert_inner_vertex em rb fresh epoch gid ext vs gs = Inr (ok, gs')"
  shows "goes gs gs'"
proof (cases "is_local gs gid")
  case False
  then show ?thesis using run goes_refl [OF st] by (simp add: insert_inner_vertex_def Let_def)
next
  case True
  let ?l = "label_of gs gid"
  have "\<exists>gs1 gs2 v gs3 p off p' gs5 gs6. frame gs gs1 \<and> create_graph_writer Inner ?l epoch gs1 = Inr gs2 \<and>
      writer_new_vertex Inner ?l gs2 = Inr (v, gs3) \<and> property_stores gs3 ?l = Some p \<and> getNewOffset p = Some (off, p') \<and>
      on_vtable (add_inner (local_id gs ?l (offset_of gs gid))) ?l (gs3\<lparr>property_stores := (property_stores gs3)(?l \<mapsto> p')\<rparr>) = Inr gs5 \<and>
      frame gs5 gs6 \<and> frame gs6 gs'"
    using run True
    unfolding insert_inner_vertex_def Let_def
    apply (simp only: not_True_eq_False if_False)
    apply (erule and_then_E, erule and_then_E, erule and_then_pairE, erule and_then_E, erule and_then_pairE)
    apply (drule insert_map_frame)
    apply (split if_split_asm, simp)
    apply (erule and_then_E, erule and_then_E)
    apply (drule insert_ids_frame, drule insert_prop_frame)
    apply (clarsimp simp: demand_Inr)
    apply (intro exI conjI, assumption+)
    done
  then obtain gs1 gs2 v gs3 p off p' gs5 gs6 where
    f: "frame gs gs1" "frame gs5 gs6" "frame gs6 gs'" and w: "create_graph_writer Inner ?l epoch gs1 = Inr gs2"
    and n: "writer_new_vertex Inner ?l gs2 = Inr (v, gs3)" "property_stores gs3 ?l = Some p" "getNewOffset p = Some (off, p')"
      "on_vtable (add_inner (local_id gs ?l (offset_of gs gid))) ?l (gs3\<lparr>property_stores := (property_stores gs3)(?l \<mapsto> p')\<rparr>) = Inr gs5"
    by blast
  have g2: "goes gs gs2" by (rule goes_frame [OF st frame_trans [OF f(1) create_graph_writer_frame [OF w]]])
  have "goes gs2 gs5" by (rule new_inner_goes [OF goes_steady [OF g2] steady_local_id [OF st refl] n])
  then show ?thesis using g2 f(2,3) goes_then_frame goes_trans by blast
qed

lemma process_add_vertex_goes:
  "steady gs \<Longrightarrow> process_add_vertex em rb fresh cmd gs = Inr gs' \<Longrightarrow> goes gs gs'"
  by (auto simp: process_add_vertex_def and_then_Inr split: if_splits intro: insert_inner_vertex_goes)

lemma process_update_vertex_goes:
  "steady gs \<Longrightarrow> process_update_vertex rb rn fresh cmd gs = Inr gs' \<Longrightarrow> goes gs gs'"
  by (auto simp: process_update_vertex_def update_inner_vertex_def Let_def and_then_Inr split: if_splits
      intro: goes_refl goes_frame with_property_frame paged_update_header)

lemma outer_vertex_goes:
  assumes st: "steady gs" and run: "outer_vertex em label vid ext gs = Inr (ov, gs')"
  shows "goes gs gs'"
proof (cases "get_lid gs label vid = - 1")
  case False
  then show ?thesis using run goes_refl [OF st] by (simp add: outer_vertex_def Let_def)
next
  case True
  obtain v gs1 off a b gs3 gs4 where
    n: "writer_new_vertex Outer label gs = Inr (v, gs1)"
    and tab: "on_vtable (add_outer (local_id gs label off)) label (set_ovg2l em label vid a (set_lid label vid b gs1)) = Inr gs3"
    and g4: "set_ovl2g label v vid gs3 = Inr gs4"
    and ids: "\<exists>c x y gs4' gs5. (gs4' = gs4 \<or> gs4' = gs4\<lparr>string_buffer := c\<rparr>) \<and> set_outer_external_id label v x gs4' = Inr gs5 \<and>
        (gs' = gs5 \<or> gs' = set_vertex_map em label y vid gs5)"
    using run True
    by (fastforce simp: outer_vertex_def Let_def and_then_Inr split: if_splits sum.splits prod.splits)
  have "frame gs1 (set_ovg2l em label vid a (set_lid label vid b gs1))"
    by (simp add: set_ovg2l_def set_lid_def same_parts_frame)
  then have "goes gs gs3" using new_outer_goes [OF st steady_local_id [OF st refl] n _ tab] by blast
  moreover have "frame gs4 gs'"
    using ids string_buffer_frame set_outer_external_id_frame set_vertex_map_frame frame_trans by metis
  ultimately show ?thesis using set_ovl2g_frame [OF g4] goes_then_frame by blast
qed

lemma edge_frames_goes:
  assumes "steady gs" and "frame gs a" and "outer_vertex em label vid ext a = Inr (ov, b)" and "frame b c"
  shows "goes gs c"
  using goes_frame [OF assms(1,2)] outer_vertex_goes [OF _ assms(3)] assms(4) goes_then_frame goes_trans goes_steady by blast

lemma process_add_edge_goes:
  assumes "steady gs" and "process_add_edge em rb cmd gs = Inr gs'"
  shows "goes gs gs'"
  using assms
  apply (auto simp: process_add_edge_def Let_def and_then_Inr frame_string_buffer split: if_splits prod.splits
      dest!: create_graph_writer_frame writer_put_edge_frame)
  apply (blast intro: goes_refl edge_frames_goes goes_frame frame_trans)+
  done

lemma process_del_edge_goes:
  assumes "steady gs" and "process_del_edge cmd gs = Inr gs'"
  shows "goes gs gs'"
  using assms
  apply (auto simp: process_del_edge_def Let_def and_then_Inr split: if_splits prod.splits
      dest!: create_graph_writer_frame mark_newest_frame)
  apply (blast intro: goes_refl goes_frame frame_trans)+
  done

text \<open>The vertex of a deletion is alive and its table has room for the marker, or it is unknown.\<close>

definition deletes_alive :: "string list \<Rightarrow> 'm graph_store \<Rightarrow> bool" where
  "deletes_alive cmd gs \<longleftrightarrow> (case vid_field cmd 1 of Inl e \<Rightarrow> True | Inr vid \<Rightarrow>
     (case vertex_tables gs (label_of gs vid) of None \<Rightarrow> True | Some vt \<Rightarrow>
        if is_local gs vid then vop_ok (parser gs) vt (DeleteInner (offset_of gs vid))
        else get_lid gs (label_of gs vid) vid = - 1 \<or> vop_ok (parser gs) vt (DeleteOuter
          (local_id gs (label_of gs vid) (max_outer_id_offset gs - get_lid gs (label_of gs vid) vid)))))"

lemma count_deleted_run:
  assumes "count_deleted f s label gs = Inr gs'"
  shows "\<exists>g. get_graph s label gs = Inr g \<and> gs' = set_graph s label (f g) gs"
  using assms by (auto simp: count_deleted_def and_then_Inr)

lemma delete_inner_goes:
  assumes sd: "steady gs" and vt: "vertex_tables gs label = Some vt" "vop_ok (parser gs) vt (DeleteInner off)"
    and run: "on_vtable (delete_inner (parser gs) off) label gs = Inr gs1"
      "count_deleted (add_deleted_inner_num 1) Inner label gs1 = Inr gs2"
  shows "goes gs gs2"
proof -
  have st: "in_step gs" and ok: "vtable_ok vt" using sd vt(1) by (simp_all add: steady_def)
  obtain vt' where vt': "delete_inner (parser gs) off vt = Some vt'" and gs1: "gs1 = gs\<lparr>vertex_tables := (vertex_tables gs)(label \<mapsto> vt')\<rparr>"
    using run(1) vt(1) by (auto simp: on_vtable_run)
  obtain g where g: "seg_graphs gs label = Some g" and gs2: "gs2 = set_graph Inner label (add_deleted_inner_num 1 g) gs1"
    using count_deleted_run [OF run(2)] by (auto simp: get_graph_def demand_Inr gs1)
  obtain b where b: "tally gs Outer label = Some b" "level vt (counters g) b" "next_row gs label = Some (vertex_count g)"
    using st vt(1) g by (fastforce simp: in_step_def tally_def counters_def)
  obtain k where "find_inner (parser gs) (tbl vt) off (max_inner_location vt) 0 = Found k"
    by (rule delete_inner_found [OF ok vt(2)])
  from delete_inner_level [OF vt' this, of "vertex_count g" "deleted_inner g" "deleted_outer g" b]
  have "level vt' (vertex_count g, Suc (deleted_inner g), deleted_outer g) b" using b(2) by (simp add: counters_def)
  then have "in_step gs2"
    using b vt(1) unfolding gs2 gs1
    by (intro in_step_label [OF st, where label = label and b = b and a = "counters (add_deleted_inner_num 1 g)"])
      (auto simp: set_graph_def tally_def next_row_def counters_def add_deleted_inner_num_def split: side.splits)
  moreover have "advances gs gs2"
    using vt' by (intro advances_vop [OF vt]) (simp_all add: gs2 gs1 set_graph_def)
  ultimately show ?thesis by (rule goesI [OF sd])
qed

lemma delete_outer_goes:
  assumes sd: "steady gs" and vt: "vertex_tables gs label = Some vt" "vop_ok (parser gs) vt (DeleteOuter lid)"
    and run: "on_vtable (delete_outer lid) label gs = Inr gs1"
      "count_deleted (add_deleted_outer_num 1) Outer label gs1 = Inr gs2"
  shows "goes gs gs2"
proof -
  have st: "in_step gs" and ok: "vtable_ok vt" using sd vt(1) by (simp_all add: steady_def)
  obtain vt' where vt': "delete_outer lid vt = Some vt'" and gs1: "gs1 = gs\<lparr>vertex_tables := (vertex_tables gs)(label \<mapsto> vt')\<rparr>"
    using run(1) vt(1) by (auto simp: on_vtable_run)
  obtain g where g: "ov_seg_graphs gs label = Some g" and gs2: "gs2 = set_graph Outer label (add_deleted_outer_num 1 g) gs1"
    using count_deleted_run [OF run(2)] by (auto simp: get_graph_def demand_Inr gs1)
  obtain a where a: "tally gs Inner label = Some a" "level vt a (counters g)" "next_row gs label = Some (fst a)"
    using st vt(1) g by (fastforce simp: in_step_def tally_def counters_def)
  obtain k where "find_outer (tbl vt) lid (min_outer_location vt) (vsize vt - 1) = Found k"
    by (rule delete_outer_found [OF ok vt(2)])
  from delete_outer_level [OF vt' this, of a "vertex_count g" "deleted_inner g" "deleted_outer g"]
  have "level vt' a (vertex_count g, deleted_inner g, Suc (deleted_outer g))" using a(2) by (simp add: counters_def)
  then have "in_step gs2"
    using a vt(1) unfolding gs2 gs1
    by (intro in_step_label [OF st, where label = label and a = a and b = "counters (add_deleted_outer_num 1 g)"])
      (auto simp: set_graph_def tally_def next_row_def counters_def add_deleted_outer_num_def split: side.splits)
  moreover have "advances gs gs2"
    using vt' by (intro advances_vop [OF vt]) (simp_all add: gs2 gs1 set_graph_def)
  ultimately show ?thesis by (rule goesI [OF sd])
qed

text \<open>The passes over the edges change no table and no counter.\<close>

lemma vertex_passes_goes:
  assumes "goes gs gs2" and "create_graph_writer s label epoch gs2 = Inr gs3"
    and "frame gs3 gs4" and "frame gs4 gs'"
  shows "goes gs gs'"
  using assms(1,3,4) create_graph_writer_frame [OF assms(2)] goes_then_frame by blast

lemma process_del_vertex_goes:
  assumes sd: "steady gs" and al: "deletes_alive cmd gs" and run: "process_del_vertex cmd gs = Inr gs'"
  shows "goes gs gs'"
proof -
  obtain epoch vid where f: "int_field cmd 0 = Inr epoch" "vid_field cmd 1 = Inr vid"
    using run by (auto simp: process_del_vertex_def and_then_Inr)
  let ?l = "label_of gs vid" and ?off = "offset_of gs vid" and ?ov = "get_lid gs (label_of gs vid) vid"
  consider (inner) "is_local gs vid" | (unknown) "\<not> is_local gs vid" "?ov = - 1" | (outer) "\<not> is_local gs vid" "?ov \<noteq> - 1" by blast
  then show ?thesis
  proof cases
    case inner
    obtain gs1 gs2 gs3 gs4 where
      r: "on_vtable (delete_inner (parser gs) ?off) ?l gs = Inr gs1" "count_deleted (add_deleted_inner_num 1) Inner ?l gs1 = Inr gs2"
        "create_graph_writer Inner ?l epoch gs2 = Inr gs3"
        "each_elabel (del_inner_out epoch ?l ?off) [0..<edge_relation_size gs] gs3 = Inr gs4"
        "each_elabel (del_inner_in epoch ?l ?off) [0..<edge_relation_size gs] gs4 = Inr gs'"
      using run f inner by (auto simp: process_del_vertex_def Let_def and_then_Inr)
    obtain vt where vt: "vertex_tables gs ?l = Some vt" using r(1) by (auto simp: on_vtable_run)
    then have "vop_ok (parser gs) vt (DeleteInner ?off)" using al f inner by (simp add: deletes_alive_def)
    then have "goes gs gs2" by (rule delete_inner_goes [OF sd vt _ r(1,2)])
    then show ?thesis by (rule vertex_passes_goes [OF _ r(3) del_inner_out_all [OF r(4)] del_inner_in_all [OF r(5)]])
  next
    case unknown
    then show ?thesis using run f goes_refl [OF sd] by (simp add: process_del_vertex_def Let_def)
  next
    case outer
    let ?lid = "local_id gs ?l (max_outer_id_offset gs - ?ov)"
    obtain gs1 gs2 gs3 gs4 where
      r: "on_vtable (delete_outer ?lid) ?l gs = Inr gs1" "count_deleted (add_deleted_outer_num 1) Outer ?l gs1 = Inr gs2"
        "create_graph_writer Outer ?l epoch gs2 = Inr gs3"
        "each_elabel (del_outer_out epoch ?l ?ov) [0..<edge_relation_size gs] gs3 = Inr gs4"
        "each_elabel (del_outer_in epoch ?l ?ov) [0..<edge_relation_size gs] gs4 = Inr gs'"
      using run f outer by (auto simp: process_del_vertex_def Let_def and_then_Inr)
    obtain vt where vt: "vertex_tables gs ?l = Some vt" using r(1) by (auto simp: on_vtable_run)
    then have "vop_ok (parser gs) vt (DeleteOuter ?lid)" using al f outer by (simp add: deletes_alive_def)
    then have "goes gs gs2" by (rule delete_outer_goes [OF sd vt _ r(1,2)])
    then show ?thesis by (rule vertex_passes_goes [OF _ r(3) del_outer_out_all [OF r(4)] del_outer_in_all [OF r(5)]])
  qed
qed

text \<open>What is published is the state of the table.\<close>

lemma update_blob_publishes:
  assumes "in_step gs" and "vertex_tables gs label = Some vt" and "meta_max m = vsize vt"
  shows "update_blob gs label m = Some (publish vt)"
proof -
  obtain g og where g: "seg_graphs gs label = Some g" "ov_seg_graphs gs label = Some og" "level vt (counters g) (counters og)"
    using assms(1,2) by (fastforce simp: in_step_def tally_def)
  show ?thesis
    using g assms(3)
    by (cases m) (auto simp: update_blob_def publish_def set_loc_def set_boundary_def VTableMeta_def level_def counters_def)
qed

end
