(* ===== verification/Log_Lines.thy ===== *)
theory Log_Lines
  imports Prelude
begin

text \<open>
  The text of a log line: fields separated by a delimiter. \<open>splitString\<close> of
  \<^verbatim>\<open>vegito/src/framework/bench_runner.cc\<close> cuts a line into its fields.
\<close>

section \<open>Splitting\<close>

text \<open>\<^verbatim>\<open>str.find(c, pos)\<close>; \<open>None\<close> for \<^verbatim>\<open>npos\<close>.\<close>

function find_from :: "string \<Rightarrow> char \<Rightarrow> nat \<Rightarrow> nat option" where
  "find_from s c pos =
     (if length s \<le> pos then None
      else if s ! pos = c then Some pos
      else find_from s c (pos + 1))"
  by pat_completeness auto
termination by (relation "measure (\<lambda>(s, c, pos). length s - pos)") auto

declare find_from.simps [simp del]

lemma find_from_Some: "find_from s c pos = Some e \<Longrightarrow> pos \<le> e \<and> e < length s \<and> s ! e = c \<and> c \<notin> set (take (e - pos) (drop pos s))"
proof (induction s c pos rule: find_from.induct)
  case (1 s c pos)
  show ?case
  proof (cases "length s \<le> pos \<or> s ! pos = c")
    case True
    then show ?thesis using "1.prems" by (auto simp: find_from.simps [of s c pos] split: if_splits)
  next
    case False
    then have "find_from s c (pos + 1) = Some e" using "1.prems" by (simp add: find_from.simps [of s c pos])
    then have IH: "pos + 1 \<le> e \<and> e < length s \<and> s ! e = c \<and> c \<notin> set (take (e - (pos + 1)) (drop (pos + 1) s))"
      using "1.IH" False by simp
    moreover have "take (e - pos) (drop pos s) = s ! pos # take (e - (pos + 1)) (drop (pos + 1) s)"
      using IH False by (simp add: Cons_nth_drop_Suc [symmetric] Suc_diff_Suc take_Cons')
    ultimately show ?thesis using False by auto
  qed
qed

lemma find_from_None: "find_from s c pos = None \<Longrightarrow> c \<notin> set (drop pos s)"
proof (induction s c pos rule: find_from.induct)
  case (1 s c pos)
  show ?case
  proof (cases "length s \<le> pos")
    case False
    then have "s ! pos \<noteq> c" "find_from s c (pos + 1) = None" using "1.prems" by (auto simp: find_from.simps [of s c pos] split: if_splits)
    then have "c \<notin> set (drop (pos + 1) s)" using "1.IH" False by simp
    then show ?thesis using False \<open>s ! pos \<noteq> c\<close> by (simp add: Cons_nth_drop_Suc [symmetric])
  qed simp
qed

function split_loop :: "string \<Rightarrow> char \<Rightarrow> nat \<Rightarrow> string list" where
  "split_loop s c startPos =
     (case find_from s c startPos of
        Some endPos \<Rightarrow> take (endPos - startPos) (drop startPos s) # split_loop s c (endPos + 1)
      | None \<Rightarrow>
          if startPos < length s then [take (length s - startPos) (drop startPos s)]
          else if startPos = length s then ['''']
          else [])"
  by pat_completeness auto
termination by (relation "measure (\<lambda>(s, c, startPos). length s - startPos)") (auto dest: find_from_Some)

declare split_loop.simps [simp del]

definition splitString :: "string \<Rightarrow> char \<Rightarrow> string list" where
  "splitString s c = split_loop s c 0"

text \<open>\<^verbatim>\<open>toLowerCase\<close>, in the C locale.\<close>

definition tolower :: "char \<Rightarrow> char" where
  "tolower c = (let n = of_char c :: nat in if 65 \<le> n \<and> n \<le> 90 then char_of (n + 32) else c)"

definition toLowerCase :: "string \<Rightarrow> string" where
  "toLowerCase s = map tolower s"

section \<open>The fields of a line\<close>

text \<open>What splitting is to do: the fields between the delimiters, empty ones included.\<close>

primrec fields :: "char \<Rightarrow> string \<Rightarrow> string list" where
  "fields c [] = [[]]"
| "fields c (x # xs) = (if x = c then [] # fields c xs else (x # hd (fields c xs)) # tl (fields c xs))"

lemma fields_plain: "c \<notin> set f \<Longrightarrow> fields c f = [f]"
  by (induction f) auto

lemma fields_append: "c \<notin> set f \<Longrightarrow> fields c (f @ c # s) = f # fields c s"
  by (induction f) auto

lemma split_loop_fields: "pos \<le> length s \<Longrightarrow> split_loop s c pos = fields c (drop pos s)"
proof (induction s c pos rule: split_loop.induct)
  case (1 s c pos)
  show ?case
  proof (cases "find_from s c pos")
    case None
    then have "c \<notin> set (drop pos s)" by (rule find_from_None)
    then show ?thesis using None "1.prems" by (auto simp: split_loop.simps [of s c pos] fields_plain)
  next
    case (Some e)
    let ?f = "take (e - pos) (drop pos s)"
    have e: "pos \<le> e" "e < length s" "s ! e = c" "c \<notin> set ?f" using find_from_Some [OF Some] by auto
    have "drop (e - pos) (drop pos s) = c # drop (e + 1) s" using e(1,3) Cons_nth_drop_Suc [OF e(2)] by simp
    then have "drop pos s = ?f @ c # drop (e + 1) s" using append_take_drop_id [of "e - pos" "drop pos s"] by simp
    then have "fields c (drop pos s) = ?f # fields c (drop (e + 1) s)" using fields_append [OF e(4)] by metis
    moreover have "split_loop s c (e + 1) = fields c (drop (e + 1) s)" using "1.IH" [OF Some] e(2) by simp
    ultimately show ?thesis by (simp add: split_loop.simps [of s c pos] Some)
  qed
qed

lemma splitString_fields: "splitString s c = fields c s"
  by (simp add: splitString_def split_loop_fields)

lemma fields_nonempty: "fields c s \<noteq> []"
  by (induction s) auto

lemma splitString_nonempty: "splitString s c \<noteq> []"
  by (simp add: splitString_fields fields_nonempty)

text \<open>Fields put together with the delimiter.\<close>

primrec join_fields :: "char \<Rightarrow> string \<Rightarrow> string list \<Rightarrow> string" where
  "join_fields c base [] = base"
| "join_fields c base (f # fs) = join_fields c (base @ c # f) fs"

lemma join_fields_append: "join_fields c base (fs @ gs) = join_fields c (join_fields c base fs) gs"
  by (induction fs arbitrary: base) auto

lemma fields_join:
  assumes "\<forall>f \<in> set fs. c \<notin> set f"
  shows "fields c (join_fields c base fs) = fields c base @ fs"
  using assms
proof (induction fs arbitrary: base)
  case (Cons f fs)
  have "fields c (base @ c # f) = fields c base @ [f]" if "c \<notin> set f"
    using that fields_nonempty by (induction base) (auto simp: fields_plain neq_Nil_conv)
  then show ?case using Cons by simp
qed simp

lemma splitString_join:
  assumes "c \<notin> set f" and "\<forall>f \<in> set fs. c \<notin> set f"
  shows "splitString (join_fields c f fs) c = f # fs"
  using assms by (simp add: splitString_fields fields_join fields_plain)

end
