(* ===== verification/Runner.thy ===== *)
theory Runner
  imports Graph_Counters Log_Lines
begin

text \<open>
  \<^verbatim>\<open>Runner\<close> (\<^verbatim>\<open>vegito/src/framework/bench_runner.cc\<close>) in the build without
  \<^verbatim>\<open>USE_MULTI_THREADS\<close> (the default): it applies the log lines to the store one by one and
  publishes an epoch when the first line of a later one arrives. What it puts into etcd is the list of the
  epochs announced; \<^verbatim>\<open>fetch_blob_schema\<close> reads what was kept for an epoch.
\<close>

section \<open>State\<close>

record 'm runner =
  store :: "'m graph_store"
  latest_epoch :: u64
  blob_schemas :: "(nat \<times> vtable_meta) list"
  history_blob_schemas :: "u64 \<Rightarrow> (nat \<times> vtable_meta) list option"
  announced :: "u64 list"

text \<open>What the operations take from outside: the hash map and the conversions of values.\<close>

record 'm outside =
  emplace :: "int \<Rightarrow> int \<Rightarrow> 'm \<Rightarrow> 'm"
  real_bytes :: "prop_type \<Rightarrow> string \<Rightarrow> bytes option"
  real_ne :: "bytes \<Rightarrow> bytes \<Rightarrow> bool"
  fresh :: "nat \<Rightarrow> u8"

section \<open>Publishing\<close>

text \<open>\<open>update_blob\<close> for all labels; an edge store that is missing is dereferenced.\<close>

primrec update_blobs :: "'m graph_store \<Rightarrow> (nat \<times> vtable_meta) list \<Rightarrow> op_error + (nat \<times> vtable_meta) list" where
  "update_blobs gs [] = Inr []"
| "update_blobs gs (b # bs) =
     and_then (demand Out_Of_Range (update_blob gs (fst b) (snd b))) (\<lambda>m.
     and_then (update_blobs gs bs) (\<lambda>ms. Inr ((fst b, m) # ms)))"

definition publish_epoch :: "'m runner \<Rightarrow> op_error + 'm runner" where
  "publish_epoch r =
     and_then (update_blobs (store r) (blob_schemas r)) (\<lambda>bs.
       Inr (r\<lparr>blob_schemas := bs, history_blob_schemas := (history_blob_schemas r)(latest_epoch r \<mapsto> bs),
              announced := announced r @ [latest_epoch r]\<rparr>))"

section \<open>Applying a line\<close>

definition dispatch :: "'m outside \<Rightarrow> string \<Rightarrow> string list \<Rightarrow> 'm graph_store \<Rightarrow> op_error + 'm graph_store" where
  "dispatch w oper cmd gs =
     (if oper = ''add_vertex'' then process_add_vertex (emplace w) (real_bytes w) (fresh w) cmd gs
      else if oper = ''add_edge'' then process_add_edge (emplace w) (real_bytes w) cmd gs
      else if oper = ''delete_vertex'' then process_del_vertex cmd gs
      else if oper = ''delete_edge'' then process_del_edge cmd gs
      else if oper = ''update_vertex'' then process_update_vertex (real_bytes w) (real_ne w) (fresh w) cmd gs
      else Inr gs)"

text \<open>
  The comparison of the epoch of a line, an \<^verbatim>\<open>int\<close>, with \<open>latest_epoch\<close> is one of unsigned numbers.
  The last field of a line, its position in the source log, is dropped.
\<close>

definition advance_to :: "int \<Rightarrow> 'm runner \<Rightarrow> op_error + 'm runner" where
  "advance_to cur_epoch r =
     (if word_of_int cur_epoch > latest_epoch r
      then and_then (publish_epoch r) (\<lambda>r1. Inr (r1\<lparr>latest_epoch := word_of_int cur_epoch\<rparr>))
      else Inr r)"

definition apply_log_to_store :: "'m outside \<Rightarrow> string \<Rightarrow> 'm runner \<Rightarrow> op_error + 'm runner" where
  "apply_log_to_store w log r =
     (let sv_vec = splitString log (CHR ''|''); oper = hd sv_vec in
      and_then (int_field sv_vec 1) (\<lambda>cur_epoch.
      and_then (advance_to cur_epoch r) (\<lambda>r1.
        if oper = ''bulkload_end'' then Inr r1
        else and_then (dispatch w oper (butlast (tl sv_vec)) (store r1)) (\<lambda>gs. Inr (r1\<lparr>store := gs\<rparr>)))))"

text \<open>The lines of a file, and the messages of Kafka: an empty one is passed over.\<close>

primrec file_stream_to_process :: "'m outside \<Rightarrow> string list \<Rightarrow> 'm runner \<Rightarrow> op_error + 'm runner" where
  "file_stream_to_process w [] r = Inr r"
| "file_stream_to_process w (l # ls) r = and_then (apply_log_to_store w l r) (file_stream_to_process w ls)"

primrec kafka_to_process :: "'m outside \<Rightarrow> string list \<Rightarrow> 'm runner \<Rightarrow> op_error + 'm runner" where
  "kafka_to_process w [] r = Inr r"
| "kafka_to_process w (m # ms) r =
     (if length m = 0 then kafka_to_process w ms r
      else and_then (apply_log_to_store w m r) (kafka_to_process w ms))"

lemma kafka_file: "kafka_to_process w ms r = file_stream_to_process w (filter (\<lambda>m. m \<noteq> []) ms) r"
  by (induction ms arbitrary: r) (auto intro: and_then_cong)

section \<open>The invariant\<close>

text \<open>The vertices a line deletes are alive.\<close>

definition line_ok :: "string \<Rightarrow> 'm graph_store \<Rightarrow> bool" where
  "line_ok log gs \<longleftrightarrow> (let sv_vec = splitString log (CHR ''|'') in
     hd sv_vec = ''delete_vertex'' \<longrightarrow> deletes_alive (butlast (tl sv_vec)) gs)"

primrec lines_ok :: "'m outside \<Rightarrow> string list \<Rightarrow> 'm runner \<Rightarrow> bool" where
  "lines_ok w [] r \<longleftrightarrow> True"
| "lines_ok w (l # ls) r \<longleftrightarrow> line_ok l (store r) \<and>
     (case apply_log_to_store w l r of Inl e \<Rightarrow> True | Inr r' \<Rightarrow> lines_ok w ls r')"

text \<open>Every published table has its size.\<close>

definition blobs_ok :: "'m runner \<Rightarrow> bool" where
  "blobs_ok r \<longleftrightarrow> distinct (map fst (blob_schemas r)) \<and> (\<forall>(label, m) \<in> set (blob_schemas r).
     \<exists>vt. vertex_tables (store r) label = Some vt \<and> meta_max m = vsize vt)"

definition runner_ok :: "'m runner \<Rightarrow> bool" where
  "runner_ok r \<longleftrightarrow> steady (store r) \<and> blobs_ok r"

lemma dispatch_goes:
  assumes "steady gs" and "oper = ''delete_vertex'' \<Longrightarrow> deletes_alive cmd gs" and "dispatch w oper cmd gs = Inr gs'"
  shows "goes gs gs'"
  using assms process_add_vertex_goes [OF assms(1)] process_add_edge_goes [OF assms(1)] process_del_edge_goes [OF assms(1)]
    process_del_vertex_goes [OF assms(1)] process_update_vertex_goes [OF assms(1)] goes_refl [OF assms(1)]
  by (auto simp: dispatch_def split: if_splits)

text \<open>A table after more operations.\<close>

lemma advances_table:
  assumes "advances gs gs'" and "steady gs" and "vertex_tables gs label = Some vt"
  obtains vt' where "vertex_tables gs' label = Some vt'" "extends vt vt'" "vsize vt' = vsize vt"
proof -
  have "rel_option (\<lambda>vt vt'. \<exists>ops. run_vops (parser gs) ops vt = Some vt') (vertex_tables gs label) (vertex_tables gs' label)"
    using assms(1) by (simp add: advances_def)
  then obtain vt' ops where vt': "vertex_tables gs' label = Some vt'" "run_vops (parser gs) ops vt = Some vt'"
    using assms(3) by (auto simp: rel_option_iff split: option.splits)
  have ok: "vtable_ok vt" using assms(2,3) by (simp add: steady_def)
  have "extends vt vt'" by (rule run_vops_extends [OF vt'(2)])
  moreover have "vtable_ok vt'" using run_vops_ok [OF ok vt'(2)] by simp
  ultimately show ?thesis using that vt' ok by (simp add: vtable_ok_def extends_def)
qed

text \<open>Publishing never fails and announces the state of the tables.\<close>

lemma update_blobs_publish:
  assumes "steady gs" and "\<forall>(label, m) \<in> set bs. \<exists>vt. vertex_tables gs label = Some vt \<and> meta_max m = vsize vt"
  shows "update_blobs gs bs = Inr (map (\<lambda>(label, m). (label, publish (the (vertex_tables gs label)))) bs)"
  using assms(2)
proof (induction bs)
  case (Cons b bs)
  obtain label m where b: "b = (label, m)" by (cases b)
  then obtain vt where vt: "vertex_tables gs label = Some vt" "meta_max m = vsize vt" using Cons.prems by auto
  then have "update_blob gs label m = Some (publish vt)" using assms(1) update_blob_publishes unfolding steady_def by blast
  then show ?case using Cons b vt by simp
qed simp

lemma publish_epoch_ok:
  assumes "runner_ok r"
  shows "publish_epoch r = Inr (r\<lparr>
      blob_schemas := map (\<lambda>(label, m). (label, publish (the (vertex_tables (store r) label)))) (blob_schemas r),
      history_blob_schemas := (history_blob_schemas r)(latest_epoch r \<mapsto>
        map (\<lambda>(label, m). (label, publish (the (vertex_tables (store r) label)))) (blob_schemas r)),
      announced := announced r @ [latest_epoch r]\<rparr>)"
  using assms update_blobs_publish [of "store r" "blob_schemas r"]
  by (simp add: publish_epoch_def runner_ok_def blobs_ok_def)

lemma publish_max: "meta_max (publish vt) = vsize vt"
  by (simp add: publish_def set_loc_def set_boundary_def VTableMeta_def)

lemma advance_to_ok:
  assumes "runner_ok r"
  obtains r1 where "advance_to e r = Inr r1" "runner_ok r1" "store r1 = store r" "map fst (blob_schemas r1) = map fst (blob_schemas r)"
proof -
  let ?bs = "map (\<lambda>(label, m). (label, publish (the (vertex_tables (store r) label)))) (blob_schemas r)"
  have fst: "map fst ?bs = map fst (blob_schemas r)" by (simp add: case_prod_unfold)
  have dist: "distinct (map fst ?bs)" using assms unfolding fst by (simp add: runner_ok_def blobs_ok_def)
  have "\<forall>(label, m) \<in> set ?bs. \<exists>vt. vertex_tables (store r) label = Some vt \<and> meta_max m = vsize vt"
    using assms by (fastforce simp: runner_ok_def blobs_ok_def publish_max)
  then have "blobs_ok (r\<lparr>blob_schemas := ?bs, history_blob_schemas := h, announced := a, latest_epoch := l\<rparr>)" for h a l
    using dist by (simp add: blobs_ok_def)
  then have "\<exists>r1. advance_to e r = Inr r1 \<and> runner_ok r1 \<and> store r1 = store r \<and> map fst (blob_schemas r1) = map fst (blob_schemas r)"
    using assms publish_epoch_ok [OF assms] by (auto simp: advance_to_def runner_ok_def case_prod_unfold)
  then show ?thesis using that by blast
qed

lemma apply_log_ok:
  assumes ok: "runner_ok r" and line: "line_ok log (store r)" and run: "apply_log_to_store w log r = Inr r'"
  shows "runner_ok r'" and "advances (store r) (store r')" and "map fst (blob_schemas r') = map fst (blob_schemas r)"
proof -
  let ?sv = "splitString log (CHR ''|'')"
  obtain e where e: "int_field ?sv 1 = Inr e" using run by (auto simp: apply_log_to_store_def Let_def and_then_Inr)
  obtain r1 where r1: "advance_to e r = Inr r1" "runner_ok r1" "store r1 = store r" "map fst (blob_schemas r1) = map fst (blob_schemas r)"
    by (rule advance_to_ok [OF ok])
  have sd: "steady (store r)" using ok by (simp add: runner_ok_def)
  have "\<exists>gs. goes (store r) gs \<and> r' = r1\<lparr>store := gs\<rparr>"
  proof (cases "hd ?sv = ''bulkload_end''")
    case True
    then have "r' = r1\<lparr>store := store r\<rparr>" using run e r1 by (simp add: apply_log_to_store_def Let_def)
    then show ?thesis using goes_refl [OF sd] by blast
  next
    case False
    then obtain gs where gs: "dispatch w (hd ?sv) (butlast (tl ?sv)) (store r) = Inr gs" "r' = r1\<lparr>store := gs\<rparr>"
      using run e r1 by (auto simp: apply_log_to_store_def Let_def and_then_Inr)
    have "goes (store r) gs" using line by (intro dispatch_goes [OF sd _ gs(1)]) (simp add: line_ok_def Let_def)
    then show ?thesis using gs(2) by blast
  qed
  then obtain gs where gs: "goes (store r) gs" "r' = r1\<lparr>store := gs\<rparr>" by blast
  have "\<exists>vt'. vertex_tables gs label = Some vt' \<and> meta_max m = vsize vt'"
    if mem: "(label, m) \<in> set (blob_schemas r1)" for label m
  proof -
    obtain vt where vt: "vertex_tables (store r) label = Some vt" "meta_max m = vsize vt"
      using r1(2,3) mem by (fastforce simp: runner_ok_def blobs_ok_def)
    have "advances (store r) gs" using gs(1) by (simp add: goes_def)
    then obtain vt' where "vertex_tables gs label = Some vt'" "vsize vt' = vsize vt"
      by (rule advances_table [OF _ sd vt(1)])
    then show ?thesis using vt by simp
  qed
  then have "blobs_ok r'" using r1(2) by (auto simp: gs(2) runner_ok_def blobs_ok_def)
  then show "runner_ok r'" using gs by (simp add: runner_ok_def goes_def)
  show "advances (store r) (store r')" using gs by (simp add: goes_def)
  show "map fst (blob_schemas r') = map fst (blob_schemas r)" using r1 gs by simp
qed

lemma file_stream_ok:
  assumes "runner_ok r" and "lines_ok w ls r" and "file_stream_to_process w ls r = Inr r'"
  shows "runner_ok r' \<and> advances (store r) (store r') \<and> map fst (blob_schemas r') = map fst (blob_schemas r)"
  using assms
proof (induction ls arbitrary: r)
  case Nil
  then show ?case using goes_refl by (auto simp: runner_ok_def goes_def)
next
  case (Cons l ls)
  then obtain r1 where r1: "apply_log_to_store w l r = Inr r1" "file_stream_to_process w ls r1 = Inr r'"
    by (auto simp: and_then_Inr)
  note st = apply_log_ok [OF Cons.prems(1) _ r1(1)]
  have "runner_ok r1" "lines_ok w ls r1" using st Cons.prems(2) r1(1) by simp_all
  from Cons.IH [OF this r1(2)] show ?case using st Cons.prems(2) advances_trans by auto
qed

section \<open>The epochs\<close>

text \<open>What a line does to the epochs: one of a later epoch closes the current one.\<close>

lemma apply_log_epochs:
  assumes "apply_log_to_store w log r = Inr r'" and "int_field (splitString log (CHR ''|'')) 1 = Inr e"
  shows "if word_of_int e > latest_epoch r
    then latest_epoch r' = word_of_int e \<and> announced r' = announced r @ [latest_epoch r] \<and>
      (\<exists>bs. update_blobs (store r) (blob_schemas r) = Inr bs \<and>
        history_blob_schemas r' = (history_blob_schemas r)(latest_epoch r \<mapsto> bs))
    else latest_epoch r' = latest_epoch r \<and> announced r' = announced r \<and> history_blob_schemas r' = history_blob_schemas r"
  using assms
  by (auto simp: apply_log_to_store_def advance_to_def publish_epoch_def Let_def and_then_Inr split: if_splits)

lemma apply_log_epoch:
  assumes "apply_log_to_store w log r = Inr r'"
  obtains e where "int_field (splitString log (CHR ''|'')) 1 = Inr e"
  using assms by (auto simp: apply_log_to_store_def Let_def and_then_Inr)

lemma file_stream_history:
  assumes "file_stream_to_process w ls r = Inr r'"
  shows "latest_epoch r \<le> latest_epoch r' \<and> (\<forall>k < latest_epoch r. history_blob_schemas r' k = history_blob_schemas r k) \<and>
    (\<exists>xs. announced r' = announced r @ xs)"
  using assms
proof (induction ls arbitrary: r)
  case (Cons l ls)
  then obtain r1 where r1: "apply_log_to_store w l r = Inr r1" "file_stream_to_process w ls r1 = Inr r'"
    by (auto simp: and_then_Inr)
  obtain e where "int_field (splitString l (CHR ''|'')) 1 = Inr e" by (rule apply_log_epoch [OF r1(1)])
  note st = apply_log_epochs [OF r1(1) this]
  have "latest_epoch r \<le> latest_epoch r1 \<and> (\<forall>k < latest_epoch r. history_blob_schemas r1 k = history_blob_schemas r k) \<and>
    (\<exists>xs. announced r1 = announced r @ xs)"
    using st by (auto split: if_splits)
  then show ?case using Cons.IH [OF r1(2)] by fastforce
qed simp

section \<open>A run evaluated\<close>

text \<open>One vertex label without properties, four words for its table.\<close>

definition no_edges :: seg_graph where
  "no_edges = \<lparr>vertex_count = 0, seg_count = 0, edge_label_ptrs = [0, 0], manager = \<lparr>capacity = 0, used_size = 0,
     file_size = 0, enough = False, free_blocks = (\<lambda>k. []), large_free_blocks = (\<lambda>k. [])\<rparr>, segments = (\<lambda>a. None),
     epoch_blocks = (\<lambda>a. None), label_blocks = (\<lambda>a. None), segments_to_recycle = [],
     edge_is_undirected = [False], deleted_inner = 0, deleted_outer = 0\<rparr>"

definition new_town :: "unit graph_store" where
  "new_town = \<lparr>local_pid = 0, parser = small_parser, edge_relation_size = 1, seg_graphs = [0 \<mapsto> no_edges],
     ov_seg_graphs = [0 \<mapsto> no_edges], vertex_tables = [0 \<mapsto> new_vtable [0, 0, 0, 0]],
     property_stores = [0 \<mapsto> \<lparr>max_items = 4, pc_cols = [], pc_flex = [], pc_heap = (\<lambda>a. None),
       pc_buf = init_capacity 0 (\<lambda>a. 0), pc_header = 0, pc_stable_header = 0\<rparr>],
     vprop_schemas = (\<lambda>l. \<lparr>prop_cf = [], prop_cf_offset = [], prop_cf_id = [], vprop_dtype = (\<lambda>i. LONG)\<rparr>),
     vprop_buffer = init_capacity 0 (\<lambda>a. 0), string_buffer = init_capacity 0 (\<lambda>a. 0),
     edge_schemas = (\<lambda>l. \<lparr>prop_total_bytes = 0, edge_bitmap_size = 0, prop_dtype = (\<lambda>i. CHAR_T), prop_prefix_bytes = (\<lambda>i. 0)\<rparr>),
     ovl2gs = (\<lambda>l. None), ovg2ls = (\<lambda>l. ()), vertex_maps = (\<lambda>l. ()), key_lid_map = (\<lambda>l k. None),
     external_id_dtype = (\<lambda>l. LONG), external_id_stores = [0 \<mapsto> [0, 0, 0, 0]],
     outer_external_id_stores = (\<lambda>l. None), rands = (\<lambda>i. 1)\<rparr>"

definition new_runner :: "unit runner" where
  "new_runner = \<lparr>store = new_town, latest_epoch = 0, blob_schemas = [(0, VTableMeta 4)],
     history_blob_schemas = (\<lambda>e. None), announced = []\<rparr>"

definition plain_outside :: "unit outside" where
  "plain_outside = \<lparr>emplace = (\<lambda>a b m. m), real_bytes = (\<lambda>t s. None), real_ne = (\<lambda>a b. False), fresh = (\<lambda>i. 0)\<rparr>"

text \<open>A vertex is added at epoch 0, the bulk load ends with epoch 1, and another vertex is added.\<close>

lemma small_gids: "GenerateId small_parser 0 0 0 = 0" "GenerateId small_parser 0 0 1 = 2"
  by code_simp+

lemma town_fields: "int_field [''0'', ''0'', ''7''] 0 = Inr 0" "vid_field [''0'', ''0'', ''7''] 1 = Inr 0"
  "int_field [''1'', ''2'', ''9''] 0 = Inr 1" "vid_field [''1'', ''2'', ''9''] 1 = Inr 2" "stoll ''7'' = Inr 7" "stoll ''9'' = Inr 9"
  by code_simp+

lemma town_splits: "splitString ''add_vertex|0|0|7|1'' (CHR ''|'') = [''add_vertex'', ''0'', ''0'', ''7'', ''1'']"
  "splitString ''bulkload_end|1|2'' (CHR ''|'') = [''bulkload_end'', ''1'', ''2'']"
  "splitString ''add_vertex|1|2|9|3'' (CHR ''|'') = [''add_vertex'', ''1'', ''2'', ''9'', ''3'']"
  by code_simp+

lemma town_epochs: "int_field [''add_vertex'', ''0'', ''0'', ''7'', ''1''] 1 = Inr 0" "int_field [''bulkload_end'', ''1'', ''2''] 1 = Inr 1"
  "int_field [''add_vertex'', ''1'', ''2'', ''9'', ''3''] 1 = Inr 1"
  by code_simp+

lemmas town_eval = process_add_vertex_def insert_inner_vertex_def field_at_def label_of_def offset_of_def is_local_def
  local_id_def demo_ids small_gids town_fields [simplified] set_vertex_map_def create_graph_writer_def get_graph_def
  RECYCLE_FREQ_def writer_new_vertex_def new_vertex_def Let_def set_graph_def get_vertex_seg_id_def VERTEX_PER_SEG_def
  getNewOffset_def on_vtable_def add_inner_def store_at_def set_external_id_def with_property_def paged_insert_def

lemma town_adds: "\<exists>gs1 gs2. dispatch plain_outside ''add_vertex'' [''0'', ''0'', ''7''] new_town = Inr gs1 \<and>
    dispatch plain_outside ''add_vertex'' [''1'', ''2'', ''9''] gs1 = Inr gs2 \<and>
    vertex_tables gs1 0 = Some ((new_vtable [0, 0, 0, 0])\<lparr>max_inner := 1, max_inner_location := 1\<rparr>)"
  by (simp add: dispatch_def plain_outside_def new_town_def no_edges_def town_eval new_vtable_def init_capacity_def cong: if_cong)

lemma new_runner_ok: "runner_ok new_runner"
proof -
  have "vtable_ok (new_vtable [0, 0, 0, 0])" by (rule new_vtable_ok) simp
  moreover have "in_step new_town"
    by (simp add: in_step_def new_town_def tally_def next_row_def level_def counters_def no_edges_def new_vtable_def)
  moreover have "\<exists>w. layout (parser new_town) w" using demo_layout by (auto simp: new_town_def)
  moreover have "vertex_tables new_town = [0 \<mapsto> new_vtable [0, 0, 0, 0]]" by (simp add: new_town_def)
  ultimately show ?thesis
    by (auto simp: runner_ok_def steady_def blobs_ok_def new_runner_def VTableMeta_def new_vtable_def split: if_splits)
qed

text \<open>The first line alone, then the others.\<close>

lemma town_run:
  "\<exists>r r1 r2. apply_log_to_store plain_outside ''add_vertex|0|0|7|1'' new_runner = Inr r \<and> runner_ok r \<and>
    latest_epoch r = 0 \<and> fst ` set (blob_schemas r) = {0} \<and>
    vertex_tables (store r) 0 = Some ((new_vtable [0, 0, 0, 0])\<lparr>max_inner := 1, max_inner_location := 1\<rparr>) \<and>
    apply_log_to_store plain_outside ''bulkload_end|1|2'' r = Inr r1 \<and>
    file_stream_to_process plain_outside [''add_vertex|1|2|9|3''] r1 = Inr r2"
proof -
  obtain gs1 gs2 where gs: "dispatch plain_outside ''add_vertex'' [''0'', ''0'', ''7''] new_town = Inr gs1"
    "dispatch plain_outside ''add_vertex'' [''1'', ''2'', ''9''] gs1 = Inr gs2"
    "vertex_tables gs1 0 = Some ((new_vtable [0, 0, 0, 0])\<lparr>max_inner := 1, max_inner_location := 1\<rparr>)"
    using town_adds by blast
  let ?r = "new_runner\<lparr>store := gs1\<rparr>"
  have r: "apply_log_to_store plain_outside ''add_vertex|0|0|7|1'' new_runner = Inr ?r"
    using gs(1) by (simp add: apply_log_to_store_def town_splits town_epochs [simplified] advance_to_def new_runner_def)
  have ok: "runner_ok ?r"
    by (rule apply_log_ok(1) [OF new_runner_ok _ r]) (simp add: line_ok_def town_splits)
  have l: "latest_epoch ?r = 0" by (simp add: new_runner_def)
  let ?bs = "map (\<lambda>(label, m). (label, publish (the (vertex_tables (store ?r) label)))) (blob_schemas ?r)"
  have r1: "apply_log_to_store plain_outside ''bulkload_end|1|2'' ?r = Inr (?r\<lparr>blob_schemas := ?bs,
      history_blob_schemas := (history_blob_schemas ?r)(0 \<mapsto> ?bs), announced := announced ?r @ [0], latest_epoch := 1\<rparr>)"
    using publish_epoch_ok [OF ok] unfolding l
    by (simp add: apply_log_to_store_def town_splits town_epochs [simplified] advance_to_def l)
  have "file_stream_to_process plain_outside [''add_vertex|1|2|9|3''] (?r\<lparr>blob_schemas := ?bs,
      history_blob_schemas := (history_blob_schemas ?r)(0 \<mapsto> ?bs), announced := announced ?r @ [0], latest_epoch := 1\<rparr>) =
      Inr (?r\<lparr>blob_schemas := ?bs, history_blob_schemas := (history_blob_schemas ?r)(0 \<mapsto> ?bs),
        announced := announced ?r @ [0], latest_epoch := 1, store := gs2\<rparr>)"
    using gs(2) by (simp add: apply_log_to_store_def town_splits town_epochs [simplified] advance_to_def)
  then show ?thesis using r ok l gs(3) r1 by (intro exI conjI; (assumption)?) (simp_all add: new_runner_def)
qed

section \<open>Properties\<close>


lemma town_lines_ok:
  assumes "apply_log_to_store plain_outside ''bulkload_end|1|2'' r = Inr r1"
  shows "lines_ok plain_outside [''bulkload_end|1|2'', ''add_vertex|1|2|9|3''] r" and "lines_ok plain_outside [''add_vertex|1|2|9|3''] r1"
  using assms by (simp_all add: line_ok_def town_splits split: sum.splits)


text \<open>
C8: The first line of a later epoch publishes the current one: whatever lines follow, what was kept for
the closed epoch does not change any more, and a fragment that opens it on the shared table, by then with
later vertices and markers, reads exactly the vertices that were alive when the epoch was closed.
\<close>

theorem epoch_snapshot:
  assumes "runner_ok r" and "line_ok log (store r)" and "apply_log_to_store w log r = Inr r1"
    and "int_field (splitString log (CHR ''|'')) 1 = Inr e" and "latest_epoch r < word_of_int e"
    and "lines_ok w ls r1" and "file_stream_to_process w ls r1 = Inr r2"
    and "label \<in> fst ` set (blob_schemas r)" and "vertex_tables (store r) label = Some vt"
  shows "\<exists>blobs m vt2. history_blob_schemas r2 (latest_epoch r) = Some blobs \<and> map_of blobs label = Some m \<and>
    vertex_tables (store r2) label = Some vt2 \<and>
    Option.bind (Vertices (view_of m (tbl vt2))) visit_vertices = Some (fst (contents vt) @ snd (contents vt))"
proof -
  let ?bs = "map (\<lambda>(label, m). (label, publish (the (vertex_tables (store r) label)))) (blob_schemas r)"
  have sd: "steady (store r)" and bl: "blobs_ok r" using assms(1) by (simp_all add: runner_ok_def)
  have "update_blobs (store r) (blob_schemas r) = Inr ?bs"
    using update_blobs_publish [OF sd] bl by (simp add: blobs_ok_def)
  then have r1: "latest_epoch r1 = word_of_int e" "history_blob_schemas r1 (latest_epoch r) = Some ?bs"
    using apply_log_epochs [OF assms(3,4)] assms(5) by auto
  then have h: "history_blob_schemas r2 (latest_epoch r) = Some ?bs"
    using file_stream_history [OF assms(7)] assms(5) by simp
  obtain m0 where "(label, m0) \<in> set (blob_schemas r)" using assms(8) by auto
  then have mem: "(label, publish vt) \<in> set ?bs" using assms(9) by force
  have "map fst ?bs = map fst (blob_schemas r)" by (simp add: case_prod_unfold)
  then have "distinct (map fst ?bs)" using bl unfolding blobs_ok_def by (simp only:)
  then have m: "map_of ?bs label = Some (publish vt)" using mem by (rule map_of_is_SomeI)
  note step = apply_log_ok [OF assms(1-3)]
  have "advances (store r) (store r2)" using step file_stream_ok [OF step(1) assms(6,7)] advances_trans by blast
  then obtain vt2 where vt2: "vertex_tables (store r2) label = Some vt2" "extends vt vt2"
    by (rule advances_table [OF _ sd assms(9)])
  have ok: "vtable_ok vt" using sd assms(9) by (simp add: steady_def)
  have "Option.bind (Vertices (view_of (publish vt) (tbl vt2))) visit_vertices = Some (fst (contents vt) @ snd (contents vt))"
    using ok vt2(2) by (simp add: Vertices_visits [OF published_view] extends_visits scan_regions contents_def)
  then show ?thesis using h m vt2(1) by blast
qed

lemma epoch_snapshot_witness:
  "\<exists>r r1 r2 blobs m vt2. apply_log_to_store plain_outside ''bulkload_end|1|2'' r = Inr r1 \<and>
    file_stream_to_process plain_outside [''add_vertex|1|2|9|3''] r1 = Inr r2 \<and>
    history_blob_schemas r2 0 = Some blobs \<and> map_of blobs 0 = Some m \<and> vertex_tables (store r2) 0 = Some vt2 \<and>
    Option.bind (Vertices (view_of m (tbl vt2))) visit_vertices = Some [0]"
proof -
  let ?vt = "(new_vtable [0, 0, 0, 0])\<lparr>max_inner := 1, max_inner_location := 1\<rparr>"
  obtain r r1 r2 where r: "runner_ok r" "latest_epoch r = 0" "fst ` set (blob_schemas r) = {0}"
      "vertex_tables (store r) 0 = Some ?vt" "apply_log_to_store plain_outside ''bulkload_end|1|2'' r = Inr r1"
      "file_stream_to_process plain_outside [''add_vertex|1|2|9|3''] r1 = Inr r2"
    using town_run by blast
  have l: "line_ok ''bulkload_end|1|2'' (store r)" by (simp add: line_ok_def town_splits)
  have e: "int_field (splitString ''bulkload_end|1|2'' (CHR ''|'')) 1 = Inr 1" by (simp add: town_splits town_epochs [simplified])
  have "contents ?vt = ([0], [])" by code_simp
  then show ?thesis
    using epoch_snapshot [OF r(1) l r(5) e _ town_lines_ok(2) [OF r(5)] r(6) _ r(4)] r(2,3,5,6) by auto
qed

text \<open>The epoch of a line.\<close>

definition line_epoch :: "string \<Rightarrow> op_error + int" where
  "line_epoch l = int_field (splitString l (CHR ''|'')) 1"

lemma file_stream_append:
  "file_stream_to_process w (as @ bs) r = and_then (file_stream_to_process w as r) (file_stream_to_process w bs)"
  by (induction as arbitrary: r) (auto simp: and_then_def split: sum.splits)

lemma latest_after:
  assumes "file_stream_to_process w ls r = Inr r'" and "latest_epoch r \<le> E"
    and "\<forall>l \<in> set ls. \<forall>x. line_epoch l = Inr x \<longrightarrow> word_of_int x \<le> E"
  shows "latest_epoch r' \<le> E"
  using assms
proof (induction ls arbitrary: r)
  case (Cons l ls)
  then obtain r1 where r1: "apply_log_to_store w l r = Inr r1" "file_stream_to_process w ls r1 = Inr r'"
    by (auto simp: and_then_Inr)
  obtain e where e: "int_field (splitString l (CHR ''|'')) 1 = Inr e" by (rule apply_log_epoch [OF r1(1)])
  have "latest_epoch r1 \<le> E" using apply_log_epochs [OF r1(1) e] Cons.prems(2,3) e by (auto simp: line_epoch_def split: if_splits)
  then show ?case using Cons.IH [OF r1(2)] Cons.prems(3) by simp
qed simp

text \<open>A line of a later epoch closes the current one, now or with a line before it.\<close>

lemma epoch_closed:
  assumes "file_stream_to_process w (bs @ [l']) r = Inr r'" and "line_epoch l' = Inr e'" and "latest_epoch r < word_of_int e'"
  shows "latest_epoch r \<in> set (announced r') \<and> history_blob_schemas r' (latest_epoch r) \<noteq> None"
  using assms(1,3)
proof (induction bs arbitrary: r)
  case Nil
  then have "apply_log_to_store w l' r = Inr r'" by (auto simp: and_then_Inr)
  from apply_log_epochs [OF this] show ?case using assms(2) Nil.prems(2) by (auto simp: line_epoch_def)
next
  case (Cons l bs)
  then obtain r1 where r1: "apply_log_to_store w l r = Inr r1" "file_stream_to_process w (bs @ [l']) r1 = Inr r'"
    by (auto simp: and_then_Inr)
  obtain e where e: "int_field (splitString l (CHR ''|'')) 1 = Inr e" by (rule apply_log_epoch [OF r1(1)])
  note st = apply_log_epochs [OF r1(1) e]
  show ?case
  proof (cases "latest_epoch r < word_of_int e")
    case True
    then have "latest_epoch r \<in> set (announced r1)" "history_blob_schemas r1 (latest_epoch r) \<noteq> None" "latest_epoch r < latest_epoch r1"
      using st by auto
    then show ?thesis using file_stream_history [OF r1(2)] by auto
  next
    case False
    then have "latest_epoch r1 = latest_epoch r" using st by simp
    then show ?thesis using Cons.IH [OF r1(2)] Cons.prems(2) by simp
  qed
qed

text \<open>
C10: Every epoch is published in the end: once a line of an epoch has been applied, with no line of a later epoch
before it, applying a line of a later epoch leaves the epoch announced and its tables kept, however many
lines of whatever epochs come in between. (The epoch of the last line is the one still open.)
\<close>

theorem epochs_published:
  assumes "file_stream_to_process w (as @ l # bs @ [l']) r = Inr r'"
    and "line_epoch l = Inr e" and "line_epoch l' = Inr e'"
    and "\<forall>k \<in> set as. \<forall>x. line_epoch k = Inr x \<longrightarrow> (word_of_int x :: u64) \<le> word_of_int e"
    and "latest_epoch r \<le> word_of_int e" and "(word_of_int e :: u64) < word_of_int e'"
  shows "word_of_int e \<in> set (announced r') \<and> history_blob_schemas r' (word_of_int e) \<noteq> None"
proof -
  obtain r1 r2 where r: "file_stream_to_process w as r = Inr r1" "apply_log_to_store w l r1 = Inr r2"
    "file_stream_to_process w (bs @ [l']) r2 = Inr r'"
    using assms(1) by (auto simp: file_stream_append and_then_Inr)
  have "latest_epoch r1 \<le> word_of_int e" by (rule latest_after [OF r(1) assms(5,4)])
  then have "latest_epoch r2 = word_of_int e"
    using apply_log_epochs [OF r(2)] assms(2) by (auto simp: line_epoch_def split: if_splits)
  then show ?thesis using epoch_closed [OF r(3) assms(3)] assms(6) by simp
qed

lemma epochs_published_witness:
  "\<exists>r'. file_stream_to_process plain_outside [''add_vertex|0|0|7|1'', ''bulkload_end|1|2''] new_runner = Inr r' \<and>
    0 \<in> set (announced r') \<and> history_blob_schemas r' 0 \<noteq> None"
proof -
  obtain r r1 where r: "apply_log_to_store plain_outside ''add_vertex|0|0|7|1'' new_runner = Inr r"
      "apply_log_to_store plain_outside ''bulkload_end|1|2'' r = Inr r1"
    using town_run by blast
  have run: "file_stream_to_process plain_outside ([] @ ''add_vertex|0|0|7|1'' # [] @ [''bulkload_end|1|2'']) new_runner = Inr r1"
    using r by simp
  have e: "line_epoch ''add_vertex|0|0|7|1'' = Inr 0" "line_epoch ''bulkload_end|1|2'' = Inr 1"
    by (simp_all add: line_epoch_def town_splits town_epochs [simplified])
  show ?thesis using epochs_published [OF run e] run by (simp add: new_runner_def)
qed

text \<open>
C38: Deleting a vertex that is not in its table, for instance a second time, counts the deletion although no
marker is written: from then on the published boundary of the inner region lies one word beyond the table, and
fragments read a word that was never written.
\<close>

theorem absent_delete_shifts_boundary:
  assumes "steady gs" and "int_field cmd 0 = Inr epoch" and "vid_field cmd 1 = Inr vid" and "is_local gs vid" and "vertex_tables gs (label_of gs vid) = Some vt"
    and "find_inner (parser gs) (tbl vt) (offset_of gs vid) (max_inner_location vt) 0 = Absent"
    and "process_del_vertex cmd gs = Inr gs'"
  shows "\<exists>m. vertex_tables gs' (label_of gs vid) = Some vt \<and>
    update_blob gs' (label_of gs vid) (VTableMeta (vsize vt)) = Some m \<and>
    meta_max_inner_location m = Suc (max_inner_location vt)"
proof -
  let ?l = "label_of gs vid" and ?off = "offset_of gs vid"
  note f = assms(2,3)
  obtain gs1 gs2 gs3 gs4 where
    r: "on_vtable (delete_inner (parser gs) ?off) ?l gs = Inr gs1" "count_deleted (add_deleted_inner_num 1) Inner ?l gs1 = Inr gs2"
      "create_graph_writer Inner ?l epoch gs2 = Inr gs3"
      "each_elabel (del_inner_out epoch ?l ?off) [0..<edge_relation_size gs] gs3 = Inr gs4"
      "each_elabel (del_inner_in epoch ?l ?off) [0..<edge_relation_size gs] gs4 = Inr gs'"
    using assms(4,7) f by (auto simp: process_del_vertex_def Let_def and_then_Inr)
  have gs1: "vertex_tables gs1 = vertex_tables gs" "tally gs1 = tally gs"
    using r(1) assms(5,6) by (auto simp: on_vtable_run delete_inner_def fun_eq_iff)
  obtain n di dn b where c: "tally gs Inner ?l = Some (n, di, dn)" "tally gs Outer ?l = Some b" "level vt (n, di, dn) b"
    using assms(1,5) unfolding steady_def in_step_def by (metis prod_cases3)
  obtain g where g: "seg_graphs gs1 ?l = Some g" "gs2 = set_graph Inner ?l (add_deleted_inner_num 1 g) gs1"
    using count_deleted_run [OF r(2)] by (auto simp: get_graph_def demand_Inr)
  have "counters g = (n, di, dn)" using c(1) g(1) gs1(2) by (metis (mono_tags, lifting) tally_def option.simps(9) option.inject side.simps(3))
  then have "tally gs2 Inner ?l = Some (n, Suc di, dn)"
    by (simp add: tally_def g(2) set_graph_def counters_def add_deleted_inner_num_def)
  moreover have "tally gs2 Outer ?l = tally gs1 Outer ?l" "vertex_tables gs2 = vertex_tables gs1"
    by (simp_all add: tally_def g(2) set_graph_def)
  ultimately have t2: "tally gs2 Inner ?l = Some (n, Suc di, dn)" "tally gs2 Outer ?l = Some b" "vertex_tables gs2 = vertex_tables gs"
    using c(2) gs1 by simp_all
  have "frame gs2 gs'"
    using create_graph_writer_frame [OF r(3)] del_inner_out_all [OF r(4)] del_inner_in_all [OF r(5)] frame_trans by blast
  then have t: "tally gs' Inner ?l = Some (n, Suc di, dn)" "tally gs' Outer ?l = Some b" "vertex_tables gs' = vertex_tables gs"
    using t2 by (simp_all add: frame_def)
  then obtain g' og where g': "seg_graphs gs' ?l = Some g'" "counters g' = (n, Suc di, dn)" "ov_seg_graphs gs' ?l = Some og"
    by (auto simp: tally_def)
  show ?thesis
    using g' c(3) t(3) assms(5) by (auto simp: update_blob_def counters_def set_loc_def set_boundary_def level_def)
qed

lemma find_inner_empty: "find_inner p t off 0 0 = Absent"
  by (simp add: find_inner.simps [of p t off 0 0])

lemma empty_delete: "\<exists>gs'. process_del_vertex [''1'', ''0''] new_town = Inr gs'"
proof -
  have f: "int_field [''1'', ''0''] 0 = Inr 1" "vid_field [''1'', ''0''] 1 = Inr 0" by code_simp+
  show ?thesis
    using f [simplified] demo_ids
    by (simp add: process_del_vertex_def new_town_def no_edges_def town_eval new_vtable_def delete_inner_def find_inner_empty
        count_deleted_def add_deleted_inner_num_def del_inner_out_def del_inner_in_def edges_to_delete_def locate_segment_def
        NULLPOINTER_def cong: if_cong)
qed

lemma absent_delete_shifts_boundary_witness:
  "\<exists>gs' m. process_del_vertex [''1'', ''0''] new_town = Inr gs' \<and> update_blob gs' 0 (VTableMeta 4) = Some m \<and>
    meta_max_inner_location m = 1"
proof -
  obtain gs' where run: "process_del_vertex [''1'', ''0''] new_town = Inr gs'" using empty_delete by blast
  have f: "int_field [''1'', ''0''] 0 = Inr 1" "vid_field [''1'', ''0''] 1 = Inr 0" by code_simp+
  have sd: "steady new_town" using new_runner_ok by (simp add: runner_ok_def new_runner_def)
  have t: "is_local new_town 0" "label_of new_town 0 = 0" "vertex_tables new_town 0 = Some (new_vtable [0, 0, 0, 0])"
    using demo_ids by (simp_all add: is_local_def label_of_def new_town_def)
  have ab: "find_inner (parser new_town) (tbl (new_vtable [0, 0, 0, 0])) (offset_of new_town 0)
      (max_inner_location (new_vtable [0, 0, 0, 0])) 0 = Absent"
    by (simp add: find_inner_empty new_vtable_def)
  have v: "vsize (new_vtable [0, 0, 0, 0]) = 4" "max_inner_location (new_vtable [0, 0, 0, 0]) = 0"
    by (simp_all add: new_vtable_def)
  show ?thesis
    using absent_delete_shifts_boundary [OF sd f t(1) t(3) [folded t(2)] ab run] run unfolding v t(2) One_nat_def by blast
qed

end
