(* ===== verification/Txn_Parser.thy ===== *)
theory Txn_Parser
  imports Id_Parser Values Log_Lines
begin

text \<open>
  The converter's parser of change events (\<^verbatim>\<open>converter/parser.h\<close>,
  \<^verbatim>\<open>parser.cc\<close>), in the build for Debezium: the label mapping that
  \<open>init\<close> derives from the relational-to-graph mapping, and \<open>parse\<close>, which turns one change of one table into
  log entries, one call per entry. JSON and YAML text is parsed by libraries: an event is its values, the
  mapping its definitions.
\<close>

section \<open>Events\<close>

text \<open>A column: \<^verbatim>\<open>std::to_string\<close> of a float is part of the value.\<close>

datatype json = JNull | JInt int | JFloat string | JStr string | JOther

text \<open>A row; a column that is missing reads as null.\<close>

type_synonym row = "string \<Rightarrow> json"

record event =
  ev_table :: string
  ev_op :: string
  ev_txId :: int
  ev_gtid :: string
  ev_snapshot :: string
  ev_before :: row
  ev_after :: row

text \<open>\<^verbatim>\<open>std::to_string\<close> of a signed number.\<close>

definition int_to_string :: "int \<Rightarrow> string" where
  "int_to_string i = (if i < 0 then CHR ''-'' # to_string (nat (- i)) else to_string (nat i))"

text \<open>\<^verbatim>\<open>extract_tx_id\<close>: the number after the last colon; failures are logged and give -1.\<close>

definition extract_tx_id :: "string \<Rightarrow> int" where
  "extract_tx_id gtid =
     (if CHR '':'' \<in> set gtid
      then (case stoi (rev (takeWhile (\<lambda>c. c \<noteq> CHR '':'') (rev gtid))) of Inl e \<Rightarrow> - 1 | Inr n \<Rightarrow> n)
      else - 1)"

section \<open>The mapping\<close>

record vertex_def =
  vd_table :: string
  vd_label :: string
  vd_id :: string
  vd_props :: "string list"

record edge_def =
  ed_table :: string
  ed_label :: string
  ed_src :: string
  ed_dst :: string
  ed_src_col :: string
  ed_dst_col :: string
  ed_props :: "string list"

record mapping =
  useful_tables :: "string list"
  vlabel_names :: "string list"
  table2label_names :: "string \<Rightarrow> string list"
  vertex_label2ids :: "string \<Rightarrow> nat option"
  elabel_names2elabel :: "string \<Rightarrow> nat option"
  required_properties :: "string \<Rightarrow> string list option"
  vertex_id_columns :: "string \<Rightarrow> string option"
  edge_label_columns :: "string \<Rightarrow> (string \<times> string) option"
  edge_label2src_dst_labels :: "(nat \<times> nat) list"

definition empty_mapping :: mapping where
  "empty_mapping = \<lparr>useful_tables = [], vlabel_names = [], table2label_names = (\<lambda>t. []), vertex_label2ids = (\<lambda>l. None),
     elabel_names2elabel = (\<lambda>l. None), required_properties = (\<lambda>l. None), vertex_id_columns = (\<lambda>l. None),
     edge_label_columns = (\<lambda>l. None), edge_label2src_dst_labels = []\<rparr>"

text \<open>\<^verbatim>\<open>emplace\<close> of a map keeps an entry that is there.\<close>

definition emplace_once :: "'k \<Rightarrow> 'v \<Rightarrow> ('k \<Rightarrow> 'v option) \<Rightarrow> 'k \<Rightarrow> 'v option" where
  "emplace_once k v m = (if m k = None then m(k \<mapsto> v) else m)"

definition to_lower_case :: "string \<Rightarrow> string" where
  "to_lower_case s = map tolower s"

definition init_vertex :: "nat \<Rightarrow> vertex_def \<Rightarrow> mapping \<Rightarrow> mapping" where
  "init_vertex idx d m =
     (let table = to_lower_case (vd_table d); label = vd_label d in
      m\<lparr>table2label_names := (table2label_names m)(table := table2label_names m table @ [label]),
        useful_tables := table # useful_tables m,
        vlabel_names := label # vlabel_names m,
        vertex_id_columns := emplace_once label (to_lower_case (vd_id d)) (vertex_id_columns m),
        vertex_label2ids := emplace_once label idx (vertex_label2ids m),
        required_properties := emplace_once label (map to_lower_case (vd_props d)) (required_properties m)\<rparr>)"

text \<open>
  The end points of an edge are looked up without a check: \<open>None\<close>. Its property columns are not put into
  lower case.
\<close>

definition init_edge :: "nat \<Rightarrow> edge_def \<Rightarrow> mapping \<Rightarrow> mapping option" where
  "init_edge idx d m =
     (let table = to_lower_case (ed_table d); label = ed_label d in
      case (vertex_label2ids m (ed_src d), vertex_label2ids m (ed_dst d)) of
        (Some src, Some dst) \<Rightarrow>
          Some (m\<lparr>useful_tables := table # useful_tables m,
            table2label_names := (table2label_names m)(table := table2label_names m table @ [label]),
            edge_label_columns := emplace_once label (to_lower_case (ed_src_col d), to_lower_case (ed_dst_col d)) (edge_label_columns m),
            elabel_names2elabel := emplace_once label idx (elabel_names2elabel m),
            edge_label2src_dst_labels := edge_label2src_dst_labels m @ [(src, dst)],
            required_properties := emplace_once label (ed_props d) (required_properties m)\<rparr>)
      | _ \<Rightarrow> None)"

primrec init_vertices :: "nat \<Rightarrow> vertex_def list \<Rightarrow> mapping \<Rightarrow> mapping" where
  "init_vertices idx [] m = m"
| "init_vertices idx (d # ds) m = init_vertices (Suc idx) ds (init_vertex idx d m)"

primrec init_edges :: "nat \<Rightarrow> edge_def list \<Rightarrow> mapping \<Rightarrow> mapping option" where
  "init_edges idx [] m = Some m"
| "init_edges idx (d # ds) m = Option.bind (init_edge idx d m) (init_edges (Suc idx) ds)"

definition init_mapping :: "vertex_def list \<Rightarrow> edge_def list \<Rightarrow> mapping option" where
  "init_mapping vdef edef = init_edges 0 edef (init_vertices 0 vdef empty_mapping)"

section \<open>Log entries\<close>

datatype entity_type = VERTEX | EDGE
datatype op_type = INSERT | UPDATE | DELETE | BULKLOAD_END | UNKNOWN
datatype snapshot_status = SNAPSHOT_FALSE | SNAPSHOT_TRUE | SNAPSHOT_LAST | SNAPSHOT_OTHER

text \<open>The two members of the union have fields of their own: an entry is used as what its type says.\<close>

record log_entry =
  entity :: entity_type
  oper :: op_type
  epoch :: int
  gid :: u64
  elabel :: nat
  src_gid :: u64
  dst_gid :: u64
  external_id :: string
  src_external_id :: string
  dst_external_id :: string
  vlabel :: int
  src_vlabel :: int
  dst_vlabel :: int
  is_string_oid :: bool
  is_src_string_oid :: bool
  is_dst_string_oid :: bool
  properties :: "string list"
  valid_entry :: bool
  update_has_finish_delete :: bool
  all_labels_have_process :: bool
  complete :: bool
  tx_id :: int
  table_idx :: nat
  snapshot :: snapshot_status

text \<open>The constructor initialises five fields and leaves the others as the memory has them.\<close>

definition new_entry :: "log_entry \<Rightarrow> log_entry" where
  "new_entry junk = junk\<lparr>valid_entry := False, update_has_finish_delete := False, all_labels_have_process := False,
     complete := True, table_idx := 0\<rparr>"

definition more_entries :: "log_entry \<Rightarrow> bool" where
  "more_entries e \<longleftrightarrow> update_has_finish_delete e \<or> \<not> all_labels_have_process e"

section \<open>Parsing\<close>

text \<open>
  A status other than OK stops the program (\<^verbatim>\<open>GART_CHECK_OK\<close>); so do an assertion and a
  dereferenced end of a map.
\<close>

datatype parse_error = Operation_Error | Assertion | Dangling

definition event_row :: "op_type \<Rightarrow> event \<Rightarrow> row" where
  "event_row o' ev = (case o' of INSERT \<Rightarrow> ev_after ev | DELETE \<Rightarrow> ev_before ev | UPDATE \<Rightarrow> ev_after ev | _ \<Rightarrow> (\<lambda>c. JNull))"

definition fill_vertex :: "mapping \<Rightarrow> string \<Rightarrow> event \<Rightarrow> log_entry \<Rightarrow> parse_error + log_entry" where
  "fill_vertex m label ev e =
     (case (vertex_id_columns m label, vertex_label2ids m label) of
        (Some col, Some l) \<Rightarrow>
          let e1 = e\<lparr>vlabel := int l\<rparr> in
          (case event_row (oper e) ev col of
             JInt i \<Rightarrow> Inr (e1\<lparr>external_id := int_to_string i, is_string_oid := False\<rparr>)
           | JStr s \<Rightarrow> if s = [] then Inl Assertion else Inr (e1\<lparr>external_id := s, is_string_oid := True\<rparr>)
           | _ \<Rightarrow> Inl Assertion)
      | _ \<Rightarrow> Inl Dangling)"

text \<open>An end point that is neither a number nor a string keeps the empty identifier.\<close>

definition fill_end :: "json \<Rightarrow> string \<times> bool" where
  "fill_end v = (case v of JInt i \<Rightarrow> (int_to_string i, False) | JStr s \<Rightarrow> (s, True) | _ \<Rightarrow> ([], False))"

definition fill_edge :: "mapping \<Rightarrow> string \<Rightarrow> event \<Rightarrow> log_entry \<Rightarrow> parse_error + log_entry" where
  "fill_edge m label ev e =
     (case (elabel_names2elabel m label, edge_label_columns m label) of
        (Some l, Some (src, dst)) \<Rightarrow>
          if length (edge_label2src_dst_labels m) \<le> l then Inl Dangling
          else
            let row = event_row (oper e) ev; ends = edge_label2src_dst_labels m ! l;
                e1 = e\<lparr>elabel := l, src_vlabel := int (fst ends), dst_vlabel := int (snd ends)\<rparr>
            in
            if row src = JNull \<or> row dst = JNull then Inr (e1\<lparr>complete := False\<rparr>)
            else
              (let (s, ss) = fill_end (row src); (d, ds) = fill_end (row dst) in
               Inr (e1\<lparr>src_external_id := s, is_src_string_oid := ss, dst_external_id := d, is_dst_string_oid := ds\<rparr>))
      | _ \<Rightarrow> Inl Dangling)"

definition prop_string :: "json \<Rightarrow> parse_error + string" where
  "prop_string v = (case v of JStr s \<Rightarrow> Inr s | JInt i \<Rightarrow> Inr (int_to_string i) | JFloat s \<Rightarrow> Inr s | JNull \<Rightarrow> Inr []
     | JOther \<Rightarrow> Inl Assertion)"

primrec prop_strings :: "row \<Rightarrow> string list \<Rightarrow> parse_error + string list" where
  "prop_strings row [] = Inr []"
| "prop_strings row (c # cs) =
     and_then (prop_string (row c)) (\<lambda>s. and_then (prop_strings row cs) (\<lambda>ss. Inr (s # ss)))"

definition fill_prop :: "mapping \<Rightarrow> string \<Rightarrow> event \<Rightarrow> log_entry \<Rightarrow> parse_error + log_entry" where
  "fill_prop m label ev e =
     (case required_properties m label of
        Some cols \<Rightarrow> and_then (prop_strings (event_row (oper e) ev) cols) (\<lambda>ps. Inr (e\<lparr>properties := properties e @ ps\<rparr>))
      | None \<Rightarrow> Inl Dangling)"

definition reset_entry :: "log_entry \<Rightarrow> log_entry" where
  "reset_entry e = e\<lparr>properties := [], valid_entry := False, complete := True, external_id := [], src_external_id := [],
     dst_external_id := [], vlabel := - 1, src_vlabel := - 1, dst_vlabel := - 1, is_string_oid := False,
     is_src_string_oid := False, is_dst_string_oid := False\<rparr>"

definition parse_tx_id :: "event \<Rightarrow> int" where
  "parse_tx_id ev =
     (if ev_txId ev \<noteq> - 1 then ev_txId ev
      else if ev_gtid ev \<noteq> [] then extract_tx_id (ev_gtid ev)
      else if ev_op ev = ''r'' then 0
      else - 1)"

definition parse_op :: "string \<Rightarrow> op_type" where
  "parse_op t = (if t = ''c'' then INSERT else if t = ''u'' then UPDATE else if t = ''d'' then DELETE
     else if t = ''r'' then INSERT else UNKNOWN)"

definition parse_snapshot :: "string \<Rightarrow> snapshot_status" where
  "parse_snapshot s = (if s = ''last'' then SNAPSHOT_LAST else if s = ''true'' then SNAPSHOT_TRUE
     else if s = ''false'' then SNAPSHOT_FALSE else SNAPSHOT_OTHER)"

text \<open>An update of an edge is a deletion and an insertion, by two calls.\<close>

definition split_update :: "log_entry \<Rightarrow> log_entry" where
  "split_update e =
     (if oper e = UPDATE \<and> entity e = EDGE then
        (if \<not> update_has_finish_delete e then e\<lparr>update_has_finish_delete := True, oper := DELETE\<rparr>
         else e\<lparr>update_has_finish_delete := False, oper := INSERT\<rparr>)
      else e)"

text \<open>The end of a call: on to the next label of the table, unless the insertion of an update is due.\<close>

definition next_label :: "nat \<Rightarrow> log_entry \<Rightarrow> log_entry" where
  "next_label n e =
     (let e1 = (if update_has_finish_delete e then e else e\<lparr>table_idx := table_idx e + 1\<rparr>) in
      if table_idx e1 < n then e1\<lparr>all_labels_have_process := False, valid_entry := True\<rparr>
      else e1\<lparr>all_labels_have_process := True, table_idx := 0, valid_entry := True\<rparr>)"

definition fill_entry :: "mapping \<Rightarrow> string \<Rightarrow> event \<Rightarrow> log_entry \<Rightarrow> parse_error + log_entry" where
  "fill_entry m label ev e =
     and_then (if entity e = VERTEX then fill_vertex m label ev e else fill_edge m label ev e) (\<lambda>e1.
       if oper e1 \<noteq> DELETE \<and> complete e1 then fill_prop m label ev e1 else Inr e1)"

definition parse :: "mapping \<Rightarrow> event \<Rightarrow> log_entry \<Rightarrow> parse_error + log_entry" where
  "parse m ev e =
     (let e0 = reset_entry e; labels = table2label_names m (ev_table ev) in
      if ev_table ev \<notin> set (useful_tables m) then Inr e0
      else if length labels \<le> table_idx e then Inl Dangling
      else
        let label = labels ! table_idx e;
            e1 = e0\<lparr>entity := (if label \<in> set (vlabel_names m) then VERTEX else EDGE), oper := parse_op (ev_op ev),
              tx_id := parse_tx_id ev, snapshot := parse_snapshot (ev_snapshot ev)\<rparr>
        in
        if ev_op ev = ''r'' \<and> ev_snapshot ev = ''false'' then Inl Operation_Error
        else if oper e1 = UNKNOWN then Inl Operation_Error
        else and_then (fill_entry m label ev (split_update e1)) (\<lambda>e2. Inr (next_label (length labels) e2)))"

section \<open>All entries of an event\<close>

text \<open>
  The loop of \<^verbatim>\<open>process_binlog_step_1\<close> on one event: entries are queued, unless incomplete,
  as long as there are more. The queue of the thread is the result.
\<close>

partial_function (option) unify_loop :: "mapping \<Rightarrow> event \<Rightarrow> log_entry \<Rightarrow> log_entry list \<Rightarrow> (parse_error + log_entry list) option" where
  [code]: "unify_loop m ev e q =
     (let q1 = (if complete e then q @ [e] else q) in
      if more_entries e then
        (case parse m ev e of
           Inl x \<Rightarrow> Some (Inl x)
         | Inr e1 \<Rightarrow> unify_loop m ev e1 q1)
      else Some (Inr q1))"

definition process_event :: "mapping \<Rightarrow> log_entry \<Rightarrow> event \<Rightarrow> (parse_error + log_entry list) option" where
  "process_event m junk ev =
     (case parse m ev (new_entry junk) of
        Inl x \<Rightarrow> Some (Inl x)
      | Inr e \<Rightarrow> if valid_entry e then unify_loop m ev e [] else Some (Inr []))"

section \<open>What an event is to produce\<close>

text \<open>One entry per label of the table, in order; an update of an edge gives a deletion and an insertion.\<close>

definition label_type :: "mapping \<Rightarrow> string \<Rightarrow> entity_type" where
  "label_type m label = (if label \<in> set (vlabel_names m) then VERTEX else EDGE)"

definition label_ops :: "mapping \<Rightarrow> event \<Rightarrow> string \<Rightarrow> (string \<times> op_type) list" where
  "label_ops m ev label =
     (if parse_op (ev_op ev) = UPDATE \<and> label_type m label = EDGE then [(label, DELETE), (label, INSERT)]
      else [(label, parse_op (ev_op ev))])"

text \<open>An entry without the fields that belong to the bookkeeping or are not set yet.\<close>

definition clean :: "log_entry \<Rightarrow> log_entry" where
  "clean e = e\<lparr>epoch := 0, gid := 0, src_gid := 0, dst_gid := 0, elabel := (if entity e = EDGE then elabel e else 0),
     valid_entry := True, update_has_finish_delete := False, all_labels_have_process := True, table_idx := 0\<rparr>"

definition blank :: "mapping \<Rightarrow> event \<Rightarrow> string \<times> op_type \<Rightarrow> log_entry" where
  "blank m ev lo = \<lparr>entity = label_type m (fst lo), oper = snd lo, epoch = 0, gid = 0, elabel = 0, src_gid = 0, dst_gid = 0,
     external_id = [], src_external_id = [], dst_external_id = [], vlabel = - 1, src_vlabel = - 1, dst_vlabel = - 1,
     is_string_oid = False, is_src_string_oid = False, is_dst_string_oid = False, properties = [], valid_entry = True,
     update_has_finish_delete = False, all_labels_have_process = True, complete = True, tx_id = parse_tx_id ev,
     table_idx = 0, snapshot = parse_snapshot (ev_snapshot ev)\<rparr>"

primrec entries_of :: "mapping \<Rightarrow> event \<Rightarrow> (string \<times> op_type) list \<Rightarrow> parse_error + log_entry list" where
  "entries_of m ev [] = Inr []"
| "entries_of m ev (lo # los) =
     and_then (fill_entry m (fst lo) ev (blank m ev lo)) (\<lambda>e.
     and_then (entries_of m ev los) (\<lambda>es. Inr (if complete e then clean e # es else es)))"

definition event_entries :: "mapping \<Rightarrow> event \<Rightarrow> parse_error + log_entry list" where
  "event_entries m ev =
     (if ev_table ev \<notin> set (useful_tables m) then Inr []
      else if ev_op ev = ''r'' \<and> ev_snapshot ev = ''false'' \<or> parse_op (ev_op ev) = UNKNOWN then Inl Operation_Error
      else entries_of m ev (concat (map (label_ops m ev) (table2label_names m (ev_table ev)))))"

section \<open>The loop produces them\<close>

text \<open>Filling an entry leaves its bookkeeping and depends on its type and operation only.\<close>

definition book :: "int \<Rightarrow> u64 \<Rightarrow> u64 \<Rightarrow> u64 \<Rightarrow> bool \<Rightarrow> bool \<Rightarrow> bool \<Rightarrow> nat \<Rightarrow> log_entry \<Rightarrow> log_entry" where
  "book ep g sg dg v u a i e = e\<lparr>epoch := ep, gid := g, src_gid := sg, dst_gid := dg, valid_entry := v,
     update_has_finish_delete := u, all_labels_have_process := a, table_idx := i\<rparr>"

lemma book_fields [simp]:
  "entity (book ep g sg dg v u a i e) = entity e" "oper (book ep g sg dg v u a i e) = oper e"
  "complete (book ep g sg dg v u a i e) = complete e" "update_has_finish_delete (book ep g sg dg v u a i e) = u"
  "all_labels_have_process (book ep g sg dg v u a i e) = a" "table_idx (book ep g sg dg v u a i e) = i"
  "valid_entry (book ep g sg dg v u a i e) = v"
  by (simp_all add: book_def)

lemma fill_vertex_book: "fill_vertex m l ev (book ep g sg dg v u a i e) = map_sum id (book ep g sg dg v u a i) (fill_vertex m l ev e)"
  by (simp add: fill_vertex_def book_def Let_def split: option.split json.split)

lemma fill_edge_book: "fill_edge m l ev (book ep g sg dg v u a i e) = map_sum id (book ep g sg dg v u a i) (fill_edge m l ev e)"
  by (simp add: fill_edge_def book_def Let_def split: option.split prod.split)

lemma fill_prop_book: "fill_prop m l ev (book ep g sg dg v u a i e) = map_sum id (book ep g sg dg v u a i) (fill_prop m l ev e)"
  by (auto simp: fill_prop_def book_def and_then_def split: option.split sum.split)

lemma fill_entry_book: "fill_entry m l ev (book ep g sg dg v u a i e) = map_sum id (book ep g sg dg v u a i) (fill_entry m l ev e)"
  by (auto simp: fill_entry_def fill_vertex_book fill_edge_book fill_prop_book and_then_def split: sum.split)

text \<open>The label of an edge is set for an edge and left for a vertex.\<close>

lemma fill_edge_elabel: "fill_edge m l ev (e\<lparr>elabel := n\<rparr>) = fill_edge m l ev e"
  by (simp add: fill_edge_def Let_def split: option.split prod.split)

lemma fill_vertex_elabel: "fill_vertex m l ev (e\<lparr>elabel := n\<rparr>) = map_sum id (\<lambda>e. e\<lparr>elabel := n\<rparr>) (fill_vertex m l ev e)"
  by (simp add: fill_vertex_def Let_def split: option.split json.split)

lemma fill_prop_elabel: "fill_prop m l ev (e\<lparr>elabel := n\<rparr>) = map_sum id (\<lambda>e. e\<lparr>elabel := n\<rparr>) (fill_prop m l ev e)"
  by (auto simp: fill_prop_def and_then_def split: option.split sum.split)

lemma map_sum_same: "map_sum id (\<lambda>x. x) r = r"
  by (cases r) simp_all

lemma fill_entry_elabel:
  "fill_entry m l ev (e\<lparr>elabel := n\<rparr>) =
     map_sum id (\<lambda>e'. if entity e = VERTEX then e'\<lparr>elabel := n\<rparr> else e') (fill_entry m l ev e)"
  by (auto simp: fill_entry_def fill_vertex_elabel fill_edge_elabel fill_prop_elabel map_sum_same and_then_def split: sum.split)

text \<open>What is left to do after a call.\<close>

definition todo :: "mapping \<Rightarrow> event \<Rightarrow> bool \<Rightarrow> nat \<Rightarrow> (string \<times> op_type) list" where
  "todo m ev u i =
     drop (if u then 1 else 0) (concat (map (label_ops m ev) (drop i (table2label_names m (ev_table ev)))))"

definition resumable :: "mapping \<Rightarrow> event \<Rightarrow> bool \<Rightarrow> nat \<Rightarrow> bool" where
  "resumable m ev u i \<longleftrightarrow> (let ls = table2label_names m (ev_table ev) in
     i < length ls \<and> (u \<longrightarrow> parse_op (ev_op ev) = UPDATE \<and> label_type m (ls ! i) = EDGE))"

text \<open>The event is one that parsing accepts.\<close>

definition acceptable :: "mapping \<Rightarrow> event \<Rightarrow> bool" where
  "acceptable m ev \<longleftrightarrow> ev_table ev \<in> set (useful_tables m) \<and>
     \<not> (ev_op ev = ''r'' \<and> ev_snapshot ev = ''false'') \<and> parse_op (ev_op ev) \<noteq> UNKNOWN"

lemma label_ops_nonempty: "label_ops m ev l \<noteq> []"
  by (simp add: label_ops_def)

lemma todo_empty: "todo m ev False i = [] \<longleftrightarrow> length (table2label_names m (ev_table ev)) \<le> i"
proof -
  have "concat (map (label_ops m ev) ls) = [] \<longleftrightarrow> ls = []" for ls
    using label_ops_nonempty by (cases ls) simp_all
  then show ?thesis by (simp add: todo_def)
qed

text \<open>The first of what is left, and the state after it.\<close>

lemma todo_step:
  assumes "resumable m ev u i"
  shows "\<exists>o' u' i'. todo m ev u i = (table2label_names m (ev_table ev) ! i, o') # todo m ev u' i' \<and>
    (u' = (parse_op (ev_op ev) = UPDATE \<and> label_type m (table2label_names m (ev_table ev) ! i) = EDGE \<and> \<not> u)) \<and>
    i' = (if u' then i else Suc i) \<and>
    o' = (if parse_op (ev_op ev) = UPDATE \<and> label_type m (table2label_names m (ev_table ev) ! i) = EDGE
      then (if u then INSERT else DELETE) else parse_op (ev_op ev))"
  using assms Cons_nth_drop_Suc [of i "table2label_names m (ev_table ev)"]
  by (cases u) (auto simp: todo_def resumable_def Let_def label_ops_def simp flip: Cons_nth_drop_Suc)

text \<open>What a call prepares for filling is the blank entry with the bookkeeping of the old one.\<close>

lemma prepared_entry:
  assumes "parse_op (ev_op ev) \<noteq> UNKNOWN" and "update_has_finish_delete e \<longrightarrow> parse_op (ev_op ev) = UPDATE \<and> label_type m l = EDGE"
    and "u' = (parse_op (ev_op ev) = UPDATE \<and> label_type m l = EDGE \<and> \<not> update_has_finish_delete e)"
    and "o' = (if parse_op (ev_op ev) = UPDATE \<and> label_type m l = EDGE
      then (if update_has_finish_delete e then INSERT else DELETE) else parse_op (ev_op ev))"
  shows "split_update ((reset_entry e)\<lparr>entity := label_type m l, oper := parse_op (ev_op ev), tx_id := parse_tx_id ev,
      snapshot := parse_snapshot (ev_snapshot ev)\<rparr>) =
    book (epoch e) (gid e) (src_gid e) (dst_gid e) False u' (all_labels_have_process e) (table_idx e)
      ((blank m ev (l, o'))\<lparr>elabel := elabel e\<rparr>)"
  using assms by (cases e) (auto simp: split_update_def reset_entry_def book_def blank_def)

lemma clean_book: "clean (book ep g sg dg v u a i e) = clean e"
  by (simp add: clean_def book_def)

lemma clean_next: "clean (next_label n e) = clean e" "complete (next_label n e) = complete e" "valid_entry (next_label n e)"
  by (simp_all add: clean_def next_label_def Let_def)

lemma clean_vertex: "entity e = VERTEX \<Longrightarrow> clean (e\<lparr>elabel := n\<rparr>) = clean e"
  by (simp add: clean_def)

lemma fill_entity: "fill_entry m l ev e = Inr b \<Longrightarrow> entity b = entity e"
  by (auto simp: fill_entry_def fill_vertex_def fill_edge_def fill_prop_def and_then_Inr Let_def
      split: if_splits option.splits json.splits prod.splits)

lemma parse_step:
  assumes ok: "acceptable m ev" and r: "resumable m ev (update_has_finish_delete e) (table_idx e)"
    and t: "todo m ev (update_has_finish_delete e) (table_idx e) = lo # los"
  shows "case (parse m ev e, fill_entry m (fst lo) ev (blank m ev lo)) of
      (Inl x, Inl y) \<Rightarrow> x = y
    | (Inr a, Inr b) \<Rightarrow> clean a = clean b \<and> complete a = complete b \<and> valid_entry a \<and>
        (more_entries a \<longleftrightarrow> los \<noteq> []) \<and>
        (los \<noteq> [] \<longrightarrow> resumable m ev (update_has_finish_delete a) (table_idx a) \<and>
          todo m ev (update_has_finish_delete a) (table_idx a) = los)
    | _ \<Rightarrow> False"
proof -
  let ?ls = "table2label_names m (ev_table ev)" and ?i = "table_idx e" and ?u = "update_has_finish_delete e"
  obtain o' u' i' where st: "todo m ev ?u ?i = (?ls ! ?i, o') # todo m ev u' i'"
    "u' = (parse_op (ev_op ev) = UPDATE \<and> label_type m (?ls ! ?i) = EDGE \<and> \<not> ?u)"
    "i' = (if u' then ?i else Suc ?i)"
    "o' = (if parse_op (ev_op ev) = UPDATE \<and> label_type m (?ls ! ?i) = EDGE
      then (if ?u then INSERT else DELETE) else parse_op (ev_op ev))"
    using todo_step [OF r] by blast
  let ?b = "blank m ev (?ls ! ?i, o')"
  let ?k = "book (epoch e) (gid e) (src_gid e) (dst_gid e) False u' (all_labels_have_process e) ?i"
  let ?T = "\<lambda>b. if entity ?b = VERTEX then b\<lparr>elabel := elabel e\<rparr> else b"
  have lo: "lo = (?ls ! ?i, o')" and los: "los = todo m ev u' i'" using t st(1) by simp_all
  have i: "?i < length ?ls" and u: "?u \<longrightarrow> parse_op (ev_op ev) = UPDATE \<and> label_type m (?ls ! ?i) = EDGE"
    using r by (auto simp: resumable_def Let_def)
  have op: "parse_op (ev_op ev) \<noteq> UNKNOWN" using ok by (simp add: acceptable_def)
  have "parse m ev e = and_then (fill_entry m (?ls ! ?i) ev (?k (?b\<lparr>elabel := elabel e\<rparr>))) (\<lambda>e2. Inr (next_label (length ?ls) e2))"
    using ok i prepared_entry [OF op u st(2,4)]
    by (auto simp: parse_def Let_def acceptable_def label_type_def [symmetric])
  also have "fill_entry m (?ls ! ?i) ev (?k (?b\<lparr>elabel := elabel e\<rparr>)) = map_sum id (\<lambda>b. ?k (?T b)) (fill_entry m (?ls ! ?i) ev ?b)"
    unfolding fill_entry_book fill_entry_elabel by (cases "fill_entry m (?ls ! ?i) ev ?b") simp_all
  finally have p: "parse m ev e = map_sum id (\<lambda>b. next_label (length ?ls) (?k (?T b))) (fill_entry m (?ls ! ?i) ev ?b)"
    by (cases "fill_entry m (?ls ! ?i) ev ?b") simp_all
  show ?thesis
  proof (cases "fill_entry m (?ls ! ?i) ev ?b")
    case (Inl x)
    then show ?thesis by (simp add: p lo)
  next
    case (Inr b)
    let ?a = "next_label (length ?ls) (?k (?T b))"
    have cl: "clean ?a = clean b" using fill_entity [OF Inr] clean_vertex by (simp add: clean_next clean_book)
    have more: "more_entries ?a \<longleftrightarrow> i' < length ?ls"
      using i st(3) by (cases u') (auto simp: more_entries_def next_label_def Let_def book_def)
    have fl: "update_has_finish_delete ?a = u'" and ix: "i' < length ?ls \<Longrightarrow> table_idx ?a = i'"
      using st(3) i by (cases u'; auto simp: next_label_def Let_def book_def)+
    have res: "i' < length ?ls \<Longrightarrow> resumable m ev u' i'" using st(2,3) by (cases u') (auto simp: resumable_def Let_def)
    have em: "los = [] \<longleftrightarrow> \<not> i' < length ?ls"
    proof (cases u')
      case True
      then have "resumable m ev u' i'" using res i st(3) by simp
      then show ?thesis using todo_step [of m ev u' i'] i st(3) True los by auto
    next
      case False
      then show ?thesis using todo_empty [of m ev i'] los by auto
    qed
    show ?thesis using cl more fl ix res em los by (simp add: p lo Inr clean_next)
  qed
qed

text \<open>The loop ends and queues exactly what is left.\<close>

lemma unify_loop_entries:
  assumes "acceptable m ev" and "more_entries e \<longleftrightarrow> los \<noteq> []"
    and "los \<noteq> [] \<Longrightarrow> resumable m ev (update_has_finish_delete e) (table_idx e) \<and>
      todo m ev (update_has_finish_delete e) (table_idx e) = los"
  shows "\<exists>r. unify_loop m ev e q = Some r \<and>
    map_sum id (map clean) r = and_then (entries_of m ev los)
      (\<lambda>es. Inr (map clean q @ (if complete e then [clean e] else []) @ es))"
  using assms(2,3)
proof (induction los arbitrary: e q)
  case Nil
  then show ?case by (subst unify_loop.simps) simp
next
  case (Cons lo los)
  let ?q = "if complete e then q @ [e] else q"
  have more: "more_entries e" using Cons.prems(1) by simp
  note st = parse_step [OF assms(1), of e lo los]
  show ?case
  proof (cases "parse m ev e")
    case (Inl x)
    then show ?thesis
      using st Cons.prems more by (subst unify_loop.simps) (auto split: sum.splits)
  next
    case (Inr a)
    then obtain b where b: "fill_entry m (fst lo) ev (blank m ev lo) = Inr b" "clean a = clean b" "complete a = complete b"
      "more_entries a \<longleftrightarrow> los \<noteq> []" "los \<noteq> [] \<Longrightarrow> resumable m ev (update_has_finish_delete a) (table_idx a) \<and>
          todo m ev (update_has_finish_delete a) (table_idx a) = los"
      using st Cons.prems by (auto split: sum.splits)
    obtain r where r: "unify_loop m ev a ?q = Some r" "map_sum id (map clean) r = and_then (entries_of m ev los)
      (\<lambda>es. Inr (map clean ?q @ (if complete a then [clean a] else []) @ es))"
      using Cons.IH [OF b(4,5), of ?q] by blast
    have "unify_loop m ev e q = Some r" using more Inr r(1) by (subst unify_loop.simps) (simp add: Let_def)
    moreover have "map_sum id (map clean) r = and_then (entries_of m ev (lo # los))
      (\<lambda>es. Inr (map clean q @ (if complete e then [clean e] else []) @ es))"
      using b(1-3) r(2) by (cases "entries_of m ev los") auto
    ultimately show ?thesis by blast
  qed
qed

text \<open>Every useful table has a label.\<close>

definition tables_have_labels :: "mapping \<Rightarrow> bool" where
  "tables_have_labels m \<longleftrightarrow> (\<forall>t \<in> set (useful_tables m). table2label_names m t \<noteq> [])"

lemma init_vertices_labels: "tables_have_labels m \<Longrightarrow> tables_have_labels (init_vertices i ds m)"
  by (induction ds arbitrary: i m) (auto simp: init_vertex_def tables_have_labels_def Let_def)

lemma init_edges_labels: "tables_have_labels m \<Longrightarrow> init_edges i ds m = Some m' \<Longrightarrow> tables_have_labels m'"
proof (induction ds arbitrary: i m)
  case (Cons d ds)
  then obtain m1 where m1: "init_edge i d m = Some m1" "init_edges (Suc i) ds m1 = Some m'" by (auto simp: bind_eq_Some_conv)
  have "tables_have_labels m1"
    using Cons.prems(1) m1(1) by (auto simp: init_edge_def tables_have_labels_def Let_def split: option.splits if_splits)
  then show ?case using Cons.IH m1(2) by blast
qed simp

lemma init_mapping_labels: "init_mapping vdef edef = Some m \<Longrightarrow> tables_have_labels m"
  by (rule init_edges_labels [OF init_vertices_labels]) (auto simp: init_mapping_def tables_have_labels_def empty_mapping_def)

section \<open>Properties\<close>

text \<open>
C13: For every mapping \<open>init\<close> accepts and every event, the resumable loop of the converter ends and
queues exactly one entry per label of the table, in the order of the mapping, with an update of an edge as a
deletion with the old row and an insertion with the new one, entries with a missing end point left out, or
stops with the error of the first entry that has one; whatever memory the entry object had before.
\<close>

theorem process_event_entries:
  assumes "init_mapping vdef edef = Some m"
  shows "\<exists>r. process_event m junk ev = Some r \<and> map_sum id (map clean) r = event_entries m ev"
proof (cases "ev_table ev \<in> set (useful_tables m)")
  case False
  then show ?thesis by (simp add: process_event_def parse_def event_entries_def reset_entry_def)
next
  case useful: True
  then have len: "table2label_names m (ev_table ev) \<noteq> []"
    using init_mapping_labels [OF assms] by (simp add: tables_have_labels_def)
  let ?e = "new_entry junk"
  have e: "\<not> update_has_finish_delete ?e" "table_idx ?e = 0" by (simp_all add: new_entry_def)
  show ?thesis
  proof (cases "acceptable m ev")
    case False
    then show ?thesis using useful len e
      by (auto simp: process_event_def parse_def event_entries_def acceptable_def Let_def)
  next
    case ok: True
    let ?todo = "todo m ev False 0"
    have r: "resumable m ev (update_has_finish_delete ?e) (table_idx ?e)" using e len by (simp add: resumable_def)
    obtain lo los where t: "?todo = lo # los"
      using len todo_empty [of m ev 0] by (cases "?todo") auto
    have spec: "event_entries m ev = entries_of m ev (lo # los)"
      using ok t by (auto simp: event_entries_def acceptable_def todo_def)
    note st = parse_step [OF ok r, of lo los]
    show ?thesis
    proof (cases "parse m ev ?e")
      case (Inl x)
      then show ?thesis using st e t spec by (auto simp: process_event_def split: sum.splits)
    next
      case (Inr a)
      then obtain b where b: "fill_entry m (fst lo) ev (blank m ev lo) = Inr b" "clean a = clean b" "complete a = complete b"
        "valid_entry a" "more_entries a \<longleftrightarrow> los \<noteq> []"
        "los \<noteq> [] \<Longrightarrow> resumable m ev (update_has_finish_delete a) (table_idx a) \<and>
          todo m ev (update_has_finish_delete a) (table_idx a) = los"
        using st e t by (auto split: sum.splits)
      obtain r where "unify_loop m ev a [] = Some r" "map_sum id (map clean) r = and_then (entries_of m ev los)
          (\<lambda>es. Inr (map clean [] @ (if complete a then [clean a] else []) @ es))"
        using unify_loop_entries [OF ok b(5,6), of "[]"] by blast
      then show ?thesis
        using Inr b(1-4) spec by (cases "entries_of m ev los") (auto simp: process_event_def)
    qed
  qed
qed

text \<open>A table of people with a reference to another person: a vertex label and an edge label.\<close>

definition people_vertex :: vertex_def where
  "people_vertex = \<lparr>vd_table = ''People'', vd_label = ''person'', vd_id = ''Id'', vd_props = [''name'']\<rparr>"

definition people_edge :: edge_def where
  "people_edge = \<lparr>ed_table = ''people'', ed_label = ''knows'', ed_src = ''person'', ed_dst = ''person'',
     ed_src_col = ''id'', ed_dst_col = ''friend'', ed_props = []\<rparr>"

definition people_event :: event where
  "people_event = \<lparr>ev_table = ''people'', ev_op = ''u'', ev_txId = 5, ev_gtid = [], ev_snapshot = ''false'',
     ev_before = (\<lambda>c. if c = ''id'' then JInt 1 else if c = ''friend'' then JInt 2 else JStr ''ann''),
     ev_after = (\<lambda>c. if c = ''id'' then JInt 1 else if c = ''friend'' then JInt 3 else JStr ''eve'')\<rparr>"

lemma process_event_entries_witness:
  "\<exists>m r. init_mapping [people_vertex] [people_edge] = Some m \<and>
    process_event m (blank m people_event ([], UNKNOWN)) people_event = Some r \<and>
    map_sum id (map (\<lambda>e. (entity e, oper e, external_id e, properties e, dst_external_id e))) (map_sum id (map clean) r) =
      Inr [(VERTEX, UPDATE, ''1'', [''eve''], []), (EDGE, DELETE, [], [], ''2''), (EDGE, INSERT, [], [], ''3'')]"
proof -
  have "map_option (\<lambda>m. map_sum id (map (\<lambda>e. (entity e, oper e, external_id e, properties e, dst_external_id e)))
      (event_entries m people_event)) (init_mapping [people_vertex] [people_edge]) =
    Some (Inr [(VERTEX, UPDATE, ''1'', [''eve''], []), (EDGE, DELETE, [], [], ''2''), (EDGE, INSERT, [], [], ''3'')])"
    by code_simp
  then obtain m where m: "init_mapping [people_vertex] [people_edge] = Some m"
    "map_sum id (map (\<lambda>e. (entity e, oper e, external_id e, properties e, dst_external_id e))) (event_entries m people_event) =
      Inr [(VERTEX, UPDATE, ''1'', [''eve''], []), (EDGE, DELETE, [], [], ''2''), (EDGE, INSERT, [], [], ''3'')]"
    by auto
  obtain r where "process_event m (blank m people_event ([], UNKNOWN)) people_event = Some r" "map_sum id (map clean) r = event_entries m people_event"
    using process_event_entries [OF m(1)] by blast
  then show ?thesis using m by auto
qed

end
