(* ===== verification/Converter.thy ===== *)
theory Converter
  imports Txn_Parser
begin

text \<open>
  The second stage of the converter (\<^verbatim>\<open>converter/binlog_convert.cc\<close>, with
  \<^verbatim>\<open>parse_again\<close>, the identifier maps and \<^verbatim>\<open>LogEntry::to_string\<close> of
  \<^verbatim>\<open>parser.cc\<close>), in the build for Debezium: it takes the entries of one event after the
  other, gives the vertices their identifiers, counts the epochs and writes the log lines.
\<close>

section \<open>Printing an entry\<close>

definition append_str :: "string \<Rightarrow> string \<Rightarrow> char \<Rightarrow> string" where
  "append_str base s delimiter = (if base = [] then s else base @ delimiter # s)"

definition oper_name :: "op_type \<Rightarrow> string" where
  "oper_name o' = (case o' of INSERT \<Rightarrow> ''add'' | UPDATE \<Rightarrow> ''update'' | DELETE \<Rightarrow> ''delete'' | _ \<Rightarrow> ''unknown'')"

primrec append_all :: "string \<Rightarrow> string list \<Rightarrow> string" where
  "append_all base [] = base"
| "append_all base (s # ss) = append_all (append_str base s (CHR ''|'')) ss"

text \<open>A vertex identifier is printed as an unsigned number, the ends of an edge as signed ones.\<close>

definition entry_to_string :: "int \<Rightarrow> log_entry \<Rightarrow> parse_error + string" where
  "entry_to_string binlog_offset e =
     (if oper e = BULKLOAD_END then
        Inr (append_all ''bulkload_end'' [int_to_string (epoch e), int_to_string binlog_offset])
      else if oper_name (oper e) = ''unknown'' then Inl Assertion
      else
        let base = append_str (oper_name (oper e)) (if entity e = VERTEX then ''vertex'' else ''edge'') (CHR ''_'') in
        Inr (append_all (append_str base (int_to_string (epoch e)) (CHR ''|''))
          ((if entity e = VERTEX then [to_string (unat (gid e)), external_id e]
            else [int_to_string (int (elabel e)), int_to_string (sint (src_gid e)), int_to_string (sint (dst_gid e)),
              src_external_id e, dst_external_id e])
           @ properties e @ [int_to_string binlog_offset])))"

definition bulk_load_end :: "log_entry \<Rightarrow> log_entry" where
  "bulk_load_end junk = (new_entry junk)\<lparr>valid_entry := True, complete := True, epoch := 1, oper := BULKLOAD_END\<rparr>"

section \<open>Identifiers\<close>

record gid_state =
  string_oid2gid_maps :: "nat \<Rightarrow> string \<Rightarrow> u64 option"
  int64_oid2gid_maps :: "nat \<Rightarrow> int \<Rightarrow> u64 option"
  vertex_nums :: "nat \<Rightarrow> u64"
  vertex_nums_per_fragment :: "nat \<Rightarrow> nat \<Rightarrow> u64"

definition init_gids :: gid_state where
  "init_gids = \<lparr>string_oid2gid_maps = (\<lambda>l o'. None), int64_oid2gid_maps = (\<lambda>l o'. None), vertex_nums = (\<lambda>l. 0),
     vertex_nums_per_fragment = (\<lambda>l f. 0)\<rparr>"

text \<open>
  The vectors have an entry for each label; the labels of an entry that is queued come from the mapping.
  An exception of \<^verbatim>\<open>std::stoll\<close> is not caught.
\<close>

datatype conv_failure = Parse_Failure parse_error | Uncaught conv_error

definition get_gid :: "string \<Rightarrow> bool \<Rightarrow> nat \<Rightarrow> gid_state \<Rightarrow> conv_failure + u64" where
  "get_gid oid is_string l st =
     (if \<not> is_string then
        (case stoll oid of
           Inl x \<Rightarrow> Inl (Uncaught x)
         | Inr n \<Rightarrow> Inr (case int64_oid2gid_maps st l n of None \<Rightarrow> - 1 | Some g \<Rightarrow> g))
      else Inr (case string_oid2gid_maps st l oid of None \<Rightarrow> - 1 | Some g \<Rightarrow> g))"

definition set_gid :: "string \<Rightarrow> bool \<Rightarrow> nat \<Rightarrow> u64 \<Rightarrow> gid_state \<Rightarrow> conv_failure + gid_state" where
  "set_gid oid is_string l g st =
     (if \<not> is_string then
        (case stoll oid of
           Inl x \<Rightarrow> Inl (Uncaught x)
         | Inr n \<Rightarrow> Inr (st\<lparr>int64_oid2gid_maps := (int64_oid2gid_maps st)(l := (int64_oid2gid_maps st l)(n \<mapsto> g))\<rparr>))
      else Inr (st\<lparr>string_oid2gid_maps := (string_oid2gid_maps st)(l := (string_oid2gid_maps st l)(oid \<mapsto> g))\<rparr>))"

text \<open>The partition of a new vertex: round robin.\<close>

definition take_gid :: "id_parser \<Rightarrow> u64 \<Rightarrow> nat \<Rightarrow> gid_state \<Rightarrow> u64 \<times> gid_state" where
  "take_gid p subgraph_num l st =
     (let fid = vertex_nums st l mod subgraph_num; offset = vertex_nums_per_fragment st l (unat fid) in
      (GenerateId p fid (int l) (sint offset),
       st\<lparr>vertex_nums := (vertex_nums st)(l := vertex_nums st l + 1),
          vertex_nums_per_fragment := (vertex_nums_per_fragment st)(l :=
            (vertex_nums_per_fragment st l)(unat fid := offset + 1))\<rparr>))"

definition parse_again ::
  "id_parser \<Rightarrow> u64 \<Rightarrow> int \<Rightarrow> log_entry \<Rightarrow> gid_state \<Rightarrow> conv_failure + log_entry \<times> gid_state" where
  "parse_again p subgraph_num ep e st =
     (let e1 = e\<lparr>epoch := ep\<rparr>; l = nat (vlabel e) in
      if entity e = VERTEX then
        (if oper e = INSERT then
           (let (g, st1) = take_gid p subgraph_num l st in
            and_then (set_gid (external_id e) (is_string_oid e) l g st1) (\<lambda>st2. Inr (e1\<lparr>gid := g\<rparr>, st2)))
         else if oper e = DELETE \<or> oper e = UPDATE then
           and_then (get_gid (external_id e) (is_string_oid e) l st) (\<lambda>g.
             Inr (if g = - 1 then e1\<lparr>complete := False\<rparr> else e1\<lparr>gid := g\<rparr>, st))
         else Inr (e1, st))
      else
        and_then (get_gid (src_external_id e) (is_src_string_oid e) (nat (src_vlabel e)) st) (\<lambda>sg.
        and_then (get_gid (dst_external_id e) (is_dst_string_oid e) (nat (dst_vlabel e)) st) (\<lambda>dg.
          Inr (if sg = - 1 \<or> dg = - 1 then e1\<lparr>complete := False\<rparr> else e1\<lparr>src_gid := sg, dst_gid := dg\<rparr>, st))))"

section \<open>Epochs and output\<close>

record config =
  id_bits :: id_parser
  subgraphs :: u64
  use_logs_per_epoch :: bool
  logs_per_epoch :: "32 word"
  enable_bulk_load :: bool
  last_processed_offset :: int

record conv =
  gids :: gid_state
  cur_epoch :: int
  log_count :: u64
  last_tx_id :: int
  last_log_count :: "32 word"
  bulk_load_finished :: bool
  catch_up_mode :: bool
  processed_count :: int
  written :: "string list"

definition init_conv :: conv where
  "init_conv = \<lparr>gids = init_gids, cur_epoch = 0, log_count = 0, last_tx_id = - 1, last_log_count = 0,
     bulk_load_finished = False, catch_up_mode = True, processed_count = 0, written = []\<rparr>"

text \<open>Before a line: lines up to the one that was the last of the topic are not written again.\<close>

definition catch_up :: "config \<Rightarrow> conv \<Rightarrow> conv" where
  "catch_up cfg c =
     (let c1 = (if catch_up_mode c \<and> processed_count c \<ge> last_processed_offset cfg then c\<lparr>catch_up_mode := False\<rparr> else c)
      in c1\<lparr>processed_count := processed_count c1 + 1\<rparr>)"

definition write_line :: "log_entry \<Rightarrow> conv \<Rightarrow> conv_failure + conv" where
  "write_line e c =
     (if catch_up_mode c then Inr c
      else and_then (lift_error Parse_Failure (entry_to_string (processed_count c) e)) (\<lambda>s.
        Inr (c\<lparr>written := written c @ [s]\<rparr>)))"

primrec write_entries :: "config \<Rightarrow> log_entry list \<Rightarrow> conv \<Rightarrow> conv_failure + conv" where
  "write_entries cfg [] c = Inr c"
| "write_entries cfg (e # es) c =
     (let c1 = catch_up cfg c in
      and_then (parse_again (id_bits cfg) (subgraphs cfg) (cur_epoch c1) e (gids c1)) (\<lambda>(e1, st).
      and_then (write_line e1 (c1\<lparr>gids := st\<rparr>)) (write_entries cfg es)))"

text \<open>
  The epoch after an event. \<open>elapsed\<close> tells whether the clock has passed the interval since it was reset.
  The count at the start of the epoch is an \<^verbatim>\<open>int\<close>.
\<close>

definition next_epoch :: "config \<Rightarrow> bool \<Rightarrow> int \<Rightarrow> conv \<Rightarrow> conv" where
  "next_epoch cfg elapsed tx c =
     (if enable_bulk_load cfg \<and> \<not> bulk_load_finished c then c
      else if tx = - 1 then
        (if use_logs_per_epoch cfg then c\<lparr>cur_epoch := sint (ucast (log_count c div scast (logs_per_epoch cfg)) :: 32 word)\<rparr>
         else if elapsed then c\<lparr>cur_epoch := cur_epoch c + 1\<rparr> else c)
      else if tx \<noteq> last_tx_id c then
        (let c1 = c\<lparr>last_tx_id := tx\<rparr> in
         if use_logs_per_epoch cfg then
           (if log_count c - scast (last_log_count c) \<ge> scast (logs_per_epoch cfg)
            then c1\<lparr>last_log_count := ucast (log_count c), cur_epoch := cur_epoch c + 1\<rparr> else c1)
         else if elapsed then c1\<lparr>cur_epoch := cur_epoch c + 1\<rparr> else c1)
      else c)"

definition end_bulk_load :: "config \<Rightarrow> log_entry \<Rightarrow> int \<Rightarrow> conv \<Rightarrow> conv_failure + conv" where
  "end_bulk_load cfg junk tx c =
     (let c1 = c\<lparr>bulk_load_finished := True, last_tx_id := tx, last_log_count := ucast (log_count c), cur_epoch := 1\<rparr>
      in write_line (bulk_load_end junk) (catch_up cfg c1))"

text \<open>The entries of one event; nothing happens for an event without entries.\<close>

definition convert_event :: "config \<Rightarrow> log_entry \<Rightarrow> log_entry list \<times> bool \<Rightarrow> conv \<Rightarrow> conv_failure + conv" where
  "convert_event cfg junk = (\<lambda>(es, elapsed) c.
     if es = [] then Inr c
     else
       and_then (write_entries cfg es (c\<lparr>log_count := log_count c + 1\<rparr>)) (\<lambda>c1.
       let c2 = next_epoch cfg elapsed (tx_id (last es)) c1 in
       if snapshot (last es) = SNAPSHOT_LAST then end_bulk_load cfg junk (tx_id (last es)) c2 else Inr c2))"

primrec convert :: "config \<Rightarrow> log_entry \<Rightarrow> (log_entry list \<times> bool) list \<Rightarrow> conv \<Rightarrow> conv_failure + conv" where
  "convert cfg junk [] c = Inr c"
| "convert cfg junk (ev # evs) c = and_then (convert_event cfg junk ev c) (convert cfg junk evs)"

text \<open>The position in the last line of the topic, where a restarted converter goes on: the last field.\<close>

definition last_offset :: "string \<Rightarrow> conv_error + int" where
  "last_offset line = stoll (rev (takeWhile (\<lambda>c. c \<noteq> CHR ''|'') (rev line)))"

section \<open>Round robin\<close>

text \<open>How many of the first \<open>k\<close> vertices of a label go to partition \<open>f\<close> of \<open>F\<close>.\<close>

definition share :: "nat \<Rightarrow> nat \<Rightarrow> nat \<Rightarrow> nat" where
  "share F k f = (k + (F - 1 - f)) div F"

lemma share_zero: "f < F \<Longrightarrow> share F 0 f = 0"
  by (simp add: share_def)

lemma share_next: "f = k mod F \<Longrightarrow> 0 < F \<Longrightarrow> share F k f = k div F"
proof -
  assume f: "f = k mod F" and F: "0 < F"
  have "f < F" using f F by simp
  then have eq: "k + (F - 1 - f) = (F - 1) + k div F * F" using f div_mult_mod_eq [of k F] by linarith
  have "F - 1 < F" using F by linarith
  then show ?thesis unfolding share_def eq using F by (subst div_mult_self1) simp_all
qed

lemma share_Suc:
  assumes "f < F"
  shows "share F (Suc k) f = (if k mod F = f then Suc (share F k f) else share F k f)"
proof -
  let ?r = "k mod F"
  have r: "?r < F" using assms by simp
  have "Suc (k + (F - 1 - f)) = k + (F - f)" using assms by linarith
  then have "Suc (k + (F - 1 - f)) mod F = (?r + (F - f)) mod F" by (simp only: mod_add_left_eq)
  also have "\<dots> = 0 \<longleftrightarrow> ?r = f"
  proof (cases "?r < f")
    case True
    then have "?r + (F - f) < F" using assms by linarith
    then show ?thesis using True assms by simp
  next
    case False
    then have eq: "?r + (F - f) = (?r - f) + F" using assms by linarith
    have "?r - f < F" using r by linarith
    then have "(?r + (F - f)) mod F = ?r - f" unfolding eq by simp
    then show ?thesis using False by auto
  qed
  finally show ?thesis by (simp add: share_def div_Suc)
qed

text \<open>The new vertices of a label among some entries.\<close>

definition inserts :: "nat \<Rightarrow> log_entry list \<Rightarrow> nat" where
  "inserts l es = length (filter (\<lambda>e. entity e = VERTEX \<and> oper e = INSERT \<and> nat (vlabel e) = l) es)"

text \<open>The counters after \<open>k l\<close> vertices of each label.\<close>

definition counted :: "nat \<Rightarrow> (nat \<Rightarrow> nat) \<Rightarrow> gid_state \<Rightarrow> bool" where
  "counted F k st \<longleftrightarrow> (\<forall>l. vertex_nums st l = of_nat (k l) \<and> (\<forall>f < F. vertex_nums_per_fragment st l f = of_nat (share F (k l) f)))"

lemma counted_init: "counted F (\<lambda>l. 0) init_gids"
  by (simp add: counted_def init_gids_def share_zero)

lemma set_gid_counted: "set_gid oid b l g st = Inr st' \<Longrightarrow> counted F k st \<Longrightarrow> counted F k st'"
  by (auto simp: set_gid_def counted_def split: if_splits sum.splits)

lemma take_gid_counted:
  assumes c: "counted (unat F) k st" and F: "F \<noteq> 0" and small: "k l < 2 ^ 63"
  shows "\<exists>st'. take_gid p F l st = (GenerateId p (of_nat (k l mod unat F)) (int l) (int (k l div unat F)), st') \<and>
    counted (unat F) (k(l := Suc (k l))) st'"
proof -
  let ?F = "unat F" and ?f = "k l mod unat F"
  have F0: "0 < ?F" using F by (simp add: unat_gt_0)
  have n: "vertex_nums st l = of_nat (k l)" using c by (simp add: counted_def)
  have uk: "unat (of_nat (k l) :: u64) = k l" using small by (simp add: unat_of_nat)
  have fid: "unat (vertex_nums st l mod F) = ?f" by (simp add: n unat_mod uk)
  then have fid': "vertex_nums st l mod F = of_nat ?f" by (metis of_nat_unat ucast_id)
  have "?f < ?F" using F0 by simp
  then have "vertex_nums_per_fragment st l ?f = of_nat (share ?F (k l) ?f)" using c by (simp add: counted_def)
  then have off: "vertex_nums_per_fragment st l ?f = of_nat (k l div ?F)" using share_next [OF refl F0] by simp
  have "k l div ?F < 2 ^ 63" using small by (meson div_le_dividend le_less_trans)
  then have so: "sint (of_nat (k l div ?F) :: u64) = int (k l div ?F)"
    by (simp add: sint_uint uint_nat unat_of_nat signed_take_bit_int_eq_self)
  let ?st = "st\<lparr>vertex_nums := (vertex_nums st)(l := vertex_nums st l + 1),
    vertex_nums_per_fragment := (vertex_nums_per_fragment st)(l := (vertex_nums_per_fragment st l)(?f := of_nat (k l div ?F) + 1))\<rparr>"
  have "counted ?F (k(l := Suc (k l))) ?st"
    using c share_Suc [of _ ?F "k l"] share_next [OF refl F0, of "k l"] by (auto simp: counted_def)
  moreover have "unat (of_nat ?f :: u64) = ?f" using fid fid' by simp
  ultimately show ?thesis by (simp add: take_gid_def Let_def fid' off so)
qed

text \<open>The entries of a run through \<open>parse_again\<close>, each with its epoch.\<close>

primrec parse_all :: "id_parser \<Rightarrow> u64 \<Rightarrow> (int \<times> log_entry) list \<Rightarrow> gid_state \<Rightarrow> conv_failure + log_entry list" where
  "parse_all p F [] st = Inr []"
| "parse_all p F (x # xs) st =
     and_then (parse_again p F (fst x) (snd x) st) (\<lambda>(e, st').
     and_then (parse_all p F xs st') (\<lambda>es. Inr (e # es)))"

lemma parse_again_counted:
  assumes run: "parse_again p F ep e st = Inr (e', st')" and c: "counted (unat F) k st" and F: "F \<noteq> 0"
    and small: "\<And>l. k l < 2 ^ 63"
  shows "counted (unat F) (\<lambda>l. k l + inserts l [e]) st'"
    and "entity e = VERTEX \<Longrightarrow> oper e = INSERT \<Longrightarrow>
      gid e' = GenerateId p (of_nat (k (nat (vlabel e)) mod unat F)) (int (nat (vlabel e))) (int (k (nat (vlabel e)) div unat F))"
proof -
  let ?l = "nat (vlabel e)"
  show "counted (unat F) (\<lambda>l. k l + inserts l [e]) st'"
  proof (cases "entity e = VERTEX \<and> oper e = INSERT")
    case True
    obtain st1 where t: "take_gid p F ?l st = (GenerateId p (of_nat (k ?l mod unat F)) (int ?l) (int (k ?l div unat F)), st1)"
      "counted (unat F) (k(?l := Suc (k ?l))) st1" using take_gid_counted [OF c F small] by blast
    have "(\<lambda>l. k l + inserts l [e]) = k(?l := Suc (k ?l))" using True by (auto simp: inserts_def fun_eq_iff)
    then show ?thesis using run True t set_gid_counted by (auto simp: parse_again_def Let_def and_then_Inr)
  next
    case False
    then have "st' = st" using run by (auto simp: parse_again_def Let_def and_then_Inr split: if_splits)
    then show ?thesis using c False by (auto simp: inserts_def)
  qed
  assume v: "entity e = VERTEX" "oper e = INSERT"
  show "gid e' = GenerateId p (of_nat (k ?l mod unat F)) (int ?l) (int (k ?l div unat F))"
    using run v take_gid_counted [OF c F small [of ?l], of p] by (auto simp: parse_again_def Let_def and_then_Inr)
qed

lemma parse_all_gids:
  assumes "parse_all p F xs st = Inr es" and "counted (unat F) k st" and "F \<noteq> 0" and "\<And>l. k l + length xs < 2 ^ 63"
    and "j < length xs" and "entity (snd (xs ! j)) = VERTEX" and "oper (snd (xs ! j)) = INSERT" and "l = nat (vlabel (snd (xs ! j)))"
    and "n = k l + inserts l (map snd (take j xs))"
  shows "gid (es ! j) = GenerateId p (of_nat (n mod unat F)) (int l) (int (n div unat F))"
  using assms
proof (induction xs arbitrary: st k es j)
  case (Cons x xs)
  obtain e st' es' where r: "parse_again p F (fst x) (snd x) st = Inr (e, st')" "parse_all p F xs st' = Inr es'" "es = e # es'"
    using Cons.prems(1) by (auto simp: and_then_Inr)
  have small: "k l < 2 ^ 63" for l using Cons.prems(4) [of l] by linarith
  note st = parse_again_counted [OF r(1) Cons.prems(2,3) small]
  show ?case
  proof (cases j)
    case 0
    then show ?thesis using st(2) Cons.prems r(3) by (simp add: inserts_def)
  next
    case (Suc i)
    have le: "inserts l [snd x] \<le> 1" for l by (simp add: inserts_def)
    have "k l + inserts l [snd x] + length xs < 2 ^ 63" for l using Cons.prems(4) [of l] le [of l] by simp
    moreover have "n = (k l + inserts l [snd x]) + inserts l (map snd (take i xs))"
      using Cons.prems(9) Suc by (simp add: inserts_def)
    ultimately show ?thesis using Cons.IH [OF r(2) st(1) Cons.prems(3), of i] Cons.prems(5-8) Suc r(3) by simp
  qed
qed simp

section \<open>A restarted run\<close>

text \<open>A run that writes from line \<open>n\<close> on, beside one that writes every line.\<close>

definition lag :: "nat \<Rightarrow> conv \<Rightarrow> conv \<Rightarrow> bool" where
  "lag n c d \<longleftrightarrow> processed_count c = int (length (written c)) \<and> catch_up_mode c = (written c = []) \<and>
     d = c\<lparr>catch_up_mode := length (written c) \<le> n, written := drop n (written c)\<rparr>"

lemma lag_init: "lag n init_conv init_conv"
  by (simp add: lag_def init_conv_def)

lemma write_line_lag:
  assumes l: "lag n c d" and w: "write_line e ((catch_up (cfg\<lparr>last_processed_offset := 0\<rparr>) c)\<lparr>gids := st\<rparr>) = Inr c'"
  shows "\<exists>d'. write_line e ((catch_up (cfg\<lparr>last_processed_offset := int n\<rparr>) d)\<lparr>gids := st\<rparr>) = Inr d' \<and> lag n c' d' \<and>
    (\<exists>s. entry_to_string (processed_count c + 1) e = Inr s \<and> written c' = written c @ [s])"
proof -
  let ?L = "length (written c)"
  have c: "processed_count c = int ?L" "catch_up_mode c = (written c = [])"
    and d: "d = c\<lparr>catch_up_mode := ?L \<le> n, written := drop n (written c)\<rparr>" using l by (simp_all add: lag_def)
  obtain s where s: "entry_to_string (int ?L + 1) e = Inr s"
    and c': "c' = c\<lparr>gids := st, catch_up_mode := False, processed_count := int ?L + 1, written := written c @ [s]\<rparr>"
    using w c by (cases c) (auto simp: write_line_def catch_up_def Let_def and_then_Inr lift_error_Inr split: if_splits)
  show ?thesis
  proof (cases "?L < n")
    case True
    then show ?thesis using s by (simp add: c' d c write_line_def catch_up_def Let_def lag_def)
  next
    case False
    then show ?thesis using s by (auto simp: c' d c write_line_def catch_up_def Let_def lag_def)
  qed
qed

lemma catch_up_fields: "gids (catch_up cfg c) = gids c" "cur_epoch (catch_up cfg c) = cur_epoch c"
  by (simp_all add: catch_up_def Let_def)

lemma catch_up_gids: "(catch_up cfg c)\<lparr>gids := gids c\<rparr> = catch_up cfg c"
  by (simp add: catch_up_def Let_def)

lemma lag_fields: "lag n c d \<Longrightarrow> gids d = gids c \<and> cur_epoch d = cur_epoch c"
  by (simp add: lag_def)

lemma write_entries_lag:
  assumes "lag n c d" and "write_entries (cfg\<lparr>last_processed_offset := 0\<rparr>) es c = Inr c'"
  shows "\<exists>d'. write_entries (cfg\<lparr>last_processed_offset := int n\<rparr>) es d = Inr d' \<and> lag n c' d'"
  using assms
proof (induction es arbitrary: c d)
  case (Cons e es)
  obtain e1 st c1 where st: "parse_again (id_bits cfg) (subgraphs cfg) (cur_epoch c) e (gids c) = Inr (e1, st)"
    "write_line e1 ((catch_up (cfg\<lparr>last_processed_offset := 0\<rparr>) c)\<lparr>gids := st\<rparr>) = Inr c1"
    "write_entries (cfg\<lparr>last_processed_offset := 0\<rparr>) es c1 = Inr c'"
    using Cons.prems(2) by (auto simp: Let_def and_then_Inr catch_up_fields)
  obtain d1 where d1: "write_line e1 ((catch_up (cfg\<lparr>last_processed_offset := int n\<rparr>) d)\<lparr>gids := st\<rparr>) = Inr d1" "lag n c1 d1"
    using write_line_lag [OF Cons.prems(1) st(2)] by blast
  then show ?case using Cons.IH [OF d1(2) st(3)] st(1) lag_fields [OF Cons.prems(1)] by (simp add: catch_up_fields)
qed simp

text \<open>Epochs that count events do not look at the clock.\<close>

lemma next_epoch_lag:
  assumes "lag n c d" and "use_logs_per_epoch cfg"
  shows "lag n (next_epoch (cfg\<lparr>last_processed_offset := 0\<rparr>) t tx c) (next_epoch (cfg\<lparr>last_processed_offset := int n\<rparr>) t' tx d)"
  using assms by (simp add: lag_def next_epoch_def Let_def)

lemma convert_event_lag:
  assumes l: "lag n c d" and u: "use_logs_per_epoch cfg"
    and run: "convert_event (cfg\<lparr>last_processed_offset := 0\<rparr>) junk (es, t) c = Inr c'"
  shows "\<exists>d'. convert_event (cfg\<lparr>last_processed_offset := int n\<rparr>) junk (es, t') d = Inr d' \<and> lag n c' d'"
proof (cases "es = []")
  case False
  let ?c = "c\<lparr>log_count := log_count c + 1\<rparr>" and ?d = "d\<lparr>log_count := log_count d + 1\<rparr>"
  have "lag n ?c ?d" using l by (simp add: lag_def)
  moreover obtain c1 where c1: "write_entries (cfg\<lparr>last_processed_offset := 0\<rparr>) es ?c = Inr c1"
    using run False by (auto simp: convert_event_def and_then_Inr)
  ultimately obtain d1 where d1: "write_entries (cfg\<lparr>last_processed_offset := int n\<rparr>) es ?d = Inr d1" "lag n c1 d1"
    using write_entries_lag by blast
  let ?tx = "tx_id (last es)"
  let ?c2 = "next_epoch (cfg\<lparr>last_processed_offset := 0\<rparr>) t ?tx c1" and ?d2 = "next_epoch (cfg\<lparr>last_processed_offset := int n\<rparr>) t' ?tx d1"
  have l2: "lag n ?c2 ?d2" by (rule next_epoch_lag [OF d1(2) u])
  show ?thesis
  proof (cases "snapshot (last es) = SNAPSHOT_LAST")
    case True
    let ?f = "\<lambda>c. c\<lparr>bulk_load_finished := True, last_tx_id := ?tx, last_log_count := ucast (log_count c), cur_epoch := 1\<rparr>"
    have "lag n (?f ?c2) (?f ?d2)" using l2 by (simp add: lag_def)
    moreover have "write_line (bulk_load_end junk) (catch_up (cfg\<lparr>last_processed_offset := 0\<rparr>) (?f ?c2)) = Inr c'"
      using run False c1 True by (simp add: convert_event_def end_bulk_load_def Let_def)
    then have "write_line (bulk_load_end junk) ((catch_up (cfg\<lparr>last_processed_offset := 0\<rparr>) (?f ?c2))\<lparr>gids := gids (?f ?c2)\<rparr>) = Inr c'"
      by (simp only: catch_up_gids)
    ultimately obtain d' where d': "write_line (bulk_load_end junk)
        ((catch_up (cfg\<lparr>last_processed_offset := int n\<rparr>) (?f ?d2))\<lparr>gids := gids (?f ?c2)\<rparr>) = Inr d'" "lag n c' d'"
      using write_line_lag by blast
    have "gids (?f ?c2) = gids (?f ?d2)" using l2 by (simp add: lag_def)
    then have "write_line (bulk_load_end junk) (catch_up (cfg\<lparr>last_processed_offset := int n\<rparr>) (?f ?d2)) = Inr d'"
      using d'(1) by (simp only: catch_up_gids)
    then show ?thesis using False d1 d'(2) True by (simp add: convert_event_def end_bulk_load_def Let_def)
  next
    case no: False
    then show ?thesis using run False c1 d1 l2 by (simp add: convert_event_def Let_def)
  qed
qed (use assms in \<open>simp add: convert_event_def\<close>)

lemma convert_lag:
  assumes "lag n c d" and "use_logs_per_epoch cfg" and "convert (cfg\<lparr>last_processed_offset := 0\<rparr>) junk evs c = Inr c'"
    and "map fst evs' = map fst evs"
  shows "\<exists>d'. convert (cfg\<lparr>last_processed_offset := int n\<rparr>) junk evs' d = Inr d' \<and> lag n c' d'"
  using assms(1,3,4)
proof (induction evs arbitrary: c d evs')
  case (Cons ev evs)
  obtain es t where ev: "ev = (es, t)" by (cases ev)
  obtain t' rest where evs': "evs' = (es, t') # rest" "map fst rest = map fst evs" using Cons.prems(3) by (cases evs') (auto simp: ev)
  obtain c1 where c1: "convert_event (cfg\<lparr>last_processed_offset := 0\<rparr>) junk (es, t) c = Inr c1"
    "convert (cfg\<lparr>last_processed_offset := 0\<rparr>) junk evs c1 = Inr c'" using Cons.prems(2) by (auto simp: ev and_then_Inr)
  obtain d1 where d1: "convert_event (cfg\<lparr>last_processed_offset := int n\<rparr>) junk (es, t') d = Inr d1" "lag n c1 d1"
    using convert_event_lag [OF Cons.prems(1) assms(2) c1(1)] by blast
  then show ?case using Cons.IH [OF d1(2) c1(2) evs'(2)] by (simp add: evs'(1))
qed simp

text \<open>The position is the last field of a line.\<close>

lemma int_to_string_chars: "int_to_string i \<noteq> [] \<and> CHR ''|'' \<notin> set (int_to_string i)"
proof -
  have "CHR ''|'' \<notin> set (to_string n)" for n
  proof
    assume "CHR ''|'' \<in> set (to_string n)"
    then have "isdigit (CHR ''|'')" using to_string_digits [of n] by blast
    then show False by (simp add: isdigit_def)
  qed
  then show ?thesis using to_string_digits by (simp add: int_to_string_def)
qed

lemma append_all_join: "base \<noteq> [] \<Longrightarrow> append_all base fs = join_fields (CHR ''|'') base fs"
  by (induction fs arbitrary: base) (simp_all add: append_str_def)

definition entry_fields :: "log_entry \<Rightarrow> string list" where
  "entry_fields e =
     (if oper e = BULKLOAD_END then [int_to_string (epoch e)]
      else int_to_string (epoch e) #
        (if entity e = VERTEX then [to_string (unat (gid e)), external_id e]
         else [int_to_string (int (elabel e)), int_to_string (sint (src_gid e)), int_to_string (sint (dst_gid e)),
           src_external_id e, dst_external_id e]) @ properties e)"

definition line_name :: "log_entry \<Rightarrow> string" where
  "line_name e = (if oper e = BULKLOAD_END then ''bulkload_end''
     else oper_name (oper e) @ (if entity e = VERTEX then ''_vertex'' else ''_edge''))"

lemma entry_to_string_join:
  "entry_to_string off e = (if oper e = UNKNOWN then Inl Assertion
     else Inr (join_fields (CHR ''|'') (line_name e) (entry_fields e @ [int_to_string off])))"
  by (cases "oper e")
    (simp_all add: entry_to_string_def oper_name_def append_str_def append_all_join entry_fields_def line_name_def Let_def)

lemma last_field:
  assumes "c \<notin> set f"
  shows "rev (takeWhile (\<lambda>x. x \<noteq> c) (rev (join_fields c base (fs @ [f])))) = f"
proof -
  have "takeWhile (\<lambda>x. x \<noteq> c) (rev f @ c # rs) = rev f" for rs using assms by (subst takeWhile_append2) auto
  then show ?thesis by (simp add: join_fields_append)
qed

lemma last_offset_line:
  assumes "entry_to_string (int n) e = Inr s" and "n < 2 ^ 63"
  shows "last_offset s = Inr (int n)"
proof -
  have "rev (takeWhile (\<lambda>x. x \<noteq> CHR ''|'') (rev s)) = int_to_string (int n)"
    using assms(1) last_field [OF conjunct2 [OF int_to_string_chars]] by (auto simp: entry_to_string_join split: if_splits)
  then show ?thesis using assms(2) by (simp add: last_offset_def int_to_string_def stoll_to_string)
qed

definition in_sequence :: "string list \<Rightarrow> bool" where
  "in_sequence ls \<longleftrightarrow> (\<forall>i < length ls. \<exists>e. entry_to_string (int (Suc i)) e = Inr (ls ! i))"

lemma in_sequence_snoc: "in_sequence ls \<Longrightarrow> entry_to_string (int (length ls) + 1) e = Inr s \<Longrightarrow> in_sequence (ls @ [s])"
  by (auto simp: in_sequence_def nth_append less_Suc_eq add.commute)

text \<open>Every written line carries its number.\<close>

definition tidy :: "conv \<Rightarrow> bool" where
  "tidy c \<longleftrightarrow> processed_count c = int (length (written c)) \<and> catch_up_mode c = (written c = []) \<and> in_sequence (written c)"

lemma write_line_tidy:
  assumes t: "tidy c" and w: "write_line e ((catch_up (cfg\<lparr>last_processed_offset := 0\<rparr>) c)\<lparr>gids := st\<rparr>) = Inr c'"
  shows "tidy c'"
proof -
  have "lag 0 c (c\<lparr>catch_up_mode := length (written c) \<le> 0, written := drop 0 (written c)\<rparr>)" using t by (simp add: lag_def tidy_def)
  from write_line_lag [OF this w] obtain d' s where "lag 0 c' d'" "entry_to_string (processed_count c + 1) e = Inr s"
    "written c' = written c @ [s]" by blast
  then show ?thesis using t in_sequence_snoc by (simp add: tidy_def lag_def)
qed

lemma write_entries_tidy: "tidy c \<Longrightarrow> write_entries (cfg\<lparr>last_processed_offset := 0\<rparr>) es c = Inr c' \<Longrightarrow> tidy c'"
proof (induction es arbitrary: c)
  case (Cons e es)
  obtain e1 st c1 where "write_line e1 ((catch_up (cfg\<lparr>last_processed_offset := 0\<rparr>) c)\<lparr>gids := st\<rparr>) = Inr c1"
    "write_entries (cfg\<lparr>last_processed_offset := 0\<rparr>) es c1 = Inr c'"
    using Cons.prems(2) by (auto simp: Let_def and_then_Inr)
  then show ?case using Cons.IH write_line_tidy [OF Cons.prems(1)] by blast
qed simp

lemma next_epoch_tidy [simp]: "tidy (next_epoch cfg t tx c) = tidy c"
  by (simp add: next_epoch_def tidy_def Let_def)

lemma end_bulk_load_tidy:
  assumes "tidy c" and "end_bulk_load (cfg\<lparr>last_processed_offset := 0\<rparr>) junk tx c = Inr c'"
  shows "tidy c'"
proof -
  let ?c = "c\<lparr>bulk_load_finished := True, last_tx_id := tx, last_log_count := ucast (log_count c), cur_epoch := 1\<rparr>"
  have "tidy ?c" using assms(1) by (simp add: tidy_def)
  then show ?thesis
  proof (rule write_line_tidy)
    show "write_line (bulk_load_end junk) ((catch_up (cfg\<lparr>last_processed_offset := 0\<rparr>) ?c)\<lparr>gids := gids ?c\<rparr>) = Inr c'"
      unfolding catch_up_gids using assms(2) by (simp add: end_bulk_load_def Let_def)
  qed
qed

lemma convert_tidy: "tidy c \<Longrightarrow> convert (cfg\<lparr>last_processed_offset := 0\<rparr>) junk evs c = Inr c' \<Longrightarrow> tidy c'"
proof (induction evs arbitrary: c)
  case (Cons ev evs)
  obtain c1 where c1: "convert_event (cfg\<lparr>last_processed_offset := 0\<rparr>) junk ev c = Inr c1"
    "convert (cfg\<lparr>last_processed_offset := 0\<rparr>) junk evs c1 = Inr c'" using Cons.prems(2) by (auto simp: and_then_Inr)
  obtain es t where ev: "ev = (es, t)" by (cases ev)
  have "tidy c1"
  proof (cases "es = []")
    case False
    obtain c2 where c2: "write_entries (cfg\<lparr>last_processed_offset := 0\<rparr>) es (c\<lparr>log_count := log_count c + 1\<rparr>) = Inr c2"
      using c1(1) False by (auto simp: ev convert_event_def and_then_Inr)
    have "tidy (c\<lparr>log_count := log_count c + 1\<rparr>)" using Cons.prems(1) by (simp add: tidy_def)
    then have "tidy c2" using c2 by (rule write_entries_tidy)
    then have next_ok: "tidy (next_epoch (cfg\<lparr>last_processed_offset := 0\<rparr>) t (tx_id (last es)) c2)" by simp
    then show ?thesis using c1(1) c2 False end_bulk_load_tidy [OF next_ok]
      by (auto simp: ev convert_event_def Let_def split: if_splits)
  qed (use c1(1) Cons.prems(1) in \<open>simp add: ev convert_event_def\<close>)
  then show ?case using Cons.IH c1(2) by blast
qed simp

section \<open>Properties\<close>

lemma share_fid:
  assumes "0 < uint (F :: u64)" and "uint F < 2 ^ 31"
  shows "F \<noteq> 0" and "uint (of_nat (k mod unat F) :: u64) < 2 ^ fid_width_of F" and "unat F < 2 ^ 31"
proof -
  show F: "F \<noteq> 0" using assms(1) by auto
  have "int (unat F) < int (2 ^ 31)" using assms(2) by simp
  then show small: "unat F < 2 ^ 31" by (simp only: of_nat_less_iff)
  have m: "k mod unat F < unat F" using F by (simp add: unat_gt_0)
  have "(ucast F :: u32) = word_of_int (uint F)" by (rule ucast_eq)
  then have "sint (ucast F :: u32) = uint F"
    using assms sint_word_of_int_small [of "uint F", where 'a = 32] unfolding len_bit0 len_num1 by (simp only:) simp
  then have "sint (ucast F :: u32) = int (unat F)" by simp
  then have le: "int (unat F) \<le> 2 ^ fid_width_of F" using num_to_bitwidth_covers unfolding fid_width_of_def by metis
  have "unat (of_nat (k mod unat F) :: u64) = k mod unat F" using m small by (simp add: unat_of_nat)
  then have "uint (of_nat (k mod unat F) :: u64) = int (k mod unat F)" by (metis of_nat_unat)
  then show "uint (of_nat (k mod unat F) :: u64) < 2 ^ fid_width_of F" using m le by linarith
qed

text \<open>
C14: The converter spreads the vertices of a label round robin: the \<open>k\<close>-th insertion of label \<open>l\<close> gets
an identifier whose fragment is \<open>k\<close> modulo the number of fragments, whose label is \<open>l\<close> and whose offset is
\<open>k\<close> divided by the number of fragments, so that no two insertions share an identifier and the offsets of a
fragment are dense, whatever other entries come between, as long as label and offset fit their fields.
\<close>

theorem gids_round_robin:
  assumes init: "Init F n = Some p" and F: "0 < uint F" "uint F < 2 ^ 31"
    and run: "parse_all p F xs init_gids = Inr es" and len: "length xs < 2 ^ 63"
    and j: "j < length xs" "entity (snd (xs ! j)) = VERTEX" "oper (snd (xs ! j)) = INSERT" "nat (vlabel (snd (xs ! j))) = l"
    and k: "k = inserts l (map snd (take j xs))" and fit: "l < 128" "k div unat F < 2 ^ (56 - fid_width_of F)"
  shows "GetFid p (gid (es ! j)) = of_nat (k mod unat F) \<and> GetLabelId p (gid (es ! j)) = int l \<and>
    GetOffset p (gid (es ! j)) = int (k div unat F)"
proof -
  have "F \<noteq> 0" using F(1) by auto
  have lay: "layout p (fid_width_of F)" by (rule Init_imp_layout [OF init])
  have "gid (es ! j) = GenerateId p (of_nat (k mod unat F)) (int l) (int (k div unat F))"
    using parse_all_gids [OF run counted_init \<open>F \<noteq> 0\<close> _ j(1-3) refl] len j(4) k by simp
  moreover have "int (k div unat F) < int (2 ^ (56 - fid_width_of F))" using fit(2) by (simp only: of_nat_less_iff)
  then have "id_ok p (of_nat (k mod unat F)) (int l) (int (k div unat F))"
    using share_fid(2) [OF _ F(2)] fit(1) F by (simp add: id_ok_layout [OF lay] fits_def)
  ultimately show ?thesis by (simp add: idp.fid_of_gen idp.label_of_gen idp.offset_of_gen)
qed

text \<open>Entries with string identifiers.\<close>

definition guest :: "string \<Rightarrow> log_entry" where
  "guest s = (blank empty_mapping people_event ([], INSERT))\<lparr>entity := VERTEX, vlabel := 1, external_id := s,
     is_string_oid := True, snapshot := SNAPSHOT_FALSE\<rparr>"

definition visit_edge :: "string \<Rightarrow> string \<Rightarrow> log_entry" where
  "visit_edge s d = (blank empty_mapping people_event ([], INSERT))\<lparr>entity := EDGE, src_vlabel := 1, dst_vlabel := 1,
     src_external_id := s, dst_external_id := d, is_src_string_oid := True, is_dst_string_oid := True, src_gid := 9, dst_gid := 11,
     snapshot := SNAPSHOT_FALSE\<rparr>"

lemma guest_fields [simp]:
  "entity (guest s) = VERTEX" "oper (guest s) = INSERT" "vlabel (guest s) = 1" "external_id (guest s) = s" "is_string_oid (guest s)"
  by (simp_all add: guest_def blank_def)

lemma gids_round_robin_witness:
  "\<exists>p es. Init 2 3 = Some p \<and> parse_all p 2 [(0, guest ''a''), (0, guest ''b''), (1, guest ''a''), (1, guest ''c'')] init_gids = Inr es \<and>
    GetFid p (gid (es ! 3)) = 1 \<and> GetLabelId p (gid (es ! 3)) = 1 \<and> GetOffset p (gid (es ! 3)) = 1"
proof -
  let ?xs = "[(0, guest ''a''), (0, guest ''b''), (1, guest ''a''), (1, guest ''c'')]"
  obtain p where p: "Init 2 3 = Some p" using Init_total [of 3 2] by auto
  have w: "fid_width_of 2 = 1" by (simp add: fid_width_of_def num_to_bitwidth_def)
  obtain es where es: "parse_all p 2 ?xs init_gids = Inr es"
    by (simp add: parse_again_def set_gid_def take_gid_def Let_def)
  have "inserts 1 (map snd (take 3 ?xs)) = 3" by (simp add: inserts_def)
  then show ?thesis
    using gids_round_robin [OF p _ _ es, of 3 1 3] p es by (simp add: w)
qed

text \<open>
C12: With epochs that count events, a converter that stopped after any number of written lines and starts
again from the beginning of its input finds in its last line the position that makes it write exactly the lines
that are missing: together they are the lines of a run that never stopped, and the identifiers and the epoch
it ends with are the same, whatever the clock showed.
\<close>

theorem restart_resumes:
  assumes "use_logs_per_epoch cfg" and "convert (cfg\<lparr>last_processed_offset := 0\<rparr>) junk evs init_conv = Inr c"
    and "n < length (written c)" and "length (written c) < 2 ^ 63" and "map fst evs' = map fst evs"
  shows "\<exists>off d. last_offset (written c ! n) = Inr off \<and>
    convert (cfg\<lparr>last_processed_offset := off\<rparr>) junk evs' init_conv = Inr d \<and>
    take (Suc n) (written c) @ written d = written c \<and> gids d = gids c \<and> cur_epoch d = cur_epoch c"
proof -
  have "tidy init_conv" by (simp add: tidy_def init_conv_def in_sequence_def)
  then have "in_sequence (written c)" using convert_tidy [OF _ assms(2)] by (simp add: tidy_def)
  then obtain e where "entry_to_string (int (Suc n)) e = Inr (written c ! n)" using assms(3) by (auto simp: in_sequence_def)
  then have off: "last_offset (written c ! n) = Inr (int (Suc n))" by (rule last_offset_line) (use assms(3,4) in simp)
  obtain d where "convert (cfg\<lparr>last_processed_offset := int (Suc n)\<rparr>) junk evs' init_conv = Inr d" "lag (Suc n) c d"
    using convert_lag [OF lag_init assms(1,2,5)] by blast
  then show ?thesis using off by (intro exI [of _ "int (Suc n)"] exI [of _ d]) (simp add: lag_def)
qed

definition demo_config :: config where
  "demo_config = \<lparr>id_bits = \<lparr>offset_offset = 1, label_id_offset = 56, fid_mask = 1, lid_mask = 0, label_id_mask = 0,
     offset_mask = 6, offset_width = 2\<rparr>, subgraphs = 2, use_logs_per_epoch = True, logs_per_epoch = 1,
     enable_bulk_load = False, last_processed_offset = 0\<rparr>"

definition demo_events :: "(log_entry list \<times> bool) list" where
  "demo_events = [([guest ''a''], False), ([visit_edge ''a'' ''a''], True)]"

lemma converter_demo_run: "map_sum id written (convert demo_config (guest []) demo_events init_conv) =
    Inr [''add_vertex|0|0|a|1'', ''add_edge|1|0|0|0|a|a|2'']"
  by code_simp

lemma restart_resumes_witness:
  "\<exists>d. convert (demo_config\<lparr>last_processed_offset := 1\<rparr>) (guest []) (map (\<lambda>ev. (fst ev, True)) demo_events) init_conv = Inr d \<and>
    written d = [''add_edge|1|0|0|0|a|a|2'']"
proof -
  obtain c where c: "convert demo_config (guest []) demo_events init_conv = Inr c"
    "written c = [''add_vertex|0|0|a|1'', ''add_edge|1|0|0|0|a|a|2'']"
    using converter_demo_run by (cases "convert demo_config (guest []) demo_events init_conv") auto
  have zero: "demo_config\<lparr>last_processed_offset := 0\<rparr> = demo_config" and u: "use_logs_per_epoch demo_config"
    by (simp_all add: demo_config_def)
  have "last_offset ''add_vertex|0|0|a|1'' = Inr 1" by code_simp
  then show ?thesis
    using restart_resumes [OF u, of "guest []" demo_events c 0 "map (\<lambda>ev. (fst ev, True)) demo_events"] c zero
    by (auto simp: comp_def)
qed

text \<open>
C28: An edge with an end point that has no identifier is marked incomplete when the identifiers are looked up,
but the mark is not read afterwards: the line is written all the same, with the identifiers the entry happened
to hold, and takes part in the numbering.
\<close>

theorem unknown_end_written:
  assumes "entity e = EDGE" and "oper e = INSERT \<or> oper e = DELETE"
    and "get_gid (src_external_id e) (is_src_string_oid e) (nat (src_vlabel e)) (gids c) = Inr sg"
    and "get_gid (dst_external_id e) (is_dst_string_oid e) (nat (dst_vlabel e)) (gids c) = Inr dg"
    and "sg = - 1 \<or> dg = - 1" and "\<not> catch_up_mode c"
  shows "\<exists>c'. write_entries cfg [e] c = Inr c' \<and>
    parse_again (id_bits cfg) (subgraphs cfg) (cur_epoch c) e (gids c) = Inr (e\<lparr>epoch := cur_epoch c, complete := False\<rparr>, gids c) \<and>
    written c' = written c @ [join_fields (CHR ''|'') (oper_name (oper e) @ ''_edge'')
      ([int_to_string (cur_epoch c), int_to_string (int (elabel e)), int_to_string (sint (src_gid e)), int_to_string (sint (dst_gid e)),
        src_external_id e, dst_external_id e] @ properties e @ [int_to_string (processed_count c + 1)])]"
  using assms
  by (auto simp: parse_again_def catch_up_def write_line_def Let_def entry_to_string_join line_name_def entry_fields_def)

lemma unknown_end_written_witness:
  "\<exists>c'. write_entries demo_config [visit_edge ''a'' ''b''] (init_conv\<lparr>catch_up_mode := False\<rparr>) = Inr c' \<and>
    written c' = [''add_edge|0|0|9|11|a|b|1'']"
proof -
  let ?c = "init_conv\<lparr>catch_up_mode := False\<rparr>" and ?e = "visit_edge ''a'' ''b''"
  have none: "get_gid oid True l (gids ?c) = Inr (- 1)" for oid l
    by (simp add: get_gid_def init_conv_def init_gids_def)
  have e: "entity ?e = EDGE" "oper ?e = INSERT \<or> oper ?e = DELETE" "is_src_string_oid ?e" "is_dst_string_oid ?e"
    by (simp_all add: visit_edge_def blank_def)
  obtain c' where c': "write_entries demo_config [?e] ?c = Inr c'"
    "written c' = written ?c @ [join_fields (CHR ''|'') (oper_name (oper ?e) @ ''_edge'')
      ([int_to_string (cur_epoch ?c), int_to_string (int (elabel ?e)), int_to_string (sint (src_gid ?e)), int_to_string (sint (dst_gid ?e)),
        src_external_id ?e, dst_external_id ?e] @ properties ?e @ [int_to_string (processed_count ?c + 1)])]"
    using unknown_end_written [OF e(1,2), of ?c "- 1" "- 1" demo_config] none e(3,4) by (auto simp: init_conv_def)
  have "written ?c @ [join_fields (CHR ''|'') (oper_name (oper ?e) @ ''_edge'')
      ([int_to_string (cur_epoch ?c), int_to_string (int (elabel ?e)), int_to_string (sint (src_gid ?e)), int_to_string (sint (dst_gid ?e)),
        src_external_id ?e, dst_external_id ?e] @ properties ?e @ [int_to_string (processed_count ?c + 1)])] = [''add_edge|0|0|9|11|a|b|1'']"
    by code_simp
  then show ?thesis using c' by metis
qed

end
