(* ===== verification/Converter_Lines.thy ===== *)
theory Converter_Lines
  imports Converter Runner
begin

text \<open>
  The interface between the converter and the graph store: the lines that \<^verbatim>\<open>LogEntry::to_string\<close>
  prints are read back by \<^verbatim>\<open>Runner::apply_log_to_store\<close> and the operations of
  \<^verbatim>\<open>graph_ops\<close>.
\<close>

section \<open>Signed numbers\<close>

lemma leading_number_int: "leading_number (int_to_string i) = Some (i < 0, nat \<bar>i\<bar>)"
proof (cases "i < 0")
  case True
  let ?d = "to_string (nat (- i))"
  have tw: "takeWhile isdigit ?d = ?d" using to_string_digits [of "nat (- i)"] by simp
  show ?thesis using True to_string_digits [of "nat (- i)"]
    by (simp add: int_to_string_def leading_number_def Let_def isspace_def tw digits_value_to_string)
next
  case False
  then show ?thesis by (simp add: int_to_string_def leading_number_to_string)
qed

lemma conv_int_to_string: "- (2 ^ (w - 1)) \<le> i \<Longrightarrow> i < 2 ^ (w - 1) \<Longrightarrow> conv_int w (int_to_string i) = Inr i"
  by (simp add: conv_int_def leading_number_int Let_def)

lemma stoi_int_to_string: "- (2 ^ 31) \<le> i \<Longrightarrow> i < 2 ^ 31 \<Longrightarrow> stoi (int_to_string i) = Inr i"
  using conv_int_to_string [of 32 i] by (simp add: stoi_def)

lemma stoll_sint: "stoll (int_to_string (sint (g :: u64))) = Inr (sint g)"
  using conv_int_to_string [of 64 "sint g"] sint_greater_eq [of g] sint_lt [of g] by (simp add: stoll_def)

section \<open>Properties\<close>

text \<open>The texts of an entry do not contain the delimiter, and its numbers fit what they are read into.\<close>

definition printable :: "log_entry \<Rightarrow> bool" where
  "printable e \<longleftrightarrow> - (2 ^ 31) \<le> epoch e \<and> epoch e < 2 ^ 31 \<and> elabel e < 2 ^ 31 \<and> unat (gid e) < 2 ^ 63 \<and>
     (\<forall>s \<in> set ([external_id e, src_external_id e, dst_external_id e] @ properties e). CHR ''|'' \<notin> set s)"

lemma entry_fields_plain: "printable e \<Longrightarrow> \<forall>s \<in> set (entry_fields e). CHR ''|'' \<notin> set s"
  using int_to_string_chars int_to_string_chars [of "int (unat (gid e))", unfolded int_to_string_def]
  by (auto simp: printable_def entry_fields_def)

lemma line_name_plain: "CHR ''|'' \<notin> set (line_name e)"
  by (cases "oper e") (simp_all add: line_name_def oper_name_def)

lemma split_entry:
  assumes "printable e" and "entry_to_string off e = Inr line"
  shows "splitString line (CHR ''|'') = line_name e # entry_fields e @ [int_to_string off]"
  using assms entry_fields_plain [OF assms(1)] line_name_plain int_to_string_chars
  by (auto simp: entry_to_string_join splitString_join split: if_splits)

text \<open>
C11: A line the converter prints for an insertion, update or deletion is applied by the store as what it says:
splitting it gives back the name of the operation and the fields of the entry, the runner moves on to the epoch
of the entry and calls the operation of that name, which reads from the fields the same epoch, for an edge the
same label and end points, for a vertex the same identifier, and then the external identifiers and the
properties unchanged; provided no text contains the delimiter.
\<close>

theorem entry_line_roundtrip:
  assumes pr: "printable e" and line: "entry_to_string off e = Inr line" and op: "oper e \<in> {INSERT, UPDATE, DELETE}"
    and cmd: "cmd = entry_fields e"
  shows "apply_log_to_store w line r =
      and_then (advance_to (epoch e) r) (\<lambda>r1.
        and_then (dispatch w (line_name e) cmd (store r1)) (\<lambda>gs. Inr (r1\<lparr>store := gs\<rparr>))) \<and>
    (if entity e = EDGE
     then edge_line cmd (epoch e) (elabel e) (src_gid e) (dst_gid e) \<and>
       drop 4 cmd = [src_external_id e, dst_external_id e] @ properties e
     else int_field cmd 0 = Inr (epoch e) \<and> vid_field cmd 1 = Inr (gid e) \<and> drop 2 cmd = external_id e # properties e)"
proof -
  have fs: "cmd ! 0 = int_to_string (epoch e)" "cmd \<noteq> []" using op cmd by (auto simp: entry_fields_def)
  have ep: "stoi (int_to_string (epoch e)) = Inr (epoch e)" using pr by (simp add: printable_def stoi_int_to_string)
  have "hd (splitString line (CHR ''|'')) = line_name e" "butlast (tl (splitString line (CHR ''|''))) = cmd"
    using split_entry [OF pr line] cmd by simp_all
  moreover have "int_field (splitString line (CHR ''|'')) 1 = Inr (epoch e)"
    using split_entry [OF pr line] cmd fs ep by (simp add: int_field_def field_at_def nth_append)
  moreover have "line_name e \<noteq> ''bulkload_end''" using op by (auto simp: line_name_def oper_name_def)
  ultimately have run: "apply_log_to_store w line r =
      and_then (advance_to (epoch e) r) (\<lambda>r1.
        and_then (dispatch w (line_name e) cmd (store r1)) (\<lambda>gs. Inr (r1\<lparr>store := gs\<rparr>)))"
    by (simp add: apply_log_to_store_def Let_def)
  have int0: "int_field cmd 0 = Inr (epoch e)" using fs ep by (simp add: int_field_def field_at_def)
  show ?thesis
  proof (cases "entity e = EDGE")
    case True
    have c: "cmd = [int_to_string (epoch e), int_to_string (int (elabel e)), int_to_string (sint (src_gid e)),
      int_to_string (sint (dst_gid e)), src_external_id e, dst_external_id e] @ properties e"
      using True op cmd by (auto simp: entry_fields_def)
    have "int (elabel e) < int (2 ^ 31)" using pr unfolding printable_def by (simp only: of_nat_less_iff)
    then have "stoi (int_to_string (int (elabel e))) = Inr (int (elabel e))" by (simp add: stoi_int_to_string)
    then have "edge_line cmd (epoch e) (elabel e) (src_gid e) (dst_gid e)"
      using int0 unfolding edge_line_def c by (simp add: label_field_def int_field_def vid_field_def field_at_def stoll_sint)
    then show ?thesis using run True c by simp
  next
    case False
    have c: "cmd = [int_to_string (epoch e), to_string (unat (gid e)), external_id e] @ properties e"
      using False op cmd by (cases "entity e") (auto simp: entry_fields_def)
    have "vid_field cmd 1 = Inr (gid e)"
      using pr unfolding c by (simp add: vid_field_def field_at_def stoll_to_string printable_def)
    then show ?thesis using run int0 False c by simp
  qed
qed

lemma entry_line_roundtrip_witness:
  "apply_log_to_store plain_outside ''add_edge|0|0|9|11|a|b|1'' new_runner = and_then (advance_to 0 new_runner) (\<lambda>r1.
      and_then (dispatch plain_outside ''add_edge'' [''0'', ''0'', ''9'', ''11'', ''a'', ''b''] (store r1))
        (\<lambda>gs. Inr (r1\<lparr>store := gs\<rparr>))) \<and>
    edge_line [''0'', ''0'', ''9'', ''11'', ''a'', ''b''] 0 0 9 11"
proof -
  let ?e = "visit_edge ''a'' ''b''"
  have f: "entity ?e = EDGE" "oper ?e = INSERT" "epoch ?e = 0" "elabel ?e = 0" "src_gid ?e = 9" "dst_gid ?e = 11" "gid ?e = 0"
    "external_id ?e = []" "src_external_id ?e = ''a''" "dst_external_id ?e = ''b''" "properties ?e = []"
    by (simp_all add: visit_edge_def blank_def)
  have line: "entry_to_string 1 ?e = Inr ''add_edge|0|0|9|11|a|b|1''" "entry_fields ?e = [''0'', ''0'', ''9'', ''11'', ''a'', ''b'']"
    "line_name ?e = ''add_edge''" by code_simp+
  have "printable ?e" "oper ?e \<in> {INSERT, UPDATE, DELETE}" by (simp_all add: printable_def f)
  from entry_line_roundtrip [OF this(1) line(1) this(2) line(2) [symmetric], of plain_outside new_runner]
  show ?thesis by (simp add: f line)
qed

end
