(* ===== verification/Fragment_Ids.thy ===== *)
theory Fragment_Ids
  imports Id_Parser Vertex_Table
begin

text \<open>
  How a fragment (\<^verbatim>\<open>interfaces/fragment/gart_fragment.h\<close>) translates between the
  identifiers of a vertex: its handle, which is its local identifier, the global identifier with the number of
  the fragment that owns it, and the identifier of the data source. Inner vertices count up from offset 0,
  outer ones down from the greatest offset. The hash maps are vineyard's: a fragment reads them through
  \<^verbatim>\<open>find\<close>, so here they are the functions they stand for.
\<close>

section \<open>State\<close>

record fragment =
  vid_parser :: id_parser
  frag_fid :: u64
  max_outer_off :: u64
  max_inner_offsets :: "nat \<Rightarrow> int"
  min_outer_offsets :: "nat \<Rightarrow> int"
  ovl2g :: "nat \<Rightarrow> u64 list"
  ovg2l_maps :: "nat \<Rightarrow> u64 \<Rightarrow> u64 option"
  oid_maps :: "nat \<Rightarrow> int \<Rightarrow> u64 option"
  vertex_ext_ids :: "nat \<Rightarrow> int list"
  outer_vertex_ext_ids :: "nat \<Rightarrow> int list"

text \<open>What \<open>Init\<close> computes from the numbers a store publishes for each label, and takes from its blobs.\<close>

definition init_fragment ::
  "u64 \<Rightarrow> u64 \<Rightarrow> int \<Rightarrow> (nat \<Rightarrow> vtable_meta) \<Rightarrow> (nat \<Rightarrow> u64 list) \<Rightarrow> (nat \<Rightarrow> u64 \<Rightarrow> u64 option) \<Rightarrow>
   (nat \<Rightarrow> int \<Rightarrow> u64 option) \<Rightarrow> (nat \<Rightarrow> int list) \<Rightarrow> (nat \<Rightarrow> int list) \<Rightarrow> fragment option" where
  "init_fragment fnum fid label_num metas l2g g2l oids ext oext =
     Option.bind (Init fnum label_num) (\<lambda>p.
       let outer = push_bit (GetOffsetWidth p) 1 - 1 in
       Some \<lparr>vid_parser = p, frag_fid = fid, max_outer_off = outer,
         max_inner_offsets = (\<lambda>l. int (meta_max_inner (metas l)) - 1),
         min_outer_offsets = (\<lambda>l. sint (outer + 1 - (of_nat (meta_max (metas l)) - of_nat (meta_min_outer (metas l))))),
         ovl2g = l2g, ovg2l_maps = g2l, oid_maps = oids, vertex_ext_ids = ext, outer_vertex_ext_ids = oext\<rparr>)"

section \<open>Handles\<close>

definition vertex_label :: "fragment \<Rightarrow> u64 \<Rightarrow> nat" where
  "vertex_label fr v = nat (GetLabelId (vid_parser fr) v)"

definition vertex_offset :: "fragment \<Rightarrow> u64 \<Rightarrow> int" where
  "vertex_offset fr v = GetOffset (vid_parser fr) v"

definition IsInnerVertex :: "fragment \<Rightarrow> u64 \<Rightarrow> bool" where
  "IsInnerVertex fr v \<longleftrightarrow> vertex_offset fr v \<le> max_inner_offsets fr (vertex_label fr v)"

definition IsOuterVertex :: "fragment \<Rightarrow> u64 \<Rightarrow> bool" where
  "IsOuterVertex fr v \<longleftrightarrow> vertex_offset fr v \<ge> min_outer_offsets fr (vertex_label fr v)"

text \<open>The index of a vertex among the inner or the outer ones of its label.\<close>

definition GetOffset_of :: "fragment \<Rightarrow> u64 \<Rightarrow> u64" where
  "GetOffset_of fr v =
     (if IsInnerVertex fr v then word_of_int (vertex_offset fr v)
      else max_outer_off fr - word_of_int (vertex_offset fr v))"

definition GetMaxInnerVerticesNum :: "fragment \<Rightarrow> nat \<Rightarrow> u64" where
  "GetMaxInnerVerticesNum fr l = word_of_int (max_inner_offsets fr l + 1)"

definition GetMaxOuterVerticesNum :: "fragment \<Rightarrow> nat \<Rightarrow> u64" where
  "GetMaxOuterVerticesNum fr l = max_outer_off fr - word_of_int (min_outer_offsets fr l) + 1"

section \<open>Global identifiers\<close>

text \<open>A read outside an array is \<open>None\<close>.\<close>

definition array_at :: "'a list \<Rightarrow> u64 \<Rightarrow> 'a option" where
  "array_at xs i = (if unat i < length xs then Some (xs ! unat i) else None)"

definition GetInnerVertexGid :: "fragment \<Rightarrow> u64 \<Rightarrow> u64" where
  "GetInnerVertexGid fr v =
     GenerateId (vid_parser fr) (frag_fid fr) (GetLabelId (vid_parser fr) v) (vertex_offset fr v)"

definition GetOuterVertexGid :: "fragment \<Rightarrow> u64 \<Rightarrow> u64 option" where
  "GetOuterVertexGid fr v = array_at (ovl2g fr (vertex_label fr v)) (max_outer_off fr - word_of_int (vertex_offset fr v))"

definition Vertex2Gid :: "fragment \<Rightarrow> u64 \<Rightarrow> u64 option" where
  "Vertex2Gid fr v = (if IsInnerVertex fr v then Some (GetInnerVertexGid fr v) else GetOuterVertexGid fr v)"

text \<open>The conversions to a handle return whether they found one: \<open>None\<close> is false.\<close>

definition InnerVertexGid2Vertex :: "fragment \<Rightarrow> u64 \<Rightarrow> u64 option" where
  "InnerVertexGid2Vertex fr gid =
     (if GetFid (vid_parser fr) gid = frag_fid fr then Some (GetLid (vid_parser fr) gid) else None)"

definition OuterVertexGid2Vertex :: "fragment \<Rightarrow> u64 \<Rightarrow> u64 option" where
  "OuterVertexGid2Vertex fr gid = ovg2l_maps fr (vertex_label fr gid) gid"

definition Gid2Vertex :: "fragment \<Rightarrow> u64 \<Rightarrow> u64 option" where
  "Gid2Vertex fr gid =
     (if GetFid (vid_parser fr) gid = frag_fid fr then InnerVertexGid2Vertex fr gid else OuterVertexGid2Vertex fr gid)"

definition GetFragId :: "fragment \<Rightarrow> u64 \<Rightarrow> u64 option" where
  "GetFragId fr v = (if IsInnerVertex fr v then Some (frag_fid fr)
     else map_option (GetFid (vid_parser fr)) (GetOuterVertexGid fr v))"

definition GetFragIdFromGid :: "fragment \<Rightarrow> u64 \<Rightarrow> u64" where
  "GetFragIdFromGid fr gid = GetFid (vid_parser fr) gid"

section \<open>Identifiers of the data source\<close>

definition GetId :: "fragment \<Rightarrow> u64 \<Rightarrow> int option" where
  "GetId fr v =
     array_at (if IsInnerVertex fr v then vertex_ext_ids fr (vertex_label fr v) else outer_vertex_ext_ids fr (vertex_label fr v))
       (GetOffset_of fr v)"

definition Oid2Gid :: "fragment \<Rightarrow> nat \<Rightarrow> int \<Rightarrow> u64 option" where
  "Oid2Gid fr l oid = oid_maps fr l oid"

definition GetVertex :: "fragment \<Rightarrow> nat \<Rightarrow> int \<Rightarrow> u64 option" where
  "GetVertex fr l oid = Option.bind (oid_maps fr l oid) (Gid2Vertex fr)"

text \<open>The other overload of \<^verbatim>\<open>Oid2Gid\<close>.\<close>

definition Oid2Vertex :: "fragment \<Rightarrow> nat \<Rightarrow> int \<Rightarrow> u64 option" where
  "Oid2Vertex fr l oid = Option.bind (Oid2Gid fr l oid) (Gid2Vertex fr)"

text \<open>These two assert the label: outer \<open>None\<close>.\<close>

definition GetInnerVertex :: "fragment \<Rightarrow> nat \<Rightarrow> int \<Rightarrow> u64 option option" where
  "GetInnerVertex fr l oid =
     (case oid_maps fr l oid of None \<Rightarrow> Some None
      | Some gid \<Rightarrow> if GetLabelId (vid_parser fr) gid = int l then Some (InnerVertexGid2Vertex fr gid) else None)"

definition GetOuterVertex :: "fragment \<Rightarrow> nat \<Rightarrow> int \<Rightarrow> u64 option option" where
  "GetOuterVertex fr l oid =
     (case oid_maps fr l oid of None \<Rightarrow> Some None
      | Some gid \<Rightarrow> if GetLabelId (vid_parser fr) gid = int l then Some (OuterVertexGid2Vertex fr gid) else None)"

text \<open>An identifier that is not in the map leaves the handle as it was made, so that too is \<open>None\<close>.\<close>

definition Gid2Oid :: "fragment \<Rightarrow> u64 \<Rightarrow> int option" where
  "Gid2Oid fr gid =
     (if GetFid (vid_parser fr) gid = frag_fid fr
      then array_at (vertex_ext_ids fr (vertex_label fr gid)) (word_of_int (vertex_offset fr gid))
      else Option.bind (OuterVertexGid2Vertex fr gid) (\<lambda>v.
        array_at (outer_vertex_ext_ids fr (vertex_label fr gid)) (GetOffset_of fr v)))"

end
