(* ===== verification/Fragment_Links.thy ===== *)
theory Fragment_Links
  imports Fragment_Ids Graph_Counters
begin

text \<open>
  The contract between the store, which numbers the outer vertices of a label and fills the maps between their
  identifiers (\<open>outer_vertex\<close>), and a fragment that opens the store and translates with them.
\<close>

section \<open>The maps of the store\<close>

text \<open>
  What the store relies on of vineyard's hash map: \<open>emplace\<close> adds an entry that is not there, and \<open>find\<close>
  returns it.
\<close>

definition map_laws :: "(int \<Rightarrow> int \<Rightarrow> 'm \<Rightarrow> 'm) \<Rightarrow> ('m \<Rightarrow> int \<Rightarrow> int option) \<Rightarrow> bool" where
  "map_laws emplace lookup \<longleftrightarrow> (\<forall>m k v k'. lookup (emplace k v m) k' =
     (if k' = k \<and> lookup m k = None then Some v else lookup m k'))"

text \<open>The outer vertices of a label, in the order of their numbers, as the edge store and the three maps have them.\<close>

definition outer_ok :: "('m \<Rightarrow> int \<Rightarrow> int option) \<Rightarrow> nat \<Rightarrow> u64 list \<Rightarrow> 'm graph_store \<Rightarrow> bool" where
  "outer_ok lookup label gids gs \<longleftrightarrow>
     (\<exists>xs. ovl2gs gs label = Some xs \<and> length gids \<le> length xs \<and> take (length gids) xs = gids) \<and>
     (\<exists>og. ov_seg_graphs gs label = Some og \<and> vertex_count og = length gids) \<and> distinct gids \<and>
     (\<forall>k < length gids. key_lid_map gs label (gids ! k) = Some (of_nat k) \<and>
        lookup (ovg2ls gs label) (sint (gids ! k)) = Some (sint (local_id gs label (max_outer_id_offset gs - of_nat k)))) \<and>
     (\<forall>gid. gid \<notin> set gids \<longrightarrow> key_lid_map gs label gid = None \<and> lookup (ovg2ls gs label) (sint gid) = None)"

lemma sint_same: "sint (x :: u64) = sint y \<longleftrightarrow> x = y"
  by (auto intro: signed_word_eqI)

lemma get_lid_known:
  assumes "outer_ok lookup label gids gs" and "length gids < 2 ^ 63"
  shows "get_lid gs label gid = - 1 \<longleftrightarrow> gid \<notin> set gids"
proof (cases "gid \<in> set gids")
  case True
  then obtain k where k: "k < length gids" "gids ! k = gid" by (auto simp: in_set_conv_nth)
  then have "unat (of_nat k :: u64) = k" using assms(2) by (simp add: unat_of_nat)
  moreover have "unat (- 1 :: u64) = 2 ^ 64 - 1" by (simp add: unsigned_minus_1_eq_mask mask_eq_exp_minus_1)
  ultimately have "(of_nat k :: u64) \<noteq> - 1" using k(1) assms(2) by auto
  then show ?thesis using assms(1) k True by (auto simp: outer_ok_def get_lid_def)
next
  case False
  then show ?thesis using assms(1) by (simp add: outer_ok_def get_lid_def)
qed

text \<open>What a new outer vertex changes of the maps.\<close>

definition newly_linked :: "(int \<Rightarrow> int \<Rightarrow> 'm \<Rightarrow> 'm) \<Rightarrow> nat \<Rightarrow> u64 \<Rightarrow> 'm graph_store \<Rightarrow> 'm graph_store \<Rightarrow> bool" where
  "newly_linked emplace label vid gs gs' \<longleftrightarrow>
     (\<exists>og og' xs. let v = vertex_count og in
       ov_seg_graphs gs label = Some og \<and> ov_seg_graphs gs' label = Some og' \<and> vertex_count og' = Suc v \<and>
       ovl2gs gs label = Some xs \<and> v < length xs \<and> ovl2gs gs' label = Some (xs[v := vid]) \<and>
       key_lid_map gs' label = (key_lid_map gs label)(vid \<mapsto> of_nat v) \<and>
       ovg2ls gs' label = emplace (sint vid) (sint (local_id gs label (max_outer_id_offset gs - of_nat v))) (ovg2ls gs label)) \<and>
     parser gs' = parser gs \<and> local_pid gs' = local_pid gs \<and> seg_graphs gs' = seg_graphs gs"

lemma linked_cong:
  assumes "newly_linked emplace label vid gs gs1" and "ov_seg_graphs gs' = ov_seg_graphs gs1" "ovl2gs gs' = ovl2gs gs1"
    "key_lid_map gs' = key_lid_map gs1" "ovg2ls gs' = ovg2ls gs1" "parser gs' = parser gs1" "local_pid gs' = local_pid gs1"
    "seg_graphs gs' = seg_graphs gs1"
  shows "newly_linked emplace label vid gs gs'"
  using assms by (simp add: newly_linked_def)

lemma outer_vertex_new:
  assumes run: "outer_vertex emplace label vid ext gs = Inr (ov, gs')" and new: "get_lid gs label vid = - 1"
  shows "newly_linked emplace label vid gs gs'"
proof -
  obtain v gs1 where v: "writer_new_vertex Outer label gs = Inr (v, gs1)"
    using run new by (auto simp: outer_vertex_def Let_def and_then_Inr)
  let ?lid = "local_id gs1 label (max_outer_id_offset gs1 - of_nat v)"
  obtain gs3 gs4 where gs3: "on_vtable (add_outer (local_id gs label (max_outer_id_offset gs - of_nat v))) label
      (set_ovg2l emplace label vid (local_id gs label (max_outer_id_offset gs - of_nat v)) (set_lid label vid (of_nat v) gs1)) = Inr gs3"
    and gs4: "set_ovl2g label v vid gs3 = Inr gs4"
    and same: "ov_seg_graphs gs' = ov_seg_graphs gs4" "ovl2gs gs' = ovl2gs gs4" "key_lid_map gs' = key_lid_map gs4"
      "ovg2ls gs' = ovg2ls gs4" "parser gs' = parser gs4" "local_pid gs' = local_pid gs4" "seg_graphs gs' = seg_graphs gs4"
    using run new v
    by (fastforce simp: outer_vertex_def Let_def and_then_Inr set_outer_external_id_def set_vertex_map_def split: if_splits sum.splits prod.splits)
  obtain og og' where og: "ov_seg_graphs gs label = Some og" "new_vertex og = Inr (v, og')" "gs1 = set_graph Outer label og' gs"
    using v by (auto simp: writer_new_vertex_def get_graph_def and_then_Inr demand_Inr lift_error_Inr)
  have "v = vertex_count og" "vertex_count og' = Suc v" using new_vertex_counters [OF og(2)] by (auto simp: counters_def)
  then have "newly_linked emplace label vid gs gs4"
    using gs3 gs4 og by (auto simp: newly_linked_def on_vtable_run set_ovg2l_def set_lid_def set_graph_def set_ovl2g_def and_then_Inr
        demand_Inr bind_eq_Some_conv store_at_def Let_def split: if_splits)
  then show ?thesis using same by (rule linked_cong)
qed

text \<open>A new outer vertex gets the next number; one that is known keeps its own.\<close>

lemma outer_vertex_ok:
  assumes ok: "outer_ok lookup label gids gs" and laws: "map_laws emplace lookup" and small: "length gids < 2 ^ 63"
    and run: "outer_vertex emplace label vid ext gs = Inr (ov, gs')"
  shows "outer_ok lookup label (if vid \<in> set gids then gids else gids @ [vid]) gs'"
    and "parser gs' = parser gs \<and> local_pid gs' = local_pid gs \<and> seg_graphs gs' = seg_graphs gs"
proof -
  have "outer_ok lookup label (if vid \<in> set gids then gids else gids @ [vid]) gs' \<and>
    parser gs' = parser gs \<and> local_pid gs' = local_pid gs \<and> seg_graphs gs' = seg_graphs gs"
  proof (cases "vid \<in> set gids")
    case True
    then have "get_lid gs label vid \<noteq> - 1" using get_lid_known [OF ok small] by blast
    then have "gs' = gs" using run by (auto simp: outer_vertex_def Let_def)
    then show ?thesis using ok True by simp
  next
    case False
    then have "get_lid gs label vid = - 1" using get_lid_known [OF ok small] by blast
    from outer_vertex_new [OF run this] obtain og og' xs where
      og: "ov_seg_graphs gs label = Some og" "ov_seg_graphs gs' label = Some og'" "vertex_count og' = Suc (length gids)"
      and xs: "ovl2gs gs label = Some xs" "length gids < length xs" "ovl2gs gs' label = Some (xs[length gids := vid])"
      and k: "key_lid_map gs' label = (key_lid_map gs label)(vid \<mapsto> of_nat (length gids))"
      and m: "ovg2ls gs' label = emplace (sint vid) (sint (local_id gs label (max_outer_id_offset gs - of_nat (length gids)))) (ovg2ls gs label)"
      and same: "parser gs' = parser gs" "local_pid gs' = local_pid gs" "seg_graphs gs' = seg_graphs gs"
      using ok by (auto simp: newly_linked_def outer_ok_def Let_def)
    have ids: "local_id gs' = local_id gs" "max_outer_id_offset gs' = max_outer_id_offset gs"
      using same by (auto simp: local_id_def max_outer_id_offset_def fun_eq_iff)
    have "lookup (ovg2ls gs label) (sint vid) = None" using ok False by (simp add: outer_ok_def)
    then have lk: "lookup (ovg2ls gs' label) (sint gid) = (if gid = vid then Some (sint (local_id gs label
        (max_outer_id_offset gs - of_nat (length gids)))) else lookup (ovg2ls gs label) (sint gid))" for gid
      using laws sint_same by (simp add: m map_laws_def)
    have ta: "take (Suc (length gids)) (xs[length gids := vid]) = gids @ [vid]"
      using ok xs by (simp add: outer_ok_def take_Suc_conv_app_nth)
    have "outer_ok lookup label (gids @ [vid]) gs'"
      using ok False og xs ta unfolding outer_ok_def ids k lk
      by (auto simp: nth_append less_Suc_eq)
    then show ?thesis using False same by simp
  qed
  then show "outer_ok lookup label (if vid \<in> set gids then gids else gids @ [vid]) gs'"
    and "parser gs' = parser gs \<and> local_pid gs' = local_pid gs \<and> seg_graphs gs' = seg_graphs gs" by auto
qed

text \<open>Several edges with outer ends of one label, as far as the maps are concerned.\<close>

primrec run_outer ::
  "(int \<Rightarrow> int \<Rightarrow> 'm \<Rightarrow> 'm) \<Rightarrow> nat \<Rightarrow> (u64 \<times> string) list \<Rightarrow> 'm graph_store \<Rightarrow> op_error + 'm graph_store" where
  "run_outer emplace label [] gs = Inr gs"
| "run_outer emplace label (x # xs) gs =
     and_then (outer_vertex emplace label (fst x) (snd x) gs) (\<lambda>(ov, gs'). run_outer emplace label xs gs')"

lemma run_outer_ok:
  assumes "map_laws emplace lookup" and "outer_ok lookup label gids gs" and "length gids + length xs < 2 ^ 63"
    and "run_outer emplace label xs gs = Inr gs'"
  shows "\<exists>gids'. outer_ok lookup label gids' gs' \<and> set gids' = set gids \<union> fst ` set xs \<and>
    length gids' \<le> length gids + length xs \<and>
    parser gs' = parser gs \<and> local_pid gs' = local_pid gs \<and> seg_graphs gs' = seg_graphs gs"
  using assms(2-4)
proof (induction xs arbitrary: gids gs)
  case Nil
  then show ?case by auto
next
  case (Cons x xs)
  obtain ov gs1 where gs1: "outer_vertex emplace label (fst x) (snd x) gs = Inr (ov, gs1)" "run_outer emplace label xs gs1 = Inr gs'"
    using Cons.prems(3) by (auto simp: and_then_Inr)
  let ?gids = "if fst x \<in> set gids then gids else gids @ [fst x]"
  have small: "length gids < 2 ^ 63" "length ?gids + length xs < 2 ^ 63" using Cons.prems(2) by auto
  note st = outer_vertex_ok [OF Cons.prems(1) assms(1) small(1) gs1(1)]
  obtain gids' where "outer_ok lookup label gids' gs'" "set gids' = set ?gids \<union> fst ` set xs"
    "length gids' \<le> length ?gids + length xs"
    "parser gs' = parser gs1 \<and> local_pid gs' = local_pid gs1 \<and> seg_graphs gs' = seg_graphs gs1"
    using Cons.IH [OF st(1) small(2) gs1(2)] by blast
  then show ?case using st(2) by (intro exI [of _ gids']) (auto split: if_splits)
qed

section \<open>The fragment\<close>

definition stored :: "u64 list option \<Rightarrow> u64 list" where
  "stored xs = (case xs of None \<Rightarrow> [] | Some ys \<Rightarrow> ys)"

text \<open>Opening a store: its blobs and the numbers published for each label.\<close>

definition open_fragment ::
  "('m \<Rightarrow> int \<Rightarrow> int option) \<Rightarrow> u64 \<Rightarrow> int \<Rightarrow> (nat \<Rightarrow> vtable_meta) \<Rightarrow> 'm graph_store \<Rightarrow> fragment option" where
  "open_fragment lookup fnum label_num metas gs =
     init_fragment fnum (local_pid gs) label_num metas (\<lambda>l. stored (ovl2gs gs l))
       (\<lambda>l gid. map_option word_of_int (lookup (ovg2ls gs l) (sint gid)))
       (\<lambda>l oid. map_option word_of_int (lookup (vertex_maps gs l) oid))
       (\<lambda>l. map sint (stored (external_id_stores gs l))) (\<lambda>l. map sint (stored (outer_external_id_stores gs l)))"

definition top_offset :: "u64 \<Rightarrow> int" where
  "top_offset fnum = 2 ^ (56 - fid_width_of fnum) - 1"

lemma top_offset_bounds: "0 \<le> top_offset fnum \<and> top_offset fnum < 2 ^ 56"
proof -
  have "(2::int) ^ (56 - fid_width_of fnum) \<le> 2 ^ 56" by (rule power_increasing) simp_all
  moreover have "(1::int) \<le> 2 ^ (56 - fid_width_of fnum)" by simp
  ultimately show ?thesis by (simp add: top_offset_def del: one_le_power)
qed

lemma outer_number:
  assumes "int k \<le> top_offset fnum"
  shows "sint (word_of_int (top_offset fnum) - of_nat k :: u64) = top_offset fnum - int k"
proof -
  have "(word_of_int (top_offset fnum) - of_nat k :: u64) = word_of_int (top_offset fnum - int k)" by simp
  moreover have "sint (word_of_int (top_offset fnum - int k) :: u64) = top_offset fnum - int k"
    using assms top_offset_bounds [of fnum] by (intro sint_word_of_int_small) simp_all
  ultimately show ?thesis by simp
qed

lemma open_fragment_fields:
  assumes fr: "open_fragment lookup fnum n metas gs = Some fr" and init: "Init fnum n = Some (parser gs)"
    and g: "seg_graphs gs label = Some g" and og: "ov_seg_graphs gs label = Some og"
    and m: "update_blob gs label m = Some (metas label)" and small: "vertex_count og \<le> meta_max m" "int (vertex_count og) \<le> top_offset fnum"
  shows "vid_parser fr = parser gs" "frag_fid fr = local_pid gs" "max_outer_off fr = word_of_int (top_offset fnum)"
    "max_outer_id_offset gs = word_of_int (top_offset fnum)"
    "max_inner_offsets fr label = int (vertex_count g) - 1"
    "min_outer_offsets fr label = top_offset fnum + 1 - int (vertex_count og)"
    "ovl2g fr label = stored (ovl2gs gs label)"
    "ovg2l_maps fr label gid = map_option word_of_int (lookup (ovg2ls gs label) (sint gid))"
proof -
  have lay: "layout (parser gs) (fid_width_of fnum)" by (rule Init_imp_layout [OF init])
  then have "GetOffsetWidth (parser gs) = 56 - fid_width_of fnum" by (simp add: GetOffsetWidth_def layout_fields)
  then have top: "push_bit (GetOffsetWidth (parser gs)) 1 - 1 = (word_of_int (top_offset fnum) :: u64)"
    by (simp only: outer_max_word top_offset_def)
  have mm: "metas label = set_loc (vertex_count g + deleted_inner g) (vertex_count og + deleted_outer og)
      (set_boundary (vertex_count g) (vertex_count og) m)" using m g og by (simp add: update_blob_def)
  have "(word_of_int (top_offset fnum) + 1 - (of_nat (meta_max m) - of_nat (meta_max m - vertex_count og)) :: u64) =
      word_of_int (top_offset fnum + 1 - int (vertex_count og))" using small(1) by (simp add: of_nat_diff)
  moreover have "sint (word_of_int (top_offset fnum + 1 - int (vertex_count og)) :: u64) = top_offset fnum + 1 - int (vertex_count og)"
    using small(2) top_offset_bounds [of fnum] by (intro sint_word_of_int_small) simp_all
  ultimately have "sint (word_of_int (top_offset fnum) + 1 - (of_nat (meta_max m) - of_nat (meta_max m - vertex_count og)) :: u64) =
      top_offset fnum + 1 - int (vertex_count og)" by (simp only:)
  moreover have "meta_max (metas label) = meta_max m" "meta_min_outer (metas label) = meta_max m - vertex_count og"
    by (simp_all add: mm set_loc_def set_boundary_def)
  moreover have "min_outer_offsets fr label =
      sint (word_of_int (top_offset fnum) + 1 - (of_nat (meta_max (metas label)) - of_nat (meta_min_outer (metas label))) :: u64)"
    using fr init unfolding open_fragment_def init_fragment_def Let_def by (auto simp flip: top)
  ultimately show "min_outer_offsets fr label = top_offset fnum + 1 - int (vertex_count og)" by (simp only:)
  show "vid_parser fr = parser gs" "frag_fid fr = local_pid gs" "max_outer_off fr = word_of_int (top_offset fnum)"
    "max_outer_id_offset gs = word_of_int (top_offset fnum)"
    "max_inner_offsets fr label = int (vertex_count g) - 1"
    "ovl2g fr label = stored (ovl2gs gs label)"
    "ovg2l_maps fr label gid = map_option word_of_int (lookup (ovg2ls gs label) (sint gid))"
    using fr init mm top by (auto simp: open_fragment_def init_fragment_def Let_def max_outer_id_offset_def set_loc_def set_boundary_def)
qed

section \<open>Properties\<close>

text \<open>A handle with an offset of the inner or the outer numbers.\<close>

lemma handle_fields:
  assumes "layout p w" and "label < 128" and "0 \<le> off" "off < 2 ^ (56 - w)"
  shows "GetOffset p (GenerateId p 0 (int label) off) = off" "GetLabelId p (GenerateId p 0 (int label) off) = int label"
  using assms GetOffset_GenerateId GetLabelId_GenerateId by (simp_all add: fits_def)

text \<open>
C16: A store that numbers outer vertices through any sequence of edges and a fragment that opens it agree on
identifiers: the global identifier of an inner vertex and of every outer vertex met so far is translated to a
handle, the handle back to the identifier, the handle is inner or outer as the identifier says, and the number
of the owning fragment is the one in the identifier.
\<close>

theorem fragment_gids:
  assumes laws: "map_laws emplace lookup" and init: "Init fnum n = Some (parser gs)"
    and start: "outer_ok lookup label [] gs" and run: "run_outer emplace label xs gs = Inr gs'"
    and others: "\<And>gid. gid \<in> fst ` set xs \<Longrightarrow> \<not> is_local gs gid \<and> label_of gs gid = label"
    and fr: "open_fragment lookup fnum n metas gs' = Some fr"
    and g: "seg_graphs gs label = Some g" and m: "update_blob gs' label m = Some (metas label)" "length xs \<le> meta_max m"
    and room: "int (vertex_count g) + int (length xs) \<le> top_offset fnum" "label < 128" "uint (local_pid gs) < 2 ^ fid_width_of fnum"
    and gid: "gid \<in> fst ` set xs \<or> (\<exists>off < vertex_count g. gid = GenerateId (parser gs) (local_pid gs) (int label) (int off))"
  shows "\<exists>v. Gid2Vertex fr gid = Some v \<and> Vertex2Gid fr v = Some gid \<and>
    (IsInnerVertex fr v \<longleftrightarrow> is_local gs gid) \<and> (IsOuterVertex fr v \<longleftrightarrow> \<not> is_local gs gid) \<and>
    GetFragId fr v = Some (GetFragIdFromGid fr gid)"
proof -
  let ?w = "fid_width_of fnum" and ?p = "parser gs" and ?M = "top_offset fnum"
  have lay: "layout ?p ?w" by (rule Init_imp_layout [OF init])
  have "?M < 2 ^ 63" using top_offset_bounds [of fnum] by simp
  then have big: "length [] + length xs < 2 ^ 63" using room(1) by simp
  obtain gids where gids: "outer_ok lookup label gids gs'" "set gids = fst ` set xs" "length gids \<le> length xs"
    and same: "parser gs' = ?p" "local_pid gs' = local_pid gs" "seg_graphs gs' = seg_graphs gs"
    using run_outer_ok [OF laws start big run] by auto
  obtain og ys where og: "ov_seg_graphs gs' label = Some og" "vertex_count og = length gids"
    and ys: "ovl2gs gs' label = Some ys" "length gids \<le> length ys" "take (length gids) ys = gids"
    using gids(1) by (auto simp: outer_ok_def)
  have len: "vertex_count og \<le> meta_max m" "int (vertex_count og) \<le> ?M" using og(2) gids(3) m(2) room(1) by linarith+
  note F = open_fragment_fields [OF fr init [folded same(1)] _ og(1) m(1) len, unfolded same, OF g]
  have W: "?M < 2 ^ (56 - ?w)" by (simp add: top_offset_def)
  show ?thesis
  proof (cases "is_local gs gid")
    case False
    have "gid \<in> set gids"
    proof -
      have "is_local gs (GenerateId ?p (local_pid gs) (int label) (int off))" if "off < vertex_count g" for off
      proof -
        have "int off < 2 ^ (56 - ?w)" using that room(1) W by linarith
        then have "fits ?w (local_pid gs) (int label) (int off)" using room by (simp add: fits_def)
        then show ?thesis by (simp add: is_local_def GetFid_GenerateId [OF lay])
      qed
      then show ?thesis using gid gids(2) False by auto
    qed
    then obtain k where k: "k < length gids" "gids ! k = gid" by (auto simp: in_set_conv_nth)
    let ?v = "GenerateId ?p 0 (int label) (?M - int k)"
    have kM: "int k \<le> ?M" using k(1) len(2) og(2) by linarith
    have "lookup (ovg2ls gs' label) (sint gid) = Some (sint (local_id gs' label (max_outer_id_offset gs' - of_nat k)))"
      using gids(1) k by (auto simp: outer_ok_def)
    moreover have "local_id gs' label (max_outer_id_offset gs' - of_nat k) = ?v"
      unfolding F(4) by (simp only: local_id_def same outer_number [OF kM])
    ultimately have g2l: "ovg2l_maps fr label gid = Some ?v" by (simp add: F(8))
    have lab: "vertex_label fr gid = label" using others [of gid] gids(2) \<open>gid \<in> set gids\<close> by (simp add: vertex_label_def F(1) label_of_def)
    have fields: "vertex_offset fr ?v = ?M - int k" "vertex_label fr ?v = label"
      using handle_fields [OF lay room(2), of "?M - int k"] kM W by (simp_all add: vertex_offset_def vertex_label_def F(1))
    have inner: "\<not> IsInnerVertex fr ?v" and outer: "IsOuterVertex fr ?v"
      using k(1) og(2) gids(3) room(1) by (simp_all add: IsInnerVertex_def IsOuterVertex_def fields F(5,6))
    have "(word_of_int ?M - word_of_int (?M - int k) :: u64) = of_nat k" by simp
    moreover have "unat (of_nat k :: u64) = k" using k(1) gids(3) big by (simp add: unat_of_nat)
    moreover have "k < length ys" "ys ! k = gid" using k ys by (metis less_le_trans, metis nth_take)
    ultimately have "GetOuterVertexGid fr ?v = Some gid"
      by (simp only: GetOuterVertexGid_def array_at_def fields F(3,7) ys(1) stored_def option.case if_True)
    then show ?thesis using inner outer False g2l lab
      by (intro exI [of _ ?v]) (simp add: Gid2Vertex_def OuterVertexGid2Vertex_def Vertex2Gid_def GetFragId_def GetFragIdFromGid_def F(1,2) is_local_def)
  next
    case True
    then obtain off where off: "off < vertex_count g" "gid = GenerateId ?p (local_pid gs) (int label) (int off)"
      using gid others by blast
    let ?v = "GenerateId ?p 0 (int label) (int off)"
    have small: "int off < 2 ^ (56 - ?w)" using off(1) room(1) W by linarith
    then have ft: "fits ?w (local_pid gs) (int label) (int off)" using room by (simp add: fits_def)
    have lid: "GetLid ?p gid = ?v" using GetLid_GenerateId [OF lay ft] off(2) by simp
    have fields: "vertex_offset fr ?v = int off" "vertex_label fr ?v = label" "GetLabelId ?p ?v = int label"
      using handle_fields [OF lay room(2), of "int off"] small by (simp_all add: vertex_offset_def vertex_label_def F(1))
    have inner: "IsInnerVertex fr ?v" and outer: "\<not> IsOuterVertex fr ?v"
      using off(1) og(2) gids(3) room(1) by (simp_all add: IsInnerVertex_def IsOuterVertex_def fields F(5,6))
    then show ?thesis using True lid off(2) fields
      by (intro exI [of _ ?v]) (simp add: Gid2Vertex_def InnerVertexGid2Vertex_def Vertex2Gid_def GetInnerVertexGid_def GetFragId_def
          GetFragIdFromGid_def F(1,2) is_local_def)
  qed
qed

text \<open>A store of partition 0 of two that meets a vertex of the other one; its maps are functions.\<close>

definition keep_first :: "int \<Rightarrow> int \<Rightarrow> (int \<Rightarrow> int option) \<Rightarrow> int \<Rightarrow> int option" where
  "keep_first k v m = (if m k = None then m(k \<mapsto> v) else m)"

definition quay :: seg_graph where
  "quay = \<lparr>vertex_count = 0, seg_count = 0, edge_label_ptrs = [0, 0], manager = \<lparr>capacity = 0, used_size = 0,
     file_size = 0, enough = False, free_blocks = (\<lambda>k. []), large_free_blocks = (\<lambda>k. [])\<rparr>, segments = (\<lambda>a. None),
     epoch_blocks = (\<lambda>a. None), label_blocks = (\<lambda>a. None), segments_to_recycle = [],
     edge_is_undirected = [False], deleted_inner = 0, deleted_outer = 0\<rparr>"

definition harbour :: "(int \<Rightarrow> int option) graph_store" where
  "harbour = \<lparr>local_pid = 0, parser = small_parser, edge_relation_size = 1, seg_graphs = [0 \<mapsto> quay\<lparr>vertex_count := 1\<rparr>],
     ov_seg_graphs = [0 \<mapsto> quay], vertex_tables = [0 \<mapsto> new_vtable [0, 0, 0, 0]],
     property_stores = (\<lambda>l. None), vprop_schemas = undefined, vprop_buffer = init_capacity 0 (\<lambda>a. 0),
     string_buffer = init_capacity 0 (\<lambda>a. 0), edge_schemas = undefined, ovl2gs = [0 \<mapsto> [0, 0]],
     ovg2ls = (\<lambda>l n. None), vertex_maps = (\<lambda>l n. None), key_lid_map = (\<lambda>l k. None), external_id_dtype = (\<lambda>l. LONG),
     external_id_stores = [0 \<mapsto> [7, 0]], outer_external_id_stores = [0 \<mapsto> [0, 0]], rands = (\<lambda>i. 1)\<rparr>"

lemma harbour_id: "GetFid small_parser 1 = 1" "GetLabelId small_parser 1 = 0" "GetOffsetWidth small_parser = 55" "stoll ''7'' = Inr 7"
  by code_simp+

lemma harbour_run: "\<exists>gs' m. run_outer keep_first 0 [(1, ''7'')] harbour = Inr gs' \<and> update_blob gs' 0 (VTableMeta 4) = Some m"
  by (simp add: outer_vertex_def get_lid_def harbour_def quay_def writer_new_vertex_def get_graph_def new_vertex_def Let_def
      set_graph_def get_vertex_seg_id_def VERTEX_PER_SEG_def NULLPOINTER_def on_vtable_def add_outer_def new_vtable_def store_at_def
      set_ovl2g_def set_ovg2l_def set_lid_def set_outer_external_id_def set_vertex_map_def harbour_id update_blob_def cong: if_cong)

lemma harbour_start: "outer_ok (\<lambda>m. m) 0 [] harbour"
  by (simp add: outer_ok_def harbour_def quay_def)

lemma fragment_gids_witness:
  "\<exists>gs' m fr v. run_outer keep_first 0 [(1, ''7'')] harbour = Inr gs' \<and> open_fragment (\<lambda>m. m) 1 1 (\<lambda>l. m) gs' = Some fr \<and>
    Gid2Vertex fr 1 = Some v \<and> Vertex2Gid fr v = Some 1 \<and> IsOuterVertex fr v \<and> \<not> IsInnerVertex fr v"
proof -
  obtain gs' m where gs': "run_outer keep_first 0 [(1, ''7'')] harbour = Inr gs'" "update_blob gs' 0 (VTableMeta 4) = Some m"
    using harbour_run by blast
  have laws: "map_laws keep_first (\<lambda>m. m)" by (simp add: map_laws_def keep_first_def)
  have init: "Init 1 1 = Some (parser harbour)" using Init_total [of 1 1] by (auto simp: small_parser_def harbour_def)
  obtain fr where fr: "open_fragment (\<lambda>m. m) 1 1 (\<lambda>l. m) gs' = Some fr"
    using init by (simp add: open_fragment_def init_fragment_def Let_def)
  have w: "fid_width_of 1 = 1" by (simp add: fid_width_of_def num_to_bitwidth_def)
  have far: "\<not> is_local harbour 1 \<and> label_of harbour 1 = 0" by (simp add: is_local_def label_of_def harbour_def harbour_id)
  have g: "seg_graphs harbour 0 = Some (quay\<lparr>vertex_count := 1\<rparr>)" by (simp add: harbour_def)
  have room: "int (vertex_count (quay\<lparr>vertex_count := 1\<rparr>)) + int (length [(1 :: u64, ''7'')]) \<le> top_offset 1"
    "uint (local_pid harbour) < 2 ^ fid_width_of 1"
    by (simp_all add: top_offset_def w harbour_def)
  obtain v where "Gid2Vertex fr 1 = Some v" "Vertex2Gid fr v = Some 1" "IsInnerVertex fr v \<longleftrightarrow> is_local harbour 1"
    "IsOuterVertex fr v \<longleftrightarrow> \<not> is_local harbour 1"
    using fragment_gids [where gid = 1, OF laws init harbour_start gs'(1) _ fr g gs'(2) _ room(1) _ room(2)] far by (auto simp: VTableMeta_def)
  then show ?thesis using gs' fr far by blast
qed

end
