(* ===== verification/Vertex_Array.thy ===== *)
theory Vertex_Array
  imports Fragment_Ids
begin

text \<open>
  The arrays in which the analytics applications keep a value per vertex
  (\<^verbatim>\<open>analytical_engine/core/utils/gart_vertex_array.h\<close>): one per vertex label, indexed by
  the number of the vertex among the inner or the outer ones.
\<close>

section \<open>Arrays\<close>

record 'a vertex_array =
  cells :: "'a list"
  inner_size :: u64

text \<open>
  The ranges of an iterator, with their directions. Pointers into the vertex table are offsets from its start,
  \<open>None\<close> is null.
\<close>

type_synonym range = "(int option \<times> int option) \<times> bool"

definition inner_pointers :: "vertex_view \<Rightarrow> range" where
  "inner_pointers vw = (case view_table vw of None \<Rightarrow> ((None, None), True) | Some t \<Rightarrow> ((Some (inner_offset vw), Some (- 1)), True))"

definition outer_pointers :: "vertex_view \<Rightarrow> range" where
  "outer_pointers vw = (case view_table vw of None \<Rightarrow> ((None, None), False)
     | Some t \<Rightarrow> ((Some (outer_offset vw), Some (int (table_len vw))), False))"

text \<open>
  The sizes \<open>Init\<close> computes: the number of cells, and where those of the outer vertices are to start.
  \<open>base\<close> is the address of the table in words, for a difference with null.
\<close>

primrec init_sizes :: "fragment \<Rightarrow> nat \<Rightarrow> int \<Rightarrow> range list \<Rightarrow> u64 \<times> u64 \<Rightarrow> u64 \<times> u64" where
  "init_sizes fr l base [] = (\<lambda>s. s)"
| "init_sizes fr l base (r # rs) = (\<lambda>(total_size, isize). init_sizes fr l base rs
     (case r of ((first, second), high_to_low) \<Rightarrow>
       if high_to_low then
         (total_size + GetMaxInnerVerticesNum fr l,
          (case first of None \<Rightarrow> 0 | Some b \<Rightarrow> if second \<noteq> None then 0 else word_of_int (base + b)))
       else (total_size + GetMaxOuterVerticesNum fr l, isize)))"

definition array_init :: "fragment \<Rightarrow> nat \<Rightarrow> int \<Rightarrow> range list \<Rightarrow> 'a \<Rightarrow> 'a vertex_array" where
  "array_init fr l base rs x =
     (case init_sizes fr l base rs (0, 0) of (total_size, isize) \<Rightarrow>
       \<lparr>cells = replicate (unat total_size) x, inner_size = isize\<rparr>)"

definition array_index :: "fragment \<Rightarrow> 'a vertex_array \<Rightarrow> u64 \<Rightarrow> u64" where
  "array_index fr a v = (if IsOuterVertex fr v then GetOffset_of fr v + inner_size a else GetOffset_of fr v)"

text \<open>\<^verbatim>\<open>operator[]\<close>: an index past the end is logged and used all the same; here \<open>None\<close>.\<close>

definition array_get :: "fragment \<Rightarrow> 'a vertex_array \<Rightarrow> u64 \<Rightarrow> 'a option" where
  "array_get fr a v = array_at (cells a) (array_index fr a v)"

definition array_set :: "fragment \<Rightarrow> 'a vertex_array \<Rightarrow> u64 \<Rightarrow> 'a \<Rightarrow> 'a vertex_array option" where
  "array_set fr a v x =
     (let i = unat (array_index fr a v) in if i < length (cells a) then Some (a\<lparr>cells := (cells a)[i := x]\<rparr>) else None)"

definition set_value :: "fragment \<Rightarrow> u64 \<Rightarrow> 'a \<Rightarrow> 'a vertex_array \<Rightarrow> 'a vertex_array option" where
  "set_value fr v x a =
     (let off = GetOffset_of fr v;
          i = unat (if IsInnerVertex fr v then off else off + inner_size a) in
      if \<not> IsInnerVertex fr v \<and> \<not> IsOuterVertex fr v then Some a
      else if i < length (cells a) then Some (a\<lparr>cells := (cells a)[i := x]\<rparr>) else None)"

definition set_all :: "'a \<Rightarrow> 'a vertex_array \<Rightarrow> 'a vertex_array" where
  "set_all x a = a\<lparr>cells := replicate (length (cells a)) x\<rparr>"

section \<open>One array per label\<close>

type_synonym 'a arrays = "nat \<Rightarrow> 'a vertex_array"

definition read_at :: "fragment \<Rightarrow> 'a arrays \<Rightarrow> u64 \<Rightarrow> 'a option" where
  "read_at fr A v = array_get fr (A (vertex_label fr v)) v"

definition write_at :: "fragment \<Rightarrow> 'a arrays \<Rightarrow> u64 \<Rightarrow> 'a \<Rightarrow> 'a arrays option" where
  "write_at fr A v x = map_option (\<lambda>a. A(vertex_label fr v := a)) (array_set fr (A (vertex_label fr v)) v x)"

text \<open>A handle of an inner vertex that has a cell.\<close>

definition inner_handle :: "fragment \<Rightarrow> u64 \<Rightarrow> bool" where
  "inner_handle fr v \<longleftrightarrow> IsInnerVertex fr v \<and> \<not> IsOuterVertex fr v \<and>
     v = GenerateId (vid_parser fr) 0 (int (vertex_label fr v)) (vertex_offset fr v)"

definition has_cell :: "fragment \<Rightarrow> 'a arrays \<Rightarrow> u64 \<Rightarrow> bool" where
  "has_cell fr A v \<longleftrightarrow> inner_handle fr v \<and> unat (GetOffset_of fr v) < length (cells (A (vertex_label fr v)))"

lemma inner_index: "inner_handle fr v \<Longrightarrow> array_index fr a v = GetOffset_of fr v"
  by (simp add: inner_handle_def array_index_def)

lemma inner_number_inj:
  assumes "inner_handle fr u" "inner_handle fr v" and "GetOffset_of fr u = GetOffset_of fr v"
    and "vertex_label fr u = vertex_label fr v"
  shows "u = v"
proof -
  have "vertex_offset fr x = sint (GetOffset_of fr x)" if "inner_handle fr x" for x
    using that by (simp add: inner_handle_def GetOffset_of_def vertex_offset_def GetOffset_def)
  then have "vertex_offset fr u = vertex_offset fr v" using assms by metis
  then show ?thesis using assms by (simp add: inner_handle_def)
qed

section \<open>The contract of the applications' data\<close>

text \<open>What an application relies on: a value written for a vertex is read for it and for no other.\<close>

locale vertex_data =
  fixes get :: "'a \<Rightarrow> 'v \<Rightarrow> 'x option"
    and put :: "'a \<Rightarrow> 'v \<Rightarrow> 'x \<Rightarrow> 'a option"
    and ok :: "'a \<Rightarrow> 'v \<Rightarrow> bool"
  assumes put_some: "ok a v \<Longrightarrow> \<exists>a'. put a v x = Some a'"
    and put_ok: "put a v x = Some a' \<Longrightarrow> ok a' u = ok a u"
    and get_put: "ok a u \<Longrightarrow> ok a v \<Longrightarrow> put a v x = Some a' \<Longrightarrow> get a' u = (if u = v then Some x else get a u)"
begin

lemma put_all:
  assumes "\<forall>u \<in> S. ok a u \<and> get a u = Some (f u)" and "v \<in> S"
  shows "\<exists>a'. put a v x = Some a' \<and> (\<forall>u \<in> S. ok a' u \<and> get a' u = Some ((f(v := x)) u))"
proof -
  obtain a' where a': "put a v x = Some a'" using put_some assms by blast
  then show ?thesis using assms put_ok [OF a'] get_put [OF _ _ a'] by auto
qed

end

text \<open>The arrays keep it for inner vertices.\<close>

interpretation cells: vertex_data "read_at fr" "write_at fr" "has_cell fr" for fr
proof unfold_locales
  fix A :: "'a arrays" and v x
  assume "has_cell fr A v"
  then show "\<exists>A'. write_at fr A v x = Some A'"
    by (simp add: has_cell_def write_at_def array_set_def inner_index Let_def)
next
  fix A A' :: "'a arrays" and v x u
  assume "write_at fr A v x = Some A'"
  then show "has_cell fr A' u = has_cell fr A u"
    by (auto simp: has_cell_def write_at_def array_set_def Let_def split: if_splits)
next
  fix A A' :: "'a arrays" and u v x
  assume u: "has_cell fr A u" and v: "has_cell fr A v" and w: "write_at fr A v x = Some A'"
  have iu: "inner_handle fr u" and iv: "inner_handle fr v" using u v by (simp_all add: has_cell_def)
  have A': "A' = A(vertex_label fr v := (A (vertex_label fr v))\<lparr>cells := (cells (A (vertex_label fr v)))[unat (GetOffset_of fr v) := x]\<rparr>)"
    using w v iv by (auto simp: write_at_def array_set_def has_cell_def inner_index Let_def)
  show "read_at fr A' u = (if u = v then Some x else read_at fr A u)"
  proof (cases "u = v")
    case True
    then show ?thesis using v iv by (simp add: A' read_at_def array_get_def array_at_def inner_index has_cell_def)
  next
    case False
    then have "vertex_label fr u = vertex_label fr v \<Longrightarrow> unat (GetOffset_of fr v) \<noteq> unat (GetOffset_of fr u)"
      using inner_number_inj [OF iu iv] by (auto simp: word_unat_eq_iff)
    then show ?thesis using False u iu by (auto simp: A' read_at_def array_get_def array_at_def inner_index has_cell_def)
  qed
qed

section \<open>Properties\<close>

text \<open>
C35: In an array made for all vertices of a label the cells of the outer vertices are to follow those of the
inner ones, but \<open>Init\<close> takes the number of inner cells to be 0 whenever the table exists: an inner and an
outer vertex with the same number share a cell, so a value written for the one is read for the other.
\<close>

theorem outer_shares_inner:
  assumes "IsInnerVertex fr u" "\<not> IsOuterVertex fr u" and "IsOuterVertex fr v" "\<not> IsInnerVertex fr v"
    and "GetOffset_of fr u = GetOffset_of fr v"
    and "a = array_init fr l base [inner_pointers vw, outer_pointers vw] x" and "unat (GetOffset_of fr u) < length (cells a)"
  shows "\<exists>a'. array_set fr a v y = Some a' \<and> array_get fr a' u = Some y"
proof -
  have "inner_size a = 0"
    using assms(6) by (simp add: array_init_def inner_pointers_def outer_pointers_def split: option.split)
  then show ?thesis using assms by (simp add: array_set_def array_get_def array_at_def array_index_def Let_def)
qed

text \<open>A fragment with one inner and one outer vertex.\<close>

definition pair_fragment :: fragment where
  "pair_fragment = \<lparr>vid_parser = \<lparr>offset_offset = 1, label_id_offset = 56, fid_mask = 1, lid_mask = 9223372036854775806,
       label_id_mask = 9151314442816847872, offset_mask = 72057594037927934, offset_width = 55\<rparr>,
     frag_fid = 0, max_outer_off = 36028797018963967, max_inner_offsets = (\<lambda>l. 0), min_outer_offsets = (\<lambda>l. 36028797018963967),
     ovl2g = (\<lambda>l. [1]), ovg2l_maps = (\<lambda>l. [1 \<mapsto> 72057594037927934]), oid_maps = (\<lambda>l. [3 \<mapsto> 0, 4 \<mapsto> 1]),
     vertex_ext_ids = (\<lambda>l. [3]), outer_vertex_ext_ids = (\<lambda>l. [4])\<rparr>"

definition pair_view :: vertex_view where
  "pair_view = \<lparr>view_table = Some [0, 72057594037927934], inner_offset = 0, outer_offset = 1, table_len = 2\<rparr>"

lemma pair_handles:
  "IsInnerVertex pair_fragment 0" "\<not> IsOuterVertex pair_fragment 0" "IsOuterVertex pair_fragment 72057594037927934"
  "\<not> IsInnerVertex pair_fragment 72057594037927934" "GetOffset_of pair_fragment 0 = GetOffset_of pair_fragment 72057594037927934"
  "unat (GetOffset_of pair_fragment 0) <
     length (cells (array_init pair_fragment 0 8 [inner_pointers pair_view, outer_pointers pair_view] (5 :: int)))"
  by code_simp+

lemma outer_shares_inner_witness:
  "\<exists>a'. array_set pair_fragment (array_init pair_fragment 0 8 [inner_pointers pair_view, outer_pointers pair_view] (5 :: int))
      72057594037927934 6 = Some a' \<and> array_get pair_fragment a' 0 = Some 6"
  by (rule outer_shares_inner [OF pair_handles(1-5) refl pair_handles(6)])

end
