(* ===== verification/Relaxation.thy ===== *)
theory Relaxation
  imports Prelude
begin

text \<open>
  Rounds of relaxation on a weighted graph, as the single-source shortest path application does them, without
  its arrays and messages: every vertex that got a smaller value in one round offers its neighbours the value
  plus the weight of the edge in the next.
\<close>

section \<open>Graphs and walks\<close>

inductive walk :: "('v \<Rightarrow> ('v \<times> int) list) \<Rightarrow> 'v \<Rightarrow> 'v \<Rightarrow> int \<Rightarrow> bool" for E s where
  here: "walk E s s 0"
| step: "walk E s v d \<Longrightarrow> (u, w) \<in> set (E v) \<Longrightarrow> walk E s u (d + w)"

text \<open>A finite graph with weights from 0 to \<open>W\<close> on which no path without a cycle reaches \<open>unset\<close>.\<close>

definition bounded :: "'v set \<Rightarrow> ('v \<Rightarrow> ('v \<times> int) list) \<Rightarrow> int \<Rightarrow> int \<Rightarrow> bool" where
  "bounded V E W unset \<longleftrightarrow> finite V \<and> 0 \<le> W \<and> int (card V) * W < unset \<and>
     (\<forall>v \<in> V. \<forall>(u, w) \<in> set (E v). u \<in> V \<and> 0 \<le> w \<and> w \<le> W)"

section \<open>Rounds\<close>

type_synonym 'v marks = "('v \<Rightarrow> int) \<times> ('v \<Rightarrow> bool) \<times> bool"

definition offer :: "int \<Rightarrow> 'v \<times> int \<Rightarrow> 'v marks \<Rightarrow> 'v marks" where
  "offer d = (\<lambda>(u, w) (R, U, b). if d + w < R u then (R(u := d + w), U(u := True), True) else (R, U, b))"

definition visit :: "('v \<Rightarrow> ('v \<times> int) list) \<Rightarrow> ('v \<Rightarrow> bool) \<Rightarrow> 'v \<Rightarrow> 'v marks \<Rightarrow> 'v marks" where
  "visit E N v = (\<lambda>(R, U, b). if N v then fold (offer (R v)) (E v) (R, U, b) else (R, U, b))"

definition round_of :: "('v \<Rightarrow> ('v \<times> int) list) \<Rightarrow> 'v list \<Rightarrow> ('v \<Rightarrow> int) \<Rightarrow> ('v \<Rightarrow> bool) \<Rightarrow> 'v marks" where
  "round_of E vs R U = fold (visit E U) vs (R, \<lambda>v. False, False)"

section \<open>The invariant\<close>

text \<open>
  A path without a cycle that ends in a vertex with its value, along which the values have not got worse: the
  vertices with the lengths of the prefixes, from the last.
\<close>

inductive trail :: "('v \<Rightarrow> ('v \<times> int) list) \<Rightarrow> 'v \<Rightarrow> ('v \<times> int) list \<Rightarrow> bool" for E s where
  start: "trail E s [(s, 0)]"
| extend: "trail E s ((v, d) # p) \<Longrightarrow> (u, w) \<in> set (E v) \<Longrightarrow> u \<notin> fst ` set ((v, d) # p) \<Longrightarrow>
     trail E s ((u, d + w) # (v, d) # p)"

lemma trail_walk: "trail E s p \<Longrightarrow> (v, d) \<in> set p \<Longrightarrow> walk E s v d"
proof (induction arbitrary: v d rule: trail.induct)
  case (extend v' d' p u w)
  have "walk E s v' d'" using extend.IH by simp
  then have "walk E s u (d' + w)" using extend.hyps(2) by (rule walk.step)
  then show ?case using extend.IH extend.prems by auto
qed (auto intro: walk.here)

lemma trail_distinct: "trail E s p \<Longrightarrow> distinct (map fst p)"
  by (induction rule: trail.induct) auto

lemma trail_nonempty: "trail E s p \<Longrightarrow> p \<noteq> []"
  by (induction rule: trail.induct) auto

lemma trail_in: "trail E s p \<Longrightarrow> bounded V E W unset \<Longrightarrow> s \<in> V \<Longrightarrow> fst ` set p \<subseteq> V"
  by (induction rule: trail.induct) (auto simp: bounded_def)

text \<open>Lengths do not shrink along it, and are bounded by the number of its edges.\<close>

lemma trail_mono:
  assumes "trail E s p" and "bounded V E W unset" and "s \<in> V" and "(v, d) \<in> set p"
  shows "0 \<le> d \<and> d \<le> snd (hd p)"
  using assms(1,4)
proof (induction arbitrary: v d rule: trail.induct)
  case (extend v' d' p u w)
  have "v' \<in> V" using trail_in [OF extend.hyps(1) assms(2,3)] by simp
  then have "0 \<le> w" using extend.hyps(2) assms(2) by (auto simp: bounded_def)
  then show ?case using extend by fastforce
qed auto

lemma trail_length:
  assumes "trail E s p" and "bounded V E W unset" and "s \<in> V"
  shows "snd (hd p) \<le> int (length p - 1) * W"
  using assms(1)
proof (induction rule: trail.induct)
  case (extend v d p u w)
  have "v \<in> V" using trail_in [OF extend.hyps(1) assms(2,3)] by simp
  then have "w \<le> W" using extend.hyps(2) assms(2) by (auto simp: bounded_def)
  then show ?case using extend.IH by (simp add: algebra_simps)
qed simp

definition reached :: "('v \<Rightarrow> ('v \<times> int) list) \<Rightarrow> 'v \<Rightarrow> ('v \<Rightarrow> int) \<Rightarrow> 'v \<Rightarrow> bool" where
  "reached E s R v \<longleftrightarrow> (\<exists>p. trail E s p \<and> hd p = (v, R v) \<and> (\<forall>(u, d) \<in> set p. R u \<le> d))"

lemma reached_bound:
  assumes "reached E s R v" and "bounded V E W unset" and "s \<in> V"
  shows "0 \<le> R v" and "R v + W \<le> int (card V) * W" and "v \<in> V" and "R v < unset"
proof -
  obtain p where p: "trail E s p" "hd p = (v, R v)" using assms(1) by (auto simp: reached_def)
  have mem: "(v, R v) \<in> set p" using p trail_nonempty [OF p(1)] hd_in_set by metis
  show "v \<in> V" using trail_in [OF p(1) assms(2,3)] mem by force
  show "0 \<le> R v" using trail_mono [OF p(1) assms(2,3) mem] by simp
  have W: "0 \<le> W" "finite V" "int (card V) * W < unset" using assms(2) by (simp_all add: bounded_def)
  have "length p = card (fst ` set p)" using trail_distinct [OF p(1)] by (metis distinct_card length_map set_map)
  also have "\<dots> \<le> card V" using trail_in [OF p(1) assms(2,3)] W(2) by (rule card_mono [rotated])
  finally have "int (length p - 1) + 1 \<le> int (card V)" using trail_nonempty [OF p(1)] by (cases p) auto
  then have "(int (length p - 1) + 1) * W \<le> int (card V) * W" using W(1) by (rule mult_right_mono)
  then show "R v + W \<le> int (card V) * W" using trail_length [OF p(1) assms(2,3)] p(2) by (simp add: algebra_simps)
  then show "R v < unset" using W by linarith
qed

text \<open>Values are of paths, or not set.\<close>

definition sound :: "'v set \<Rightarrow> ('v \<Rightarrow> ('v \<times> int) list) \<Rightarrow> int \<Rightarrow> 'v \<Rightarrow> ('v \<Rightarrow> int) \<Rightarrow> bool" where
  "sound V E unset s R \<longleftrightarrow> (\<forall>v \<in> V. R v = unset \<or> reached E s R v)"

lemma sound_le: "sound V E unset s R \<Longrightarrow> bounded V E W unset \<Longrightarrow> s \<in> V \<Longrightarrow> v \<in> V \<Longrightarrow> 0 \<le> R v \<and> R v \<le> unset"
proof -
  assume a: "sound V E unset s R" "bounded V E W unset" "s \<in> V" "v \<in> V"
  have "0 \<le> int (card V) * W" using a(2) by (simp add: bounded_def)
  then have "0 \<le> unset" using a(2) unfolding bounded_def by linarith
  then show ?thesis using a reached_bound(1,4) [OF _ a(2,3), of R v] unfolding sound_def by force
qed

text \<open>A better offer keeps that.\<close>

lemma offer_reached:
  assumes b: "bounded V E W unset" and s: "s \<in> V" and so: "sound V E unset s R" and r: "reached E s R v"
    and e: "(u, w) \<in> set (E v)" and lt: "R v + w < R u" and x: "x \<in> V" "R x \<noteq> unset \<or> x = u"
  shows "reached E s (R(u := R v + w)) x"
proof -
  let ?R = "R(u := R v + w)"
  have w: "0 \<le> w" using b reached_bound(3) [OF r b s] e by (auto simp: bounded_def)
  obtain p where p: "trail E s p" "hd p = (v, R v)" "\<forall>(y, d) \<in> set p. R y \<le> d" using r by (auto simp: reached_def)
  have new: "u \<notin> fst ` set p"
  proof
    assume "u \<in> fst ` set p"
    then obtain d where d: "(u, d) \<in> set p" by auto
    then have "R u \<le> d" using p(3) by auto
    moreover have "d \<le> R v" using trail_mono [OF p(1) b s d] p(2) by simp
    ultimately show False using lt w by linarith
  qed
  show ?thesis
  proof (cases "x = u")
    case True
    obtain q where q: "p = (v, R v) # q" using p(2) trail_nonempty [OF p(1)] by (cases p) auto
    have "trail E s ((u, R v + w) # p)" unfolding q using p(1) e new unfolding q by (rule trail.extend)
    moreover have "\<forall>(y, d) \<in> set ((u, R v + w) # p). ?R y \<le> d" using p(3) new by force
    ultimately show ?thesis unfolding reached_def True by (intro exI [of _ "(u, R v + w) # p"]) simp
  next
    case False
    then have "reached E s R x" using so x by (auto simp: sound_def)
    then obtain q where q: "trail E s q" "hd q = (x, R x)" "\<forall>(y, d) \<in> set q. R y \<le> d" by (auto simp: reached_def)
    have "\<forall>(y, d) \<in> set q. ?R y \<le> d" using q(3) lt by fastforce
    then show ?thesis unfolding reached_def using q False by (intro exI [of _ q]) simp
  qed
qed

section \<open>One round\<close>

text \<open>The offers of one vertex.\<close>

lemma offers:
  assumes b: "bounded V E W unset" and s: "s \<in> V" and so: "sound V E unset s R" and r: "reached E s R v"
    and sub: "set es \<subseteq> set (E v)" and run: "fold (offer (R v)) es (R, U, m) = (R', U', m')"
  shows "sound V E unset s R' \<and> R' v = R v \<and> (\<forall>x. R' x \<le> R x) \<and> (\<forall>x. U' x \<longleftrightarrow> U x \<or> R' x < R x) \<and>
    (m' \<longleftrightarrow> m \<or> (\<exists>x \<in> V. R' x < R x)) \<and> (\<forall>(u, w) \<in> set es. R' u \<le> R v + w)"
  using so r sub run
proof (induction es arbitrary: R U m)
  case (Cons e es)
  obtain u w where e: "e = (u, w)" by (cases e)
  have mem: "(u, w) \<in> set (E v)" using Cons.prems(3) by (simp add: e)
  have v: "v \<in> V" using reached_bound(3) [OF Cons.prems(2) b s] .
  have uw: "u \<in> V" "0 \<le> w" using b v mem by (auto simp: bounded_def)
  show ?case
  proof (cases "R v + w < R u")
    case False
    have run: "fold (offer (R v)) es (R, U, m) = (R', U', m')" using Cons.prems(4) False by (simp add: e offer_def)
    have sub: "set es \<subseteq> set (E v)" using Cons.prems(3) by simp
    note IH = Cons.IH [OF Cons.prems(1,2) sub run]
    then have "R' u \<le> R v + w" using False by (meson leI order_trans)
    then show ?thesis using IH by (simp add: e)
  next
    case True
    let ?R = "R(u := R v + w)"
    have Rv: "?R v = R v" using True uw(2) by auto
    have so': "sound V E unset s ?R"
      using offer_reached [OF b s Cons.prems(1,2) mem True] by (fastforce simp: sound_def)
    have "R v \<noteq> unset" using reached_bound(4) [OF Cons.prems(2) b s] by simp
    then have r': "reached E s ?R v" using offer_reached [OF b s Cons.prems(1,2) mem True v] by simp
    have run: "fold (offer (?R v)) es (?R, U(u := True), True) = (R', U', m')"
      unfolding Rv using Cons.prems(4) True by (simp add: e offer_def)
    have sub: "set es \<subseteq> set (E v)" using Cons.prems(3) by simp
    note IH = Cons.IH [OF so' r' sub run, unfolded Rv]
    have le: "R' x \<le> R x" for x
    proof (cases "x = u")
      case True
      then have "R' x \<le> R v + w" using IH by (metis fun_upd_same)
      then show ?thesis using \<open>R v + w < R u\<close> True by simp
    next
      case False
      then show ?thesis using IH by (metis fun_upd_other)
    qed
    have lt: "R' u < R u" "R' u \<le> R v + w" using IH True by (metis fun_upd_same le_less_trans, metis fun_upd_same)
    have U: "U' x \<longleftrightarrow> U x \<or> R' x < R x" for x using IH lt by (cases "x = u") auto
    have m: "m'" using IH by simp
    show ?thesis using IH le lt U m uw(1) by (auto simp: e)
  qed
qed simp

text \<open>Unmarked vertices have nothing to offer.\<close>

definition settled :: "('v \<Rightarrow> ('v \<times> int) list) \<Rightarrow> int \<Rightarrow> ('v \<Rightarrow> int) \<Rightarrow> 'v \<Rightarrow> bool" where
  "settled E unset R v \<longleftrightarrow> (R v < unset \<longrightarrow> (\<forall>(u, w) \<in> set (E v). R u \<le> R v + w))"

definition steady_marks :: "'v set \<Rightarrow> ('v \<Rightarrow> ('v \<times> int) list) \<Rightarrow> int \<Rightarrow> 'v \<Rightarrow> ('v \<Rightarrow> int) \<Rightarrow> ('v \<Rightarrow> bool) \<Rightarrow> bool" where
  "steady_marks V E unset s R U \<longleftrightarrow> sound V E unset s R \<and> R s \<le> 0 \<and>
     (\<forall>v \<in> V. if U v then R v < unset else settled E unset R v)"

lemma settled_later: "settled E unset R v \<Longrightarrow> (\<forall>x. R' x \<le> R x) \<Longrightarrow> R' v = R v \<Longrightarrow> settled E unset R' v"
  unfolding settled_def by (metis (mono_tags, lifting) case_prodD case_prodI2 order_trans)

text \<open>The state in the middle of a round, the vertices \<open>A\<close> visited.\<close>

definition midway ::
  "'v set \<Rightarrow> ('v \<Rightarrow> ('v \<times> int) list) \<Rightarrow> int \<Rightarrow> 'v \<Rightarrow> ('v \<Rightarrow> int) \<Rightarrow> ('v \<Rightarrow> bool) \<Rightarrow> 'v set \<Rightarrow> 'v marks \<Rightarrow> bool" where
  "midway V E unset s R0 N A = (\<lambda>(R, U, m). sound V E unset s R \<and> (\<forall>x. R x \<le> R0 x) \<and>
     (\<forall>x. U x \<longleftrightarrow> R x < R0 x) \<and> (m \<longleftrightarrow> (\<exists>x \<in> V. R x < R0 x)) \<and>
     (\<forall>v \<in> V. (v \<in> A \<or> \<not> N v) \<and> \<not> U v \<longrightarrow> settled E unset R v))"

lemma visit_midway:
  assumes b: "bounded V E W unset" and s: "s \<in> V" and mid: "midway V E unset s R0 N A (R, U, m)"
    and v: "v \<in> V" and N: "N v \<Longrightarrow> R0 v < unset"
  shows "midway V E unset s R0 N (insert v A) (visit E N v (R, U, m))"
proof (cases "N v")
  case False
  then show ?thesis using mid by (auto simp: visit_def midway_def)
next
  case True
  obtain R' U' m' where run: "fold (offer (R v)) (E v) (R, U, m) = (R', U', m')" by (cases "fold (offer (R v)) (E v) (R, U, m)")
  have so: "sound V E unset s R" and le: "\<forall>x. R x \<le> R0 x" using mid by (simp_all add: midway_def)
  have "R v < unset" using N [OF True] le by (meson le_less_trans)
  then have "reached E s R v" using so v by (auto simp: sound_def)
  note O = offers [OF b s so this subset_refl run]
  have le': "R' x \<le> R0 x" for x using O le by (meson order_trans)
  have key: "R' x < R0 x \<longleftrightarrow> R x < R0 x \<or> R' x < R x" for x
  proof -
    have "R' x \<le> R x" "R x \<le> R0 x" using O le by simp_all
    then show ?thesis by auto
  qed
  have U': "U' x \<longleftrightarrow> R' x < R0 x" for x unfolding key using O mid by (simp add: midway_def)
  have "m \<longleftrightarrow> (\<exists>x \<in> V. R x < R0 x)" "m' \<longleftrightarrow> m \<or> (\<exists>x \<in> V. R' x < R x)" using mid O by (simp_all add: midway_def)
  then have m': "m' \<longleftrightarrow> (\<exists>x \<in> V. R' x < R0 x)" unfolding key by blast
  have set': "settled E unset R' y" if y: "y \<in> V" "y \<in> insert v A \<or> \<not> N y" "\<not> U' y" for y
  proof (cases "y = v")
    case True
    then show ?thesis using O by (auto simp: settled_def)
  next
    case False
    have lower: "\<forall>x. R' x \<le> R x" and "U' y \<longleftrightarrow> U y \<or> R' y < R y" using O by simp_all
    then have "\<not> U y" "\<not> R' y < R y" using y(3) by simp_all
    then have same: "R' y = R y" using lower by (metis less_le)
    have "settled E unset R y" using mid y(1,2) False \<open>\<not> U y\<close> by (simp add: midway_def)
    then show ?thesis using lower same by (rule settled_later)
  qed
  have "sound V E unset s R'" using O by simp
  then have "midway V E unset s R0 N (insert v A) (R', U', m')"
    unfolding midway_def prod.case by (intro conjI allI ballI impI) (use le' U' m' set' in auto)
  then show ?thesis using True run by (simp add: visit_def)
qed

lemma round_midway:
  assumes b: "bounded V E W unset" and s: "s \<in> V" and N: "\<forall>v \<in> V. N v \<longrightarrow> R0 v < unset"
    and "set vs \<subseteq> V" and "midway V E unset s R0 N A st"
  shows "midway V E unset s R0 N (A \<union> set vs) (fold (visit E N) vs st)"
  using assms(4,5)
proof (induction vs arbitrary: A st)
  case (Cons v vs)
  obtain R U m where st: "st = (R, U, m)" by (cases st)
  have "midway V E unset s R0 N (insert v A) (visit E N v st)"
    using visit_midway [OF b s _ _] Cons.prems N unfolding st by auto
  then show ?case using Cons.IH [of "insert v A" "visit E N v st"] Cons.prems(1) by simp
qed simp

text \<open>A round keeps the invariant, lowers values only, and reports whether it lowered one.\<close>

lemma round_steady:
  assumes b: "bounded V E W unset" and s: "s \<in> V" and st: "steady_marks V E unset s R U" and vs: "set vs = V"
    and run: "round_of E vs R U = (R', U', m)"
  shows "steady_marks V E unset s R' U'" and "m \<longleftrightarrow> (\<exists>x \<in> V. R' x < R x)" and "\<forall>x. R' x \<le> R x"
    and "\<forall>x. U' x \<longleftrightarrow> R' x < R x"
proof -
  have "midway V E unset s R U {} (R, \<lambda>v. False, False)"
    using st by (auto simp: midway_def steady_marks_def)
  moreover have "\<forall>v \<in> V. U v \<longrightarrow> R v < unset" using st by (auto simp: steady_marks_def)
  ultimately have "midway V E unset s R U ({} \<union> set vs) (round_of E vs R U)"
    unfolding round_of_def using vs by (intro round_midway [OF b s]) auto
  then have mid: "midway V E unset s R U V (R', U', m)" using vs run by simp
  then show "m \<longleftrightarrow> (\<exists>x \<in> V. R' x < R x)" "\<forall>x. R' x \<le> R x" "\<forall>x. U' x \<longleftrightarrow> R' x < R x" by (simp_all add: midway_def)
  have "R' v < unset" if "v \<in> V" "U' v" for v
  proof -
    have "R' v < R v" using mid that by (simp add: midway_def)
    moreover have "R v \<le> unset" using sound_le [OF _ b s that(1)] st by (simp add: steady_marks_def)
    ultimately show ?thesis by simp
  qed
  moreover have "R' s \<le> 0" using mid st by (auto simp: midway_def steady_marks_def intro: order_trans)
  ultimately show "steady_marks V E unset s R' U'" using mid by (auto simp: midway_def steady_marks_def)
qed

text \<open>Each round that reports a change lowers the sum of the values.\<close>

lemma round_decreases:
  assumes b: "bounded V E W unset" and s: "s \<in> V" and st: "steady_marks V E unset s R U" and vs: "set vs = V"
    and run: "round_of E vs R U = (R', U', True)"
  shows "(\<Sum>v \<in> V. nat (R' v)) < (\<Sum>v \<in> V. nat (R v))"
proof -
  note S = round_steady [OF b s st vs run]
  obtain x where x: "x \<in> V" "R' x < R x" using S(2) by auto
  have "0 \<le> R' x" using sound_le [OF _ b s x(1)] S(1) by (simp add: steady_marks_def)
  then have "nat (R' x) < nat (R x)" using x(2) by simp
  moreover have "\<forall>v \<in> V. nat (R' v) \<le> nat (R v)" using S(3) by (simp add: nat_mono)
  ultimately show ?thesis using b x(1) by (intro sum_strict_mono_ex1) (auto simp: bounded_def)
qed

text \<open>Without marks the values are the distances.\<close>

lemma settled_shortest:
  assumes b: "bounded V E W unset" and s: "s \<in> V" and st: "steady_marks V E unset s R U" and none: "\<forall>v \<in> V. \<not> U v"
    and v: "v \<in> V"
  shows "(\<forall>d. walk E s v d \<longrightarrow> R v \<le> d) \<and> (R v = unset \<or> walk E s v (R v)) \<and> (R v = unset \<longleftrightarrow> (\<nexists>d. walk E s v d))"
proof -
  have walks: "x \<in> V \<and> R x \<le> d \<and> R x < unset" if "walk E s x d" for x d
    using that
  proof induction
    case here
    have "0 \<le> int (card V) * W" using b by (simp add: bounded_def)
    then have "0 < unset" using b unfolding bounded_def by linarith
    then show ?case using s st by (simp add: steady_marks_def)
  next
    case (step x d u w)
    have x: "settled E unset R x" using step.IH st none by (auto simp: steady_marks_def)
    have u: "u \<in> V" using b step.IH step.hyps(2) by (auto simp: bounded_def)
    have le: "R u \<le> R x + w" using x step by (auto simp: settled_def)
    have "reached E s R x" using st step.IH by (auto simp: steady_marks_def sound_def)
    then have "R x + W \<le> int (card V) * W" by (rule reached_bound(2) [OF _ b s])
    moreover have "w \<le> W" "int (card V) * W < unset" using b step.IH step.hyps(2) by (auto simp: bounded_def)
    ultimately show ?case using le u step.IH by auto
  qed
  have "R v = unset \<or> walk E s v (R v)"
  proof (cases "R v = unset")
    case False
    then obtain p where p: "trail E s p" "hd p = (v, R v)" using st v by (auto simp: steady_marks_def sound_def reached_def)
    then have "(v, R v) \<in> set p" using trail_nonempty [OF p(1)] by (metis hd_in_set)
    then show ?thesis using trail_walk [OF p(1)] by simp
  qed simp
  then show ?thesis using walks by force
qed

end
