(* ===== verification/Sssp.thy ===== *)
theory Sssp
  imports Vertex_Array Relaxation
begin

text \<open>
  The single-source shortest path application
  (\<^verbatim>\<open>analytical_engine/apps/gart/property_sssp.h\<close>) on one fragment: \<open>Init\<close>, \<open>PEval\<close> and
  \<open>IncEval\<close>, and the loop of a worker around them.
\<close>

section \<open>What an application sees of a fragment\<close>

text \<open>
  The identifiers, the tables, and what its loops over \<open>InnerVertices\<close>, \<open>OuterVertices\<close>,
  \<open>GetOutgoingAdjList\<close> and \<open>GetIncomingAdjList\<close> visit; \<open>Vertices\<close> visits the inner ones and then the outer ones; an outgoing edge comes with \<^verbatim>\<open>get_data<int>\<close>.
\<close>

record app_view =
  frag :: fragment
  tables :: "nat \<Rightarrow> vertex_view"
  v_labels :: nat
  e_labels :: nat
  inner_list :: "nat \<Rightarrow> u64 list"
  outer_list :: "nat \<Rightarrow> u64 list"
  out_edges :: "u64 \<Rightarrow> nat \<Rightarrow> (u64 \<times> (nat \<Rightarrow> int)) list"
  in_edges :: "u64 \<Rightarrow> nat \<Rightarrow> u64 list"
  edge_prop_id :: "nat \<Rightarrow> string \<Rightarrow> int"

text \<open>A loop whose body can fail.\<close>

primrec each :: "('x \<Rightarrow> 's \<Rightarrow> 's option) \<Rightarrow> 'x list \<Rightarrow> 's \<Rightarrow> 's option" where
  "each f [] s = Some s"
| "each f (x # xs) s = Option.bind (f x s) (each f xs)"

lemma each_append: "each f (xs @ ys) s = Option.bind (each f xs s) (each f ys)"
  by (induction xs arbitrary: s) (auto split: Option.bind_split)

lemma each_map: "each f (map g xs) = each (\<lambda>x. f (g x)) xs"
  by (induction xs) (rule ext, simp)+

text \<open>Nested loops are one loop over the pairs.\<close>

lemma each_nested: "each (\<lambda>l. each (f l) (g l)) ls = each (\<lambda>(l, x). f l x) (concat (map (\<lambda>l. map (Pair l) (g l)) ls))"
  by (induction ls) (rule ext, simp add: each_append each_map)+

lemma each_concat: "each (\<lambda>l. each f (g l)) ls = each f (concat (map g ls))"
  by (induction ls) (rule ext, simp add: each_append)+

text \<open>A loop follows a fold that its body follows.\<close>

lemma each_follows:
  assumes "rel s a" and "\<And>x s a. x \<in> set xs \<Longrightarrow> rel s a \<Longrightarrow> \<exists>s'. f x s = Some s' \<and> rel s' (h x a)"
  shows "\<exists>s'. each f xs s = Some s' \<and> rel s' (fold h xs a)"
  using assms
proof (induction xs arbitrary: s a)
  case (Cons x xs)
  obtain s1 where "f x s = Some s1" "rel s1 (h x a)" using Cons.prems(2) [OF _ Cons.prems(1), of x] by auto
  then show ?case using Cons.IH [of s1 "h x a"] Cons.prems(2) by auto
qed simp

section \<open>The context\<close>

text \<open>With the messages sent in a round and whether another round is forced, which the message manager keeps.\<close>

record sssp =
  result :: "int arrays"
  updated :: "bool arrays"
  updated_next :: "bool arrays"
  sent :: "(u64 \<times> int) list"
  force_continue :: bool

definition INT_MAX :: int where
  "INT_MAX = 2147483647"

text \<open>Addition of \<^verbatim>\<open>int\<close>, which is undefined when it wraps.\<close>

definition add_int :: "int \<Rightarrow> int \<Rightarrow> int" where
  "add_int a b = sint (word_of_int (a + b) :: u32)"

definition all_ranges :: "app_view \<Rightarrow> nat \<Rightarrow> range list" where
  "all_ranges vw l = [inner_pointers (tables vw l), outer_pointers (tables vw l)]"

definition arrays_of :: "app_view \<Rightarrow> int \<Rightarrow> 'a \<Rightarrow> 'a arrays" where
  "arrays_of vw base x = (\<lambda>l. if l < v_labels vw then array_init (frag vw) l base (all_ranges vw l) x else \<lparr>cells = [], inner_size = 0\<rparr>)"

definition sssp_init :: "app_view \<Rightarrow> int \<Rightarrow> sssp" where
  "sssp_init vw base = \<lparr>result = arrays_of vw base INT_MAX, updated = arrays_of vw base False,
     updated_next = arrays_of vw base False, sent = [], force_continue = False\<rparr>"

definition edge_weight :: "app_view \<Rightarrow> string \<Rightarrow> nat \<Rightarrow> (nat \<Rightarrow> int) \<Rightarrow> int" where
  "edge_weight vw name e_label get_data =
     (let prop_id = edge_prop_id vw e_label name in if prop_id \<noteq> - 1 then get_data (nat prop_id) else 1)"

section \<open>PEval\<close>

text \<open>A new value of a vertex marks it, or is sent to the fragment that owns it.\<close>

definition announce :: "app_view \<Rightarrow> u64 \<Rightarrow> int \<Rightarrow> sssp \<Rightarrow> sssp option" where
  "announce vw dst val st =
     (if IsInnerVertex (frag vw) dst
      then map_option (\<lambda>u. st\<lparr>updated := u\<rparr>) (write_at (frag vw) (updated st) dst True)
      else Some (st\<lparr>sent := sent st @ [(dst, val)]\<rparr>))"

definition peval_edge :: "app_view \<Rightarrow> string \<Rightarrow> nat \<Rightarrow> u64 \<times> (nat \<Rightarrow> int) \<Rightarrow> sssp \<Rightarrow> sssp option" where
  "peval_edge vw name e_label = (\<lambda>(dst, get_data) st.
     let e_data = edge_weight vw name e_label get_data in
     Option.bind (read_at (frag vw) (result st) dst) (\<lambda>old.
     let val = min old e_data in
     Option.bind (write_at (frag vw) (result st) dst val) (\<lambda>res.
       announce vw dst val (st\<lparr>result := res\<rparr>))))"

text \<open>A source that is not found ends the evaluation, without another round.\<close>

definition PEval :: "app_view \<Rightarrow> nat \<Rightarrow> int \<Rightarrow> string \<Rightarrow> sssp \<Rightarrow> sssp option" where
  "PEval vw label source_id name st =
     (case Oid2Vertex (frag vw) label source_id of
        None \<Rightarrow> Some st
      | Some src \<Rightarrow>
          Option.bind
            (if IsInnerVertex (frag vw) src then
               Option.bind (write_at (frag vw) (result st) src 0) (\<lambda>res.
                 each (\<lambda>e_label. each (peval_edge vw name e_label) (out_edges vw src e_label)) [0..<e_labels vw]
                   (st\<lparr>result := res\<rparr>))
             else Some st)
            (\<lambda>st'. Some (st'\<lparr>force_continue := True\<rparr>)))"

section \<open>IncEval\<close>

definition receive :: "app_view \<Rightarrow> u64 \<times> int \<Rightarrow> sssp \<Rightarrow> sssp option" where
  "receive vw = (\<lambda>(v, val) st.
     Option.bind (read_at (frag vw) (result st) v) (\<lambda>old.
       if old > val then
         Option.bind (write_at (frag vw) (result st) v val) (\<lambda>res.
         Option.bind (write_at (frag vw) (updated st) v True) (\<lambda>u. Some (st\<lparr>result := res, updated := u\<rparr>)))
       else Some st))"

definition swap_label :: "nat \<Rightarrow> sssp \<Rightarrow> sssp" where
  "swap_label l st = st\<lparr>updated := (updated st)(l := set_all False (updated_next st l)),
     updated_next := (updated_next st)(l := updated st l)\<rparr>"

text \<open>The state of the loops: the context and \<^verbatim>\<open>require_force_continue\<close>.\<close>

definition inc_edge :: "app_view \<Rightarrow> string \<Rightarrow> int \<Rightarrow> nat \<Rightarrow> u64 \<times> (nat \<Rightarrow> int) \<Rightarrow> sssp \<times> bool \<Rightarrow> (sssp \<times> bool) option" where
  "inc_edge vw name dist_src e_label = (\<lambda>(dst, get_data) (st, force).
     let new_dist_dst = add_int dist_src (edge_weight vw name e_label get_data) in
     Option.bind (read_at (frag vw) (result st) dst) (\<lambda>old.
       if new_dist_dst < old then
         Option.bind (write_at (frag vw) (result st) dst new_dist_dst) (\<lambda>res.
         Option.bind (announce vw dst new_dist_dst (st\<lparr>result := res\<rparr>)) (\<lambda>st'.
           Some (st', force \<or> IsInnerVertex (frag vw) dst)))
       else Some (st, force)))"

definition inc_vertex :: "app_view \<Rightarrow> string \<Rightarrow> u64 \<Rightarrow> sssp \<times> bool \<Rightarrow> (sssp \<times> bool) option" where
  "inc_vertex vw name src = (\<lambda>(st, force).
     Option.bind (read_at (frag vw) (updated_next st) src) (\<lambda>up.
       if \<not> up then Some (st, force)
       else Option.bind (read_at (frag vw) (result st) src) (\<lambda>dist_src.
         each (\<lambda>e_label. each (inc_edge vw name dist_src e_label) (out_edges vw src e_label)) [0..<e_labels vw] (st, force))))"

definition IncEval :: "app_view \<Rightarrow> string \<Rightarrow> (u64 \<times> int) list \<Rightarrow> sssp \<Rightarrow> sssp option" where
  "IncEval vw name messages st =
     Option.bind (each (receive vw) messages st) (\<lambda>st1.
     Option.bind (each (\<lambda>v_label. each (inc_vertex vw name) (inner_list vw v_label)) [0..<v_labels vw]
         (fold swap_label [0..<v_labels vw] st1, False)) (\<lambda>(st2, force).
       Some (if force then st2\<lparr>force_continue := True\<rparr> else st2)))"

section \<open>The worker\<close>

text \<open>
  The loop of a worker is grape's: it goes on as long as a round sent messages or forced another one, and each
  round starts with what the rounds of all workers sent to this one, which \<open>deliver\<close> gives.
\<close>

partial_function (option) rounds ::
  "app_view \<Rightarrow> string \<Rightarrow> ((u64 \<times> int) list \<Rightarrow> (u64 \<times> int) list) \<Rightarrow> sssp \<Rightarrow> sssp option" where
  [code]: "rounds vw name deliver st =
     (if sent st = [] \<and> \<not> force_continue st then Some st
      else Option.bind (IncEval vw name (deliver (sent st)) (st\<lparr>sent := [], force_continue := False\<rparr>)) (rounds vw name deliver))"

definition run_sssp ::
  "app_view \<Rightarrow> int \<Rightarrow> nat \<Rightarrow> int \<Rightarrow> string \<Rightarrow> ((u64 \<times> int) list \<Rightarrow> (u64 \<times> int) list) \<Rightarrow> sssp option" where
  "run_sssp vw base label source_id name deliver =
     Option.bind (PEval vw label source_id name (sssp_init vw base)) (rounds vw name deliver)"

section \<open>One fragment\<close>

text \<open>
  A view of a graph that is one fragment: every vertex is an inner one with a number below the boundary, and
  edges lead to vertices of the graph.
\<close>

definition vertices :: "app_view \<Rightarrow> u64 set" where
  "vertices vw = (\<Union>l \<in> {..<v_labels vw}. set (inner_list vw l))"

definition whole_graph :: "app_view \<Rightarrow> bool" where
  "whole_graph vw \<longleftrightarrow>
     (\<forall>l < v_labels vw. \<forall>v \<in> set (inner_list vw l). vertex_label (frag vw) v = l \<and> inner_handle (frag vw) v \<and>
        unat (GetOffset_of (frag vw) v) < unat (GetMaxInnerVerticesNum (frag vw) l + GetMaxOuterVerticesNum (frag vw) l)) \<and>
     (\<forall>v \<in> vertices vw. \<forall>e < e_labels vw. \<forall>(u, d) \<in> set (out_edges vw v e). u \<in> vertices vw)"

text \<open>The weighted edges of a vertex, over all labels.\<close>

definition weighted :: "app_view \<Rightarrow> string \<Rightarrow> u64 \<Rightarrow> (u64 \<times> int) list" where
  "weighted vw name v =
     concat (map (\<lambda>e. map (\<lambda>(u, d). (u, edge_weight vw name e d)) (out_edges vw v e)) [0..<e_labels vw])"

text \<open>The order in which a round visits the vertices.\<close>

definition visit_order :: "app_view \<Rightarrow> u64 list" where
  "visit_order vw = concat (map (inner_list vw) [0..<v_labels vw])"

lemma set_visit_order: "set (visit_order vw) = vertices vw"
  by (auto simp: visit_order_def vertices_def)

lemma weighted_vertices: "whole_graph vw \<Longrightarrow> v \<in> vertices vw \<Longrightarrow> (u, w) \<in> set (weighted vw name v) \<Longrightarrow> u \<in> vertices vw"
  by (fastforce simp: whole_graph_def weighted_def)

text \<open>The arrays hold the values and marks of all vertices.\<close>

definition array_holds :: "app_view \<Rightarrow> 'a arrays \<Rightarrow> (u64 \<Rightarrow> 'a) \<Rightarrow> bool" where
  "array_holds vw A f \<longleftrightarrow> (\<forall>v \<in> vertices vw. has_cell (frag vw) A v \<and> read_at (frag vw) A v = Some (f v))"

lemma holds_write:
  assumes "array_holds vw A f" and "v \<in> vertices vw"
  shows "\<exists>A'. write_at (frag vw) A v x = Some A' \<and> array_holds vw A' (f(v := x))"
  unfolding array_holds_def using assms(1) [unfolded array_holds_def] assms(2) by (rule cells.put_all)

lemma holds_read: "array_holds vw A f \<Longrightarrow> v \<in> vertices vw \<Longrightarrow> read_at (frag vw) A v = Some (f v)"
  by (simp add: array_holds_def)

lemma whole_inner: "whole_graph vw \<Longrightarrow> v \<in> vertices vw \<Longrightarrow> IsInnerVertex (frag vw) v"
  by (auto simp: whole_graph_def vertices_def inner_handle_def)

lemma arrays_hold:
  assumes w: "whole_graph vw"
  shows "array_holds vw (arrays_of vw base x) (\<lambda>v. x)"
  unfolding array_holds_def
proof
  fix v
  assume "v \<in> vertices vw"
  then obtain l where l: "l < v_labels vw" "v \<in> set (inner_list vw l)" by (auto simp: vertices_def)
  then have v: "vertex_label (frag vw) v = l" "inner_handle (frag vw) v"
    "unat (GetOffset_of (frag vw) v) < unat (GetMaxInnerVerticesNum (frag vw) l + GetMaxOuterVerticesNum (frag vw) l)"
    using w by (simp_all add: whole_graph_def)
  have "cells (arrays_of vw base x l) = replicate (unat (GetMaxInnerVerticesNum (frag vw) l + GetMaxOuterVerticesNum (frag vw) l)) x"
    using l(1) by (simp add: arrays_of_def array_init_def all_ranges_def inner_pointers_def outer_pointers_def split: option.split)
  then show "has_cell (frag vw) (arrays_of vw base x) v \<and> read_at (frag vw) (arrays_of vw base x) v = Some x"
    using v by (simp add: has_cell_def read_at_def array_get_def array_at_def inner_index)
qed

section \<open>The rounds follow the relaxation\<close>

text \<open>The state during the loops of a round, beside the marks of the relaxation.\<close>

definition follows :: "app_view \<Rightarrow> (u64 \<Rightarrow> bool) \<Rightarrow> sssp \<times> bool \<Rightarrow> u64 marks \<Rightarrow> bool" where
  "follows vw N = (\<lambda>(st, force) (R, U, b). array_holds vw (result st) R \<and> array_holds vw (updated st) U \<and> array_holds vw (updated_next st) N \<and>
     sent st = [] \<and> \<not> force_continue st \<and> force = b)"

text \<open>Sums that stay in the range of \<^verbatim>\<open>int\<close>.\<close>

lemma add_int_small: "- (2 ^ 31) \<le> a + b \<Longrightarrow> a + b < 2 ^ 31 \<Longrightarrow> add_int a b = a + b"
  unfolding add_int_def by (simp add: signed_of_int signed_take_bit_int_eq_self del: of_int_add)

lemma inc_edge_follows:
  assumes w: "whole_graph vw" and f: "follows vw N s a" and u: "u \<in> vertices vw"
    and small: "0 \<le> d + edge_weight vw name e g" "d + edge_weight vw name e g \<le> INT_MAX"
  shows "\<exists>s'. inc_edge vw name d e (u, g) s = Some s' \<and> follows vw N s' (offer d (u, edge_weight vw name e g) a)"
proof -
  obtain st force R U b where sa: "s = (st, force)" "a = (R, U, b)" by (cases s, cases a) auto
  let ?w = "edge_weight vw name e g"
  have f': "array_holds vw (result st) R" "array_holds vw (updated st) U" "array_holds vw (updated_next st) N" "sent st = []"
    "\<not> force_continue st" "force = b" using f by (simp_all add: sa follows_def)
  have add: "add_int d ?w = d + ?w" using small by (intro add_int_small) (simp_all add: INT_MAX_def)
  have r: "read_at (frag vw) (result st) u = Some (R u)" by (rule holds_read [OF f'(1) u])
  show ?thesis
  proof (cases "d + ?w < R u")
    case True
    obtain A where A: "write_at (frag vw) (result st) u (d + ?w) = Some A" "array_holds vw A (R(u := d + ?w))"
      using holds_write [OF f'(1) u] by blast
    obtain B where B: "write_at (frag vw) (updated st) u True = Some B" "array_holds vw B (U(u := True))"
      using holds_write [OF f'(2) u] by blast
    show ?thesis using True r A B f' whole_inner [OF w u]
      by (simp add: sa inc_edge_def add announce_def offer_def follows_def Let_def)
  next
    case False
    then show ?thesis using r f by (simp add: sa inc_edge_def add offer_def Let_def)
  qed
qed

lemma weighted_pairs:
  "weighted vw name v = map (\<lambda>(e, u, g). (u, edge_weight vw name e g))
     (concat (map (\<lambda>e. map (Pair e) (out_edges vw v e)) [0..<e_labels vw]))"
  by (simp add: weighted_def map_concat comp_def case_prod_unfold)

lemma inc_vertex_follows:
  assumes w: "whole_graph vw" and f: "follows vw N s (R, U, b)" and v: "v \<in> vertices vw"
    and small: "N v \<Longrightarrow> \<forall>(u, x) \<in> set (weighted vw name v). 0 \<le> R v + x \<and> R v + x \<le> INT_MAX"
  shows "\<exists>s'. inc_vertex vw name v s = Some s' \<and> follows vw N s' (visit (weighted vw name) N v (R, U, b))"
proof -
  obtain st force where s: "s = (st, force)" by (cases s)
  have n: "read_at (frag vw) (updated_next st) v = Some (N v)" "read_at (frag vw) (result st) v = Some (R v)"
    using f v by (auto simp: s follows_def intro: holds_read)
  show ?thesis
  proof (cases "N v")
    case False
    then show ?thesis using n f by (simp add: s inc_vertex_def visit_def)
  next
    case True
    let ?ps = "concat (map (\<lambda>e. map (Pair e) (out_edges vw v e)) [0..<e_labels vw])"
    let ?h = "\<lambda>p. offer (R v) (case p of (e, u, g) \<Rightarrow> (u, edge_weight vw name e g))"
    have "\<exists>s'. each (\<lambda>(e, x). inc_edge vw name (R v) e x) ?ps s = Some s' \<and> follows vw N s' (fold ?h ?ps (R, U, b))"
    proof (rule each_follows [where rel = "follows vw N"])
      show "follows vw N s (R, U, b)" by (rule f)
      fix p s1 a
      assume p: "p \<in> set ?ps" and s1: "follows vw N s1 a"
      obtain e u g where eug: "p = (e, u, g)" by (cases p)
      have mem: "(u, edge_weight vw name e g) \<in> set (weighted vw name v)" using p unfolding weighted_pairs eug by force
      then have "u \<in> vertices vw" by (rule weighted_vertices [OF w v])
      then show "\<exists>s'. (case p of (e, x) \<Rightarrow> inc_edge vw name (R v) e x) s1 = Some s' \<and> follows vw N s' (?h p a)"
        using inc_edge_follows [OF w s1, of u "R v" name e g] small [OF True] mem by (auto simp: eug)
    qed
    moreover have "fold ?h ?ps (R, U, b) = fold (offer (R v)) (weighted vw name v) (R, U, b)"
      unfolding weighted_pairs fold_map comp_def ..
    ultimately show ?thesis using True n by (auto simp: s inc_vertex_def visit_def each_nested)
  qed
qed

lemma fold_swap:
  "fold swap_label [0..<n] st = st\<lparr>updated := (\<lambda>l. if l < n then set_all False (updated_next st l) else updated st l),
     updated_next := (\<lambda>l. if l < n then updated st l else updated_next st l)\<rparr>"
  by (induction n) (auto simp: swap_label_def fun_eq_iff)

lemma holds_swap:
  assumes w: "whole_graph vw" and "array_holds vw (updated st) U" and "array_holds vw (updated_next st) N"
  shows "array_holds vw (updated (fold swap_label [0..<v_labels vw] st)) (\<lambda>v. False)"
    and "array_holds vw (updated_next (fold swap_label [0..<v_labels vw] st)) U"
proof -
  have lab: "vertex_label (frag vw) v < v_labels vw" if "v \<in> vertices vw" for v
    using that w by (auto simp: whole_graph_def vertices_def)
  show "array_holds vw (updated (fold swap_label [0..<v_labels vw] st)) (\<lambda>v. False)"
    using assms(3) lab by (auto simp: array_holds_def fold_swap has_cell_def read_at_def array_get_def array_at_def set_all_def inner_index)
  show "array_holds vw (updated_next (fold swap_label [0..<v_labels vw] st)) U"
    using assms(2) lab by (auto simp: array_holds_def fold_swap has_cell_def read_at_def)
qed

text \<open>A state between two rounds.\<close>

definition between :: "app_view \<Rightarrow> sssp \<Rightarrow> (u64 \<Rightarrow> int) \<Rightarrow> (u64 \<Rightarrow> bool) \<Rightarrow> bool \<Rightarrow> bool" where
  "between vw st R U b \<longleftrightarrow> array_holds vw (result st) R \<and> array_holds vw (updated st) U \<and> (\<exists>N. array_holds vw (updated_next st) N) \<and>
     sent st = [] \<and> force_continue st = b"

lemma IncEval_follows:
  assumes w: "whole_graph vw" and b: "bounded (vertices vw) (weighted vw name) W INT_MAX" and s: "s \<in> vertices vw"
    and st: "steady_marks (vertices vw) (weighted vw name) INT_MAX s R U" and bt: "between vw st R U c"
    and run: "round_of (weighted vw name) (visit_order vw) R U = (R', U', m)"
  shows "\<exists>st'. IncEval vw name [] (st\<lparr>sent := [], force_continue := False\<rparr>) = Some st' \<and> between vw st' R' U' m"
proof -
  let ?V = "vertices vw" and ?E = "weighted vw name" and ?st = "st\<lparr>sent := [], force_continue := False\<rparr>"
  let ?st1 = "fold swap_label [0..<v_labels vw] ?st"
  obtain N where N: "array_holds vw (updated_next ?st) N" using bt by (auto simp: between_def)
  have "array_holds vw (updated ?st) U" using bt by (simp add: between_def)
  note sw = holds_swap [OF w this N]
  let ?rel = "\<lambda>x a. follows vw U x a \<and> (\<exists>A. midway ?V ?E INT_MAX s R U A a)"
  have low: "\<forall>v \<in> ?V. U v \<longrightarrow> R v < INT_MAX" using st by (auto simp: steady_marks_def)
  have f1: "follows vw U (?st1, False) (R, \<lambda>v. False, False)"
    using bt sw by (auto simp: follows_def between_def fold_swap)
  have m1: "midway ?V ?E INT_MAX s R U {} (R, \<lambda>v. False, False)" using st by (auto simp: midway_def steady_marks_def)
  have start: "?rel (?st1, False) (R, \<lambda>v. False, False)" using f1 m1 by blast
  have "\<exists>x. each (inc_vertex vw name) (visit_order vw) (?st1, False) = Some x \<and>
    ?rel x (fold (visit ?E U) (visit_order vw) (R, \<lambda>v. False, False))"
  proof (rule each_follows [where rel = ?rel, OF start])
    fix v x a
    assume "v \<in> set (visit_order vw)" and rel: "?rel x a"
    then have v: "v \<in> ?V" by (simp add: set_visit_order)
    obtain R1 U1 b1 where a: "a = (R1, U1, b1)" by (cases a)
    obtain A where A: "midway ?V ?E INT_MAX s R U A (R1, U1, b1)" using rel a by blast
    have "\<forall>(u, y) \<in> set (?E v). 0 \<le> R1 v + y \<and> R1 v + y \<le> INT_MAX" if "U v"
    proof -
      have "R1 v \<le> R v" using A by (simp add: midway_def)
      then have "R1 v \<noteq> INT_MAX" using low v that by auto
      then have "reached ?E s R1 v" using A v by (auto simp: midway_def sound_def)
      note B = reached_bound [OF this b s]
      then show ?thesis using b v by (fastforce simp: bounded_def)
    qed
    then have "\<exists>x'. inc_vertex vw name v x = Some x' \<and> follows vw U x' (visit ?E U v (R1, U1, b1))"
      using inc_vertex_follows [OF w _ v] rel a by blast
    moreover have "midway ?V ?E INT_MAX s R U (insert v A) (visit ?E U v (R1, U1, b1))"
      using low v by (intro visit_midway [OF b s A v]) blast
    ultimately show "\<exists>x'. inc_vertex vw name v x = Some x' \<and> ?rel x' (visit ?E U v a)" unfolding a by blast
  qed
  then obtain st2 f2 where st2: "each (inc_vertex vw name) (visit_order vw) (?st1, False) = Some (st2, f2)"
    "follows vw U (st2, f2) (R', U', m)" using run unfolding round_of_def by (metis surj_pair)
  have "each (\<lambda>l. each (inc_vertex vw name) (inner_list vw l)) [0..<v_labels vw] (?st1, False) = Some (st2, f2)"
    using st2(1) unfolding visit_order_def each_concat .
  then have "IncEval vw name [] ?st = Some (if f2 then st2\<lparr>force_continue := True\<rparr> else st2)" by (simp add: IncEval_def)
  then show ?thesis using st2(2) by (auto simp: between_def follows_def)
qed

section \<open>The first evaluation\<close>

definition seeded :: "app_view \<Rightarrow> sssp \<Rightarrow> u64 marks \<Rightarrow> bool" where
  "seeded vw st = (\<lambda>(R, U, b). \<exists>M N. array_holds vw (result st) R \<and> array_holds vw (updated st) M \<and> array_holds vw (updated_next st) N \<and>
     sent st = [] \<and> (\<forall>v. U v \<longrightarrow> M v) \<and> (\<forall>v \<in> vertices vw. M v \<longrightarrow> R v < INT_MAX))"

lemma peval_edge_seeded:
  assumes w: "whole_graph vw" and f: "seeded vw st a" and u: "u \<in> vertices vw" and small: "edge_weight vw name e g < INT_MAX"
  shows "\<exists>st'. peval_edge vw name e (u, g) st = Some st' \<and> seeded vw st' (offer 0 (u, edge_weight vw name e g) a)"
proof -
  obtain R U b where a: "a = (R, U, b)" by (cases a)
  let ?w = "edge_weight vw name e g"
  obtain M N where f': "array_holds vw (result st) R" "array_holds vw (updated st) M" "array_holds vw (updated_next st) N" "sent st = []"
    "\<forall>v. U v \<longrightarrow> M v" "\<forall>v \<in> vertices vw. M v \<longrightarrow> R v < INT_MAX" using f by (auto simp: a seeded_def)
  obtain A where A: "write_at (frag vw) (result st) u (min (R u) ?w) = Some A" "array_holds vw A (R(u := min (R u) ?w))"
    using holds_write [OF f'(1) u] by blast
  obtain B where B: "write_at (frag vw) (updated st) u True = Some B" "array_holds vw B (M(u := True))"
    using holds_write [OF f'(2) u] by blast
  let ?st = "st\<lparr>result := A, updated := B\<rparr>"
  have "peval_edge vw name e (u, g) st = Some ?st"
    using A B f' whole_inner [OF w u] holds_read [OF f'(1) u] by (simp add: peval_edge_def announce_def Let_def)
  moreover have "fst (offer 0 (u, ?w) a) = R(u := min (R u) ?w)" by (auto simp: a offer_def min_def)
  moreover have "fst (snd (offer 0 (u, ?w) a)) v \<longrightarrow> (M(u := True)) v" for v using f'(5) by (auto simp: a offer_def)
  moreover have "\<forall>v \<in> vertices vw. (M(u := True)) v \<longrightarrow> (R(u := min (R u) ?w)) v < INT_MAX" using f'(6) small by auto
  ultimately show ?thesis using A(2) B(2) f'(3,4) unfolding seeded_def case_prod_unfold
    by (intro exI [of _ ?st] conjI exI [of _ "M(u := True)"] exI [of _ N]) auto
qed

lemma PEval_seeds:
  assumes w: "whole_graph vw" and b: "bounded (vertices vw) (weighted vw name) W INT_MAX"
    and src: "Oid2Vertex (frag vw) label source_id = Some s" and s: "s \<in> vertices vw"
  shows "\<exists>st R U. PEval vw label source_id name (sssp_init vw base) = Some st \<and> between vw st R U True \<and>
    steady_marks (vertices vw) (weighted vw name) INT_MAX s R U"
proof -
  let ?V = "vertices vw" and ?E = "weighted vw name" and ?R = "(\<lambda>v. INT_MAX)(s := 0)"
  obtain A where A: "write_at (frag vw) (result (sssp_init vw base)) s 0 = Some A" "array_holds vw A ?R"
    using holds_write [OF arrays_hold [OF w], of s base INT_MAX 0] s by (auto simp: sssp_init_def)
  let ?st = "(sssp_init vw base)\<lparr>result := A\<rparr>"
  have start: "seeded vw ?st (?R, \<lambda>v. False, False)"
    using A(2) arrays_hold [OF w] unfolding seeded_def prod.case
    by (intro exI [of _ "\<lambda>v. False"] conjI) (simp_all add: sssp_init_def)
  have "card ?V \<noteq> 0" using b s by (auto simp: bounded_def)
  then have "1 \<le> int (card ?V)" by linarith
  then have "1 * W \<le> int (card ?V) * W" by (rule mult_right_mono) (use b in \<open>simp add: bounded_def\<close>)
  then have W: "W < INT_MAX" using b by (simp add: bounded_def)
  let ?ps = "concat (map (\<lambda>e. map (Pair e) (out_edges vw s e)) [0..<e_labels vw])"
  let ?h = "\<lambda>p. offer 0 (case p of (e, u, g) \<Rightarrow> (u, edge_weight vw name e g))"
  have ex: "\<exists>st'. each (\<lambda>(e, x). peval_edge vw name e x) ?ps ?st = Some st' \<and> seeded vw st' (fold ?h ?ps (?R, \<lambda>v. False, False))"
  proof (rule each_follows [where rel = "seeded vw", OF start])
    fix p st1 a
    assume p: "p \<in> set ?ps" and st1: "seeded vw st1 a"
    obtain e u g where eug: "p = (e, u, g)" by (cases p)
    have mem: "(u, edge_weight vw name e g) \<in> set (?E s)" using p unfolding weighted_pairs eug by force
    have "edge_weight vw name e g \<le> W" using b s mem by (auto simp: bounded_def)
    then show "\<exists>st'. (case p of (e, x) \<Rightarrow> peval_edge vw name e x) st1 = Some st' \<and> seeded vw st' (?h p a)"
      using peval_edge_seeded [OF w st1 weighted_vertices [OF w s mem], of name e g] W by (simp add: eug)
  qed
  have eq: "fold ?h ?ps (?R, \<lambda>v. False, False) = fold (offer (?R s)) (?E s) (?R, \<lambda>v. False, False)"
    unfolding weighted_pairs fold_map comp_def by simp
  obtain R U m where run: "fold (offer (?R s)) (?E s) (?R, \<lambda>v. False, False) = (R, U, m)"
    by (cases "fold (offer (?R s)) (?E s) (?R, \<lambda>v. False, False)")
  obtain st where st: "each (\<lambda>(e, x). peval_edge vw name e x) ?ps ?st = Some st" "seeded vw st (R, U, m)"
    using ex unfolding eq run by blast
  have r: "reached ?E s ?R s" unfolding reached_def by (intro exI [of _ "[(s, 0)]"]) (simp add: trail.start)
  then have so: "sound ?V ?E INT_MAX s ?R" by (simp add: sound_def)
  note O = offers [OF b s so r subset_refl run]
  obtain M N where M: "array_holds vw (result st) R" "array_holds vw (updated st) M" "array_holds vw (updated_next st) N" "sent st = []"
    "\<forall>v. U v \<longrightarrow> M v" "\<forall>v \<in> ?V. M v \<longrightarrow> R v < INT_MAX" using st(2) by (auto simp: seeded_def)
  have "settled ?E INT_MAX R v" if "v \<in> ?V" "\<not> M v" for v
  proof -
    have "\<not> U v" using M(5) that(2) by blast
    then have Rv: "R v = ?R v" using O by (metis less_le)
    show ?thesis
    proof (cases "v = s")
      case True
      then show ?thesis using O Rv by (simp add: settled_def)
    next
      case False
      then show ?thesis using Rv by (simp add: settled_def)
    qed
  qed
  then have "steady_marks ?V ?E INT_MAX s R M" using O M(6) by (simp add: steady_marks_def)
  moreover have "PEval vw label source_id name (sssp_init vw base) = Some (st\<lparr>force_continue := True\<rparr>)"
    using src A(1) st(1) whole_inner [OF w s] by (simp add: PEval_def each_nested)
  moreover have "between vw (st\<lparr>force_continue := True\<rparr>) R M True" using M by (auto simp: between_def)
  ultimately show ?thesis by blast
qed

section \<open>Properties\<close>

lemma rounds_end:
  assumes w: "whole_graph vw" and b: "bounded (vertices vw) (weighted vw name) W INT_MAX" and s: "s \<in> vertices vw"
    and "steady_marks (vertices vw) (weighted vw name) INT_MAX s R U" and "between vw st R U c"
    and "\<not> c \<longrightarrow> (\<forall>v \<in> vertices vw. \<not> U v)" and d: "deliver [] = []"
  shows "\<exists>st' R' U'. rounds vw name deliver st = Some st' \<and> array_holds vw (result st') R' \<and>
    steady_marks (vertices vw) (weighted vw name) INT_MAX s R' U' \<and> (\<forall>v \<in> vertices vw. \<not> U' v)"
  using assms(4-6)
proof (induction "\<Sum>v \<in> vertices vw. nat (R v)" arbitrary: st R U c rule: less_induct)
  case less
  show ?case
  proof (cases c)
    case False
    then have "rounds vw name deliver st = Some st" using less.prems(2) by (subst rounds.simps) (simp add: between_def)
    then show ?thesis using less.prems False by (auto simp: between_def)
  next
    case True
    obtain R1 U1 m where run: "round_of (weighted vw name) (visit_order vw) R U = (R1, U1, m)" by (metis surj_pair)
    obtain st1 where st1: "IncEval vw name [] (st\<lparr>sent := [], force_continue := False\<rparr>) = Some st1" "between vw st1 R1 U1 m"
      using IncEval_follows [OF w b s less.prems(1,2) run] by blast
    have step: "rounds vw name deliver st = rounds vw name deliver st1"
      using less.prems(2) True st1(1) d by (subst rounds.simps) (simp add: between_def)
    note S = round_steady [OF b s less.prems(1) set_visit_order run]
    have none: "\<not> m \<longrightarrow> (\<forall>v \<in> vertices vw. \<not> U1 v)" using S(2,4) by blast
    show ?thesis
    proof (cases m)
      case True
      then have "(\<Sum>v \<in> vertices vw. nat (R1 v)) < (\<Sum>v \<in> vertices vw. nat (R v))"
        using round_decreases [OF b s less.prems(1) set_visit_order] run by simp
      from less.hyps [OF this S(1) st1(2) none] show ?thesis unfolding step .
    next
      case False
      then have "rounds vw name deliver st1 = Some st1" using st1(2) by (subst rounds.simps) (simp add: between_def)
      then show ?thesis unfolding step using S(1) st1(2) none False by (auto simp: between_def)
    qed
  qed
qed

text \<open>
C15: On a graph held by one fragment, with weights from 0 to \<open>W\<close> so small that no path reaches the greatest
\<^verbatim>\<open>int\<close>, the shortest path application ends, and the value of every vertex is the length of a
shortest walk from the source, or the greatest \<^verbatim>\<open>int\<close> exactly if there is none.
\<close>

theorem sssp_shortest:
  assumes w: "whole_graph vw" and b: "bounded (vertices vw) (weighted vw name) W INT_MAX"
    and src: "Oid2Vertex (frag vw) label source_id = Some s" and s: "s \<in> vertices vw" and d: "deliver [] = []"
  shows "\<exists>st. run_sssp vw base label source_id name deliver = Some st \<and>
    (\<forall>v \<in> vertices vw. \<exists>r. read_at (frag vw) (result st) v = Some r \<and>
      (\<forall>x. walk (weighted vw name) s v x \<longrightarrow> r \<le> x) \<and> (r = INT_MAX \<or> walk (weighted vw name) s v r) \<and>
      (r = INT_MAX \<longleftrightarrow> (\<nexists>x. walk (weighted vw name) s v x)))"
proof -
  obtain st R U where st: "PEval vw label source_id name (sssp_init vw base) = Some st" "between vw st R U True"
    "steady_marks (vertices vw) (weighted vw name) INT_MAX s R U" using PEval_seeds [OF w b src s] by blast
  obtain st' R' U' where st': "rounds vw name deliver st = Some st'" "array_holds vw (result st') R'"
    "steady_marks (vertices vw) (weighted vw name) INT_MAX s R' U'" "\<forall>v \<in> vertices vw. \<not> U' v"
    using rounds_end [where c = True and deliver = deliver, OF w b s st(3,2) _ d] by auto
  have "run_sssp vw base label source_id name deliver = Some st'" using st(1) st'(1) by (simp add: run_sssp_def)
  moreover have "read_at (frag vw) (result st') v = Some (R' v)" if "v \<in> vertices vw" for v by (rule holds_read [OF st'(2) that])
  ultimately show ?thesis using settled_shortest [OF b s st'(3,4)] by blast
qed

text \<open>Two vertices and an edge of length 5.\<close>

definition street :: app_view where
  "street = \<lparr>frag = pair_fragment\<lparr>max_inner_offsets := (\<lambda>l. 1), min_outer_offsets := (\<lambda>l. 36028797018963968)\<rparr>,
     tables = (\<lambda>l. pair_view), v_labels = 1, e_labels = 1, inner_list = (\<lambda>l. [2, 0]), outer_list = (\<lambda>l. []),
     out_edges = (\<lambda>v e. if v = 0 then [(2, \<lambda>i. 5)] else []), in_edges = (\<lambda>v e. if v = 2 then [0] else []),
     edge_prop_id = (\<lambda>e name. 0)\<rparr>"

lemma street_vertices: "vertices street = {0, 2}"
  by (auto simp: vertices_def street_def lessThan_Suc)

lemma street_edges: "weighted street ''km'' 0 = [(2, 5)]" "weighted street ''km'' 2 = []"
  by (simp_all add: weighted_def street_def edge_weight_def)

lemma street_handles:
  "\<forall>v \<in> {0, 2}. vertex_label (frag street) v = 0 \<and> inner_handle (frag street) v \<and>
     unat (GetOffset_of (frag street) v) < unat (GetMaxInnerVerticesNum (frag street) 0 + GetMaxOuterVerticesNum (frag street) 0)"
  "Oid2Vertex (frag street) 0 3 = Some 0"
  by code_simp+

lemma sssp_shortest_witness:
  "\<exists>st r. run_sssp street 8 0 3 ''km'' (\<lambda>ms. []) = Some st \<and> read_at (frag street) (result st) 2 = Some r \<and> r \<le> 5 \<and>
    walk (weighted street ''km'') 0 2 r"
proof -
  have lists: "inner_list street l = [2, 0]" "v_labels street = 1" "e_labels street = 1"
    "out_edges street 0 e = [(2, \<lambda>i. 5)]" "out_edges street 2 e = []" for l e
    by (simp_all add: street_def)
  have w: "whole_graph street" using street_handles(1) by (auto simp: whole_graph_def street_vertices lists)
  have b: "bounded (vertices street) (weighted street ''km'') 5 INT_MAX"
    by (simp add: bounded_def street_vertices street_edges INT_MAX_def)
  have s: "0 \<in> vertices street" and v: "2 \<in> vertices street" by (simp_all add: street_vertices)
  obtain st where st: "run_sssp street 8 0 3 ''km'' (\<lambda>ms. []) = Some st"
    "\<forall>v \<in> vertices street. \<exists>r. read_at (frag street) (result st) v = Some r \<and>
      (\<forall>x. walk (weighted street ''km'') 0 v x \<longrightarrow> r \<le> x) \<and> (r = INT_MAX \<or> walk (weighted street ''km'') 0 v r) \<and>
      (r = INT_MAX \<longleftrightarrow> (\<nexists>x. walk (weighted street ''km'') 0 v x))"
    using sssp_shortest [where deliver = "\<lambda>ms. []" and base = 8, OF w b street_handles(2) s] by auto
  have "walk (weighted street ''km'') 0 2 (0 + 5)"
    by (rule walk.step [OF walk.here]) (simp add: street_edges)
  then show ?thesis using st v by fastforce
qed

end
