(* ===== verification/Wcc.thy ===== *)
theory Wcc
  imports Sssp
begin

text \<open>
  The application for weakly connected components
  (\<^verbatim>\<open>analytical_engine/apps/gart/property_wcc.h\<close>): every vertex starts with its own
  identifier and takes the smaller ones of its neighbours along incoming edges.
\<close>

section \<open>The application\<close>

record wcc =
  comp_id :: "int arrays"
  wcc_sent :: "(u64 \<times> int) list"
  wcc_force :: bool

definition OID_MAX :: int where
  "OID_MAX = 2 ^ 63 - 1"

definition wcc_init :: "app_view \<Rightarrow> int \<Rightarrow> wcc" where
  "wcc_init vw base = \<lparr>comp_id = arrays_of vw base OID_MAX, wcc_sent = [], wcc_force = False\<rparr>"

text \<open>The loops over the vertices of every label.\<close>

definition all_vertices :: "app_view \<Rightarrow> u64 list" where
  "all_vertices vw = concat (map (\<lambda>l. inner_list vw l @ outer_list vw l) [0..<v_labels vw])"

definition each_inner :: "app_view \<Rightarrow> (u64 \<Rightarrow> 's \<Rightarrow> 's option) \<Rightarrow> 's \<Rightarrow> 's option" where
  "each_inner vw f = each (\<lambda>v_label. each f (inner_list vw v_label)) [0..<v_labels vw]"

definition each_outer :: "app_view \<Rightarrow> (u64 \<Rightarrow> 's \<Rightarrow> 's option) \<Rightarrow> 's \<Rightarrow> 's option" where
  "each_outer vw f = each (\<lambda>v_label. each f (outer_list vw v_label)) [0..<v_labels vw]"

definition own_id :: "app_view \<Rightarrow> u64 \<Rightarrow> wcc \<Rightarrow> wcc option" where
  "own_id vw src st = Option.bind (GetId (frag vw) src) (\<lambda>oid.
     map_option (\<lambda>A. st\<lparr>comp_id := A\<rparr>) (write_at (frag vw) (comp_id st) src oid))"

text \<open>An incoming edge from an inner vertex.\<close>

definition pull_edge :: "app_view \<Rightarrow> u64 \<Rightarrow> u64 \<Rightarrow> wcc \<Rightarrow> wcc option" where
  "pull_edge vw src dst st =
     (if IsInnerVertex (frag vw) dst then
        Option.bind (read_at (frag vw) (comp_id st) dst) (\<lambda>dst_data.
        Option.bind (read_at (frag vw) (comp_id st) src) (\<lambda>src_data.
          if dst_data < src_data then map_option (\<lambda>A. st\<lparr>comp_id := A\<rparr>) (write_at (frag vw) (comp_id st) src dst_data)
          else Some st))
      else Some st)"

definition inner_sweep :: "app_view \<Rightarrow> wcc \<Rightarrow> wcc option" where
  "inner_sweep vw = each_inner vw (\<lambda>src. each (\<lambda>e_label. each (pull_edge vw src) (in_edges vw src e_label)) [0..<e_labels vw])"

text \<open>The least value along the incoming edges of an outer vertex, sent if it is smaller than its own.\<close>

definition least_in :: "app_view \<Rightarrow> wcc \<Rightarrow> u64 \<Rightarrow> int \<Rightarrow> int option" where
  "least_in vw st dst new_data = map_option (\<lambda>x. if x < new_data then x else new_data) (read_at (frag vw) (comp_id st) dst)"

definition push_outer :: "app_view \<Rightarrow> u64 \<Rightarrow> wcc \<Rightarrow> wcc option" where
  "push_outer vw src st =
     Option.bind (read_at (frag vw) (comp_id st) src) (\<lambda>old_data.
     Option.bind (each (\<lambda>e_label. each (least_in vw st) (in_edges vw src e_label)) [0..<e_labels vw] old_data) (\<lambda>new_data.
       if new_data < old_data then
         map_option (\<lambda>A. st\<lparr>comp_id := A, wcc_sent := wcc_sent st @ [(src, new_data)]\<rparr>)
           (write_at (frag vw) (comp_id st) src new_data)
       else Some st))"

definition outer_sweep :: "app_view \<Rightarrow> wcc \<Rightarrow> wcc option" where
  "outer_sweep vw = each_outer vw (push_outer vw)"

definition wcc_PEval :: "app_view \<Rightarrow> wcc \<Rightarrow> wcc option" where
  "wcc_PEval vw st =
     Option.bind (each (own_id vw) (all_vertices vw) st) (\<lambda>st1.
     Option.bind (inner_sweep vw st1) (\<lambda>st2.
     Option.bind (outer_sweep vw st2) (\<lambda>st3. Some (st3\<lparr>wcc_force := True\<rparr>))))"

definition wcc_receive :: "app_view \<Rightarrow> u64 \<times> int \<Rightarrow> wcc \<Rightarrow> wcc option" where
  "wcc_receive vw = (\<lambda>(v, val) st.
     Option.bind (read_at (frag vw) (comp_id st) v) (\<lambda>old.
       if val < old then map_option (\<lambda>A. st\<lparr>comp_id := A\<rparr>) (write_at (frag vw) (comp_id st) v val) else Some st))"

definition wcc_IncEval :: "app_view \<Rightarrow> (u64 \<times> int) list \<Rightarrow> wcc \<Rightarrow> wcc option" where
  "wcc_IncEval vw messages st =
     Option.bind (each (wcc_receive vw) messages st) (\<lambda>st1. Option.bind (inner_sweep vw st1) (outer_sweep vw))"

text \<open>The worker, as for the shortest paths.\<close>

partial_function (option) wcc_rounds :: "app_view \<Rightarrow> ((u64 \<times> int) list \<Rightarrow> (u64 \<times> int) list) \<Rightarrow> wcc \<Rightarrow> wcc option" where
  [code]: "wcc_rounds vw deliver st =
     (if wcc_sent st = [] \<and> \<not> wcc_force st then Some st
      else Option.bind (wcc_IncEval vw (deliver (wcc_sent st)) (st\<lparr>wcc_sent := [], wcc_force := False\<rparr>)) (wcc_rounds vw deliver))"

definition run_wcc :: "app_view \<Rightarrow> int \<Rightarrow> ((u64 \<times> int) list \<Rightarrow> (u64 \<times> int) list) \<Rightarrow> wcc option" where
  "run_wcc vw base deliver = Option.bind (wcc_PEval vw (wcc_init vw base)) (wcc_rounds vw deliver)"

section \<open>Values on one fragment\<close>

text \<open>All loops succeed when their bodies do and keep an invariant.\<close>

lemma each_keeps:
  assumes "P s" and "\<And>x s. x \<in> set xs \<Longrightarrow> P s \<Longrightarrow> \<exists>s'. f x s = Some s' \<and> P s'"
  shows "\<exists>s'. each f xs s = Some s' \<and> P s'"
  using assms
proof (induction xs arbitrary: s)
  case (Cons x xs)
  obtain s1 where "f x s = Some s1" "P s1" using Cons.prems(1) Cons.prems(2) [of x s] by auto
  then show ?case using Cons.IH [of s1] Cons.prems(2) by simp
qed simp

lemma sweep_keeps:
  assumes "P s" and "\<And>src e dst s. src \<in> vertices vw \<Longrightarrow> e < e_labels vw \<Longrightarrow> dst \<in> set (in_edges vw src e) \<Longrightarrow> P s \<Longrightarrow>
    \<exists>s'. pull_edge vw src dst s = Some s' \<and> P s'"
  shows "\<exists>s'. inner_sweep vw s = Some s' \<and> P s'"
  unfolding inner_sweep_def each_inner_def
proof (rule each_keeps [where P = P, OF assms(1)], rule each_keeps [where P = P], assumption, rule each_keeps [where P = P], assumption,
    rule each_keeps [where P = P], assumption)
  fix l s1 src s2 e s3 dst s4
  assume "l \<in> set [0..<v_labels vw]" "src \<in> set (inner_list vw l)" "e \<in> set [0..<e_labels vw]" "dst \<in> set (in_edges vw src e)" "P s4"
  then show "\<exists>s'. pull_edge vw src dst s4 = Some s' \<and> P s'"
    by (intro assms(2)) (auto simp: vertices_def)
qed

text \<open>A graph in one fragment whose vertices all have an identifier.\<close>

definition identified :: "app_view \<Rightarrow> (u64 \<Rightarrow> int) \<Rightarrow> bool" where
  "identified vw oid \<longleftrightarrow> whole_graph vw \<and> (\<forall>l < v_labels vw. outer_list vw l = []) \<and>
     (\<forall>v \<in> vertices vw. GetId (frag vw) v = Some (oid v)) \<and>
     (\<forall>v \<in> vertices vw. \<forall>e < e_labels vw. set (in_edges vw v e) \<subseteq> vertices vw)"

text \<open>Values only go down, and that of a vertex without incoming edges stays.\<close>

definition id_kept :: "app_view \<Rightarrow> (u64 \<Rightarrow> int) \<Rightarrow> u64 \<Rightarrow> bool \<Rightarrow> wcc \<Rightarrow> bool" where
  "id_kept vw oid v b st \<longleftrightarrow> (\<exists>R. array_holds vw (comp_id st) R \<and> R v = oid v \<and> (\<forall>u \<in> vertices vw. R u \<le> oid u)) \<and>
     wcc_sent st = [] \<and> wcc_force st = b"

lemma pull_edge_kept:
  assumes i: "identified vw oid" and src: "src \<in> vertices vw" "e < e_labels vw" "dst \<in> set (in_edges vw src e)"
    and none: "\<And>e. e < e_labels vw \<Longrightarrow> in_edges vw v e = []" and k: "id_kept vw oid v b st"
  shows "\<exists>st'. pull_edge vw src dst st = Some st' \<and> id_kept vw oid v b st'"
proof -
  have w: "whole_graph vw" using i by (simp add: identified_def)
  have "set (in_edges vw src e) \<subseteq> vertices vw" using i src(1,2) unfolding identified_def by blast
  then have dst: "dst \<in> vertices vw" using src(3) by blast
  have ne: "src \<noteq> v" using src none by force
  obtain R where R: "array_holds vw (comp_id st) R" "R v = oid v" "\<forall>u \<in> vertices vw. R u \<le> oid u" using k by (auto simp: id_kept_def)
  obtain A where A: "write_at (frag vw) (comp_id st) src (R dst) = Some A" "array_holds vw A (R(src := R dst))"
    using holds_write [OF R(1) src(1)] by blast
  note rd = holds_read [OF R(1) dst] holds_read [OF R(1) src(1)]
  show ?thesis
  proof (cases "R dst < R src")
    case True
    have "R src \<le> oid src" using R(3) src(1) by blast
    then have "\<forall>u \<in> vertices vw. (R(src := R dst)) u \<le> oid u" using R(3) True by auto
    then have "id_kept vw oid v b (st\<lparr>comp_id := A\<rparr>)" using A(2) R(2) ne k
      unfolding id_kept_def by (intro conjI exI [of _ "R(src := R dst)"]) auto
    then show ?thesis using True rd A(1) whole_inner [OF w dst] by (simp add: pull_edge_def)
  next
    case False
    then show ?thesis using rd k whole_inner [OF w dst] by (simp add: pull_edge_def)
  qed
qed

lemma no_outer: "identified vw oid \<Longrightarrow> outer_sweep vw st = Some st"
proof -
  assume i: "identified vw oid"
  have "each (\<lambda>l. each (push_outer vw) (outer_list vw l)) ls st = Some st" if "set ls \<subseteq> {..<v_labels vw}" for ls
    using that i by (induction ls) (auto simp: identified_def)
  then show ?thesis by (simp add: outer_sweep_def each_outer_def lessThan_atLeast0)
qed

lemma own_ids:
  fixes st :: wcc
  assumes i: "identified vw oid" and start: "array_holds vw (comp_id st) (\<lambda>v. OID_MAX)"
  shows "\<exists>st'. each (own_id vw) (all_vertices vw) st = Some st' \<and> array_holds vw (comp_id st') oid \<and>
    wcc_sent st' = wcc_sent st \<and> wcc_force st' = wcc_force st"
proof -
  have all: "set (all_vertices vw) = vertices vw" using i by (auto simp: all_vertices_def vertices_def identified_def)
  let ?rel = "\<lambda>(s :: wcc) R. array_holds vw (comp_id s) R \<and> wcc_sent s = wcc_sent st \<and> wcc_force s = wcc_force st"
  let ?h = "\<lambda>v R. R(v := oid v)"
  have "\<exists>st'. each (own_id vw) (all_vertices vw) st = Some st' \<and> ?rel st' (fold ?h (all_vertices vw) (\<lambda>v. OID_MAX))"
  proof (rule each_follows [where rel = ?rel])
    show "?rel st (\<lambda>v. OID_MAX)" using start by simp
    fix v s R
    assume v: "v \<in> set (all_vertices vw)" and s: "?rel s R"
    obtain A where "write_at (frag vw) (comp_id s) v (oid v) = Some A" "array_holds vw A (R(v := oid v))"
      using holds_write [of vw "comp_id s" R v "oid v"] s v all by blast
    then show "\<exists>s'. own_id vw v s = Some s' \<and> ?rel s' (R(v := oid v))"
      using i v all s by (auto simp: own_id_def identified_def)
  qed
  moreover have "fold ?h vs R v = (if v \<in> set vs then oid v else R v)" for vs R v
    by (induction vs arbitrary: R) auto
  ultimately show ?thesis using all by (auto simp: array_holds_def)
qed

section \<open>Properties\<close>


text \<open>Two vertices with the identifiers 3 and 1 and an edge from the first to the second.\<close>

definition named_street :: app_view where
  "named_street = street\<lparr>frag := (frag street)\<lparr>vertex_ext_ids := (\<lambda>l. [3, 1])\<rparr>\<rparr>"

lemma named_street_handles:
  "\<forall>v \<in> {0, 2}. vertex_label (frag named_street) v = 0 \<and> inner_handle (frag named_street) v \<and>
     unat (GetOffset_of (frag named_street) v) <
       unat (GetMaxInnerVerticesNum (frag named_street) 0 + GetMaxOuterVerticesNum (frag named_street) 0) \<and>
     GetId (frag named_street) v = Some (if v = 0 then 3 else 1)"
  by code_simp


end
