(* ===== verification/Schema_Init.thy ===== *)
theory Schema_Init
  imports Prop_Paged Log_Lines "HOL-Library.AList"
begin

text \<open>
  The schema of the graph. A writer builds it from the mapping of tables to labels and from the types of the
  columns (\<^verbatim>\<open>init_graph_schema\<close> of
  \<^verbatim>\<open>vegito/src/framework/bench_runner.cc\<close>): the layouts by which it stores properties, and the
  tables it publishes (\<^verbatim>\<open>SchemaImpl\<close> of \<^verbatim>\<open>vegito/src/graph/graph_store.cc\<close>).
  A fragment computes the layouts again from what is published (\<open>Init\<close> of
  \<^verbatim>\<open>interfaces/fragment/gart_fragment.h\<close>). The mapping and the published tables are
  YAML and JSON, which libraries read and print; here they are the data they stand for.
\<close>

section \<open>The mapping\<close>

text \<open>\<open>conf_family\<close> is optional; the number of the property takes its place.\<close>

record prop_conf =
  conf_name :: string
  conf_column :: string
  conf_family :: "nat option"

record vertex_conf =
  v_type_name :: string
  v_source :: string
  v_id_field :: string
  v_mappings :: "prop_conf list"

record edge_conf =
  e_type_name :: string
  e_source_vertex :: string
  e_dest_vertex :: string
  e_source :: string
  e_mappings :: "prop_conf list"

text \<open>The columns of a table, name and type; a table that is missing has none.\<close>

type_synonym table = "string list list"

datatype schema_error = Type_Error | Column_Missing | Column_Malformed | Label_Missing | Family_Range

section \<open>What is built\<close>

text \<open>The maps of \<^verbatim>\<open>SchemaImpl\<close>; \<open>label2prop_offset\<close> is in the order of its keys.\<close>

record schema_impl =
  property_id_map :: "((string \<times> nat) \<times> nat) list"
  label2prop_offset :: "(nat \<times> nat) list"
  label_id_map :: "(string \<times> nat) list"
  dtype_map :: "nat \<times> nat \<Rightarrow> prop_type option"
  family_map :: "nat \<times> nat \<Rightarrow> nat option"
  family_offset_map :: "nat \<times> nat \<Rightarrow> nat option"
  edge_relation :: "nat \<Rightarrow> (nat \<times> nat) option"
  elabel_offset :: nat

record schema_state =
  graph_schema :: schema_impl
  prop_offset :: nat
  eprops :: "nat \<Rightarrow> eprop_schema"
  vprops :: "nat \<Rightarrow> vprop_schema"
  families :: "nat \<Rightarrow> column_family list"
  ext_dtype :: "nat \<Rightarrow> prop_type"

text \<open>A loop whose body may stop with an error.\<close>

primrec run_each :: "('x \<Rightarrow> 's \<Rightarrow> 'e + 's) \<Rightarrow> 'x list \<Rightarrow> 's \<Rightarrow> 'e + 's" where
  "run_each f [] s = Inr s"
| "run_each f (x # xs) s = and_then (f x s) (run_each f xs)"

section \<open>Types of columns\<close>

text \<open>\<^verbatim>\<open>s.rfind(p, 0) == 0\<close>\<close>

definition starts_with :: "string \<Rightarrow> string \<Rightarrow> bool" where
  "starts_with p s \<longleftrightarrow> take (length p) s = p"

definition sql_dtype :: "string \<Rightarrow> prop_type option" where
  "sql_dtype s =
     (if s = ''int'' \<or> s = ''integer'' then Some INT_T
      else if s = ''bigint'' then Some LONG
      else if s = ''float'' then Some FLOAT
      else if s = ''double'' \<or> s = ''double precision'' then Some DOUBLE
      else if starts_with ''varchar'' s \<or> s = ''character varying'' \<or> s = ''text'' then Some STRING
      else if s = ''timestamp'' \<or> starts_with ''timestamp('' s \<or> s = ''timestamp with time zone'' then Some TIMESTAMP
      else if s = ''timestamp without time zone'' then Some TIMESTAMP
      else if s = ''date'' then Some DATE
      else if s = ''time'' \<or> starts_with ''time('' s \<or> s = ''time without time zone'' then Some TIME
      else if s = ''time with time zone'' then Some TIME
      else if s = ''datetime'' \<or> starts_with ''datetime('' s then Some DATETIME
      else None)"

text \<open>The search for the column of a property; both assertions of the code end it.\<close>

fun column_dtype :: "table \<Rightarrow> string \<Rightarrow> schema_error + prop_type" where
  "column_dtype [] name = Inl Column_Missing"
| "column_dtype (c # cs) name =
     (if length c \<noteq> 2 then Inl Column_Malformed
      else if c ! 0 = name then (case sql_dtype (c ! 1) of None \<Rightarrow> Inl Type_Error | Some t \<Rightarrow> Inr t)
      else column_dtype cs name)"

text \<open>The type of the external identifier: a text, or a number.\<close>

fun external_dtype :: "table \<Rightarrow> string \<Rightarrow> schema_error + prop_type option" where
  "external_dtype [] name = Inr None"
| "external_dtype (c # cs) name =
     (if length c < 2 then Inl Column_Malformed
      else if c ! 0 = name then
        Inr (Some (if starts_with ''varchar'' (c ! 1) \<or> c ! 1 = ''character varying'' \<or> c ! 1 = ''text'' then STRING else LONG))
      else external_dtype cs name)"

section \<open>The properties of a label\<close>

definition note_dtype :: "nat \<Rightarrow> nat \<Rightarrow> prop_type \<Rightarrow> schema_impl \<Rightarrow> schema_impl" where
  "note_dtype l idx t S = S\<lparr>dtype_map := (dtype_map S)((l, idx) \<mapsto> t)\<rparr>"

definition note_prop :: "string \<Rightarrow> nat \<Rightarrow> nat \<Rightarrow> schema_impl \<Rightarrow> schema_impl" where
  "note_prop name l pid S = S\<lparr>property_id_map := AList.update (name, l) pid (property_id_map S)\<rparr>"

text \<open>The state of the loop over the properties: the tables and \<^verbatim>\<open>prop_offset\<close>, and what is built for the label.\<close>

definition edge_prop ::
  "table \<Rightarrow> nat \<Rightarrow> nat \<times> prop_conf \<Rightarrow> schema_impl \<times> nat \<times> eprop_schema \<times> nat \<Rightarrow>
   schema_error + schema_impl \<times> nat \<times> eprop_schema \<times> nat" where
  "edge_prop tab l = (\<lambda>(idx, p) (S, pid, sch, prefix).
     and_then (column_dtype tab (toLowerCase (conf_column p))) (\<lambda>t.
       Inr (note_prop (conf_name p) l pid (note_dtype l idx t S), pid + 1,
         sch\<lparr>prop_dtype := (prop_dtype sch)(idx := t), prop_prefix_bytes := (prop_prefix_bytes sch)(idx := prefix)\<rparr>,
         prefix + prop_width t)))"

definition vertex_prop ::
  "table \<Rightarrow> nat \<Rightarrow> nat \<times> prop_conf \<Rightarrow> schema_impl \<times> nat \<times> vprop_schema \<times> (column_family \<times> bool) list \<Rightarrow>
   schema_error + schema_impl \<times> nat \<times> vprop_schema \<times> (column_family \<times> bool) list" where
  "vertex_prop tab l = (\<lambda>(idx, p) (S, pid, sch, info).
     let cf = (case conf_family p of None \<Rightarrow> idx | Some c \<Rightarrow> c) in
     if length info \<le> cf then Inl Family_Range
     else
       let c = fst (info ! cf) in
       and_then (column_dtype tab (toLowerCase (conf_column p))) (\<lambda>t.
         Inr (note_prop (conf_name p) l pid (note_dtype l idx t
             (S\<lparr>family_map := (family_map S)((l, idx) \<mapsto> cf), family_offset_map := (family_offset_map S)((l, idx) \<mapsto> vlen c)\<rparr>)),
           pid + 1,
           sch\<lparr>prop_cf := prop_cf sch @ [cf], prop_cf_offset := prop_cf_offset sch @ [vlen c],
             prop_cf_id := prop_cf_id sch @ [column_num c], vprop_dtype := (vprop_dtype sch)(idx := t)\<rparr>,
           info[cf := (c\<lparr>column_num := column_num c + 1, vlen := vlen c + prop_width t\<rparr>, True)])))"

definition no_eprops :: eprop_schema where
  "no_eprops = \<lparr>prop_total_bytes = 0, edge_bitmap_size = 0, prop_dtype = (\<lambda>i. INVALID), prop_prefix_bytes = (\<lambda>i. 0)\<rparr>"

definition no_vprops :: vprop_schema where
  "no_vprops = \<lparr>prop_cf = [], prop_cf_offset = [], prop_cf_id = [], vprop_dtype = (\<lambda>i. INVALID)\<rparr>"

text \<open>Where the properties of a label start, if it has any.\<close>

definition open_label :: "nat \<Rightarrow> nat \<Rightarrow> schema_impl \<Rightarrow> nat \<Rightarrow> schema_impl" where
  "open_label l n S pid = (if n \<noteq> 0 then S\<lparr>label2prop_offset := label2prop_offset S @ [(l, pid)]\<rparr> else S)"

definition vertex_label_step :: "(string \<Rightarrow> table) \<Rightarrow> nat \<times> vertex_conf \<Rightarrow> schema_state \<Rightarrow> schema_error + schema_state" where
  "vertex_label_step tabs = (\<lambda>(l, v) st.
     let ps = v_mappings v; tab = tabs (toLowerCase (v_source v));
         info = replicate (length ps) (\<lparr>vlen = 0, page_size = 0, column_num = 0\<rparr>, False)
     in
       and_then (run_each (vertex_prop tab l) (enumerate 0 ps)
           (open_label l (length ps) (graph_schema st) (prop_offset st), prop_offset st, no_vprops, info))
         (\<lambda>(S, pid, sch, info).
       and_then (external_dtype tab (v_id_field v)) (\<lambda>ext.
         Inr (st\<lparr>graph_schema := S, prop_offset := pid, vprops := (vprops st)(l := sch),
           families := (families st)(l := map fst (filter snd info)),
           ext_dtype := (case ext of None \<Rightarrow> ext_dtype st | Some t \<Rightarrow> (ext_dtype st)(l := t))\<rparr>))))"

definition edge_label_step :: "(string \<Rightarrow> table) \<Rightarrow> nat \<Rightarrow> nat \<times> edge_conf \<Rightarrow> schema_state \<Rightarrow> schema_error + schema_state" where
  "edge_label_step tabs vlabel_num = (\<lambda>(i, e) st.
     let ps = e_mappings e; tab = tabs (toLowerCase (e_source e)); l = i + vlabel_num in
       and_then (run_each (edge_prop tab l) (enumerate 0 ps)
           (open_label l (length ps) (graph_schema st) (prop_offset st), prop_offset st,
            no_eprops\<lparr>edge_bitmap_size := BYTE_SIZE (length ps)\<rparr>, 0))
         (\<lambda>(S, pid, sch, prefix).
         Inr (st\<lparr>graph_schema := S, prop_offset := pid, eprops := (eprops st)(i := sch\<lparr>prop_total_bytes := prefix\<rparr>)\<rparr>)))"

section \<open>All labels\<close>

text \<open>
  The labels are the vertex types and then the edge types, in order. \<^verbatim>\<open>vertex_name_id_map\<close> keeps
  the first label of a name, \<open>label_id_map\<close> the last.
\<close>

definition vertex_name_id :: "vertex_conf list \<Rightarrow> string \<Rightarrow> nat option" where
  "vertex_name_id vs = map_of (map (\<lambda>(l, v). (v_type_name v, l)) (enumerate 0 vs))"

definition name_vertices :: "vertex_conf list \<Rightarrow> schema_impl \<Rightarrow> schema_impl" where
  "name_vertices vs S = S\<lparr>label_id_map := fold (\<lambda>(l, v). AList.update (v_type_name v) l) (enumerate 0 vs) (label_id_map S)\<rparr>"

definition name_edge :: "vertex_conf list \<Rightarrow> nat \<times> edge_conf \<Rightarrow> schema_impl \<Rightarrow> schema_error + schema_impl" where
  "name_edge vs = (\<lambda>(i, e) S.
     case (vertex_name_id vs (e_source_vertex e), vertex_name_id vs (e_dest_vertex e)) of
       (Some src, Some dst) \<Rightarrow>
         Inr (S\<lparr>label_id_map := AList.update (e_type_name e) (i + length vs) (label_id_map S),
           edge_relation := (edge_relation S)(i + length vs \<mapsto> (src, dst))\<rparr>)
     | _ \<Rightarrow> Inl Label_Missing)"

definition empty_schema :: "nat \<Rightarrow> schema_impl" where
  "empty_schema vlabel_num = \<lparr>property_id_map = [], label2prop_offset = [], label_id_map = [], dtype_map = (\<lambda>k. None),
     family_map = (\<lambda>k. None), family_offset_map = (\<lambda>k. None), edge_relation = (\<lambda>k. None), elabel_offset = vlabel_num\<rparr>"

definition init_graph_schema ::
  "(string \<Rightarrow> table) \<Rightarrow> vertex_conf list \<Rightarrow> edge_conf list \<Rightarrow> schema_error + schema_state" where
  "init_graph_schema tabs vs es =
     and_then (run_each (name_edge vs) (enumerate 0 es) (name_vertices vs (empty_schema (length vs)))) (\<lambda>S.
     and_then (run_each (vertex_label_step tabs) (enumerate 0 vs)
         \<lparr>graph_schema = S, prop_offset = 0, eprops = (\<lambda>l. no_eprops), vprops = (\<lambda>l. no_vprops),
          families = (\<lambda>l. []), ext_dtype = (\<lambda>l. INVALID)\<rparr>) (\<lambda>st.
       run_each (edge_label_step tabs (length vs)) (enumerate 0 es) st))"

section \<open>Publishing the schema\<close>

record prop_def =
  pd_id :: nat
  pd_name :: string
  pd_dtype :: prop_type
  pd_family :: int
  pd_offset :: int

record type_def =
  td_id :: nat
  td_label :: string
  td_props :: "prop_def list"
  td_vertex :: bool
  td_src :: string
  td_dst :: string

definition new_prop_def :: prop_def where
  "new_prop_def = \<lparr>pd_id = 0, pd_name = [], pd_dtype = INVALID, pd_family = 0, pd_offset = 0\<rparr>"

definition new_type_def :: type_def where
  "new_type_def = \<lparr>td_id = 0, td_label = [], td_props = [], td_vertex = False, td_src = [], td_dst = []\<rparr>"

text \<open>\<open>None\<close> is an index outside a vector, a key that is missing from a map, or a failed assertion.\<close>

primrec name_props :: "((string \<times> nat) \<times> nat) list \<Rightarrow> prop_def list \<Rightarrow> prop_def list option" where
  "name_props [] props = Some props"
| "name_props (e # es) props =
     (case e of ((pname, l), pid) \<Rightarrow>
       if pid < length props then name_props es (props[pid := (props ! pid)\<lparr>pd_id := pid, pd_name := pname\<rparr>]) else None)"

definition type_prop :: "schema_impl \<Rightarrow> nat \<Rightarrow> nat \<Rightarrow> nat \<Rightarrow> prop_def list \<Rightarrow> prop_def list option" where
  "type_prop S l pid_begin i props =
     (if pid_begin + i < length props then
        Option.bind (dtype_map S (l, i)) (\<lambda>t.
          if l < elabel_offset S then
            Option.bind (family_map S (l, i)) (\<lambda>cf.
            Option.bind (family_offset_map S (l, i)) (\<lambda>off.
              Some (props[pid_begin + i := (props ! (pid_begin + i))\<lparr>pd_dtype := t, pd_family := int cf, pd_offset := int off\<rparr>])))
          else Some (props[pid_begin + i := (props ! (pid_begin + i))\<lparr>pd_dtype := t, pd_family := - 1, pd_offset := - 1\<rparr>]))
      else None)"

primrec type_props :: "schema_impl \<Rightarrow> nat \<Rightarrow> nat \<Rightarrow> nat list \<Rightarrow> prop_def list \<Rightarrow> prop_def list option" where
  "type_props S l pid_begin [] props = Some props"
| "type_props S l pid_begin (i # is) props = Option.bind (type_prop S l pid_begin i props) (type_props S l pid_begin is)"

text \<open>The range of a label: to the start of the next one that has properties.\<close>

definition prop_range :: "schema_impl \<Rightarrow> nat \<Rightarrow> nat \<Rightarrow> nat \<times> nat" where
  "prop_range S l prop_num =
     (case map_of (label2prop_offset S) l of
        None \<Rightarrow> (0, 0)
      | Some b \<Rightarrow> (b, case find (\<lambda>(k, v). l + 1 \<le> k) (label2prop_offset S) of Some (k, v) \<Rightarrow> v | None \<Rightarrow> prop_num))"

definition relation_of :: "schema_impl \<Rightarrow> nat \<Rightarrow> type_def list \<Rightarrow> (string \<times> string) option" where
  "relation_of S l types =
     (if l < elabel_offset S then Some ([], [])
      else Option.bind (edge_relation S l) (\<lambda>(s, d).
        if s < length types \<and> d < length types \<and> td_label (types ! s) \<noteq> [] \<and> td_label (types ! d) \<noteq> []
        then Some (td_label (types ! s), td_label (types ! d)) else None))"

definition fill_type ::
  "schema_impl \<Rightarrow> nat \<times> string \<Rightarrow> type_def list \<times> prop_def list \<Rightarrow> (type_def list \<times> prop_def list) option" where
  "fill_type S = (\<lambda>(l, label) (types, props).
     if length types \<le> l then None
     else case prop_range S l (length props) of (b, e) \<Rightarrow>
       Option.bind (type_props S l b [0..<e - b] props) (\<lambda>props'.
       let named = types[l := (types ! l)\<lparr>td_id := l, td_label := label, td_props := take (e - b) (drop b props')\<rparr>] in
       Option.bind (relation_of S l named) (\<lambda>(src, dst).
         Some (named[l := (named ! l)\<lparr>td_vertex := l < elabel_offset S, td_src := src, td_dst := dst\<rparr>], props'))))"

primrec fill_types ::
  "schema_impl \<Rightarrow> (nat \<times> string) list \<Rightarrow> type_def list \<times> prop_def list \<Rightarrow> (type_def list \<times> prop_def list) option" where
  "fill_types S [] st = Some st"
| "fill_types S (x # xs) st = Option.bind (fill_type S x st) (fill_types S xs)"

definition fill_json :: "schema_impl \<Rightarrow> type_def list option" where
  "fill_json S =
     (let labels = sort_key fst (map (\<lambda>(label, l). (l, label)) (label_id_map S)) in
      if \<not> distinct (map fst labels) then None
      else
        Option.bind (name_props (property_id_map S) (replicate (length (property_id_map S)) new_prop_def)) (\<lambda>props.
          map_option fst (fill_types S labels (replicate (length (label_id_map S)) new_type_def, props))))"

text \<open>The name of a type in the JSON: \<^verbatim>\<open>type_str\<close>, indexed by the enumeration.\<close>

definition type_str :: "prop_type \<Rightarrow> string" where
  "type_str t = (case t of INVALID \<Rightarrow> ''INVALID'' | BOOL \<Rightarrow> ''BOOL'' | CHAR_T \<Rightarrow> ''CHAR'' | SHORT \<Rightarrow> ''SHORT'' | INT_T \<Rightarrow> ''INT''
     | LONG \<Rightarrow> ''LONG'' | FLOAT \<Rightarrow> ''FLOAT'' | DOUBLE \<Rightarrow> ''DOUBLE'' | STRING \<Rightarrow> ''STRING'' | BYTES \<Rightarrow> ''BYTES''
     | INT_LIST \<Rightarrow> ''INT_LIST'' | LONG_LIST \<Rightarrow> ''LONG_LIST'' | FLOAT_LIST \<Rightarrow> ''FLOAT_LIST'' | DOUBLE_LIST \<Rightarrow> ''DOUBLE_LIST''
     | STRING_LIST \<Rightarrow> ''STRING_LIST'' | DATE \<Rightarrow> ''DATE'' | DATETIME \<Rightarrow> ''DATETIME'' | TIME \<Rightarrow> ''TIME'' | TIMESTAMP \<Rightarrow> ''TIMESTAMP'')"

section \<open>What a fragment computes\<close>

text \<open>The type a name stands for, with its size; any other is fatal.\<close>

definition dtype_named :: "string \<Rightarrow> (prop_type \<times> nat) option" where
  "dtype_named s =
     (if s = ''INT'' then Some (INT_T, 4) else if s = ''FLOAT'' then Some (FLOAT, 4)
      else if s = ''DOUBLE'' then Some (DOUBLE, 8) else if s = ''LONG'' then Some (LONG, 8)
      else if s = ''CHAR'' then Some (CHAR_T, 1) else if s = ''STRING'' then Some (STRING, 8)
      else if s = ''DATE'' then Some (DATE, 4) else if s = ''DATETIME'' then Some (DATETIME, 8)
      else if s = ''TIME'' then Some (TIME, 8) else if s = ''TIMESTAMP'' then Some (TIMESTAMP, 22) else None)"

primrec read_edge_props :: "prop_def list \<Rightarrow> nat list \<times> prop_type list \<Rightarrow> (nat list \<times> prop_type list) option" where
  "read_edge_props [] st = Some st"
| "read_edge_props (p # ps) st =
     (case st of (offsets, dtypes) \<Rightarrow>
       let accum_offset = (if offsets \<noteq> [] then last offsets else 0) in
       case dtype_named (type_str (pd_dtype p)) of
         None \<Rightarrow> None
       | Some (t, n) \<Rightarrow> read_edge_props ps (offsets @ [accum_offset + n], dtypes @ [t]))"

text \<open>Null bits, ends of the fields, types, and the numbers of the names.\<close>

definition read_edge_type :: "type_def \<Rightarrow> (nat \<times> nat list \<times> prop_type list) option" where
  "read_edge_type td =
     Option.bind (read_edge_props (td_props td) ([], [])) (\<lambda>(offsets, dtypes). Some (BYTE_SIZE (length (td_props td)), offsets, dtypes))"

text \<open>For a vertex label: families, offsets and numbers in the family of the properties, and per family its number and bytes.\<close>

type_synonym vertex_layout = "nat list \<times> nat list \<times> nat list \<times> nat list \<times> nat list"

definition read_vertex_prop :: "prop_def \<Rightarrow> vertex_layout \<Rightarrow> vertex_layout option" where
  "read_vertex_prop p = (\<lambda>(cfs, offs, ids, nums, lens).
     let cf = nat (pd_family p) in
     if length nums \<le> cf \<or> pd_family p < 0 then None
     else case dtype_named (type_str (pd_dtype p)) of
         None \<Rightarrow> None
       | Some (t, n) \<Rightarrow> Some (cfs @ [cf], offs @ [nat (pd_offset p)], ids @ [nums ! cf], nums[cf := nums ! cf + 1], lens[cf := lens ! cf + n]))"

primrec read_vertex_props :: "prop_def list \<Rightarrow> vertex_layout \<Rightarrow> vertex_layout option" where
  "read_vertex_props [] st = Some st"
| "read_vertex_props (p # ps) st = Option.bind (read_vertex_prop p st) (read_vertex_props ps)"

definition read_vertex_type :: "type_def \<Rightarrow> vertex_layout option" where
  "read_vertex_type td =
     (let n = length (td_props td) in read_vertex_props (td_props td) ([], [], [], replicate n 0, replicate n 0))"

text \<open>\<open>edge_name2prop_\<close> keeps the first property of a name.\<close>

definition GetEdgePropId :: "type_def \<Rightarrow> string \<Rightarrow> int" where
  "GetEdgePropId td name =
     (case find (\<lambda>(i, p). pd_name p = name) (enumerate 0 (td_props td)) of None \<Rightarrow> - 1 | Some (i, p) \<Rightarrow> int i)"

end
