(* ===== verification/Schema_Agree.thy ===== *)
theory Schema_Agree
  imports Schema_Init
begin

text \<open>
  The writer and the fragments agree on the layouts: what a fragment computes from the published schema is
  what the writer built from the mapping. The lemmas give the state after each loop of
  \<open>init_graph_schema\<close> in closed form, then what \<open>fill_json\<close> makes of it.
\<close>

section \<open>Loops\<close>

lemma run_each_snoc: "run_each f (xs @ [x]) s = and_then (run_each f xs s) (f x)"
  by (induction xs arbitrary: s) (auto simp: and_then_def split: sum.splits)

lemma enumerate_snoc: "enumerate k (xs @ [x]) = enumerate k xs @ [(k + length xs, x)]"
  by (simp add: enumerate_append_eq)

lemma update_fresh: "k \<notin> fst ` set al \<Longrightarrow> AList.update k v al = al @ [(k, v)]"
  by (induction al) auto

section \<open>The properties of a label\<close>

text \<open>Their entries in \<open>property_id_map\<close>, and what the type map gets.\<close>

definition keyed :: "nat \<Rightarrow> nat \<Rightarrow> prop_conf list \<Rightarrow> ((string \<times> nat) \<times> nat) list" where
  "keyed l pid ps = map (\<lambda>(i, p). ((conf_name p, l), pid + i)) (enumerate 0 ps)"

lemma keyed_snoc: "keyed l pid (ps @ [p]) = keyed l pid ps @ [((conf_name p, l), pid + length ps)]"
  by (simp add: keyed_def enumerate_snoc)

lemma keyed_keys: "fst ` set (keyed l pid ps) = (\<lambda>p. (conf_name p, l)) ` set ps"
  by (induction ps rule: rev_induct) (simp_all add: keyed_snoc, simp add: keyed_def)

definition also_at :: "nat \<Rightarrow> 'a list \<Rightarrow> (nat \<times> nat \<Rightarrow> 'a option) \<Rightarrow> nat \<times> nat \<Rightarrow> 'a option" where
  "also_at l xs m k = (if fst k = l \<and> snd k < length xs then Some (xs ! snd k) else m k)"

lemma also_at_Nil [simp]: "also_at l [] m = m"
  by (rule ext) (simp add: also_at_def)

lemma also_at_snoc: "(also_at l xs m)((l, length xs) \<mapsto> x) = also_at l (xs @ [x]) m"
  by (rule ext) (auto simp: also_at_def nth_append)

text \<open>The sum of the widths of the first fields.\<close>

definition ends :: "prop_type list \<Rightarrow> nat" where
  "ends ts = sum_list (map prop_width ts)"

lemma ends_simps [simp]: "ends [] = 0" "ends (ts @ [t]) = ends ts + prop_width t"
  by (simp_all add: ends_def)

definition sized :: "prop_type \<Rightarrow> bool" where
  "sized t \<longleftrightarrow> dtype_named (type_str t) = Some (t, prop_width t)"

lemma column_dtype_sized: "column_dtype tab name = Inr t \<Longrightarrow> sized t"
proof (induction tab name rule: column_dtype.induct)
  case (2 c cs name)
  have "sql_dtype s = Some t \<Longrightarrow> sized t" for s
    by (auto simp: sql_dtype_def sized_def type_str_def dtype_named_def prop_width_def split: if_splits)
  then show ?case using 2 by (auto split: if_splits option.splits)
qed simp

lemma note_fresh:
  "(name, l) \<notin> fst ` set (property_id_map S) \<Longrightarrow>
     note_prop name l pid S = S\<lparr>property_id_map := property_id_map S @ [((name, l), pid)]\<rparr>"
  by (simp add: note_prop_def update_fresh)

lemma edge_props_run:
  assumes "run_each (edge_prop tab l) (enumerate 0 ps) (S, pid, sch, 0) = Inr (S', pid', sch', prefix')"
    and "distinct (map conf_name ps)" and "\<And>name. (name, l) \<notin> fst ` set (property_id_map S)"
  shows "\<exists>ts. length ts = length ps \<and> pid' = pid + length ps \<and> prefix' = ends ts \<and> (\<forall>t \<in> set ts. sized t) \<and>
    (\<forall>i < length ps. prop_dtype sch' i = ts ! i \<and> prop_prefix_bytes sch' i = ends (take i ts)) \<and>
    edge_bitmap_size sch' = edge_bitmap_size sch \<and>
    S' = S\<lparr>property_id_map := property_id_map S @ keyed l pid ps, dtype_map := also_at l ts (dtype_map S)\<rparr>"
  using assms(1,2)
proof (induction ps arbitrary: S' pid' sch' prefix' rule: rev_induct)
  case Nil
  then show ?case by (intro exI [of _ "[]"]) (simp add: keyed_def ends_def)
next
  case (snoc p ps)
  obtain S1 pid1 sch1 pre1 where r1: "run_each (edge_prop tab l) (enumerate 0 ps) (S, pid, sch, 0) = Inr (S1, pid1, sch1, pre1)"
    and r2: "edge_prop tab l (length ps, p) (S1, pid1, sch1, pre1) = Inr (S', pid', sch', prefix')"
    using snoc.prems(1) by (auto simp: enumerate_snoc run_each_snoc and_then_Inr)
  obtain ts where ts: "length ts = length ps" "pid1 = pid + length ps" "pre1 = ends ts" "\<forall>t \<in> set ts. sized t"
    "\<forall>i < length ps. prop_dtype sch1 i = ts ! i \<and> prop_prefix_bytes sch1 i = ends (take i ts)"
    "edge_bitmap_size sch1 = edge_bitmap_size sch"
    "S1 = S\<lparr>property_id_map := property_id_map S @ keyed l pid ps, dtype_map := also_at l ts (dtype_map S)\<rparr>"
    using snoc.IH [OF r1] snoc.prems(2) by auto
  obtain t where t: "column_dtype tab (toLowerCase (conf_column p)) = Inr t"
    and eqs: "S' = note_prop (conf_name p) l pid1 (note_dtype l (length ps) t S1)" "pid' = pid1 + 1"
    "sch' = sch1\<lparr>prop_dtype := (prop_dtype sch1)(length ps := t), prop_prefix_bytes := (prop_prefix_bytes sch1)(length ps := pre1)\<rparr>"
    "prefix' = pre1 + prop_width t"
    using r2 by (auto simp: edge_prop_def and_then_Inr)
  have fresh: "(conf_name p, l) \<notin> fst ` set (property_id_map (note_dtype l (length ps) t S1))"
    using snoc.prems(2) assms(3) [of "conf_name p"] by (auto simp: note_dtype_def ts(7) image_Un keyed_keys)
  have "S' = S\<lparr>property_id_map := property_id_map S @ keyed l pid (ps @ [p]), dtype_map := also_at l (ts @ [t]) (dtype_map S)\<rparr>"
    unfolding eqs(1) note_fresh [OF fresh] unfolding note_dtype_def ts(7)
    using also_at_snoc [of l ts "dtype_map S" t] by (simp add: keyed_snoc ts(1,2))
  then show ?case
    using ts column_dtype_sized [OF t] eqs(2-4) by (intro exI [of _ "ts @ [t]"]) (auto simp: nth_append less_Suc_eq)
qed

text \<open>Bytes and number of the properties of a column family.\<close>

definition family_bytes :: "nat list \<Rightarrow> prop_type list \<Rightarrow> nat \<Rightarrow> nat" where
  "family_bytes cfs ts c = sum_list (map (\<lambda>(d, t). if d = c then prop_width t else 0) (zip cfs ts))"

lemma family_bytes_simps [simp]:
  "family_bytes [] [] c = 0"
  "length cfs = length ts \<Longrightarrow> family_bytes (cfs @ [d]) (ts @ [t]) c = family_bytes cfs ts c + (if d = c then prop_width t else 0)"
  by (simp_all add: family_bytes_def)

definition family_offsets :: "nat list \<Rightarrow> prop_type list \<Rightarrow> nat list" where
  "family_offsets cfs ts = map (\<lambda>i. family_bytes (take i cfs) (take i ts) (cfs ! i)) [0..<length cfs]"

definition family_ids :: "nat list \<Rightarrow> nat list" where
  "family_ids cfs = map (\<lambda>i. count_list (take i cfs) (cfs ! i)) [0..<length cfs]"

lemma family_snoc [simp]:
  "family_offsets [] [] = []" "family_ids [] = []" "length (family_offsets cfs ts) = length cfs" "length (family_ids cfs) = length cfs"
  "length cfs = length ts \<Longrightarrow> family_offsets (cfs @ [d]) (ts @ [t]) = family_offsets cfs ts @ [family_bytes cfs ts d]"
  "family_ids (cfs @ [d]) = family_ids cfs @ [count_list cfs d]"
  by (auto simp: family_offsets_def family_ids_def nth_append)

text \<open>What the loop knows of the families.\<close>

definition info_ok :: "nat list \<Rightarrow> prop_type list \<Rightarrow> (column_family \<times> bool) list \<Rightarrow> bool" where
  "info_ok cfs ts info \<longleftrightarrow> (\<forall>c < length info. vlen (fst (info ! c)) = family_bytes cfs ts c \<and>
     column_num (fst (info ! c)) = count_list cfs c \<and> page_size (fst (info ! c)) = 0 \<and> (snd (info ! c) \<longleftrightarrow> c \<in> set cfs))"

lemma vertex_props_run:
  assumes "run_each (vertex_prop tab l) (enumerate 0 ps) (S, pid, no_vprops, info) = Inr (S', pid', sch', info')"
    and "distinct (map conf_name ps)" and "\<And>name. (name, l) \<notin> fst ` set (property_id_map S)"
    and "info_ok [] [] info"
  shows "\<exists>cfs ts. length ts = length ps \<and> length cfs = length ps \<and> pid' = pid + length ps \<and> (\<forall>t \<in> set ts. sized t) \<and>
    (\<forall>i < length ps. vprop_dtype sch' i = ts ! i) \<and> prop_cf sch' = cfs \<and> prop_cf_offset sch' = family_offsets cfs ts \<and>
    prop_cf_id sch' = family_ids cfs \<and> length info' = length info \<and> (\<forall>c \<in> set cfs. c < length info) \<and> info_ok cfs ts info' \<and>
    S' = S\<lparr>property_id_map := property_id_map S @ keyed l pid ps, dtype_map := also_at l ts (dtype_map S),
      family_map := also_at l cfs (family_map S), family_offset_map := also_at l (family_offsets cfs ts) (family_offset_map S)\<rparr>"
  using assms(1,2)
proof (induction ps arbitrary: S' pid' sch' info' rule: rev_induct)
  case Nil
  then show ?case using assms(4) by (intro exI [of _ "[]"]) (auto simp: keyed_def no_vprops_def)
next
  case (snoc p ps)
  obtain S1 pid1 sch1 info1 where
    r1: "run_each (vertex_prop tab l) (enumerate 0 ps) (S, pid, no_vprops, info) = Inr (S1, pid1, sch1, info1)"
    and r2: "vertex_prop tab l (length ps, p) (S1, pid1, sch1, info1) = Inr (S', pid', sch', info')"
    using snoc.prems(1) by (auto simp: enumerate_snoc run_each_snoc and_then_Inr)
  obtain cfs ts where ts: "length ts = length ps" "length cfs = length ps" "pid1 = pid + length ps" "\<forall>t \<in> set ts. sized t"
    "\<forall>i < length ps. vprop_dtype sch1 i = ts ! i"
    and sch1: "prop_cf sch1 = cfs" "prop_cf_offset sch1 = family_offsets cfs ts" "prop_cf_id sch1 = family_ids cfs"
    and info1: "length info1 = length info" "\<forall>c \<in> set cfs. c < length info" "info_ok cfs ts info1"
    and S1: "S1 = S\<lparr>property_id_map := property_id_map S @ keyed l pid ps, dtype_map := also_at l ts (dtype_map S),
      family_map := also_at l cfs (family_map S), family_offset_map := also_at l (family_offsets cfs ts) (family_offset_map S)\<rparr>"
    using snoc.IH [OF r1] snoc.prems(2) by auto
  define cf where "cf = (case conf_family p of None \<Rightarrow> length ps | Some c \<Rightarrow> c)"
  let ?c = "fst (info1 ! cf)"
  obtain t where t: "column_dtype tab (toLowerCase (conf_column p)) = Inr t" and cf: "cf < length info1"
    and eqs: "S' = note_prop (conf_name p) l pid1 (note_dtype l (length ps) t
        (S1\<lparr>family_map := (family_map S1)((l, length ps) \<mapsto> cf), family_offset_map := (family_offset_map S1)((l, length ps) \<mapsto> vlen ?c)\<rparr>))"
    "pid' = pid1 + 1" "sch' = sch1\<lparr>prop_cf := prop_cf sch1 @ [cf], prop_cf_offset := prop_cf_offset sch1 @ [vlen ?c],
        prop_cf_id := prop_cf_id sch1 @ [column_num ?c], vprop_dtype := (vprop_dtype sch1)(length ps := t)\<rparr>"
    "info' = info1[cf := (?c\<lparr>column_num := column_num ?c + 1, vlen := vlen ?c + prop_width t\<rparr>, True)]"
    using r2 by (auto simp: vertex_prop_def and_then_Inr Let_def cf_def split: if_splits)
  have c: "vlen ?c = family_bytes cfs ts cf" "column_num ?c = count_list cfs cf" using info1(3) cf by (simp_all add: info_ok_def)
  let ?N = "note_dtype l (length ps) t
        (S1\<lparr>family_map := (family_map S1)((l, length ps) \<mapsto> cf), family_offset_map := (family_offset_map S1)((l, length ps) \<mapsto> vlen ?c)\<rparr>)"
  have fresh: "(conf_name p, l) \<notin> fst ` set (property_id_map ?N)"
    using snoc.prems(2) assms(3) [of "conf_name p"] by (auto simp: note_dtype_def S1 image_Un keyed_keys)
  have "S' = S\<lparr>property_id_map := property_id_map S @ keyed l pid (ps @ [p]), dtype_map := also_at l (ts @ [t]) (dtype_map S),
      family_map := also_at l (cfs @ [cf]) (family_map S),
      family_offset_map := also_at l (family_offsets (cfs @ [cf]) (ts @ [t])) (family_offset_map S)\<rparr>"
    unfolding eqs(1) note_fresh [OF fresh] unfolding note_dtype_def S1
    using also_at_snoc [of l ts "dtype_map S" t] also_at_snoc [of l cfs "family_map S" cf]
      also_at_snoc [of l "family_offsets cfs ts" "family_offset_map S" "family_bytes cfs ts cf"]
    by (simp add: keyed_snoc ts(1-3) c)
  moreover have "info_ok (cfs @ [cf]) (ts @ [t]) info'"
    using info1(3) cf c ts(1,2) unfolding eqs(4) info_ok_def by (auto simp: nth_list_update)
  ultimately show ?case
    using ts sch1 info1 cf c column_dtype_sized [OF t] eqs(2-4)
    by (intro exI [of _ "cfs @ [cf]"] exI [of _ "ts @ [t]"]) (auto simp: nth_append less_Suc_eq)
qed

section \<open>All labels\<close>

text \<open>The properties of the labels so far: name, type, family and offset in it, which edges do not have.\<close>

type_synonym described = "(string \<times> prop_type \<times> int \<times> int) list"

primrec keys_of :: "nat \<Rightarrow> described list \<Rightarrow> (string \<times> nat) list" where
  "keys_of k [] = []"
| "keys_of k (ds # D) = map (\<lambda>d. (fst d, k)) ds @ keys_of (Suc k) D"

lemma keys_of_snoc: "keys_of k (D @ [ds]) = keys_of k D @ map (\<lambda>d. (fst d, k + length D)) ds"
  by (induction D arbitrary: k) simp_all

lemma length_keys_of [simp]: "length (keys_of k D) = length (concat D)"
  by (induction D arbitrary: k) simp_all

lemma keys_of_label: "(n, l) \<in> set (keys_of k D) \<Longrightarrow> k \<le> l \<and> l < k + length D"
  by (induction D arbitrary: k) fastforce+

primrec label_starts :: "nat \<Rightarrow> nat \<Rightarrow> 'a list list \<Rightarrow> (nat \<times> nat) list" where
  "label_starts k b [] = []"
| "label_starts k b (ds # D) = (if ds = [] then [] else [(k, b)]) @ label_starts (Suc k) (b + length ds) D"

lemma label_starts_snoc:
  "label_starts k b (D @ [ds]) = label_starts k b D @ (if ds = [] then [] else [(k + length D, b + length (concat D))])"
  by (induction D arbitrary: k b) (simp_all add: add.assoc)

lemma label_starts_label: "l \<in> fst ` set (label_starts k b D) \<Longrightarrow> k \<le> l"
  by (induction D arbitrary: k b) (fastforce split: if_splits)+

lemma label_starts_at:
  "l < length D \<Longrightarrow> map_of (label_starts k b D) (k + l) = (if D ! l = [] then None else Some (b + length (concat (take l D))))"
proof (induction D arbitrary: k b l)
  case (Cons ds D)
  have "map_of (label_starts (Suc k) (b + length ds) D) k = None"
    using label_starts_label [of k "Suc k"] by (force simp: map_of_eq_None_iff)
  then show ?case using Cons.prems Cons.IH [of "l - 1" "Suc k" "b + length ds"] by (cases l) (auto simp: add.assoc)
qed simp

lemma label_starts_first:
  "m \<le> k \<Longrightarrow> n = b + length (concat D) \<Longrightarrow> (case find (\<lambda>(j, v). m \<le> j) (label_starts k b D) of Some (j, v) \<Rightarrow> v | None \<Rightarrow> n) = b"
proof (induction D arbitrary: k b)
  case (Cons ds D)
  then show ?case using Cons.IH [of "Suc k" "b + length ds"] by simp
qed simp

lemma label_starts_next:
  "k \<le> m \<Longrightarrow> n = b + length (concat D) \<Longrightarrow> (case find (\<lambda>(j, v). m \<le> j) (label_starts k b D) of Some (j, v) \<Rightarrow> v | None \<Rightarrow> n) =
     b + length (concat (take (m - k) D))"
proof (induction D arbitrary: k b)
  case (Cons ds D)
  show ?case
  proof (cases "m = k")
    case True
    then show ?thesis using label_starts_first [OF _ Cons.prems(2), of m k] by simp
  next
    case False
    then have "m - k = Suc (m - Suc k)" "\<not> m \<le> k" using Cons.prems by auto
    then show ?thesis using Cons.IH [of "Suc k" "b + length ds"] Cons.prems by (cases "ds = []") simp_all
  qed
qed simp

text \<open>The published tables hold the properties.\<close>

definition published :: "nat \<Rightarrow> schema_impl \<Rightarrow> nat \<Rightarrow> described list \<Rightarrow> bool" where
  "published nv S pid D \<longleftrightarrow> pid = length (concat D) \<and> property_id_map S = zip (keys_of 0 D) [0..<pid] \<and>
     label2prop_offset S = label_starts 0 0 D \<and>
     (\<forall>l < length D. \<forall>i < length (D ! l). case D ! l ! i of (n, t, c, off) \<Rightarrow>
        dtype_map S (l, i) = Some t \<and>
        (if l < nv then family_map S (l, i) = Some (nat c) \<and> family_offset_map S (l, i) = Some (nat off) \<and> 0 \<le> c \<and> 0 \<le> off
         else c = - 1 \<and> off = - 1))"

definition names_kept :: "schema_impl \<Rightarrow> schema_impl \<Rightarrow> bool" where
  "names_kept S S' \<longleftrightarrow> label_id_map S' = label_id_map S \<and> edge_relation S' = edge_relation S \<and> elabel_offset S' = elabel_offset S"

lemma published_fresh: "published nv S pid D \<Longrightarrow> (name, length D) \<notin> fst ` set (property_id_map S)"
  using keys_of_label [of name "length D" 0 D] by (auto simp: published_def dest: set_zip_leftD)

lemma keyed_zip: "keyed l pid ps = zip (map (\<lambda>p. (conf_name p, l)) ps) [pid..<pid + length ps]"
  by (induction ps rule: rev_induct) (simp add: keyed_def, simp add: keyed_snoc)

lemma published_step:
  assumes pub: "published nv S pid D" and l: "l = length D" and ds: "map fst ds = map conf_name ps"
    and S': "property_id_map S' = property_id_map S @ keyed l pid ps"
      "label2prop_offset S' = label2prop_offset (open_label l (length ps) S pid)" "dtype_map S' = also_at l (map (fst \<circ> snd) ds) (dtype_map S)"
      "\<And>k i. k \<noteq> l \<Longrightarrow> family_map S' (k, i) = family_map S (k, i)" "\<And>k i. k \<noteq> l \<Longrightarrow> family_offset_map S' (k, i) = family_offset_map S (k, i)"
    and fam: "\<And>i. i < length ds \<Longrightarrow> (case ds ! i of (n, t, c, off) \<Rightarrow>
        if l < nv then family_map S' (l, i) = Some (nat c) \<and> family_offset_map S' (l, i) = Some (nat off) \<and> 0 \<le> c \<and> 0 \<le> off
        else c = - 1 \<and> off = - 1)"
  shows "published nv S' (pid + length ps) (D @ [ds])"
proof -
  have len: "length ds = length ps" using ds by (metis length_map)
  have pid: "pid = length (concat D)" and pm: "property_id_map S = zip (keys_of 0 D) [0..<pid]" and lp: "label2prop_offset S = label_starts 0 0 D"
    using pub by (simp_all add: published_def)
  have "map (\<lambda>d. (fst d, l)) ds = map (\<lambda>p. (conf_name p, l)) ps"
    using arg_cong [OF ds, of "map (\<lambda>x. (x, l))"] by (simp add: comp_def)
  then have "keys_of 0 (D @ [ds]) = keys_of 0 D @ map (\<lambda>p. (conf_name p, l)) ps" by (simp add: keys_of_snoc l)
  moreover have "[0..<pid + length ps] = [0..<pid] @ [pid..<pid + length ps]" by (rule upt_add_eq_append) simp
  ultimately have "zip (keys_of 0 (D @ [ds])) [0..<pid + length ps] = property_id_map S'"
    using pid by (simp add: S'(1) pm keyed_zip)
  moreover have "label2prop_offset S' = label_starts 0 0 (D @ [ds])"
    using len by (auto simp: S'(2) open_label_def label_starts_snoc lp l pid)
  moreover have "case (D @ [ds]) ! k ! i of (n, t, c, off) \<Rightarrow> dtype_map S' (k, i) = Some t \<and>
        (if k < nv then family_map S' (k, i) = Some (nat c) \<and> family_offset_map S' (k, i) = Some (nat off) \<and> 0 \<le> c \<and> 0 \<le> off
         else c = - 1 \<and> off = - 1)"
    if "k < length (D @ [ds])" "i < length ((D @ [ds]) ! k)" for k i
  proof (cases "k = l")
    case True
    then have i: "i < length ds" "(D @ [ds]) ! k = ds" using that l by simp_all
    then have "dtype_map S' (k, i) = Some (fst (snd (ds ! i)))" by (simp add: S'(3) also_at_def True)
    then show ?thesis using fam [OF i(1)] i(2) True by (simp add: case_prod_unfold)
  next
    case False
    then have k: "k < length D" "(D @ [ds]) ! k = D ! k" using that l by (simp_all add: nth_append)
    have "dtype_map S' (k, i) = dtype_map S (k, i)" using False by (simp add: S'(3) also_at_def)
    then show ?thesis using pub k that(2) S'(4,5) [OF False] unfolding published_def by (simp add: case_prod_unfold)
  qed
  ultimately show ?thesis using pid len by (simp add: published_def)
qed

text \<open>What the writer keeps for a label.\<close>

definition edge_described :: "edge_conf \<Rightarrow> described \<Rightarrow> eprop_schema \<Rightarrow> bool" where
  "edge_described e ds sch \<longleftrightarrow> (\<exists>ts. length ts = length (e_mappings e) \<and> (\<forall>t \<in> set ts. sized t) \<and>
     ds = map (\<lambda>(p, t). (conf_name p, t, - 1, - 1)) (zip (e_mappings e) ts) \<and>
     edge_bitmap_size sch = BYTE_SIZE (length ts) \<and> prop_total_bytes sch = ends ts \<and>
     (\<forall>i < length ts. prop_dtype sch i = ts ! i \<and> prop_prefix_bytes sch i = ends (take i ts)))"

definition vertex_described :: "vertex_conf \<Rightarrow> described \<Rightarrow> vprop_schema \<Rightarrow> column_family list \<Rightarrow> bool" where
  "vertex_described v ds sch fams \<longleftrightarrow> (\<exists>cfs ts info. length ts = length (v_mappings v) \<and> length cfs = length ts \<and> (\<forall>t \<in> set ts. sized t) \<and>
     ds = map (\<lambda>(p, t, c, off). (conf_name p, t, int c, int off)) (zip (v_mappings v) (zip ts (zip cfs (family_offsets cfs ts)))) \<and>
     (\<forall>i < length ts. vprop_dtype sch i = ts ! i) \<and> prop_cf sch = cfs \<and> prop_cf_offset sch = family_offsets cfs ts \<and>
     prop_cf_id sch = family_ids cfs \<and> length info = length ts \<and> (\<forall>c \<in> set cfs. c < length ts) \<and> info_ok cfs ts info \<and>
     fams = map fst (filter snd info))"

lemma edge_label_run:
  assumes run: "edge_label_step tabs nv (i, e) st = Inr st'" and pub: "published nv (graph_schema st) (prop_offset st) D"
    and l: "length D = i + nv" and dn: "distinct (map conf_name (e_mappings e))"
  shows "\<exists>ds. published nv (graph_schema st') (prop_offset st') (D @ [ds]) \<and> edge_described e ds (eprops st' i) \<and>
    (\<forall>j. j \<noteq> i \<longrightarrow> eprops st' j = eprops st j) \<and> vprops st' = vprops st \<and> families st' = families st \<and>
    names_kept (graph_schema st) (graph_schema st')"
proof -
  let ?ps = "e_mappings e" and ?S = "open_label (i + nv) (length (e_mappings e)) (graph_schema st) (prop_offset st)"
  obtain S' pid' sch prefix where r: "run_each (edge_prop (tabs (toLowerCase (e_source e))) (i + nv)) (enumerate 0 ?ps)
      (?S, prop_offset st, no_eprops\<lparr>edge_bitmap_size := BYTE_SIZE (length ?ps)\<rparr>, 0) = Inr (S', pid', sch, prefix)"
    and st': "st' = st\<lparr>graph_schema := S', prop_offset := pid', eprops := (eprops st)(i := sch\<lparr>prop_total_bytes := prefix\<rparr>)\<rparr>"
    using run by (auto simp: edge_label_step_def Let_def and_then_Inr)
  have pm: "property_id_map ?S = property_id_map (graph_schema st)" by (simp add: open_label_def)
  have fresh: "(n, i + nv) \<notin> fst ` set (property_id_map ?S)" for n
    using published_fresh [OF pub, of n] by (simp add: pm l)
  obtain ts where ts: "length ts = length ?ps" "pid' = prop_offset st + length ?ps" "prefix = ends ts" "\<forall>t \<in> set ts. sized t"
    "\<forall>i < length ?ps. prop_dtype sch i = ts ! i \<and> prop_prefix_bytes sch i = ends (take i ts)" "edge_bitmap_size sch = BYTE_SIZE (length ?ps)"
    and S': "S' = ?S\<lparr>property_id_map := property_id_map ?S @ keyed (i + nv) (prop_offset st) ?ps, dtype_map := also_at (i + nv) ts (dtype_map ?S)\<rparr>"
    using edge_props_run [OF r dn fresh] by auto
  let ?ds = "map (\<lambda>(p, t). (conf_name p, t, - 1 :: int, - 1 :: int)) (zip ?ps ts)"
  have fsts: "map fst ?ds = map conf_name ?ps" "map (fst \<circ> snd) ?ds = ts"
    using ts(1) by (simp_all add: list_eq_iff_nth_eq)
  have "published nv S' (prop_offset st + length ?ps) (D @ [?ds])"
    by (rule published_step [OF pub l [symmetric] fsts(1)])
      (use fsts(2) in \<open>simp_all add: S' open_label_def\<close>)
  moreover have "edge_described e ?ds (sch\<lparr>prop_total_bytes := prefix\<rparr>)"
    unfolding edge_described_def using ts by (intro exI [of _ ts]) simp
  ultimately show ?thesis
    using ts(2) by (intro exI [of _ ?ds]) (auto simp: st' names_kept_def S' open_label_def)
qed

lemma vertex_label_run:
  assumes run: "vertex_label_step tabs (l, v) st = Inr st'" and pub: "published nv (graph_schema st) (prop_offset st) D"
    and l: "length D = l" "l < nv" and dn: "distinct (map conf_name (v_mappings v))"
  shows "\<exists>ds. published nv (graph_schema st') (prop_offset st') (D @ [ds]) \<and> vertex_described v ds (vprops st' l) (families st' l) \<and>
    (\<forall>j. j \<noteq> l \<longrightarrow> vprops st' j = vprops st j \<and> families st' j = families st j) \<and> names_kept (graph_schema st) (graph_schema st')"
proof -
  let ?ps = "v_mappings v" and ?S = "open_label l (length (v_mappings v)) (graph_schema st) (prop_offset st)"
  let ?info = "replicate (length ?ps) (\<lparr>vlen = 0, page_size = 0, column_num = 0\<rparr> :: column_family, False)"
  obtain S' pid' sch info ext where r: "run_each (vertex_prop (tabs (toLowerCase (v_source v))) l) (enumerate 0 ?ps)
      (?S, prop_offset st, no_vprops, ?info) = Inr (S', pid', sch, info)"
    and st': "st' = st\<lparr>graph_schema := S', prop_offset := pid', vprops := (vprops st)(l := sch),
           families := (families st)(l := map fst (filter snd info)), ext_dtype := ext\<rparr>"
    using run by (auto simp: vertex_label_step_def Let_def and_then_Inr)
  have pm: "property_id_map ?S = property_id_map (graph_schema st)" by (simp add: open_label_def)
  have fresh: "(n, l) \<notin> fst ` set (property_id_map ?S)" for n
    using published_fresh [OF pub, of n] by (simp add: pm l)
  have i0: "info_ok [] [] ?info" by (simp add: info_ok_def)
  obtain cfs ts where ts: "length ts = length ?ps" "length cfs = length ?ps" "pid' = prop_offset st + length ?ps" "\<forall>t \<in> set ts. sized t"
    "\<forall>i < length ?ps. vprop_dtype sch i = ts ! i" "prop_cf sch = cfs" "prop_cf_offset sch = family_offsets cfs ts"
    "prop_cf_id sch = family_ids cfs" "length info = length ?ps" "\<forall>c \<in> set cfs. c < length ?ps" "info_ok cfs ts info"
    and S': "S' = ?S\<lparr>property_id_map := property_id_map ?S @ keyed l (prop_offset st) ?ps, dtype_map := also_at l ts (dtype_map ?S),
      family_map := also_at l cfs (family_map ?S), family_offset_map := also_at l (family_offsets cfs ts) (family_offset_map ?S)\<rparr>"
    using vertex_props_run [OF r dn fresh i0] by auto
  let ?ds = "map (\<lambda>(p, t, c, off). (conf_name p, t, int c, int off)) (zip ?ps (zip ts (zip cfs (family_offsets cfs ts))))"
  have fsts: "map fst ?ds = map conf_name ?ps" "map (fst \<circ> snd) ?ds = ts"
    using ts(1,2) by (simp_all add: list_eq_iff_nth_eq)
  have "published nv S' (prop_offset st + length ?ps) (D @ [?ds])"
    by (rule published_step [OF pub l(1) [symmetric] fsts(1)])
      (use fsts(2) ts(1,2) l in \<open>simp_all add: S' open_label_def also_at_def\<close>)
  moreover have "vertex_described v ?ds sch (map fst (filter snd info))"
    unfolding vertex_described_def using ts by (intro exI [of _ cfs] exI [of _ ts] exI [of _ info]) simp
  ultimately show ?thesis
    using ts(3) by (intro exI [of _ ?ds]) (auto simp: st' names_kept_def S' open_label_def)
qed

lemma names_kept_trans: "names_kept a b \<Longrightarrow> names_kept b c \<Longrightarrow> names_kept a c"
  by (simp add: names_kept_def)

lemma vertex_labels_run:
  assumes "run_each (vertex_label_step tabs) (enumerate 0 vs) st = Inr st'" and "length vs \<le> nv"
    and "\<forall>v \<in> set vs. distinct (map conf_name (v_mappings v))" and "published nv (graph_schema st) (prop_offset st) []"
  shows "\<exists>D. length D = length vs \<and> published nv (graph_schema st') (prop_offset st') D \<and>
    (\<forall>l < length vs. vertex_described (vs ! l) (D ! l) (vprops st' l) (families st' l)) \<and> names_kept (graph_schema st) (graph_schema st')"
  using assms(1-3)
proof (induction vs arbitrary: st' rule: rev_induct)
  case Nil
  then show ?case using assms(4) by (simp add: names_kept_def)
next
  case (snoc v vs)
  obtain st1 where r1: "run_each (vertex_label_step tabs) (enumerate 0 vs) st = Inr st1"
    and r2: "vertex_label_step tabs (length vs, v) st1 = Inr st'"
    using snoc.prems(1) by (auto simp: enumerate_snoc run_each_snoc and_then_Inr)
  obtain D where D: "length D = length vs" "published nv (graph_schema st1) (prop_offset st1) D"
    "\<forall>l < length vs. vertex_described (vs ! l) (D ! l) (vprops st1 l) (families st1 l)" "names_kept (graph_schema st) (graph_schema st1)"
    using snoc.IH [OF r1] snoc.prems(2,3) by auto
  obtain ds where ds: "published nv (graph_schema st') (prop_offset st') (D @ [ds])"
    "vertex_described v ds (vprops st' (length vs)) (families st' (length vs))"
    "\<forall>j. j \<noteq> length vs \<longrightarrow> vprops st' j = vprops st1 j \<and> families st' j = families st1 j" "names_kept (graph_schema st1) (graph_schema st')"
    using vertex_label_run [OF r2 D(2,1)] snoc.prems(2,3) by auto
  show ?case
    using ds D names_kept_trans [OF D(4) ds(4)] by (intro exI [of _ "D @ [ds]"]) (auto simp: nth_append less_Suc_eq)
qed

lemma edge_labels_run:
  assumes "run_each (edge_label_step tabs nv) (enumerate 0 es) st = Inr st'"
    and "\<forall>e \<in> set es. distinct (map conf_name (e_mappings e))" and "published nv (graph_schema st) (prop_offset st) D0" "length D0 = nv"
  shows "\<exists>D. length D = length es \<and> published nv (graph_schema st') (prop_offset st') (D0 @ D) \<and>
    (\<forall>i < length es. edge_described (es ! i) (D ! i) (eprops st' i)) \<and> vprops st' = vprops st \<and> families st' = families st \<and>
    names_kept (graph_schema st) (graph_schema st')"
  using assms(1,2)
proof (induction es arbitrary: st' rule: rev_induct)
  case Nil
  then show ?case using assms(3) by (simp add: names_kept_def)
next
  case (snoc e es)
  obtain st1 where r1: "run_each (edge_label_step tabs nv) (enumerate 0 es) st = Inr st1"
    and r2: "edge_label_step tabs nv (length es, e) st1 = Inr st'"
    using snoc.prems(1) by (auto simp: enumerate_snoc run_each_snoc and_then_Inr)
  obtain D where D: "length D = length es" "published nv (graph_schema st1) (prop_offset st1) (D0 @ D)"
    "\<forall>i < length es. edge_described (es ! i) (D ! i) (eprops st1 i)" "vprops st1 = vprops st" "families st1 = families st"
    "names_kept (graph_schema st) (graph_schema st1)"
    using snoc.IH [OF r1] snoc.prems(2) by auto
  have len: "length (D0 @ D) = length es + nv" using D(1) assms(4) by simp
  obtain ds where ds: "published nv (graph_schema st') (prop_offset st') ((D0 @ D) @ [ds])"
    "edge_described e ds (eprops st' (length es))" "\<forall>j. j \<noteq> length es \<longrightarrow> eprops st' j = eprops st1 j"
    "vprops st' = vprops st1" "families st' = families st1" "names_kept (graph_schema st1) (graph_schema st')"
    using edge_label_run [OF r2 D(2) len] snoc.prems(2) by auto
  show ?case
    using ds D names_kept_trans [OF D(6) ds(6)] by (intro exI [of _ "D @ [ds]"]) (auto simp: nth_append less_Suc_eq)
qed

section \<open>The names of the labels\<close>

lemma zip_snoc_upt: "length xs = n \<Longrightarrow> zip (xs @ [x]) [0..<Suc n] = zip xs [0..<n] @ [(x, n)]"
  by simp

lemma fresh_zip: "x \<notin> set xs \<Longrightarrow> x \<notin> fst ` set (zip xs ys)"
  by (auto dest: set_zip_leftD)

lemma name_vertices_map:
  assumes "distinct (map v_type_name vs)"
  shows "label_id_map (name_vertices vs (empty_schema n)) = zip (map v_type_name vs) [0..<length vs]"
proof -
  have "fold (\<lambda>(l, v). AList.update (v_type_name v) l) (enumerate 0 vs) [] = zip (map v_type_name vs) [0..<length vs]"
    using assms
  proof (induction vs rule: rev_induct)
    case (snoc v vs)
    then have "v_type_name v \<notin> fst ` set (zip (map v_type_name vs) [0..<length vs])" by (intro fresh_zip) auto
    then show ?case using snoc by (simp add: enumerate_snoc update_fresh)
  qed simp
  then show ?thesis by (simp add: name_vertices_def empty_schema_def)
qed

lemma vertex_name_id_Some: "vertex_name_id vs name = Some l \<Longrightarrow> l < length vs \<and> v_type_name (vs ! l) = name"
  by (auto simp: vertex_name_id_def in_set_enumerate_eq dest!: map_of_SomeD)

lemma name_edges_run:
  assumes "run_each (name_edge vs) (enumerate 0 es) S = Inr S'" and "distinct (map v_type_name vs @ map e_type_name es)"
    and "label_id_map S = zip (map v_type_name vs) [0..<length vs]"
  shows "\<exists>r. S' = S\<lparr>label_id_map := zip (map v_type_name vs @ map e_type_name es) [0..<length vs + length es], edge_relation := r\<rparr> \<and>
    (\<forall>i < length es. \<exists>s d. r (length vs + i) = Some (s, d) \<and> s < length vs \<and> d < length vs \<and>
       v_type_name (vs ! s) = e_source_vertex (es ! i) \<and> v_type_name (vs ! d) = e_dest_vertex (es ! i))"
  using assms(1,2)
proof (induction es arbitrary: S' rule: rev_induct)
  case Nil
  then show ?case using assms(3) by (intro exI [of _ "edge_relation S"]) simp
next
  case (snoc e es)
  let ?N = "map v_type_name vs @ map e_type_name es"
  obtain S1 where r1: "run_each (name_edge vs) (enumerate 0 es) S = Inr S1" and r2: "name_edge vs (length es, e) S1 = Inr S'"
    using snoc.prems(1) by (auto simp: enumerate_snoc run_each_snoc and_then_Inr)
  obtain r where r: "S1 = S\<lparr>label_id_map := zip ?N [0..<length vs + length es], edge_relation := r\<rparr>"
    "\<forall>i < length es. \<exists>s d. r (length vs + i) = Some (s, d) \<and> s < length vs \<and> d < length vs \<and>
       v_type_name (vs ! s) = e_source_vertex (es ! i) \<and> v_type_name (vs ! d) = e_dest_vertex (es ! i)"
    using snoc.IH [OF r1] snoc.prems(2) by auto
  obtain s d where sd: "vertex_name_id vs (e_source_vertex e) = Some s" "vertex_name_id vs (e_dest_vertex e) = Some d"
    and S': "S' = S1\<lparr>label_id_map := AList.update (e_type_name e) (length es + length vs) (label_id_map S1),
           edge_relation := (edge_relation S1)(length es + length vs \<mapsto> (s, d))\<rparr>"
    using r2 by (auto simp: name_edge_def split: option.splits)
  have z: "zip (?N @ [e_type_name e]) [0..<Suc (length vs + length es)] =
      zip ?N [0..<length vs + length es] @ [(e_type_name e, length vs + length es)]" by (rule zip_snoc_upt) simp
  have "e_type_name e \<notin> fst ` set (zip ?N [0..<length vs + length es])" using snoc.prems(2) by (intro fresh_zip) auto
  then have "AList.update (e_type_name e) (length vs + length es) (zip ?N [0..<length vs + length es]) =
      zip (?N @ [e_type_name e]) [0..<Suc (length vs + length es)]"
    unfolding z by (rule update_fresh)
  then have "S' = S\<lparr>label_id_map := zip (map v_type_name vs @ map e_type_name (es @ [e])) [0..<length vs + length (es @ [e])],
      edge_relation := r(length vs + length es \<mapsto> (s, d))\<rparr>"
    unfolding S' r(1) by (simp add: add.commute)
  moreover have "\<forall>i < length (es @ [e]). \<exists>s' d'. (r(length vs + length es \<mapsto> (s, d))) (length vs + i) = Some (s', d') \<and>
      s' < length vs \<and> d' < length vs \<and> v_type_name (vs ! s') = e_source_vertex ((es @ [e]) ! i) \<and>
      v_type_name (vs ! d') = e_dest_vertex ((es @ [e]) ! i)"
    using r(2) vertex_name_id_Some [OF sd(1)] vertex_name_id_Some [OF sd(2)] by (auto simp: nth_append less_Suc_eq)
  ultimately show ?case by blast
qed

section \<open>The published schema\<close>

lemma name_props_run:
  assumes "p + length ks \<le> length props"
  shows "\<exists>props'. name_props (zip ks [p..<p + length ks]) props = Some props' \<and> length props' = length props \<and>
    (\<forall>j < length props. props' ! j =
       (if p \<le> j \<and> j < p + length ks then (props ! j)\<lparr>pd_id := j, pd_name := fst (ks ! (j - p))\<rparr> else props ! j))"
  using assms
proof (induction ks arbitrary: p props)
  case (Cons k ks)
  obtain n l where k: "k = (n, l)" by (cases k)
  let ?props = "props[p := (props ! p)\<lparr>pd_id := p, pd_name := n\<rparr>]"
  have u: "[p..<p + length (k # ks)] = p # [Suc p..<Suc p + length ks]" by (subst upt_conv_Cons) simp_all
  obtain props' where "name_props (zip ks [Suc p..<Suc p + length ks]) ?props = Some props'" "length props' = length props"
    "\<forall>j < length props. props' ! j =
       (if Suc p \<le> j \<and> j < Suc p + length ks then (?props ! j)\<lparr>pd_id := j, pd_name := fst (ks ! (j - Suc p))\<rparr> else ?props ! j)"
    using Cons.IH [of "Suc p" ?props] Cons.prems by auto
  then show ?case using Cons.prems unfolding u by (intro exI [of _ props']) (auto simp: k nth_list_update nth_Cons')
qed auto

lemma label_bound: "l < length D \<Longrightarrow> length (concat (take l D)) + length (D ! l) \<le> length (concat D)"
proof -
  assume l: "l < length D"
  have "length (concat D) = length (concat (take (Suc l) D)) + length (concat (drop (Suc l) D))"
    by (metis append_take_drop_id concat_append length_append)
  then show ?thesis using l by (simp add: take_Suc_conv_app_nth)
qed

lemma keys_of_nth:
  "l < length D \<Longrightarrow> i < length (D ! l) \<Longrightarrow> keys_of k D ! (length (concat (take l D)) + i) = (fst (D ! l ! i), k + l)"
  by (induction D arbitrary: k l) (auto simp: nth_Cons' nth_append take_Cons' split: if_splits)

lemma type_props_snoc: "type_props S l b (is @ [i]) props = Option.bind (type_props S l b is props) (type_prop S l b i)"
  by (induction "is" arbitrary: props) (auto split: Option.bind_split)

text \<open>The definition of a property as it is published.\<close>

definition prop_def_of :: "nat \<Rightarrow> string \<times> prop_type \<times> int \<times> int \<Rightarrow> prop_def" where
  "prop_def_of pid d = \<lparr>pd_id = pid, pd_name = fst d, pd_dtype = fst (snd d), pd_family = fst (snd (snd d)), pd_offset = snd (snd (snd d))\<rparr>"

definition props_of :: "described list \<Rightarrow> nat \<Rightarrow> prop_def list" where
  "props_of D l = map (\<lambda>i. prop_def_of (length (concat (take l D)) + i) (D ! l ! i)) [0..<length (D ! l)]"

text \<open>Every property has its number and its name already.\<close>

definition props_named :: "described list \<Rightarrow> prop_def list \<Rightarrow> bool" where
  "props_named D props \<longleftrightarrow> length props = length (concat D) \<and>
     (\<forall>j < length props. pd_id (props ! j) = j \<and> pd_name (props ! j) = fst (keys_of 0 D ! j))"

lemma published_entry:
  "published nv S pid D \<Longrightarrow> l < length D \<Longrightarrow> i < length (D ! l) \<Longrightarrow> case D ! l ! i of (n, t, c, off) \<Rightarrow>
     dtype_map S (l, i) = Some t \<and>
     (if l < nv then family_map S (l, i) = Some (nat c) \<and> family_offset_map S (l, i) = Some (nat off) \<and> 0 \<le> c \<and> 0 \<le> off
      else c = - 1 \<and> off = - 1)"
  by (simp add: published_def)

lemma type_props_run:
  assumes pub: "published nv S pid D" "elabel_offset S = nv" and l: "l < length D" and named: "props_named D props"
    and m: "m \<le> length (D ! l)"
  shows "\<exists>props'. type_props S l (length (concat (take l D))) [0..<m] props = Some props' \<and> props_named D props' \<and>
    (\<forall>i < m. props' ! (length (concat (take l D)) + i) = prop_def_of (length (concat (take l D)) + i) (D ! l ! i))"
  using m
proof (induction m)
  case 0
  then show ?case using named by simp
next
  case (Suc m)
  let ?b = "length (concat (take l D))"
  obtain props1 where p1: "type_props S l ?b [0..<m] props = Some props1" "props_named D props1"
    "\<forall>i < m. props1 ! (?b + i) = prop_def_of (?b + i) (D ! l ! i)" using Suc by auto
  obtain n t c off where d: "D ! l ! m = (n, t, c, off)" by (cases "D ! l ! m")
  have facts: "dtype_map S (l, m) = Some t \<and>
      (if l < nv then family_map S (l, m) = Some (nat c) \<and> family_offset_map S (l, m) = Some (nat off) \<and> 0 \<le> c \<and> 0 \<le> off
       else c = - 1 \<and> off = - 1)"
  proof -
    have "m < length (D ! l)" using Suc.prems by simp
    then show ?thesis using published_entry [OF pub(1) l, of m] by (simp add: d)
  qed
  have bm: "?b + m < length props1" using label_bound [OF l] Suc.prems p1(2) by (simp add: props_named_def)
  have nm: "pd_id (props1 ! (?b + m)) = ?b + m" "pd_name (props1 ! (?b + m)) = n"
    using p1(2) bm keys_of_nth [OF l, of m 0] Suc.prems d by (simp_all add: props_named_def)
  let ?x = "(props1 ! (?b + m))\<lparr>pd_dtype := t, pd_family := c, pd_offset := off\<rparr>"
  have "type_prop S l ?b m props1 = Some (props1[?b + m := ?x])"
    using facts bm pub(2) by (simp add: type_prop_def split: if_splits)
  moreover have "?x = prop_def_of (?b + m) (D ! l ! m)" using nm by (simp add: prop_def_of_def d)
  moreover have "props_named D (props1[?b + m := ?x])"
    using p1(2) bm by (auto simp: props_named_def nth_list_update)
  ultimately show ?case
    using p1 bm by (intro exI [of _ "props1[?b + m := ?x]"]) (auto simp: type_props_snoc nth_list_update less_Suc_eq)
qed

lemma prop_range_of:
  assumes pub: "published nv S pid D" and l: "l < length D"
  shows "prop_range S l (length (concat D)) =
    (if D ! l = [] then (0, 0) else (length (concat (take l D)), length (concat (take l D)) + length (D ! l)))"
proof -
  have lp: "label2prop_offset S = label_starts 0 0 D" using pub by (simp add: published_def)
  have "(case find (\<lambda>(j, v). Suc l \<le> j) (label_starts 0 0 D) of Some (j, v) \<Rightarrow> v | None \<Rightarrow> length (concat D)) =
      length (concat (take l D)) + length (D ! l)"
    using label_starts_next [of 0 "Suc l" "length (concat D)" 0 D] l by (simp add: take_Suc_conv_app_nth)
  then show ?thesis using label_starts_at [OF l, of 0 0] by (simp add: prop_range_def lp)
qed

text \<open>The definition of a label as it is published.\<close>

definition type_def_of :: "schema_impl \<Rightarrow> string list \<Rightarrow> described list \<Rightarrow> nat \<Rightarrow> type_def" where
  "type_def_of S L D l = \<lparr>td_id = l, td_label = L ! l, td_props = props_of D l, td_vertex = (l < elabel_offset S),
     td_src = (if l < elabel_offset S then [] else L ! fst (the (edge_relation S l))),
     td_dst = (if l < elabel_offset S then [] else L ! snd (the (edge_relation S l)))\<rparr>"

lemma all_fields_set:
  fixes x :: type_def
  shows "x\<lparr>td_id := a, td_label := b, td_props := c, td_vertex := d, td_src := e, td_dst := f\<rparr> =
    \<lparr>td_id = a, td_label = b, td_props = c, td_vertex = d, td_src = e, td_dst = f\<rparr>"
  by (cases x) simp

lemma fill_type_run:
  assumes pub: "published nv S pid D" "elabel_offset S = nv" and l: "l < length D" and named: "props_named D props"
    and len: "length types = length D" "length L = length D" and ne: "[] \<notin> set L"
    and lab: "\<forall>k < l. td_label (types ! k) = L ! k"
    and rel: "nv \<le> l \<Longrightarrow> \<exists>s d. edge_relation S l = Some (s, d) \<and> s < nv \<and> d < nv"
  shows "\<exists>props'. fill_type S (l, L ! l) (types, props) = Some (types[l := type_def_of S L D l], props') \<and> props_named D props'"
proof -
  let ?b = "length (concat (take l D))" and ?n = "length (D ! l)"
  have lp: "length props = length (concat D)" using named by (simp add: props_named_def)
  obtain b e where be: "prop_range S l (length props) = (b, e)" "e - b = ?n" "?n \<noteq> 0 \<longrightarrow> b = ?b"
    using prop_range_of [OF pub(1) l] lp by (cases "D ! l = []") auto
  have "\<exists>props'. type_props S l b [0..<?n] props = Some props' \<and> props_named D props' \<and> take ?n (drop b props') = props_of D l"
  proof (cases "?n = 0")
    case True
    then show ?thesis using named by (simp add: props_of_def)
  next
    case False
    obtain props' where props': "type_props S l ?b [0..<?n] props = Some props'" "props_named D props'"
      "\<forall>i < ?n. props' ! (?b + i) = prop_def_of (?b + i) (D ! l ! i)"
      using type_props_run [OF pub l named order_refl] by blast
    have "length props' = length (concat D)" using props'(2) by (simp add: props_named_def)
    then have "take ?n (drop ?b props') = props_of D l"
      using props'(3) label_bound [OF l] by (intro nth_equalityI) (simp_all add: props_of_def)
    then show ?thesis using props' be(3) False by auto
  qed
  then obtain props' where props': "type_props S l b [0..<?n] props = Some props'" "props_named D props'"
    "take ?n (drop b props') = props_of D l" by blast
  let ?named = "types[l := (types ! l)\<lparr>td_id := l, td_label := L ! l, td_props := props_of D l\<rparr>]"
  have "relation_of S l ?named = Some (td_src (type_def_of S L D l), td_dst (type_def_of S L D l))"
  proof (cases "l < nv")
    case True
    then show ?thesis by (simp add: relation_of_def pub(2) type_def_of_def)
  next
    case False
    then obtain s d where sd: "edge_relation S l = Some (s, d)" "s < nv" "d < nv" using rel by auto
    then have "s < l" "d < l" using False by auto
    then have "td_label (?named ! s) = L ! s" "td_label (?named ! d) = L ! d" using lab by simp_all
    moreover have "L ! s \<noteq> []" "L ! d \<noteq> []" using ne \<open>s < l\<close> \<open>d < l\<close> l len(2) nth_mem by (metis less_trans)+
    ultimately show ?thesis
      using False sd \<open>s < l\<close> \<open>d < l\<close> l len(1) by (simp add: relation_of_def pub(2) type_def_of_def)
  qed
  then show ?thesis
    using l len(1) be props' by (simp add: fill_type_def type_def_of_def all_fields_set)
qed

lemma fill_types_snoc: "fill_types S (xs @ [x]) st = Option.bind (fill_types S xs st) (fill_type S x)"
  by (induction xs arbitrary: st) (auto split: Option.bind_split)

lemma fill_types_run:
  assumes pub: "published nv S pid D" "elabel_offset S = nv" and named: "props_named D props"
    and len: "length types = length D" "length L = length D" and ne: "[] \<notin> set L"
    and rel: "\<And>l. nv \<le> l \<Longrightarrow> l < length D \<Longrightarrow> \<exists>s d. edge_relation S l = Some (s, d) \<and> s < nv \<and> d < nv"
  shows "m \<le> length D \<Longrightarrow> \<exists>types' props'. fill_types S (take m (zip [0..<length D] L)) (types, props) = Some (types', props') \<and>
    props_named D props' \<and> length types' = length D \<and> (\<forall>l < m. types' ! l = type_def_of S L D l)"
proof (induction m)
  case 0
  then show ?case using named len by simp
next
  case (Suc m)
  obtain types1 props1 where t1: "fill_types S (take m (zip [0..<length D] L)) (types, props) = Some (types1, props1)"
    "props_named D props1" "length types1 = length D" "\<forall>l < m. types1 ! l = type_def_of S L D l" using Suc by auto
  have lab: "\<forall>k < m. td_label (types1 ! k) = L ! k" using t1(4) by (simp add: type_def_of_def)
  have m: "m < length D" using Suc.prems by simp
  have x: "take (Suc m) (zip [0..<length D] L) = take m (zip [0..<length D] L) @ [(m, L ! m)]"
    using m len(2) by (simp add: take_Suc_conv_app_nth)
  obtain props2 where "fill_type S (m, L ! m) (types1, props1) = Some (types1[m := type_def_of S L D m], props2)" "props_named D props2"
    using fill_type_run [OF pub m t1(2,3) len(2) ne lab] rel m by blast
  then show ?case
    using t1 m by (intro exI [of _ "types1[m := type_def_of S L D m]"] exI [of _ props2])
      (auto simp: x fill_types_snoc nth_list_update less_Suc_eq)
qed

lemma fill_json_run:
  assumes pub: "published nv S pid D" "elabel_offset S = nv" and L: "label_id_map S = zip L [0..<length D]" "length L = length D" "[] \<notin> set L"
    and rel: "\<And>l. nv \<le> l \<Longrightarrow> l < length D \<Longrightarrow> \<exists>s d. edge_relation S l = Some (s, d) \<and> s < nv \<and> d < nv"
  shows "fill_json S = Some (map (type_def_of S L D) [0..<length D])"
proof -
  have labs: "map (\<lambda>(label, l). (l, label)) (label_id_map S) = zip [0..<length D] L"
    unfolding L(1) using L(2) by (intro nth_equalityI) simp_all
  have fsts: "map fst (zip [0..<length D] L) = [0..<length D]" using L(2) by simp
  then have "sort_key fst (zip [0..<length D] L) = zip [0..<length D] L" by (intro sort_key_id_if_sorted) simp
  then have sorted: "sort_key fst (map (\<lambda>(label, l). (l, label)) (label_id_map S)) = zip [0..<length D] L" unfolding labs .
  have pm: "property_id_map S = zip (keys_of 0 D) [0..<length (concat D)]" using pub(1) by (auto simp: published_def)
  then have lpm: "length (property_id_map S) = length (concat D)" by simp
  obtain props where props: "name_props (property_id_map S) (replicate (length (property_id_map S)) new_prop_def) = Some props"
    "props_named D props"
    using name_props_run [of 0 "keys_of 0 D" "replicate (length (concat D)) new_prop_def"] unfolding lpm unfolding pm
    by (auto simp: props_named_def)
  have len: "length (replicate (length (label_id_map S)) new_type_def) = length D" using L by simp
  obtain types' props' where "fill_types S (zip [0..<length D] L) (replicate (length (label_id_map S)) new_type_def, props) = Some (types', props')"
    "length types' = length D" "\<forall>l < length D. types' ! l = type_def_of S L D l"
    using fill_types_run [OF pub props(2) len L(2,3) rel order_refl] L(2) by auto
  moreover from this have "types' = map (type_def_of S L D) [0..<length D]" by (intro nth_equalityI) simp_all
  ultimately show ?thesis unfolding fill_json_def Let_def sorted fsts using props(1) by simp
qed

section \<open>What the fragments compute\<close>

lemma last_ends: "(if map (\<lambda>i. ends (take (Suc i) ts)) [0..<length ts] \<noteq> [] then last (map (\<lambda>i. ends (take (Suc i) ts)) [0..<length ts]) else 0) = ends ts"
  by (cases ts rule: rev_cases) simp_all

lemma read_edge_props_append: "read_edge_props (ps @ qs) st = Option.bind (read_edge_props ps st) (read_edge_props qs)"
  by (induction ps arbitrary: st) (auto simp: Let_def split: option.splits)

lemma read_edge_props_run:
  "map pd_dtype ps = ts \<Longrightarrow> \<forall>t \<in> set ts. sized t \<Longrightarrow>
     read_edge_props ps ([], []) = Some (map (\<lambda>i. ends (take (Suc i) ts)) [0..<length ts], ts)"
proof (induction ps arbitrary: ts rule: rev_induct)
  case (snoc p ps)
  let ?ts = "map pd_dtype ps"
  have ts: "ts = ?ts @ [pd_dtype p]" using snoc.prems(1) by simp
  have t: "dtype_named (type_str (pd_dtype p)) = Some (pd_dtype p, prop_width (pd_dtype p))" using snoc.prems(2) ts by (simp add: sized_def)
  define offs where "offs = map (\<lambda>i. ends (take (Suc i) ?ts)) [0..<length ?ts]"
  have IH: "read_edge_props ps ([], []) = Some (offs, ?ts)"
    unfolding offs_def using snoc.prems(2) ts by (intro snoc.IH) simp_all
  have last: "(if offs \<noteq> [] then last offs else 0) = ends ?ts" unfolding offs_def by (rule last_ends)
  have "map (\<lambda>i. ends (take (Suc i) ts)) [0..<length ts] = offs @ [ends ?ts + prop_width (pd_dtype p)]"
    unfolding ts offs_def by simp
  then show ?case unfolding read_edge_props_append IH using last t snoc.prems(1) by (simp add: Let_def)
qed simp

lemma read_vertex_props_append: "read_vertex_props (ps @ qs) st = Option.bind (read_vertex_props ps st) (read_vertex_props qs)"
  by (induction ps arbitrary: st) (auto split: Option.bind_split)

lemma read_vertex_props_run:
  "map pd_dtype ps = ts \<Longrightarrow> map pd_family ps = map int cfs \<Longrightarrow> map pd_offset ps = map int offs \<Longrightarrow> \<forall>t \<in> set ts. sized t \<Longrightarrow>
     \<forall>c \<in> set cfs. c < n \<Longrightarrow> read_vertex_props ps ([], [], [], replicate n 0, replicate n 0) =
     Some (cfs, offs, family_ids cfs, map (count_list cfs) [0..<n], map (family_bytes cfs ts) [0..<n])"
proof (induction ps arbitrary: ts cfs offs rule: rev_induct)
  case Nil
  then show ?case by (simp, intro conjI nth_equalityI) (simp_all add: family_bytes_def)
next
  case (snoc p ps)
  obtain cfs1 c where c: "cfs = cfs1 @ [c]" "map pd_family ps = map int cfs1" "pd_family p = int c"
    using snoc.prems(2) by (cases cfs rule: rev_cases) auto
  obtain offs1 off where off: "offs = offs1 @ [off]" "map pd_offset ps = map int offs1" "pd_offset p = int off"
    using snoc.prems(3) by (cases offs rule: rev_cases) auto
  let ?ts = "map pd_dtype ps"
  have ts: "ts = ?ts @ [pd_dtype p]" using snoc.prems(1) by simp
  have len: "length cfs1 = length ?ts" using arg_cong [OF c(2), of length] by simp
  have t: "dtype_named (type_str (pd_dtype p)) = Some (pd_dtype p, prop_width (pd_dtype p))" and cn: "c < n"
    using snoc.prems(4,5) ts c(1) by (simp_all add: sized_def)
  have IH: "read_vertex_props ps ([], [], [], replicate n 0, replicate n 0) =
     Some (cfs1, offs1, family_ids cfs1, map (count_list cfs1) [0..<n], map (family_bytes cfs1 ?ts) [0..<n])"
    using snoc.prems(4,5) ts c off by (intro snoc.IH) simp_all
  have "(map (count_list cfs1) [0..<n])[c := count_list cfs1 c + 1] = map (count_list cfs) [0..<n]"
    using cn by (intro nth_equalityI) (auto simp: nth_list_update c(1))
  moreover have "(map (family_bytes cfs1 ?ts) [0..<n])[c := family_bytes cfs1 ?ts c + prop_width (pd_dtype p)] = map (family_bytes cfs ts) [0..<n]"
    using cn len unfolding ts c(1) by (intro nth_equalityI) (auto simp: nth_list_update)
  ultimately show ?case
    unfolding read_vertex_props_append IH using t cn c(1,3) off(1,3) by (simp add: read_vertex_prop_def Let_def)
qed

lemma find_enumerate:
  "distinct (map f xs) \<Longrightarrow> j < length xs \<Longrightarrow> find (\<lambda>(i, x). f x = f (xs ! j)) (enumerate k xs) = Some (k + j, xs ! j)"
proof (induction xs arbitrary: k j)
  case (Cons x xs)
  show ?case
  proof (cases j)
    case (Suc i)
    then have "f (xs ! i) \<in> f ` set xs" using Cons.prems(2) by simp
    then have "f x \<noteq> f (xs ! i)" using Cons.prems(1) by auto
    then show ?thesis using Cons.IH [of i "Suc k"] Cons.prems Suc by simp
  qed simp
qed simp

section \<open>Agreement\<close>

text \<open>
  A fragment reads the layout of an edge label as the writer has it, fields one behind the other, and finds the
  properties by their names.
\<close>

definition edge_agrees :: "eprop_schema \<Rightarrow> edge_conf \<Rightarrow> type_def \<Rightarrow> bool" where
  "edge_agrees sch e td \<longleftrightarrow> (let n = length (e_mappings e) in
     packed sch n \<and> read_edge_type td = Some (edge_bitmap_size sch, reader_offsets sch n, map (prop_dtype sch) [0..<n]) \<and>
     td_src td = e_source_vertex e \<and> td_dst td = e_dest_vertex e \<and>
     (\<forall>j < n. GetEdgePropId td (conf_name (e_mappings e ! j)) = int j))"

text \<open>
  A fragment reads for each property of a vertex label the family, the offset in its rows and the number of its
  null bit as the writer has them; fields lie inside the rows and do not overlap. The store has the families that
  are used, in order.
\<close>

definition vertex_agrees :: "vprop_schema \<Rightarrow> column_family list \<Rightarrow> vertex_conf \<Rightarrow> type_def \<Rightarrow> bool" where
  "vertex_agrees sch fams v td \<longleftrightarrow> (let n = length (v_mappings v) in \<exists>nums lens.
     read_vertex_type td = Some (prop_cf sch, prop_cf_offset sch, prop_cf_id sch, nums, lens) \<and> length (prop_cf sch) = n \<and>
     (\<forall>i < n. prop_cf sch ! i < n \<and> prop_cf_id sch ! i < nums ! (prop_cf sch ! i) \<and>
        prop_cf_offset sch ! i + prop_width (vprop_dtype sch i) \<le> lens ! (prop_cf sch ! i)) \<and>
     (\<forall>i j. i < j \<and> j < n \<and> prop_cf sch ! i = prop_cf sch ! j \<longrightarrow>
        prop_cf_id sch ! i < prop_cf_id sch ! j \<and>
        prop_cf_offset sch ! i + prop_width (vprop_dtype sch i) \<le> prop_cf_offset sch ! j) \<and>
     fams = map (\<lambda>c. \<lparr>vlen = lens ! c, page_size = 0, column_num = nums ! c\<rparr>) (filter (\<lambda>c. nums ! c \<noteq> 0) [0..<n]))"

lemma ends_take_Suc: "i < length ts \<Longrightarrow> ends (take (Suc i) ts) = ends (take i ts) + prop_width (ts ! i)"
  by (simp add: take_Suc_conv_app_nth)

lemma edge_agreement:
  assumes d: "edge_described e ds sch" and l: "l < length D" "D ! l = ds" and td: "td_props td = props_of D l"
    and ends: "td_src td = e_source_vertex e" "td_dst td = e_dest_vertex e" and dn: "distinct (map conf_name (e_mappings e))"
  shows "edge_agrees sch e td"
proof -
  let ?n = "length (e_mappings e)"
  obtain ts where ts: "length ts = ?n" "\<forall>t \<in> set ts. sized t" "ds = map (\<lambda>(p, t). (conf_name p, t, - 1, - 1)) (zip (e_mappings e) ts)"
    "edge_bitmap_size sch = BYTE_SIZE ?n" "prop_total_bytes sch = ends ts"
    "\<forall>i < ?n. prop_dtype sch i = ts ! i \<and> prop_prefix_bytes sch i = ends (take i ts)"
    using d by (auto simp: edge_described_def)
  have maps: "map pd_dtype (td_props td) = ts" "map pd_name (td_props td) = map conf_name (e_mappings e)"
    using ts(1) by (auto simp: td props_of_def l(2) ts(3) prop_def_of_def intro!: nth_equalityI)
  have len: "length (td_props td) = ?n" using arg_cong [OF maps(2), of length] by simp
  have "packed sch ?n" unfolding packed_def
  proof (intro conjI impI allI)
    show "prop_prefix_bytes sch (Suc i) = prop_prefix_bytes sch i + prop_width (prop_dtype sch i)" if "Suc i < ?n" for i
      using ts(1,6) that ends_take_Suc [of i ts] by simp
    show "prop_total_bytes sch = prop_prefix_bytes sch (?n - 1) + prop_width (prop_dtype sch (?n - 1))" if "0 < ?n"
      using ts(1,5,6) that ends_take_Suc [of "?n - 1" ts] by simp
  qed (use ts in simp_all)
  moreover have "map (\<lambda>i. ends (take (Suc i) ts)) [0..<length ts] = reader_offsets sch ?n"
    using ts(1,6) by (auto simp: reader_offsets_def ends_take_Suc)
  moreover have "map (prop_dtype sch) [0..<?n] = ts" using ts(1,6) by (intro nth_equalityI) simp_all
  moreover have "GetEdgePropId td (conf_name (e_mappings e ! j)) = int j" if j: "j < ?n" for j
  proof -
    have "conf_name (e_mappings e ! j) = pd_name (td_props td ! j)" using arg_cong [OF maps(2), of "\<lambda>xs. xs ! j"] j len by simp
    then show ?thesis using find_enumerate [of pd_name "td_props td" j 0] dn maps(2) j len by (simp add: GetEdgePropId_def)
  qed
  ultimately show ?thesis
    using read_edge_props_run [OF maps(1) ts(2)] ts(4) ends len unfolding edge_agrees_def Let_def by (simp add: read_edge_type_def)
qed

lemma family_bytes_mono:
  "length cfs = length ts \<Longrightarrow> i \<le> j \<Longrightarrow> family_bytes (take i cfs) (take i ts) c \<le> family_bytes (take j cfs) (take j ts) c"
proof (induction j)
  case (Suc j)
  show ?case
  proof (cases "i = Suc j")
    case False
    then have "family_bytes (take i cfs) (take i ts) c \<le> family_bytes (take j cfs) (take j ts) c" using Suc by simp
    also have "\<dots> \<le> family_bytes (take (Suc j) cfs) (take (Suc j) ts) c"
      using Suc.prems(1) by (cases "j < length ts") (simp_all add: take_Suc_conv_app_nth)
    finally show ?thesis .
  qed simp
qed simp

lemma count_take_mono: "i \<le> j \<Longrightarrow> count_list (take i cfs) c \<le> count_list (take j cfs) c"
proof (induction j)
  case (Suc j)
  then show ?case by (cases "i = Suc j"; cases "j < length cfs") (auto simp: take_Suc_conv_app_nth)
qed simp

lemma vertex_agreement:
  assumes d: "vertex_described v ds sch fams" and l: "l < length D" "D ! l = ds" and td: "td_props td = props_of D l"
  shows "vertex_agrees sch fams v td"
proof -
  let ?n = "length (v_mappings v)"
  obtain cfs ts info where ts: "length ts = ?n" "length cfs = ?n" "\<forall>t \<in> set ts. sized t"
    "ds = map (\<lambda>(p, t, c, off). (conf_name p, t, int c, int off)) (zip (v_mappings v) (zip ts (zip cfs (family_offsets cfs ts))))"
    "\<forall>i < ?n. vprop_dtype sch i = ts ! i" "prop_cf sch = cfs" "prop_cf_offset sch = family_offsets cfs ts" "prop_cf_id sch = family_ids cfs"
    "length info = ?n" "\<forall>c \<in> set cfs. c < ?n" "info_ok cfs ts info" "fams = map fst (filter snd info)"
    using d unfolding vertex_described_def by metis
  let ?nums = "map (count_list cfs) [0..<?n]" and ?lens = "map (family_bytes cfs ts) [0..<?n]"
  have maps: "map pd_dtype (td_props td) = ts" "map pd_family (td_props td) = map int cfs" "map pd_offset (td_props td) = map int (family_offsets cfs ts)"
    using ts(1,2) by (auto simp: td props_of_def l(2) ts(4) prop_def_of_def intro!: nth_equalityI)
  have len: "length (td_props td) = ?n" using arg_cong [OF maps(1), of length] ts(1) by simp
  have "read_vertex_type td = Some (cfs, family_offsets cfs ts, family_ids cfs, ?nums, ?lens)"
    using read_vertex_props_run [OF maps ts(3,10)] by (simp add: read_vertex_type_def Let_def len)
  moreover have step: "family_bytes (take (Suc i) cfs) (take (Suc i) ts) (cfs ! i) = family_offsets cfs ts ! i + prop_width (ts ! i)"
    "count_list (take (Suc i) cfs) (cfs ! i) = Suc (family_ids cfs ! i)" if "i < ?n" for i
    using that ts(1,2) by (simp_all add: family_offsets_def family_ids_def take_Suc_conv_app_nth)
  have cn: "cfs ! i < ?n" if "i < ?n" for i using ts(2,10) that nth_mem by metis
  moreover have "family_ids cfs ! i < ?nums ! (cfs ! i) \<and> family_offsets cfs ts ! i + prop_width (vprop_dtype sch i) \<le> ?lens ! (cfs ! i)" if "i < ?n" for i
    using step [OF that] family_bytes_mono [of cfs ts "Suc i" ?n "cfs ! i"] count_take_mono [of "Suc i" ?n cfs "cfs ! i"] that ts(1,2,5) cn [OF that] by simp
  moreover have "family_ids cfs ! i < family_ids cfs ! j \<and> family_offsets cfs ts ! i + prop_width (vprop_dtype sch i) \<le> family_offsets cfs ts ! j"
    if "i < j \<and> j < ?n \<and> cfs ! i = cfs ! j" for i j
    using step [of i] family_bytes_mono [of cfs ts "Suc i" j "cfs ! i"] count_take_mono [of "Suc i" j cfs "cfs ! i"] that ts(1,2,5)
    by (simp add: family_offsets_def family_ids_def)
  moreover have "fams = map (\<lambda>c. \<lparr>vlen = ?lens ! c, page_size = 0, column_num = ?nums ! c\<rparr>) (filter (\<lambda>c. ?nums ! c \<noteq> 0) [0..<?n])"
  proof -
    have "info = map (\<lambda>c. (\<lparr>vlen = family_bytes cfs ts c, page_size = 0, column_num = count_list cfs c\<rparr>, c \<in> set cfs)) [0..<?n]"
      using ts(9,11) by (intro nth_equalityI) (auto simp: info_ok_def prod_eq_iff)
    then have "fams = map (\<lambda>c. \<lparr>vlen = family_bytes cfs ts c, page_size = 0, column_num = count_list cfs c\<rparr>) (filter (\<lambda>c. c \<in> set cfs) [0..<?n])"
      unfolding ts(12) by (simp add: filter_map comp_def)
    also have "filter (\<lambda>c. c \<in> set cfs) [0..<?n] = filter (\<lambda>c. ?nums ! c \<noteq> 0) [0..<?n]"
      by (intro filter_cong) (simp_all add: count_list_0_iff)
    also have "map (\<lambda>c. \<lparr>vlen = family_bytes cfs ts c, page_size = 0, column_num = count_list cfs c\<rparr>) (filter (\<lambda>c. ?nums ! c \<noteq> 0) [0..<?n]) =
        map (\<lambda>c. \<lparr>vlen = ?lens ! c, page_size = 0, column_num = ?nums ! c\<rparr>) (filter (\<lambda>c. ?nums ! c \<noteq> 0) [0..<?n])"
      by (intro map_cong) simp_all
    finally show ?thesis .
  qed
  ultimately show ?thesis unfolding vertex_agrees_def Let_def ts(6-8) using ts(2) by blast
qed

lemma init_graph_schema_run:
  assumes run: "init_graph_schema tabs vs es = Inr st"
    and names: "distinct (map v_type_name vs @ map e_type_name es)"
    and vd: "\<forall>v \<in> set vs. distinct (map conf_name (v_mappings v))" and ed: "\<forall>e \<in> set es. distinct (map conf_name (e_mappings e))"
  shows "\<exists>D. length D = length vs + length es \<and> published (length vs) (graph_schema st) (prop_offset st) D \<and>
    (\<forall>l < length vs. vertex_described (vs ! l) (D ! l) (vprops st l) (families st l)) \<and>
    (\<forall>i < length es. edge_described (es ! i) (D ! (length vs + i)) (eprops st i)) \<and> elabel_offset (graph_schema st) = length vs \<and>
    label_id_map (graph_schema st) = zip (map v_type_name vs @ map e_type_name es) [0..<length vs + length es] \<and>
    (\<forall>i < length es. \<exists>s d. edge_relation (graph_schema st) (length vs + i) = Some (s, d) \<and> s < length vs \<and> d < length vs \<and>
       v_type_name (vs ! s) = e_source_vertex (es ! i) \<and> v_type_name (vs ! d) = e_dest_vertex (es ! i))"
proof -
  let ?nv = "length vs"
  let ?st0 = "\<lambda>S. \<lparr>graph_schema = S, prop_offset = 0, eprops = (\<lambda>l. no_eprops), vprops = (\<lambda>l. no_vprops), families = (\<lambda>l. []), ext_dtype = (\<lambda>l. INVALID)\<rparr>"
  let ?S0 = "name_vertices vs (empty_schema ?nv)"
  obtain S st1 where S: "run_each (name_edge vs) (enumerate 0 es) ?S0 = Inr S"
    and st1: "run_each (vertex_label_step tabs) (enumerate 0 vs) (?st0 S) = Inr st1"
    and st: "run_each (edge_label_step tabs ?nv) (enumerate 0 es) st1 = Inr st"
    using run by (auto simp: init_graph_schema_def and_then_Inr)
  have "distinct (map v_type_name vs)" using names by simp
  from name_edges_run [OF S names name_vertices_map [OF this]] obtain r where
    r: "S = ?S0\<lparr>label_id_map := zip (map v_type_name vs @ map e_type_name es) [0..<?nv + length es], edge_relation := r\<rparr>"
    "\<forall>i < length es. \<exists>s d. r (?nv + i) = Some (s, d) \<and> s < ?nv \<and> d < ?nv \<and>
       v_type_name (vs ! s) = e_source_vertex (es ! i) \<and> v_type_name (vs ! d) = e_dest_vertex (es ! i)" by blast
  have p0: "published ?nv (graph_schema (?st0 S)) (prop_offset (?st0 S)) []"
    by (simp add: published_def r(1) name_vertices_def empty_schema_def)
  obtain D0 where D0: "length D0 = ?nv" "published ?nv (graph_schema st1) (prop_offset st1) D0"
    "\<forall>l < ?nv. vertex_described (vs ! l) (D0 ! l) (vprops st1 l) (families st1 l)" "names_kept S (graph_schema st1)"
    using vertex_labels_run [OF st1 order_refl vd p0] by auto
  obtain D where D: "length D = length es" "published ?nv (graph_schema st) (prop_offset st) (D0 @ D)"
    "\<forall>i < length es. edge_described (es ! i) (D ! i) (eprops st i)" "vprops st = vprops st1" "families st = families st1"
    "names_kept (graph_schema st1) (graph_schema st)"
    using edge_labels_run [OF st ed D0(2,1)] by auto
  have k: "names_kept S (graph_schema st)" by (rule names_kept_trans [OF D0(4) D(6)])
  show ?thesis
    using D D0 k r(2) by (intro exI [of _ "D0 @ D"])
      (simp add: nth_append names_kept_def r(1) name_vertices_def empty_schema_def)
qed

text \<open>
C33: The writer and the fragments agree on the layout of every label. If the writer builds a schema from a mapping
whose labels have distinct names, that are not empty, and whose properties have distinct names in each label, it can
be published, and a fragment that reads what is published computes for every edge and vertex label the layout the
writer stores properties by; the fields of a record lie one behind the other, those of a vertex in their
families without overlap.
\<close>

theorem schema_agreement:
  assumes run: "init_graph_schema tabs vs es = Inr st"
    and names: "distinct (map v_type_name vs @ map e_type_name es)" and ne: "[] \<notin> set (map v_type_name vs @ map e_type_name es)"
    and vd: "\<forall>v \<in> set vs. distinct (map conf_name (v_mappings v))" and ed: "\<forall>e \<in> set es. distinct (map conf_name (e_mappings e))"
  shows "\<exists>types. fill_json (graph_schema st) = Some types \<and> map td_label types = map v_type_name vs @ map e_type_name es \<and>
    (\<forall>l < length vs. vertex_agrees (vprops st l) (families st l) (vs ! l) (types ! l)) \<and>
    (\<forall>i < length es. edge_agrees (eprops st i) (es ! i) (types ! (length vs + i)))"
proof -
  let ?nv = "length vs" and ?L = "map v_type_name vs @ map e_type_name es" and ?S = "graph_schema st"
  obtain D where D: "length D = ?nv + length es" "published ?nv ?S (prop_offset st) D"
    "\<forall>l < ?nv. vertex_described (vs ! l) (D ! l) (vprops st l) (families st l)"
    "\<forall>i < length es. edge_described (es ! i) (D ! (?nv + i)) (eprops st i)" "elabel_offset ?S = ?nv"
    "label_id_map ?S = zip ?L [0..<length D]"
    and rel: "\<forall>i < length es. \<exists>s d. edge_relation ?S (?nv + i) = Some (s, d) \<and> s < ?nv \<and> d < ?nv \<and>
       v_type_name (vs ! s) = e_source_vertex (es ! i) \<and> v_type_name (vs ! d) = e_dest_vertex (es ! i)"
    using init_graph_schema_run [OF run names vd ed] by auto
  let ?types = "map (type_def_of ?S ?L D) [0..<length D]"
  have ends: "\<exists>s d. edge_relation ?S l = Some (s, d) \<and> s < ?nv \<and> d < ?nv" if "?nv \<le> l" "l < length D" for l
  proof -
    have "l - ?nv < length es" using that D(1) by simp
    then show ?thesis using rel [rule_format, of "l - ?nv"] that(1) by auto
  qed
  have "fill_json ?S = Some ?types" by (rule fill_json_run [OF D(2,5,6) _ ne ends]) (use D(1) in simp_all)
  moreover have "map td_label ?types = ?L" by (rule nth_equalityI) (simp_all add: D(1) type_def_of_def)
  moreover have "vertex_agrees (vprops st l) (families st l) (vs ! l) (?types ! l)" if "l < ?nv" for l
    using vertex_agreement [OF D(3) [rule_format, OF that], of l D] that D(1) by (simp add: type_def_of_def)
  moreover have "edge_agrees (eprops st i) (es ! i) (?types ! (?nv + i))" if i: "i < length es" for i
  proof -
    obtain s d where "edge_relation ?S (?nv + i) = Some (s, d)" "s < ?nv" "d < ?nv"
      "v_type_name (vs ! s) = e_source_vertex (es ! i)" "v_type_name (vs ! d) = e_dest_vertex (es ! i)" using rel i by blast
    then show ?thesis
      using edge_agreement [OF D(4) [rule_format, OF i], of "?nv + i" D "?types ! (?nv + i)"] i D(1,5) ed
      by (simp add: type_def_of_def nth_append)
  qed
  ultimately show ?thesis by blast
qed

text \<open>Persons with a name and an age, and an edge with a weight and a time between them.\<close>

definition demo_tables :: "string \<Rightarrow> table" where
  "demo_tables name = (if name = ''person'' then [[''id'', ''bigint''], [''name'', ''varchar(20)''], [''age'', ''int'']]
     else if name = ''knows'' then [[''src'', ''bigint''], [''dst'', ''bigint''], [''weight'', ''double''], [''since'', ''date'']] else [])"

definition demo_person :: vertex_conf where
  "demo_person = \<lparr>v_type_name = ''person'', v_source = ''Person'', v_id_field = ''id'', v_mappings =
     [\<lparr>conf_name = ''pname'', conf_column = ''Name'', conf_family = Some 0\<rparr>, \<lparr>conf_name = ''age'', conf_column = ''age'', conf_family = Some 0\<rparr>]\<rparr>"

definition demo_knows :: edge_conf where
  "demo_knows = \<lparr>e_type_name = ''knows'', e_source_vertex = ''person'', e_dest_vertex = ''person'', e_source = ''knows'', e_mappings =
     [\<lparr>conf_name = ''w'', conf_column = ''weight'', conf_family = None\<rparr>, \<lparr>conf_name = ''t'', conf_column = ''since'', conf_family = None\<rparr>]\<rparr>"

lemma demo_init:
  "case init_graph_schema demo_tables [demo_person] [demo_knows] of Inl e \<Rightarrow> False
   | Inr st \<Rightarrow> prop_total_bytes (eprops st 0) = 12 \<and> families st 0 = [\<lparr>vlen = 12, page_size = 0, column_num = 2\<rparr>] \<and> ext_dtype st 0 = LONG"
  by code_simp

lemma schema_agreement_witness:
  "\<exists>st types. init_graph_schema demo_tables [demo_person] [demo_knows] = Inr st \<and> fill_json (graph_schema st) = Some types \<and>
     map td_label types = [''person'', ''knows''] \<and> prop_total_bytes (eprops st 0) = 12 \<and>
     edge_agrees (eprops st 0) demo_knows (types ! 1) \<and> vertex_agrees (vprops st 0) (families st 0) demo_person (types ! 0)"
proof -
  obtain st where st: "init_graph_schema demo_tables [demo_person] [demo_knows] = Inr st" "prop_total_bytes (eprops st 0) = 12"
    using demo_init by (auto split: sum.splits)
  obtain types where "fill_json (graph_schema st) = Some types"
    "map td_label types = map v_type_name [demo_person] @ map e_type_name [demo_knows]"
    "\<forall>l < length [demo_person]. vertex_agrees (vprops st l) (families st l) ([demo_person] ! l) (types ! l)"
    "\<forall>i < length [demo_knows]. edge_agrees (eprops st i) ([demo_knows] ! i) (types ! (length [demo_person] + i))"
    using schema_agreement [OF st(1)] by (force simp: demo_person_def demo_knows_def)
  then show ?thesis using st by (auto simp: demo_person_def demo_knows_def)
qed

text \<open>
  A family that no property uses is left out of the store, but the numbers of the others are not lowered: here both
  properties are in family 1, the store has one family, number 0, and writing a row fails.
\<close>

definition gap_person :: vertex_conf where
  "gap_person = demo_person\<lparr>v_mappings := map (\<lambda>p. p\<lparr>conf_family := Some 1\<rparr>) (v_mappings demo_person)\<rparr>"

lemma unused_family:
  "case init_graph_schema demo_tables [gap_person] [] of Inl e \<Rightarrow> False
   | Inr st \<Rightarrow> length (families st 0) = 1 \<and> build_rows (\<lambda>t s. None) (vprops st 0) 0 [''1'', ''2''] [([], [])] = None"
  by code_simp

end
