(* ===== verification/Spec2Isabelle.thy ===== *)
theory Spec2Isabelle
  imports Bitset Id_Parser Markers Vertex_Table Blocks Block_Manager Seg_Writer Seg_Regions Seg_Refine
    Edge_Store Seg_Reader Seg_Snapshot Values String_Buffer Edge_Props Prop_Paged Prop_Versions
    Graph_Store Graph_Ops Graph_Links Graph_Rel Graph_Edges Graph_Widths Graph_Vertices
    Graph_Counters Log_Lines Runner Txn_Parser Converter Converter_Lines
    Fragment_Ids Fragment_Links Vertex_Array Relaxation Sssp Wcc Schema_Init Schema_Agree
begin

text \<open>
  A verification library of GART, a store that keeps a property graph in step with a relational database and
  lets analytics processes read consistent snapshots of it.

  The parts and how they work together. A change of the database arrives as an event in JSON. The converter
  (\<^verbatim>\<open>src/converter\<close>) maps the tables of the event to vertex and edge labels, gives
  vertices identifiers and writes one line of text per change, with the number of its epoch. A writer process
  (\<^verbatim>\<open>src/vegito\<close>) per partition applies the lines, one operation of
  \<^verbatim>\<open>graph_ops\<close> each, to its graph store: vertex tables, edge stores, property stores and the
  maps between identifiers, in blocks of shared memory. When the epoch of the lines advances it publishes the
  sizes that describe the closed one. An analytics process opens the shared memory as a fragment
  (\<^verbatim>\<open>src/interfaces/fragment\<close>) at an epoch, while the writer goes on; applications
  (\<^verbatim>\<open>src/apps/analytical_engine/apps/gart\<close>) run on fragments.

  The theories, from the bottom up; the first text of each names the files and functions it models, and the
  definitions have the names of the functions.

  \<^item> Foundations. \<open>Prelude\<close> has the machine words, errors as sums (\<open>and_then\<close>, \<open>demand\<close>) and lemmas on
  words and lists. \<open>Bitset\<close> has the bit arrays (\<^verbatim>\<open>util/bitset.h\<close>), \<open>Id_Parser\<close> the packing
  of identifiers (\<^verbatim>\<open>fragment/id_parser.h\<close>), \<open>Markers\<close> the deletion markers and the scan with
  a priority queue that all readers share.

  \<^item> Vertices. \<open>Vertex_Table\<close>: the table of a label with its inner vertices from the left and its outer ones
  from the right, its publication and the \<^verbatim>\<open>VertexIterator\<close> of a fragment. The lemmas give an invariant,
  an abstract table that the operations refine, and what a fragment reads of a published table.

  \<^item> Edges. \<open>Blocks\<close>, \<open>Block_Manager\<close> (the allocator of the blob), \<open>Seg_Writer\<close> (\<^verbatim>\<open>SegGraph\<close> and
  \<^verbatim>\<open>EpochGraphWriter\<close>), \<open>Seg_Reader\<close> (\<^verbatim>\<open>EpochGraphReader\<close>, the \<^verbatim>\<open>EdgeIterator\<close>
  of a fragment). \<open>Seg_Regions\<close> and \<open>Seg_Refine\<close> relate the chained blocks, epoch tables and label blocks to one
  log of edges per vertex, label and direction, and show that \<open>put_edge\<close> appends to it, compaction and growth
  included; \<open>Edge_Store\<close> draws the consequences for whole runs and \<open>Seg_Snapshot\<close> for the readers.

  \<^item> Properties. \<open>Values\<close> (conversion of texts), \<open>String_Buffer\<close> (the pool of strings and their keys), \<open>Edge_Props\<close>
  (the record of an edge, written by \<open>construct_eprop\<close> and read by \<open>get_data\<close>), \<open>Prop_Paged\<close> (the multi-version
  pages of vertex properties) and \<open>Prop_Versions\<close> (which row a fragment reads at a version).

  \<^item> The schema. \<open>Schema_Init\<close>: the layouts the writer builds from the mapping of tables to labels
  (\<open>init_graph_schema\<close>), the schema it publishes (\<open>fill_json\<close>) and the layouts a fragment computes of that.
  \<open>Schema_Agree\<close>: they are the same, and of the shape the lemmas on records assume (\<open>packed\<close>).

  \<^item> The store. \<open>Graph_Store\<close> has the state of a partition and its helpers, \<open>Graph_Ops\<close> the operations on log
  lines. \<open>Graph_Links\<close>, \<open>Graph_Rel\<close>, \<open>Graph_Edges\<close> and \<open>Graph_Vertices\<close> lift the logs of the edge stores to the
  whole store and show what adding and deleting edges and vertices does to what fragments read, before and after
  the epoch; \<open>Graph_Widths\<close> evaluates a run in which the markers overwrite records. \<open>Graph_Counters\<close> keeps the
  vertex tables and the counters of the edge stores in step, which is what publication rests on.

  \<^item> The runner. \<open>Log_Lines\<close> has the splitting of lines, \<open>Runner\<close> their dispatch and the publication of epochs
  (\<^verbatim>\<open>framework/bench_runner.cc\<close>).

  \<^item> The converter. \<open>Txn_Parser\<close> (events to log entries), \<open>Converter\<close> (identifiers, epochs, restart and printed
  lines), \<open>Converter_Lines\<close> (the runner reads the lines as the converter means them).

  \<^item> Analytics. \<open>Fragment_Ids\<close> (handles and identifiers of a fragment), \<open>Fragment_Links\<close> (they agree with the maps
  the store fills), \<open>Vertex_Array\<close> (the values of an application), \<open>Relaxation\<close> (rounds of relaxation on a graph,
  apart from any program), \<open>Sssp\<close> and \<open>Wcc\<close> (two applications).

  Interfaces are locales, interpreted on the model's own definitions: \<open>bit_array\<close> (\<open>Bitset\<close>), \<open>id_codec\<close>
  (\<open>Id_Parser\<close>), \<open>prio_queue\<close> (\<open>Markers\<close>, for both directions of the scan), \<open>allocator\<close> (\<open>Block_Manager\<close>), \<open>string_pool\<close>
  (\<open>String_Buffer\<close>), \<open>vertex_data\<close> (\<open>Vertex_Array\<close>).

  Conventions. Fields of 64 and 32 bits that can wrap are words; counters that cannot leave their range before
  memory is exhausted are natural numbers, and the theorems that need it assume so (\<open>2 ^ 63\<close> entries, for the bit of
  a marker). Memory is a map from addresses to blocks, or a list of words or bytes with every access checked: a null
  or dangling pointer, a read or a write outside an array and a failed assertion are values (\<open>None\<close>, or an error of
  \<open>seg_error\<close>, \<open>op_error\<close>, \<open>parse_error\<close>), so that "does not fail" is a statement. Loops are structural
  where the code counts; those that follow pointers or run until nothing changes are partial functions with values
  in \<open>option\<close> (\<open>collect_blocks\<close>, \<open>back_to\<close>, \<open>edge_visit\<close>, \<open>walk_prev\<close>, \<open>visit_vertices\<close>, \<open>unify_loop\<close>, \<open>rounds\<close>), for which
  the theorems show that they return. No loop is cut by fuel.

  Parameters stand for code outside the sources: the hash maps of vineyard (a type \<open>'m\<close> with its \<open>emplace\<close>, and
  \<open>map_laws\<close> where more is needed), the conversion of floating-point texts (\<open>real_bytes\<close>), the content of fresh memory
  (\<open>fresh\<close>), the numbers \<^verbatim>\<open>rand()\<close> returns (\<open>rands\<close>), the clock of the converter, the parsed JSON and YAML, and
  the message exchange of the engine (\<open>deliver\<close>).

  Not modelled, and why. Threads: the library models the default build, in which one thread writes; locks and
  atomic operations are left out, and the interleaving of a writer with a reading fragment appears as the states
  between operations (and, in \<open>chained_block_hides_edges\<close>, between two steps of one). Input and output: Kafka, etcd,
  vineyard's client, checkpoint files and the printing of results. Floating point, and so PageRank. The engine of
  GraphScope that is copied into \<^verbatim>\<open>src/apps/analytical_engine/core\<close>, except for the vertex array, and the bindings
  around fragments (GRIN, NetworkX, PostgreSQL), which pass calls on. The builds with several threads, with the
  global vertex map and for Maxwell. The property store for columns that are never updated, which is never created.
\<close>

end
